(* ===== verification/Gc_Prelude.thy ===== *)
theory Gc_Prelude
  imports Main "HOL-Library.Word" "HOL-Library.Monad_Syntax"
begin

section \<open>Shared vocabulary of the development\<close>

text \<open>
  The machine types of the crate, the run-time convention, and the generic lemmas the
  component theories share.

  Run-time convention.  An operation of the code that can abort is a function into
  \<open>option\<close>.  \<open>None\<close> is a run that does not come back with a value: a Rust panic
  (an index out of bounds, an \<open>unwrap\<close> of nothing), the use of a pointer that is not a
  live node (undefined behaviour), or a loop over a cyclic chain.  \<open>Some\<close> is a run that
  returns.  A theorem that an operation is \<open>Some\<close> is therefore a memory-safety,
  no-panic and termination theorem at once.  Errors the code returns as values
  (\<open>GcError\<close>) are values here too.

  Arithmetic follows the release profile: \<open>+\<close> and \<open>-\<close> on \<open>usize\<close> wrap, and the
  \<open>debug_assert!\<close> checks are not executed.
\<close>

unbundle bit_operations_syntax

type_synonym u8 = "8 word"
type_synonym u16 = "16 word"
type_synonym u32 = "32 word"
type_synonym usize = "64 word"

text \<open>A non-null pointer to a node head, or into an arena.\<close>

type_synonym addr = "64 word"

named_theorems head_simps "decoding of a node head after one of its setters"
named_theorems frame_simps "what an operation leaves unchanged"

subsection \<open>A monadic fold\<close>

text \<open>
  \<open>for x in xs { f(x) }\<close> over a state that every step may fault on.
\<close>

fun fold_opt :: "('a \<Rightarrow> 's \<Rightarrow> 's option) \<Rightarrow> 'a list \<Rightarrow> 's \<Rightarrow> 's option" where
  "fold_opt f [] s = Some s"
| "fold_opt f (x # xs) s = Option.bind (f x s) (fold_opt f xs)"

lemma fold_opt_append:
  "fold_opt f (xs @ ys) s = Option.bind (fold_opt f xs s) (fold_opt f ys)"
  by (induction xs arbitrary: s) (auto simp: Option.bind_assoc split: Option.bind_split)

text \<open>
  The rule every loop proof of the development goes through: \<open>P\<close> relates the elements
  already visited to the state, the body re-establishes it and does not fault.
\<close>

lemma fold_opt_prefix_rule:
  assumes "P [] s"
    and "\<And>ys x zs t. xs = ys @ x # zs \<Longrightarrow> P ys t \<Longrightarrow> \<exists>t'. f x t = Some t' \<and> P (ys @ [x]) t'"
  shows "\<exists>t. fold_opt f xs s = Some t \<and> P xs t"
  using assms
proof (induction xs rule: rev_induct)
  case Nil
  then show ?case by simp
next
  case (snoc x xs)
  have "\<exists>t. fold_opt f xs s = Some t \<and> P xs t"
    by (rule snoc.IH [OF snoc.prems(1)]) (rule snoc.prems(2), auto)
  then obtain t where t: "fold_opt f xs s = Some t" "P xs t" by blast
  from snoc.prems(2) [of xs x "[]" t] t(2) obtain t' where "f x t = Some t'" "P (xs @ [x]) t'"
    by auto
  with t(1) show ?case by (simp add: fold_opt_append)
qed

lemma fold_opt_inv:
  assumes "fold_opt f xs s = Some t" and "P s"
    and "\<And>x u u'. x \<in> set xs \<Longrightarrow> P u \<Longrightarrow> f x u = Some u' \<Longrightarrow> P u'"
  shows "P t"
  using assms
proof (induction xs arbitrary: s)
  case Nil
  then show ?case by simp
next
  case (Cons x xs)
  from Cons.prems(1) obtain u where u: "f x s = Some u" "fold_opt f xs u = Some t"
    by (auto simp: bind_eq_Some_conv)
  have "P u" by (rule Cons.prems(3) [OF _ Cons.prems(2) u(1)]) simp
  then show ?case
    by (rule Cons.IH [OF u(2)]) (rule Cons.prems(3), simp_all)
qed

text \<open>Recursive functions through binds and folds.\<close>

declare Option.bind_cong [fundef_cong]

lemma fold_opt_cong [fundef_cong]:
  assumes "xs = ys" "s = t" "\<And>x u. x \<in> set ys \<Longrightarrow> f x u = g x u"
  shows "fold_opt f xs s = fold_opt g ys t"
proof -
  have "fold_opt f ys t = fold_opt g ys t"
    using assms(3)
  proof (induction ys arbitrary: t)
    case Nil
    then show ?case by simp
  next
    case (Cons y ys)
    have "fold_opt f ys = fold_opt g ys"
      by (rule ext, rule Cons.IH) (rule Cons.prems, simp)
    moreover have "f y t = g y t" by (rule Cons.prems) simp
    ultimately show ?case by simp
  qed
  with assms(1,2) show ?thesis by simp
qed

subsection \<open>Vectors\<close>

text \<open>\<open>Vec::push\<close> and \<open>Vec::pop\<close> work at the end of the list.\<close>

definition vec_push :: "'a list \<Rightarrow> 'a \<Rightarrow> 'a list" where
  "vec_push xs x = xs @ [x]"

definition vec_pop :: "'a list \<Rightarrow> ('a \<times> 'a list) option" where
  "vec_pop xs = (case rev xs of [] \<Rightarrow> None | y # ys \<Rightarrow> Some (y, rev ys))"

lemma vec_pop_Nil [simp]: "vec_pop [] = None"
  by (simp add: vec_pop_def)

lemma vec_pop_snoc [simp]: "vec_pop (xs @ [x]) = Some (x, xs)"
  by (simp add: vec_pop_def)

lemma vec_pop_None [simp]: "vec_pop xs = None \<longleftrightarrow> xs = []"
  by (cases xs rule: rev_cases) simp_all

lemma vec_pop_Some [simp]: "vec_pop xs = Some (x, ys) \<longleftrightarrow> xs = ys @ [x]"
  by (cases xs rule: rev_cases) auto

text \<open>A vector indexed by a checked \<open>usize\<close>: out of bounds is a panic.\<close>

definition vec_get :: "'a list \<Rightarrow> nat \<Rightarrow> 'a option" where
  "vec_get xs i = (if i < length xs then Some (xs ! i) else None)"

lemma vec_get_Some: "vec_get xs i = Some x \<longleftrightarrow> i < length xs \<and> xs ! i = x"
  by (auto simp: vec_get_def)

lemma vec_get_None: "vec_get xs i = None \<longleftrightarrow> length xs \<le> i"
  by (auto simp: vec_get_def)

lemma vec_get_update [simp]:
  "vec_get (xs[i := x]) j = (if i = j \<and> j < length xs then Some x else vec_get xs j)"
  by (auto simp: vec_get_def)

text \<open>A field an update of one element keeps is kept at every index.\<close>

lemma field_list_update: "f y = f (xs ! k) \<Longrightarrow> f (xs[k := y] ! j) = f (xs ! j)"
  by (cases "k = j"; cases "j < length xs") (auto simp: list_update_beyond)

lemma map_field_update: "f y = f (xs ! k) \<Longrightarrow> map f (xs[k := y]) = map f xs"
  by (rule nth_equalityI) (simp_all add: field_list_update [where f = f])

subsection \<open>Sums of machine sizes\<close>

definition sum_sizes :: "('a \<Rightarrow> usize) \<Rightarrow> 'a list \<Rightarrow> usize" where
  "sum_sizes f xs = sum_list (map f xs)"

lemma sum_sizes_Nil [simp]: "sum_sizes f [] = 0"
  by (simp add: sum_sizes_def)

lemma sum_sizes_Cons [simp]: "sum_sizes f (x # xs) = f x + sum_sizes f xs"
  by (simp add: sum_sizes_def)

lemma sum_sizes_append [simp]: "sum_sizes f (xs @ ys) = sum_sizes f xs + sum_sizes f ys"
  by (simp add: sum_sizes_def)

lemma sum_sizes_partition:
  "sum_sizes f xs = sum_sizes f (filter p xs) + sum_sizes f (filter (\<lambda>x. \<not> p x) xs)"
  by (induction xs) (auto simp: algebra_simps)

lemma sum_sizes_distinct: "distinct xs \<Longrightarrow> sum_sizes f xs = sum f (set xs)"
  by (simp add: sum_sizes_def sum_list_distinct_conv_sum_set)

lemma sum_sizes_cong: "(\<And>x. x \<in> set xs \<Longrightarrow> f x = g x) \<Longrightarrow> sum_sizes f xs = sum_sizes g xs"
  by (induction xs) auto

end
