(* ===== verification/Gc_Node.thy ===== *)
theory Gc_Node
  imports Gc_Prelude
begin

section \<open>Node heads (src/src/node.rs)\<close>

text \<open>
  \<open>GcHead\<close>: the packed attribute word of a node and its accessors.  Every accessor and
  setter is the bit expression of the code; the lemmas decode them to the bits the layout
  comment of \<open>GcHead\<close> names, and show that the setters do not disturb each other's
  fields.
\<close>

subsection \<open>Colours\<close>

datatype tri_color = White | Gray | Black

definition color_u32 :: "tri_color \<Rightarrow> u32" where
  "color_u32 c = (case c of White \<Rightarrow> 0 | Gray \<Rightarrow> 1 | Black \<Rightarrow> 2)"

text \<open>\<open>TryFrom<u32>\<close>: the error string is \<open>None\<close>.\<close>

definition color_try_from :: "u32 \<Rightarrow> tri_color option" where
  "color_try_from v =
     (if v = 0 then Some White else if v = 1 then Some Gray else if v = 2 then Some Black else None)"

definition COLOR_MASK :: u32 where
  "COLOR_MASK = 3"

subsection \<open>Flags\<close>

definition ARENA_ALLOC :: u8 where "ARENA_ALLOC = push_bit 2 1"
definition GRAY_LISTED :: u8 where "GRAY_LISTED = push_bit 3 1"
definition ROOT :: u8 where "ROOT = push_bit 5 1"
definition LOCAL :: u8 where "LOCAL = push_bit 6 1"
definition TRAVERSE_VISITED :: u8 where "TRAVERSE_VISITED = push_bit 7 1"

text \<open>\<open>GcNodeFlag::from_bits_truncate\<close> keeps the bits that name a flag.\<close>

definition from_bits_truncate :: "u8 \<Rightarrow> u8" where
  "from_bits_truncate b =
     b AND (ARENA_ALLOC OR GRAY_LISTED OR ROOT OR LOCAL OR TRAVERSE_VISITED)"

definition flags_intersects :: "u8 \<Rightarrow> u8 \<Rightarrow> bool" where
  "flags_intersects a b \<longleftrightarrow> a AND b \<noteq> 0"

subsection \<open>The head record\<close>

record gc_head =
  attrs :: u32
  partition_word :: u32
  weak_id :: u32
  next_ptr :: "addr option"

definition dtype :: "gc_head \<Rightarrow> u8" where
  "dtype g = ucast (drop_bit 8 (attrs g AND 0xFF00))"

text \<open>\<open>color\<close> unwraps the conversion: the value 3 is a panic.\<close>

definition color :: "gc_head \<Rightarrow> tri_color option" where
  "color g = color_try_from (attrs g AND COLOR_MASK)"

definition set_color :: "tri_color \<Rightarrow> gc_head \<Rightarrow> gc_head" where
  "set_color c g = g\<lparr>attrs := (attrs g AND NOT COLOR_MASK) OR color_u32 c\<rparr>"

definition flags :: "gc_head \<Rightarrow> u8" where
  "flags g = from_bits_truncate (ucast (attrs g))"

definition insert_flag :: "u8 \<Rightarrow> gc_head \<Rightarrow> gc_head" where
  "insert_flag f g = g\<lparr>attrs := attrs g OR ucast f\<rparr>"

definition remove_flag :: "u8 \<Rightarrow> gc_head \<Rightarrow> gc_head" where
  "remove_flag f g = g\<lparr>attrs := attrs g AND NOT (ucast f)\<rparr>"

definition contains_flag :: "gc_head \<Rightarrow> u8 \<Rightarrow> bool" where
  "contains_flag g f \<longleftrightarrow> attrs g AND ucast f = ucast f"

definition is_root :: "gc_head \<Rightarrow> bool" where
  "is_root g = contains_flag g ROOT"

definition is_local :: "gc_head \<Rightarrow> bool" where
  "is_local g = contains_flag g LOCAL"

definition is_root_or_local :: "gc_head \<Rightarrow> bool" where
  "is_root_or_local g = flags_intersects (flags g) (ROOT OR LOCAL)"

definition clear_local_flag :: "gc_head \<Rightarrow> gc_head" where
  "clear_local_flag g = remove_flag LOCAL g"

definition traverse_visited :: "gc_head \<Rightarrow> bool" where
  "traverse_visited g = contains_flag g TRAVERSE_VISITED"

definition set_traverse_visited :: "bool \<Rightarrow> gc_head \<Rightarrow> gc_head" where
  "set_traverse_visited v g =
     (if v then insert_flag TRAVERSE_VISITED g else remove_flag TRAVERSE_VISITED g)"

definition is_gray_listed :: "gc_head \<Rightarrow> bool" where
  "is_gray_listed g \<longleftrightarrow> attrs g AND ucast GRAY_LISTED \<noteq> 0"

definition set_gray_listed :: "bool \<Rightarrow> gc_head \<Rightarrow> gc_head" where
  "set_gray_listed b g =
     (if b then g\<lparr>attrs := attrs g OR ucast GRAY_LISTED\<rparr>
      else g\<lparr>attrs := attrs g AND NOT (ucast GRAY_LISTED)\<rparr>)"

definition partition_id :: "gc_head \<Rightarrow> u16" where
  "partition_id g = ucast (partition_word g AND 0x0000FFFF)"

text \<open>The attribute word \<open>alloc_node_mem\<close> writes into a fresh head.\<close>

definition fresh_attrs :: "u8 \<Rightarrow> u32" where
  "fresh_attrs ty = 0xFF000000 OR push_bit 8 (ucast ty)"

subsection \<open>The attribute word, bit by bit\<close>

lemma ucast_flag_bits:
  "(ucast ARENA_ALLOC :: u32) = push_bit 2 1"
  "(ucast GRAY_LISTED :: u32) = push_bit 3 1"
  "(ucast ROOT :: u32) = push_bit 5 1"
  "(ucast LOCAL :: u32) = push_bit 6 1"
  "(ucast TRAVERSE_VISITED :: u32) = push_bit 7 1"
  by (simp_all add: ARENA_ALLOC_def GRAY_LISTED_def ROOT_def LOCAL_def TRAVERSE_VISITED_def)

lemma bit_single:
  "n < LENGTH('a) \<Longrightarrow> bit (push_bit n (1 :: 'a::len word)) m \<longleftrightarrow> m = n"
  by (auto simp: bit_simps)

lemma and_single_bit:
  fixes w :: "'a::len word"
  assumes "n < LENGTH('a)"
  shows "w AND push_bit n 1 = push_bit n 1 \<longleftrightarrow> bit w n"
    and "w AND push_bit n 1 \<noteq> 0 \<longleftrightarrow> bit w n"
proof -
  have b: "bit (w AND push_bit n 1) m \<longleftrightarrow> m = n \<and> bit w n" for m
    using assms by (auto simp: bit_simps)
  have p: "bit (push_bit n (1 :: 'a word)) m \<longleftrightarrow> m = n" for m
    using assms by (rule bit_single)
  show "w AND push_bit n 1 = push_bit n 1 \<longleftrightarrow> bit w n"
    by (metis b p bit_word_eqI)
  show "w AND push_bit n 1 \<noteq> 0 \<longleftrightarrow> bit w n"
    by (metis b bit_0_eq bot_apply bit_word_eqI bot_bool_def)
qed

lemmas flag_bit_simps =
  and_single_bit(1) [where n = 2, simplified] and_single_bit(1) [where n = 3, simplified]
  and_single_bit(1) [where n = 5, simplified] and_single_bit(1) [where n = 6, simplified]
  and_single_bit(1) [where n = 7, simplified]

lemma is_root_bit: "is_root g \<longleftrightarrow> bit (attrs g) 5"
  by (simp add: is_root_def contains_flag_def ucast_flag_bits flag_bit_simps)

lemma is_local_bit: "is_local g \<longleftrightarrow> bit (attrs g) 6"
  by (simp add: is_local_def contains_flag_def ucast_flag_bits flag_bit_simps)

lemma traverse_visited_bit: "traverse_visited g \<longleftrightarrow> bit (attrs g) 7"
  by (simp add: traverse_visited_def contains_flag_def ucast_flag_bits flag_bit_simps)

lemma arena_alloc_bit: "contains_flag g ARENA_ALLOC \<longleftrightarrow> bit (attrs g) 2"
  by (simp add: contains_flag_def ucast_flag_bits flag_bit_simps)

lemma is_gray_listed_bit: "is_gray_listed g \<longleftrightarrow> bit (attrs g) 3"
  using and_single_bit(2) [of 3 "attrs g"]
  by (simp add: is_gray_listed_def ucast_flag_bits)

lemma flag_mask: "ARENA_ALLOC OR GRAY_LISTED OR ROOT OR LOCAL OR TRAVERSE_VISITED = 0xEC"
  by (simp add: ARENA_ALLOC_def GRAY_LISTED_def ROOT_def LOCAL_def TRAVERSE_VISITED_def)

lemma is_root_or_local_iff: "is_root_or_local g \<longleftrightarrow> is_root g \<or> is_local g"
proof -
  have m: "ROOT OR LOCAL = (0x60 :: u8)" "(0xEC :: u8) AND 0x60 = 0x60"
    by (simp_all add: ROOT_def LOCAL_def)
  have "flags g AND (ROOT OR LOCAL) = ucast (attrs g) AND 0x60"
    by (simp add: flags_def from_bits_truncate_def flag_mask m and.assoc)
  moreover have "bit (ucast (attrs g) AND (0x60 :: u8)) n
      \<longleftrightarrow> n = 5 \<and> bit (attrs g) 5 \<or> n = 6 \<and> bit (attrs g) 6" for n
  proof -
    have eq: "(0x60 :: u8) = push_bit 5 1 OR push_bit 6 1" by simp
    have "bit (push_bit 5 (1 :: u8)) n \<longleftrightarrow> n = 5" "bit (push_bit 6 (1 :: u8)) n \<longleftrightarrow> n = 6"
      by (rule bit_single, simp)+
    then have "bit (0x60 :: u8) n \<longleftrightarrow> n = 5 \<or> n = 6"
      unfolding eq bit_or_iff by blast
    then show ?thesis by (auto simp: bit_simps)
  qed
  ultimately show ?thesis
    unfolding is_root_or_local_def flags_intersects_def is_root_bit is_local_bit
    by (metis bit_0_eq bot_apply bit_word_eqI bot_bool_def)
qed

lemma bit_COLOR_MASK: "bit COLOR_MASK n \<longleftrightarrow> n = 0 \<or> n = 1"
proof -
  have "COLOR_MASK = mask 2" by (simp add: COLOR_MASK_def mask_eq_exp_minus_1)
  then have "bit COLOR_MASK n \<longleftrightarrow> possible_bit TYPE(32 word) n \<and> n < 2"
    by (metis bit_mask_iff)
  then show ?thesis by auto
qed

lemma color_bits:
  "color g = (if bit (attrs g) 1 then (if bit (attrs g) 0 then None else Some Black)
              else Some (if bit (attrs g) 0 then Gray else White))"
proof -
  let ?v = "attrs g AND COLOR_MASK"
  have b: "bit ?v n \<longleftrightarrow> (n = 0 \<or> n = 1) \<and> bit (attrs g) n" for n
    by (auto simp: bit_simps bit_COLOR_MASK)
  have b1: "bit (1 :: u32) n \<longleftrightarrow> n = 0" and b2: "bit (2 :: u32) n \<longleftrightarrow> n = 1" for n
    using bit_1_iff [of n, where 'a = "32 word"] bit_2_iff [of n, where 'a = "32 word"]
    by auto
  have e0: "?v = 0 \<longleftrightarrow> \<not> bit (attrs g) 0 \<and> \<not> bit (attrs g) 1"
    by (metis b bit_0_eq bot_apply bit_word_eqI bot_bool_def)
  have e1: "?v = 1 \<longleftrightarrow> bit (attrs g) 0 \<and> \<not> bit (attrs g) 1"
    by (metis b b1 bit_word_eqI zero_neq_one)
  have e2: "?v = 2 \<longleftrightarrow> \<not> bit (attrs g) 0 \<and> bit (attrs g) 1"
    by (metis b b2 bit_word_eqI zero_neq_one)
  show ?thesis by (simp add: color_def color_try_from_def e0 e1 e2)
qed

lemma bit_block:
  "bit (push_bit k (mask m) :: 'a::len word) n \<longleftrightarrow> k \<le> n \<and> n < k + m \<and> n < LENGTH('a)"
  by (auto simp: bit_push_bit_iff bit_mask_iff)

lemma bit_dtype: "bit (dtype g) n \<longleftrightarrow> n < 8 \<and> bit (attrs g) (n + 8)"
proof -
  have eq: "(0xFF00 :: u32) = push_bit 8 (mask 8)" by (simp add: mask_eq_exp_minus_1)
  show ?thesis
    unfolding dtype_def eq bit_ucast_iff bit_drop_bit_eq o_def bit_and_iff bit_block
    by (auto simp: add.commute dest: bit_imp_le_length)
qed

subsection \<open>The setters, bit by bit\<close>

lemma attrs_set_color:
  "bit (attrs (set_color c g)) n =
     (if n = 0 then c = Gray else if n = 1 then c = Black else bit (attrs g) n)"
proof -
  have "bit (color_u32 c) n \<longleftrightarrow> n = 0 \<and> c = Gray \<or> n = 1 \<and> c = Black"
    using bit_1_iff [of n, where 'a = "32 word"] bit_2_iff [of n, where 'a = "32 word"]
    by (cases c) (auto simp: color_u32_def)
  then show ?thesis
    by (auto simp: set_color_def bit_simps bit_COLOR_MASK dest: bit_imp_le_length)
qed

lemma bit_flag_u32:
  "bit (ucast ARENA_ALLOC :: u32) n \<longleftrightarrow> n = 2"
  "bit (ucast GRAY_LISTED :: u32) n \<longleftrightarrow> n = 3"
  "bit (ucast ROOT :: u32) n \<longleftrightarrow> n = 5"
  "bit (ucast LOCAL :: u32) n \<longleftrightarrow> n = 6"
  "bit (ucast TRAVERSE_VISITED :: u32) n \<longleftrightarrow> n = 7"
  unfolding ucast_flag_bits by (rule bit_single, simp)+

lemma attrs_insert_flag:
  "bit (attrs (insert_flag f g)) n \<longleftrightarrow> bit (attrs g) n \<or> bit (ucast f :: u32) n"
  by (simp add: insert_flag_def bit_or_iff)

lemma attrs_remove_flag:
  "bit (attrs (remove_flag f g)) n \<longleftrightarrow> bit (attrs g) n \<and> \<not> bit (ucast f :: u32) n"
  by (auto simp: remove_flag_def bit_and_iff bit_not_iff dest: bit_imp_le_length)

lemma attrs_set_gray_listed:
  "bit (attrs (set_gray_listed b g)) n = (if n = 3 then b else bit (attrs g) n)"
  by (auto simp: set_gray_listed_def bit_or_iff bit_and_iff bit_not_iff bit_flag_u32
      dest: bit_imp_le_length)

lemma attrs_set_traverse_visited:
  "bit (attrs (set_traverse_visited b g)) n = (if n = 7 then b else bit (attrs g) n)"
  by (simp add: set_traverse_visited_def attrs_insert_flag attrs_remove_flag bit_flag_u32)

lemma setter_fields [head_simps, simp]:
  "partition_word (set_color c g) = partition_word g" "weak_id (set_color c g) = weak_id g"
  "next_ptr (set_color c g) = next_ptr g"
  "partition_word (insert_flag f g) = partition_word g" "weak_id (insert_flag f g) = weak_id g"
  "next_ptr (insert_flag f g) = next_ptr g"
  "partition_word (remove_flag f g) = partition_word g" "weak_id (remove_flag f g) = weak_id g"
  "next_ptr (remove_flag f g) = next_ptr g"
  "partition_word (set_gray_listed b g) = partition_word g"
  "weak_id (set_gray_listed b g) = weak_id g" "next_ptr (set_gray_listed b g) = next_ptr g"
  "partition_word (set_traverse_visited b g) = partition_word g"
  "weak_id (set_traverse_visited b g) = weak_id g"
  "next_ptr (set_traverse_visited b g) = next_ptr g"
  by (simp_all add: set_color_def insert_flag_def remove_flag_def set_gray_listed_def
      set_traverse_visited_def)

subsection \<open>The decoded view\<close>

text \<open>
  What the layout comment promises: the head is a record of independent fields.  \<open>decode\<close>
  reads all of them; the refinement lemmas say that every setter updates one.
\<close>

record head_view =
  v_color :: "tri_color option"
  v_arena :: bool
  v_listed :: bool
  v_root :: bool
  v_local :: bool
  v_visited :: bool
  v_dtype :: u8
  v_pid :: u16
  v_weak :: u32
  v_next :: "addr option"

definition decode :: "gc_head \<Rightarrow> head_view" where
  "decode g =
     \<lparr>v_color = color g, v_arena = contains_flag g ARENA_ALLOC, v_listed = is_gray_listed g,
      v_root = is_root g, v_local = is_local g, v_visited = traverse_visited g,
      v_dtype = dtype g, v_pid = partition_id g, v_weak = weak_id g, v_next = next_ptr g\<rparr>"

lemmas view_bits = color_bits arena_alloc_bit is_gray_listed_bit is_root_bit is_local_bit
  traverse_visited_bit

lemma dtype_eqI: "(\<And>n. n < 8 \<Longrightarrow> bit (attrs a) (n + 8) = bit (attrs b) (n + 8)) \<Longrightarrow> dtype a = dtype b"
  by (rule bit_word_eqI) (simp add: bit_dtype)

lemma decode_set_color: "decode (set_color c g) = (decode g)\<lparr>v_color := Some c\<rparr>"
  by (cases c) (auto simp: decode_def view_bits attrs_set_color partition_id_def
      intro: dtype_eqI)

lemma decode_set_gray_listed: "decode (set_gray_listed b g) = (decode g)\<lparr>v_listed := b\<rparr>"
  by (auto simp: decode_def view_bits attrs_set_gray_listed partition_id_def intro: dtype_eqI)

lemma decode_set_traverse_visited:
  "decode (set_traverse_visited b g) = (decode g)\<lparr>v_visited := b\<rparr>"
  by (auto simp: decode_def view_bits attrs_set_traverse_visited partition_id_def
      intro: dtype_eqI)

lemma decode_insert_flag:
  "decode (insert_flag ROOT g) = (decode g)\<lparr>v_root := True\<rparr>"
  "decode (insert_flag LOCAL g) = (decode g)\<lparr>v_local := True\<rparr>"
  "decode (insert_flag ARENA_ALLOC g) = (decode g)\<lparr>v_arena := True\<rparr>"
  by (auto simp: decode_def view_bits attrs_insert_flag bit_flag_u32 partition_id_def
      intro: dtype_eqI)

lemma decode_remove_flag:
  "decode (remove_flag LOCAL g) = (decode g)\<lparr>v_local := False\<rparr>"
  "decode (remove_flag ROOT g) = (decode g)\<lparr>v_root := False\<rparr>"
  by (auto simp: decode_def view_bits attrs_remove_flag bit_flag_u32 partition_id_def
      intro: dtype_eqI)

lemma view_of:
  "color g = v_color (decode g)" "contains_flag g ARENA_ALLOC = v_arena (decode g)"
  "is_gray_listed g = v_listed (decode g)" "is_root g = v_root (decode g)"
  "is_local g = v_local (decode g)" "traverse_visited g = v_visited (decode g)"
  "dtype g = v_dtype (decode g)" "partition_id g = v_pid (decode g)"
  by (simp_all add: decode_def)

lemmas decode_setters = decode_set_color decode_set_gray_listed decode_set_traverse_visited
  decode_insert_flag decode_remove_flag

lemma set_color_view [head_simps, simp]:
  "color (set_color c g) = Some c" "is_gray_listed (set_color c g) = is_gray_listed g"
  "is_root (set_color c g) = is_root g" "is_local (set_color c g) = is_local g"
  "traverse_visited (set_color c g) = traverse_visited g" "dtype (set_color c g) = dtype g"
  "partition_id (set_color c g) = partition_id g"
  "contains_flag (set_color c g) ARENA_ALLOC = contains_flag g ARENA_ALLOC"
  by (simp_all add: view_of decode_setters)

lemma set_gray_listed_view [head_simps, simp]:
  "color (set_gray_listed b g) = color g" "is_gray_listed (set_gray_listed b g) = b"
  "is_root (set_gray_listed b g) = is_root g" "is_local (set_gray_listed b g) = is_local g"
  "traverse_visited (set_gray_listed b g) = traverse_visited g"
  "dtype (set_gray_listed b g) = dtype g" "partition_id (set_gray_listed b g) = partition_id g"
  "contains_flag (set_gray_listed b g) ARENA_ALLOC = contains_flag g ARENA_ALLOC"
  by (simp_all add: view_of decode_setters)

lemma set_traverse_visited_view [head_simps, simp]:
  "color (set_traverse_visited b g) = color g"
  "is_gray_listed (set_traverse_visited b g) = is_gray_listed g"
  "is_root (set_traverse_visited b g) = is_root g"
  "is_local (set_traverse_visited b g) = is_local g"
  "traverse_visited (set_traverse_visited b g) = b"
  "dtype (set_traverse_visited b g) = dtype g"
  "partition_id (set_traverse_visited b g) = partition_id g"
  "contains_flag (set_traverse_visited b g) ARENA_ALLOC = contains_flag g ARENA_ALLOC"
  by (simp_all add: view_of decode_setters)

lemma insert_root_view [head_simps, simp]:
  "color (insert_flag ROOT g) = color g" "is_gray_listed (insert_flag ROOT g) = is_gray_listed g"
  "is_root (insert_flag ROOT g)" "is_local (insert_flag ROOT g) = is_local g"
  "traverse_visited (insert_flag ROOT g) = traverse_visited g"
  "dtype (insert_flag ROOT g) = dtype g" "partition_id (insert_flag ROOT g) = partition_id g"
  "contains_flag (insert_flag ROOT g) ARENA_ALLOC = contains_flag g ARENA_ALLOC"
  by (simp_all add: view_of decode_setters)

lemma insert_local_view [head_simps, simp]:
  "color (insert_flag LOCAL g) = color g"
  "is_gray_listed (insert_flag LOCAL g) = is_gray_listed g"
  "is_root (insert_flag LOCAL g) = is_root g" "is_local (insert_flag LOCAL g)"
  "traverse_visited (insert_flag LOCAL g) = traverse_visited g"
  "dtype (insert_flag LOCAL g) = dtype g" "partition_id (insert_flag LOCAL g) = partition_id g"
  "contains_flag (insert_flag LOCAL g) ARENA_ALLOC = contains_flag g ARENA_ALLOC"
  by (simp_all add: view_of decode_setters)

lemma remove_local_view [head_simps, simp]:
  "color (remove_flag LOCAL g) = color g"
  "is_gray_listed (remove_flag LOCAL g) = is_gray_listed g"
  "is_root (remove_flag LOCAL g) = is_root g" "\<not> is_local (remove_flag LOCAL g)"
  "traverse_visited (remove_flag LOCAL g) = traverse_visited g"
  "dtype (remove_flag LOCAL g) = dtype g" "partition_id (remove_flag LOCAL g) = partition_id g"
  "contains_flag (remove_flag LOCAL g) ARENA_ALLOC = contains_flag g ARENA_ALLOC"
  by (simp_all add: view_of decode_setters)

text \<open>Moving the head along a chain changes no attribute.\<close>

lemma next_update_view [head_simps, simp]:
  "color (g\<lparr>next_ptr := p\<rparr>) = color g" "is_gray_listed (g\<lparr>next_ptr := p\<rparr>) = is_gray_listed g"
  "is_root (g\<lparr>next_ptr := p\<rparr>) = is_root g" "is_local (g\<lparr>next_ptr := p\<rparr>) = is_local g"
  "dtype (g\<lparr>next_ptr := p\<rparr>) = dtype g" "partition_id (g\<lparr>next_ptr := p\<rparr>) = partition_id g"
  "contains_flag (g\<lparr>next_ptr := p\<rparr>) f = contains_flag g f"
  "traverse_visited (g\<lparr>next_ptr := p\<rparr>) = traverse_visited g"
  by (simp_all add: color_def is_gray_listed_def is_root_def is_local_def dtype_def
      partition_id_def contains_flag_def traverse_visited_def)

lemma weak_update_view [head_simps, simp]:
  "color (g\<lparr>weak_id := w\<rparr>) = color g" "is_gray_listed (g\<lparr>weak_id := w\<rparr>) = is_gray_listed g"
  "is_root (g\<lparr>weak_id := w\<rparr>) = is_root g" "is_local (g\<lparr>weak_id := w\<rparr>) = is_local g"
  "dtype (g\<lparr>weak_id := w\<rparr>) = dtype g" "partition_id (g\<lparr>weak_id := w\<rparr>) = partition_id g"
  "contains_flag (g\<lparr>weak_id := w\<rparr>) f = contains_flag g f"
  "traverse_visited (g\<lparr>weak_id := w\<rparr>) = traverse_visited g"
  by (simp_all add: color_def is_gray_listed_def is_root_def is_local_def dtype_def
      partition_id_def contains_flag_def traverse_visited_def)

subsection \<open>A fresh head\<close>

lemma bit_fresh_attrs:
  "bit (fresh_attrs ty) n \<longleftrightarrow> 24 \<le> n \<and> n < 32 \<or> 8 \<le> n \<and> n < 16 \<and> bit ty (n - 8)"
proof -
  have eq: "(0xFF000000 :: u32) = push_bit 24 (mask 8)" by (simp add: mask_eq_exp_minus_1)
  show ?thesis
    unfolding fresh_attrs_def eq bit_or_iff bit_block
    by (auto simp: bit_push_bit_iff bit_ucast_iff dest: bit_imp_le_length)
qed

lemma dtype_fresh: "attrs g = fresh_attrs ty \<Longrightarrow> dtype g = ty"
  by (rule bit_word_eqI) (auto simp: bit_dtype bit_fresh_attrs)

lemma fresh_view:
  "attrs g = fresh_attrs ty \<Longrightarrow>
     color g = Some White \<and> \<not> is_root g \<and> \<not> is_local g \<and> \<not> is_gray_listed g
     \<and> \<not> traverse_visited g \<and> \<not> contains_flag g ARENA_ALLOC"
  by (auto simp: view_bits bit_fresh_attrs)

subsection \<open>The head as a record of fields\<close>

text \<open>
  C37: the packed head word refines a record of independent fields: each setter of \<open>GcHead\<close> changes
  the field it is named after and no other one, whatever the bits were before.
\<close>
theorem head_word_refines:
  "decode (set_color c g) = (decode g)\<lparr>v_color := Some c\<rparr> \<and>
   decode (set_gray_listed b g) = (decode g)\<lparr>v_listed := b\<rparr> \<and>
   decode (set_traverse_visited b g) = (decode g)\<lparr>v_visited := b\<rparr> \<and>
   decode (insert_flag ROOT g) = (decode g)\<lparr>v_root := True\<rparr> \<and>
   decode (insert_flag LOCAL g) = (decode g)\<lparr>v_local := True\<rparr> \<and>
   decode (clear_local_flag g) = (decode g)\<lparr>v_local := False\<rparr> \<and>
   (is_root_or_local g \<longleftrightarrow> v_root (decode g) \<or> v_local (decode g))"
  by (simp add: decode_set_color decode_set_gray_listed decode_set_traverse_visited decode_insert_flag
      decode_remove_flag clear_local_flag_def is_root_or_local_iff view_of)

end
