(* ===== verification/Gc_Type.thy ===== *)
theory Gc_Type
  imports Gc_Prelude
begin

section \<open>Type table and memory layout (src/src/gctype.rs)\<close>

text \<open>
  \<open>GcTypeInfo\<close>, the layout arithmetic of a node (head plus payload), and the registry.  A
  Rust type is described by what the code asks of it: \<open>size_of\<close>, \<open>align_of\<close>,
  \<open>needs_drop\<close> and its \<open>trace\<close> implementation, here the list of the nodes it submits,
  in order.  \<open>GcHead\<close> is \<open>repr(C)\<close> with three \<open>u32\<close> and one pointer: 24 bytes, aligned
  to 8, on the 64-bit target in release.
\<close>

subsection \<open>Layout arithmetic\<close>

definition HEAD_SIZE :: usize where "HEAD_SIZE = 24"
definition HEAD_ALIGN :: usize where "HEAD_ALIGN = 8"

definition align_up :: "usize \<Rightarrow> usize \<Rightarrow> usize" where
  "align_up v align = (let m = align - 1 in (v + m) AND NOT m)"

record 'p rust_type =
  size_of :: usize
  align_of :: usize
  needs_drop :: bool
  trace_impl :: "'p \<Rightarrow> addr list"

definition payload_offset_of :: "'p rust_type \<Rightarrow> usize" where
  "payload_offset_of t = align_up HEAD_SIZE (align_of t)"

definition layout_align_of :: "'p rust_type \<Rightarrow> usize" where
  "layout_align_of t = (if HEAD_ALIGN > align_of t then HEAD_ALIGN else align_of t)"

definition layout_size_of :: "'p rust_type \<Rightarrow> usize" where
  "layout_size_of t = align_up (payload_offset_of t + size_of t) (layout_align_of t)"

text \<open>
  \<open>std::alloc::Layout\<close>: the checked constructor wants a power of two and a size that
  stays within \<open>isize::MAX\<close> when rounded up to the alignment.
\<close>

record layout =
  l_size :: usize
  l_align :: usize

definition is_power_of_two :: "usize \<Rightarrow> bool" where
  "is_power_of_two a \<longleftrightarrow> a \<noteq> 0 \<and> a AND (a - 1) = 0"

definition layout_from_size_align :: "usize \<Rightarrow> usize \<Rightarrow> layout option" where
  "layout_from_size_align s a =
     (if is_power_of_two a \<and> unat s + unat a \<le> 2 ^ 63 then Some \<lparr>l_size = s, l_align = a\<rparr>
      else None)"

text \<open>The same test on \<open>int\<close>, for evaluation.\<close>

lemma layout_from_size_align_code [code]:
  "layout_from_size_align s a =
     (if is_power_of_two a \<and> uint s + uint a \<le> 2 ^ 63 then Some \<lparr>l_size = s, l_align = a\<rparr> else None)"
proof -
  have "unat s + unat a \<le> 2 ^ 63 \<longleftrightarrow> uint s + uint a \<le> 2 ^ 63"
    using of_nat_le_iff [of "unat s + unat a" "2 ^ 63", where 'a = int] by simp
  then show ?thesis by (simp add: layout_from_size_align_def)
qed

subsection \<open>Type information\<close>

record 'p gc_type_info =
  ti_size :: usize
  ti_payload_offset :: usize
  ti_layout_size :: usize
  ti_layout_align :: usize
  ti_trace_fn :: "'p \<Rightarrow> addr list"
  ti_drop_fn :: bool \<comment> \<open>whether the entry is \<open>Some(drop_in_place)\<close>\<close>
  ti_drop_pass :: u8

text \<open>The release build takes the unchecked constructor.\<close>

definition info_layout :: "'p gc_type_info \<Rightarrow> layout" where
  "info_layout i = \<lparr>l_size = ti_layout_size i, l_align = ti_layout_align i\<rparr>"

definition payload_ptr :: "'p gc_type_info \<Rightarrow> addr \<Rightarrow> addr" where
  "payload_ptr i node = node + ti_payload_offset i"

record 'p gc_type_registry =
  type_info_list :: "'p gc_type_info list"
  drop_passes :: "u8 list"

definition registry_empty :: "'p gc_type_registry" where
  "registry_empty = \<lparr>type_info_list = [], drop_passes = []\<rparr>"

subsection \<open>Rounding up to a power of two\<close>

lemma and_not_mask_word: "(y :: 'a::len word) AND NOT (mask k) = push_bit k (drop_bit k y)"
  by (rule bit_word_eqI) (auto simp: bit_simps)

lemma unat_and_not_mask:
  "unat ((y :: 'a::len word) AND NOT (mask k)) = unat y div 2 ^ k * 2 ^ k"
proof -
  have "unat y div 2 ^ k * 2 ^ k \<le> unat y" by simp
  also have "\<dots> < 2 ^ LENGTH('a)" by (rule unsigned_less)
  finally show ?thesis
    unfolding and_not_mask_word unsigned_push_bit_eq unat_drop_bit_eq
    by (simp add: push_bit_eq_mult drop_bit_eq_div take_bit_eq_mod)
qed

lemma unat_align_up:
  assumes "a = 2 ^ k" "k < 64" "unat v + 2 ^ k \<le> 2 ^ 64"
  shows "unat (align_up v a) = (unat v + 2 ^ k - 1) div 2 ^ k * 2 ^ k"
proof -
  have m: "a - 1 = mask k" using assms(1) by (simp add: mask_eq_exp_minus_1)
  have lt: "(2 :: nat) ^ k < 2 ^ 64" using assms(2) by (intro power_strict_increasing) auto
  have "unat ((2 :: usize) ^ k) = 2 ^ k"
    using lt unat_of_nat [of "2 ^ k", where 'a = 64] by simp
  moreover have "(1 :: usize) \<le> 2 ^ k"
    using calculation by (simp add: word_le_nat_alt)
  ultimately have um: "unat (mask k :: usize) = 2 ^ k - 1"
    by (simp add: mask_eq_exp_minus_1 unat_sub)
  have "unat v + (2 ^ k - 1) < 2 ^ 64"
    using assms(3) one_le_power [of "2 :: nat" k] by linarith
  then have "unat (v + mask k) = unat v + (2 ^ k - 1)"
    by (simp add: unat_word_ariths um)
  then show ?thesis
    by (simp add: align_up_def m unat_and_not_mask Let_def)
qed

lemma round_up_nat:
  fixes v d :: nat
  assumes "0 < d"
  shows "v \<le> (v + d - 1) div d * d" "(v + d - 1) div d * d < v + d"
    "d dvd (v + d - 1) div d * d"
proof -
  have eq: "(v + d - 1) div d * d + (v + d - 1) mod d = v + d - 1" by simp
  have "(v + d - 1) mod d < d" using assms by simp
  with eq show "v \<le> (v + d - 1) div d * d" "(v + d - 1) div d * d < v + d"
    using assms by linarith+
qed simp

lemma align_up_bounds:
  assumes "a = 2 ^ k" "k < 64" "unat v + 2 ^ k \<le> 2 ^ 64"
  shows "unat v \<le> unat (align_up v a)" "unat (align_up v a) < unat v + 2 ^ k"
    "2 ^ k dvd unat (align_up v a)"
  using round_up_nat [of "2 ^ k" "unat v"] by (simp_all add: unat_align_up [OF assms])

subsection \<open>Node layout\<close>

text \<open>
  What the compiler guarantees of every Rust type: the alignment is a power of two of at
  most \<open>2 ^ 29\<close>, and the size fits \<open>isize\<close>.
\<close>

definition rust_type_ok :: "'p rust_type \<Rightarrow> bool" where
  "rust_type_ok t \<longleftrightarrow> (\<exists>k\<le>29. align_of t = 2 ^ k) \<and> unat (size_of t) < 2 ^ 63"

lemma unat_two_power: "k < 64 \<Longrightarrow> unat ((2 :: usize) ^ k) = 2 ^ k"
proof -
  assume k: "k < 64"
  have lt: "(2 :: nat) ^ k < 2 ^ 64" using k by (intro power_strict_increasing) auto
  then show ?thesis using unat_of_nat [of "2 ^ k", where 'a = 64] by simp
qed

lemma power_29: "k \<le> 29 \<Longrightarrow> (2 :: nat) ^ k \<le> 536870912"
  using power_increasing [of k 29 "2 :: nat"] by simp

lemma payload_offset_bounds:
  assumes "align_of t = 2 ^ k" "k \<le> 29"
  shows "24 \<le> unat (payload_offset_of t)" "unat (payload_offset_of t) < 24 + 2 ^ k"
    "2 ^ k dvd unat (payload_offset_of t)"
  using align_up_bounds [OF assms(1), of HEAD_SIZE] assms(2) power_29 [OF assms(2)]
  by (simp_all add: payload_offset_of_def HEAD_SIZE_def)

lemma layout_align_cases:
  assumes "align_of t = 2 ^ k" "k \<le> 29"
  shows "layout_align_of t = 2 ^ max 3 k"
proof -
  have "HEAD_ALIGN > align_of t \<longleftrightarrow> k < 3"
  proof -
    have "unat (align_of t) = 2 ^ k" using assms by (simp add: unat_two_power)
    then have "HEAD_ALIGN > align_of t \<longleftrightarrow> (2 :: nat) ^ k < 2 ^ 3"
      by (simp add: HEAD_ALIGN_def word_less_nat_alt)
    then show ?thesis using power_strict_increasing_iff [of "2 :: nat" k 3] by simp
  qed
  then show ?thesis using assms by (auto simp: layout_align_of_def HEAD_ALIGN_def max_def)
qed

lemma layout_facts:
  assumes "rust_type_ok t"
  shows "unat (payload_offset_of t) + unat (size_of t) \<le> unat (layout_size_of t)"
    and "unat (layout_size_of t)
           < unat (payload_offset_of t) + unat (size_of t) + unat (layout_align_of t)"
    and "unat (layout_align_of t) dvd unat (layout_size_of t)"
    and "unat (align_of t) dvd unat (payload_offset_of t)"
    and "unat (align_of t) dvd unat (layout_align_of t)"
    and "8 dvd unat (layout_align_of t)"
    and "24 \<le> unat (payload_offset_of t)"
proof -
  from assms obtain k where k: "align_of t = 2 ^ k" "k \<le> 29" and sz: "unat (size_of t) < 2 ^ 63"
    by (auto simp: rust_type_ok_def)
  note off = payload_offset_bounds [OF k] and la = layout_align_cases [OF k]
  let ?m = "max 3 k"
  have m: "?m \<le> 29" using k(2) by simp
  have pm: "(2 :: nat) ^ ?m \<le> 536870912" by (rule power_29 [OF m])
  have pk: "(2 :: nat) ^ k \<le> 536870912" by (rule power_29 [OF k(2)])
  have sum: "unat (payload_offset_of t + size_of t) = unat (payload_offset_of t) + unat (size_of t)"
    using off(2) sz pk by (simp add: unat_word_ariths)
  have "unat (payload_offset_of t + size_of t) + 2 ^ ?m \<le> 2 ^ 64"
    unfolding sum using off(2) sz pk pm by simp
  note up = align_up_bounds [OF la _ this]
  have ula: "unat (layout_align_of t) = 2 ^ ?m" using m by (simp add: la unat_two_power)
  have ual: "unat (align_of t) = 2 ^ k" using k by (simp add: unat_two_power)
  have m64: "?m < 64" using m by simp
  show "unat (payload_offset_of t) + unat (size_of t) \<le> unat (layout_size_of t)"
    "unat (layout_size_of t)
       < unat (payload_offset_of t) + unat (size_of t) + unat (layout_align_of t)"
    "unat (layout_align_of t) dvd unat (layout_size_of t)"
    using up [OF m64] unfolding layout_size_of_def sum ula by auto
  show "unat (align_of t) dvd unat (payload_offset_of t)" using off(3) by (simp add: ual)
  show "unat (align_of t) dvd unat (layout_align_of t)" unfolding ula ual
    by (rule le_imp_power_dvd) simp
  have "(2 :: nat) ^ 3 dvd 2 ^ ?m" by (rule le_imp_power_dvd) simp
  then show "8 dvd unat (layout_align_of t)" unfolding ula by simp
  show "24 \<le> unat (payload_offset_of t)" by (rule off(1))
qed

subsection \<open>Where the payload lies\<close>

definition word_type :: "nat rust_type" where
  "word_type = \<lparr>size_of = 20, align_of = 4, needs_drop = False, trace_impl = \<lambda>_. []\<rparr>"

definition word_info :: "nat gc_type_info" where
  "word_info =
     \<lparr>ti_size = 20, ti_payload_offset = 24, ti_layout_size = 48, ti_layout_align = 8,
      ti_trace_fn = \<lambda>_. [], ti_drop_fn = False, ti_drop_pass = 0\<rparr>"

lemma word_layout:
  "layout_size_of word_type = 48" "layout_align_of word_type = 8" "payload_offset_of word_type = 24"
  by (simp_all add: word_type_def layout_size_of_def payload_offset_of_def align_up_def layout_align_of_def
      HEAD_SIZE_def HEAD_ALIGN_def)

text \<open>
  C38: for every type with a size and an alignment Rust accepts, the payload of a node at an address
  aligned to the node layout starts behind the head, is aligned for its type and ends inside
  the block.
\<close>
theorem payload_in_block:
  assumes t: "rust_type_ok t" and off: "ti_payload_offset i = payload_offset_of t"
    and fits: "unat node + unat (layout_size_of t) < 2 ^ 64"
    and al: "unat (layout_align_of t) dvd unat node"
  shows "unat node + 24 \<le> unat (payload_ptr i node) \<and>
    unat (payload_ptr i node) + unat (size_of t) \<le> unat node + unat (layout_size_of t) \<and>
    unat (align_of t) dvd unat (payload_ptr i node)"
proof -
  note f = layout_facts [OF t]
  have p: "unat (payload_ptr i node) = unat node + unat (payload_offset_of t)"
    unfolding payload_ptr_def off by (rule unat_add_lem [THEN iffD1]) (use fits f(1) in simp)
  have "unat (align_of t) dvd unat node" using f(5) al by (rule dvd_trans)
  then show ?thesis using f(1,4,7) p by simp
qed

theorem payload_in_block_witness:
  "unat (payload_ptr word_info 0x1000) = 0x1018 \<and>
   unat (payload_ptr word_info 0x1000) + unat (size_of word_type) \<le>
     unat (0x1000 :: addr) + unat (layout_size_of word_type)"
proof -
  have ok: "rust_type_ok word_type"
    unfolding rust_type_ok_def word_type_def by (rule conjI, rule exI [of _ 2]) simp_all
  have "unat (payload_ptr word_info 0x1000) + unat (size_of word_type) \<le>
      unat (0x1000 :: addr) + unat (layout_size_of word_type)"
    using payload_in_block [OF ok, of word_info "0x1000"] by (simp add: word_layout word_info_def)
  then show ?thesis by (simp add: payload_ptr_def word_info_def)
qed

end
