(* ===== verification/Gc_Arena.thy ===== *)
theory Gc_Arena
  imports Gc_Type
begin

section \<open>The arena allocator (src/src/arena.rs)\<close>

text \<open>
  \<open>GcArena\<close>: a bump pointer over one block of memory, with a free list threaded through
  the dead blocks.  The two words a dead block holds (\<open>read_free_size\<close>, \<open>read_free_next\<close>)
  are the partial maps \<open>cell_size\<close> and \<open>cell_next\<close>: reading a word nobody wrote is a
  fault.  The block the operating system returned for the arena is a parameter of
  \<open>arena_new\<close>.
\<close>

subsection \<open>State\<close>

definition MIN_ALLOC_SIZE :: usize where "MIN_ALLOC_SIZE = 8 * 2"
definition ARENA_CAPACITY :: usize where "ARENA_CAPACITY = 64 * 1024"
definition MAX_ARENA_ALLOC :: usize where "MAX_ARENA_ALLOC = 16 * 1024"

record hole =
  h_offset :: usize
  h_size :: usize

record gc_arena =
  base :: addr
  capacity :: usize
  bump :: usize
  free_head :: "addr option"
  live_count :: usize
  cell_size :: "addr \<rightharpoonup> usize"
  cell_next :: "addr \<rightharpoonup> addr option"

definition arena_new :: "usize \<Rightarrow> addr option \<Rightarrow> gc_arena option" where
  "arena_new cap sys =
     do { l \<leftarrow> layout_from_size_align cap 16;
          p \<leftarrow> sys;
          Some \<lparr>base = p, capacity = cap, bump = 0, free_head = None, live_count = 0,
                cell_size = Map.empty, cell_next = Map.empty\<rparr> }"

definition read_free_size :: "gc_arena \<Rightarrow> addr \<Rightarrow> usize option" where
  "read_free_size ar e = cell_size ar e"

definition write_free_size :: "addr \<Rightarrow> usize \<Rightarrow> gc_arena \<Rightarrow> gc_arena" where
  "write_free_size e s ar = ar\<lparr>cell_size := (cell_size ar)(e \<mapsto> s)\<rparr>"

definition read_free_next :: "gc_arena \<Rightarrow> addr \<Rightarrow> addr option option" where
  "read_free_next ar e = cell_next ar e"

definition write_free_next :: "addr \<Rightarrow> addr option \<Rightarrow> gc_arena \<Rightarrow> gc_arena" where
  "write_free_next e n ar = ar\<lparr>cell_next := (cell_next ar)(e \<mapsto> n)\<rparr>"

subsection \<open>Allocation\<close>

text \<open>The first-fit walk, with the entry before the current one.\<close>

partial_function (option) free_list_walk ::
  "usize \<Rightarrow> addr option \<Rightarrow> addr option \<Rightarrow> gc_arena \<Rightarrow> (addr option \<times> gc_arena) option" where
  "free_list_walk needed prev cur ar =
     (case cur of
        None \<Rightarrow> Some (None, ar)
      | Some entry \<Rightarrow>
          do { sz \<leftarrow> read_free_size ar entry;
               if sz \<ge> needed then
                 do { nx \<leftarrow> read_free_next ar entry;
                      Some (Some entry,
                        (case prev of Some p \<Rightarrow> write_free_next p nx ar
                         | None \<Rightarrow> ar\<lparr>free_head := nx\<rparr>)) }
               else
                 do { nx \<leftarrow> read_free_next ar entry;
                      free_list_walk needed cur nx ar } })"

declare free_list_walk.simps [code]

definition alloc_from_free_list :: "usize \<Rightarrow> gc_arena \<Rightarrow> (addr option \<times> gc_arena) option" where
  "alloc_from_free_list needed ar = free_list_walk needed None (free_head ar) ar"

definition bump_offset :: "usize \<Rightarrow> gc_arena \<Rightarrow> usize" where
  "bump_offset align ar = (bump ar + align - 1) AND NOT (align - 1)"

definition arena_alloc :: "layout \<Rightarrow> gc_arena \<Rightarrow> (addr option \<times> gc_arena) option" where
  "arena_alloc l ar =
     (let needed = max (l_size l) MIN_ALLOC_SIZE;
          offset = bump_offset (l_align l) ar
      in if offset + needed \<le> capacity ar then
           Some (Some (base ar + offset),
                 ar\<lparr>bump := offset + needed, live_count := live_count ar + 1\<rparr>)
         else
           do { r \<leftarrow> alloc_from_free_list needed ar;
                (case r of
                   (Some p, ar') \<Rightarrow> Some (Some p, ar'\<lparr>live_count := live_count ar' + 1\<rparr>)
                 | (None, ar') \<Rightarrow> Some (None, ar')) })"

subsection \<open>Reclaiming\<close>

definition saturating_sub1 :: "usize \<Rightarrow> usize" where
  "saturating_sub1 n = (if n = 0 then 0 else n - 1)"

definition collect_hole :: "hole list \<Rightarrow> addr \<Rightarrow> usize \<Rightarrow> gc_arena \<Rightarrow> hole list \<times> gc_arena" where
  "collect_hole holes node node_size ar =
     (let actual = max node_size MIN_ALLOC_SIZE;
          node_end = node + actual;
          bump_end = base ar + bump ar
      in if node_end = bump_end then
           (holes, ar\<lparr>bump := node - base ar, live_count := saturating_sub1 (live_count ar)\<rparr>)
         else
           (vec_push holes \<lparr>h_offset = node - base ar, h_size = actual\<rparr>,
            ar\<lparr>live_count := saturating_sub1 (live_count ar)\<rparr>))"

text \<open>
  The two-pointer compaction of \<open>finish_sweep\<close>: one step of the loop over the read index,
  with the write index and the vector as its state.
\<close>

definition swap :: "nat \<Rightarrow> nat \<Rightarrow> 'a list \<Rightarrow> 'a list" where
  "swap i j xs = xs[i := xs ! j, j := xs ! i]"

definition merge_step :: "nat \<Rightarrow> nat \<times> hole list \<Rightarrow> nat \<times> hole list" where
  "merge_step ri st =
     (let (wi, hs) = st in
      if h_offset (hs ! wi) + h_size (hs ! wi) = h_offset (hs ! ri) then
        (wi, hs[wi := (hs ! wi)\<lparr>h_size := h_size (hs ! wi) + h_size (hs ! ri)\<rparr>])
      else
        (let wi' = wi + 1 in (wi', if wi' \<noteq> ri then swap wi' ri hs else hs)))"

definition compact_holes :: "hole list \<Rightarrow> hole list" where
  "compact_holes hs =
     (if hs = [] then []
      else (let (wi, hs') = fold merge_step [1..<length hs] (0, hs) in take (wi + 1) hs'))"

definition link_hole :: "hole \<Rightarrow> gc_arena \<Rightarrow> gc_arena" where
  "link_hole h ar =
     (let p = base ar + h_offset h;
          ar1 = write_free_size p (h_size h) ar;
          ar2 = write_free_next p (free_head ar1) ar1
      in ar2\<lparr>free_head := Some p\<rparr>)"

definition finish_sweep :: "hole list \<Rightarrow> gc_arena \<Rightarrow> hole list \<times> gc_arena" where
  "finish_sweep holes ar =
     (if live_count ar = 0 then ([], ar\<lparr>bump := 0, free_head := None\<rparr>)
      else
        (let merged = compact_holes (sort_key h_offset holes)
         in ([], fold link_hole (rev merged) (ar\<lparr>free_head := None\<rparr>))))"

subsection \<open>Compaction is the list-level merge\<close>

fun merge_adjacent :: "hole list \<Rightarrow> hole list" where
  "merge_adjacent [] = []"
| "merge_adjacent [h] = [h]"
| "merge_adjacent (h # g # hs) =
     (if h_offset h + h_size h = h_offset g
      then merge_adjacent (h\<lparr>h_size := h_size h + h_size g\<rparr> # hs)
      else h # merge_adjacent (g # hs))"

definition compact_inv :: "hole list \<Rightarrow> nat \<Rightarrow> nat \<times> hole list \<Rightarrow> bool" where
  "compact_inv hs ri st \<longleftrightarrow>
     (let (wi, ys) = st in
      length ys = length hs \<and> wi < ri \<and> ri \<le> length hs \<and> drop ri ys = drop ri hs \<and>
      take wi ys @ merge_adjacent (ys ! wi # drop ri ys) = merge_adjacent hs)"

lemma compact_inv_step:
  assumes "compact_inv hs ri (wi, ys)" and "ri < length hs"
  shows "compact_inv hs (Suc ri) (merge_step ri (wi, ys))"
proof -
  from assms(1) have len: "length ys = length hs" and w: "wi < ri" and d: "drop ri ys = drop ri hs"
    and m: "take wi ys @ merge_adjacent (ys ! wi # drop ri ys) = merge_adjacent hs"
    by (auto simp: compact_inv_def)
  have dr: "drop ri ys = ys ! ri # drop (Suc ri) ys"
    using assms(2) len by (simp add: Cons_nth_drop_Suc)
  have ds: "drop (Suc ri) ys = drop (Suc ri) hs"
    using d by (metis drop_Suc tl_drop)
  show ?thesis
  proof (cases "h_offset (ys ! wi) + h_size (ys ! wi) = h_offset (ys ! ri)")
    case True
    then show ?thesis
      using m w assms(2) len ds by (simp add: compact_inv_def merge_step_def dr)
  next
    case False
    then have m': "take wi ys @ ys ! wi # merge_adjacent (ys ! ri # drop (Suc ri) ys)
        = merge_adjacent hs"
      using m by (simp add: dr)
    have t: "take (Suc wi) ys = take wi ys @ [ys ! wi]"
      using w assms(2) len by (simp add: take_Suc_conv_app_nth)
    show ?thesis
      using False m' w assms(2) len ds t
      by (auto simp: compact_inv_def merge_step_def swap_def)
  qed
qed

lemma compact_holes_eq: "compact_holes hs = merge_adjacent hs"
proof (cases hs)
  case Nil
  then show ?thesis by (simp add: compact_holes_def)
next
  case (Cons h t)
  have "Suc n \<le> length hs \<Longrightarrow> compact_inv hs (Suc n) (fold merge_step [1..<Suc n] (0, hs))" for n
  proof (induction n)
    case 0
    then show ?case using Cons by (simp add: compact_inv_def)
  next
    case (Suc n)
    obtain wi ys where st: "fold merge_step [1..<Suc n] (0, hs) = (wi, ys)" by fastforce
    have "compact_inv hs (Suc n) (wi, ys)" using Suc st by simp
    moreover have "Suc n < length hs" using Suc.prems by simp
    ultimately have "compact_inv hs (Suc (Suc n)) (merge_step (Suc n) (wi, ys))"
      by (rule compact_inv_step)
    moreover have "[1..<Suc (Suc n)] = [1..<Suc n] @ [Suc n]" by simp
    ultimately show ?case using st by (simp del: upt_Suc)
  qed
  moreover obtain wi ys where st: "fold merge_step [1..<length hs] (0, hs) = (wi, ys)"
    by fastforce
  ultimately have "compact_inv hs (length hs) (wi, ys)"
    using Cons by (metis One_nat_def length_Cons le_refl)
  then have "take (Suc wi) ys = merge_adjacent hs"
    by (auto simp: compact_inv_def take_Suc_conv_app_nth)
  then show ?thesis using Cons st by (simp add: compact_holes_def del: upt.simps)
qed

subsection \<open>The free list as a list of blocks\<close>

primrec free_chain :: "gc_arena \<Rightarrow> addr option \<Rightarrow> (addr \<times> usize) list \<Rightarrow> bool" where
  "free_chain ar p [] \<longleftrightarrow> p = None"
| "free_chain ar p (b # bs) \<longleftrightarrow>
     p = Some (fst b) \<and> cell_size ar (fst b) = Some (snd b) \<and>
     (\<exists>n. cell_next ar (fst b) = Some n \<and> free_chain ar n bs)"

lemma free_chain_cong:
  assumes "\<And>a. a \<in> fst ` set bs \<Longrightarrow> cell_size ar' a = cell_size ar a"
    and "\<And>a. a \<in> fst ` set bs \<Longrightarrow> cell_next ar' a = cell_next ar a"
  shows "free_chain ar' p bs = free_chain ar p bs"
  using assms by (induction bs arbitrary: p) auto

text \<open>What the walk does to the list: the first block that is large enough is taken whole.\<close>

fun first_fit :: "usize \<Rightarrow> (addr \<times> usize) list \<Rightarrow> (addr option \<times> (addr \<times> usize) list)" where
  "first_fit needed [] = (None, [])"
| "first_fit needed (b # bs) =
     (if snd b \<ge> needed then (Some (fst b), bs)
      else (let (r, bs') = first_fit needed bs in (r, b # bs')))"

lemma free_list_walk_step:
  assumes "free_chain ar cur bs" "distinct (map fst (pre @ bs))"
    and "\<And>p. prev = Some p \<Longrightarrow> \<exists>qs b. pre = qs @ [b] \<and> fst b = p"
    and "prev = None \<Longrightarrow> pre = []"
    and "free_chain ar (free_head ar) (pre @ bs)"
  shows "\<exists>ar'. free_list_walk needed prev cur ar = Some (fst (first_fit needed bs), ar')
    \<and> free_chain ar' (free_head ar') (pre @ snd (first_fit needed bs))
    \<and> base ar' = base ar \<and> capacity ar' = capacity ar \<and> bump ar' = bump ar
    \<and> live_count ar' = live_count ar"
  using assms
proof (induction bs arbitrary: prev cur pre)
  case Nil
  then show ?case by (simp add: free_list_walk.simps)
next
  case (Cons b bs)
  from Cons.prems(1) obtain n where cur: "cur = Some (fst b)" "cell_size ar (fst b) = Some (snd b)"
    "cell_next ar (fst b) = Some n" "free_chain ar n bs" by auto
  show ?case
  proof (cases "snd b \<ge> needed")
    case True
    let ?ar' = "case prev of Some p \<Rightarrow> write_free_next p n ar | None \<Rightarrow> ar\<lparr>free_head := n\<rparr>"
    have "free_list_walk needed prev cur ar = Some (Some (fst b), ?ar')"
      using True cur by (simp add: free_list_walk.simps read_free_size_def read_free_next_def)
    moreover have "free_chain ?ar' (free_head ?ar') (pre @ bs)"
    proof (cases prev)
      case None
      then have "pre = []" by (rule Cons.prems(4))
      with None cur(4) show ?thesis
        using free_chain_cong [of bs "ar\<lparr>free_head := n\<rparr>" ar n] by simp
    next
      case (Some p)
      then obtain qs c where pre: "pre = qs @ [c]" "fst c = p" using Cons.prems(3) by blast
      have chain: "free_chain ar q (us @ c # b # bs) \<Longrightarrow> p \<notin> fst ` set us \<Longrightarrow> p \<notin> fst ` set bs
          \<Longrightarrow> free_chain (write_free_next p n ar) q (us @ c # bs)" for q us
      proof (induction us arbitrary: q)
        case Nil
        have "free_chain (write_free_next p n ar) n bs = free_chain ar n bs"
          by (rule free_chain_cong) (use Nil.prems in \<open>auto simp: write_free_next_def\<close>)
        with Nil cur(4) pre(2) show ?case by (auto simp: write_free_next_def)
      next
        case (Cons u us)
        then show ?case by (auto simp: write_free_next_def)
      qed
      have "p \<notin> fst ` set qs" "p \<notin> fst ` set bs"
        using Cons.prems(2) pre by auto
      then have "free_chain (write_free_next p n ar) (free_head ar) (qs @ c # bs)"
        using chain Cons.prems(5) pre by simp
      then show ?thesis using Some pre by (simp add: write_free_next_def)
    qed
    ultimately show ?thesis using True
      by (auto simp: write_free_next_def split: option.splits)
  next
    case False
    have step: "free_list_walk needed prev cur ar = free_list_walk needed (Some (fst b)) n ar"
      using False cur by (subst free_list_walk.simps)
        (simp add: read_free_size_def read_free_next_def)
    have "\<exists>ar'. free_list_walk needed (Some (fst b)) n ar = Some (fst (first_fit needed bs), ar')
        \<and> free_chain ar' (free_head ar') ((pre @ [b]) @ snd (first_fit needed bs))
        \<and> base ar' = base ar \<and> capacity ar' = capacity ar \<and> bump ar' = bump ar
        \<and> live_count ar' = live_count ar"
      by (rule Cons.IH) (use cur(4) Cons.prems(2,5) in auto)
    with False step show ?thesis by (simp add: case_prod_beta)
  qed
qed

lemma alloc_from_free_list_first_fit:
  assumes "free_chain ar (free_head ar) bs" "distinct (map fst bs)"
  shows "\<exists>ar'. alloc_from_free_list needed ar = Some (fst (first_fit needed bs), ar')
    \<and> free_chain ar' (free_head ar') (snd (first_fit needed bs))
    \<and> base ar' = base ar \<and> capacity ar' = capacity ar \<and> bump ar' = bump ar
    \<and> live_count ar' = live_count ar"
  using free_list_walk_step [of ar "free_head ar" bs "[]" None needed] assms
  by (simp add: alloc_from_free_list_def)

end
