(* ===== verification/Gc_State.thy ===== *)
theory Gc_State
  imports Gc_Node Gc_Arena
begin

section \<open>The state of a heap (heap.rs, partition.rs, scope.rs, weak.rs)\<close>

text \<open>
  The records of the crate.  \<open>GcHeap\<close> owns the partitions, the counters, the weak slots
  and the scope stacks; the memory the node pointers refer to is part of the same record:
  \<open>heads\<close> holds the \<open>GcHead\<close> of every allocated node, \<open>payloads\<close> the payload of every
  node whose payload has not been dropped.  A pointer outside \<open>heads\<close> is dangling; using
  it, or tracing a dropped payload, is a fault.
\<close>

subsection \<open>Records\<close>

record gc_partition =
  nodes :: "addr option"
  gray_list :: "addr list"
  marking :: bool
  memory_used :: usize
  arena :: "gc_arena option"
  arena_capacity :: usize
  arena_max_alloc :: usize

record gc_scope_state =
  sc_partition_id :: u16
  sc_stack_id :: u16
  sc_depth :: u32
  sc_cache :: "addr list option"

record scope_stack =
  ss_list :: "gc_scope_state list"
  ss_partition :: "u16 option"

record 'p gc_heap =
  node_dtypes :: "'p gc_type_registry"
  partitions :: "gc_partition list"
  memory_limit :: usize
  gc_threshold :: usize
  total_memory_used :: usize
  weak_slots :: "(u8 \<times> addr option) list"
  scope_stacks :: "scope_stack list"
  opaque :: addr
  heads :: "addr \<rightharpoonup> gc_head"
  payloads :: "addr \<rightharpoonup> 'p"
  drop_log :: "addr list" \<comment> \<open>ghost: the nodes whose \<open>drop_fn\<close> has been called, in order\<close>

datatype gc_error = AllocationFailed | InvalidReference | PartitionFull | PartitionNotFound
  | PartitionNotEmpty

subsection \<open>Access\<close>

text \<open>\<open>node.as_mut()\<close>: read, modify and write the head behind a pointer.\<close>

definition put_head :: "addr \<Rightarrow> gc_head \<Rightarrow> 'p gc_heap \<Rightarrow> 'p gc_heap" where
  "put_head a g h = h\<lparr>heads := (heads h)(a \<mapsto> g)\<rparr>"

definition update_head :: "(gc_head \<Rightarrow> gc_head) \<Rightarrow> addr \<Rightarrow> 'p gc_heap \<Rightarrow> 'p gc_heap option" where
  "update_head f a h = do { g \<leftarrow> heads h a; Some (put_head a (f g) h) }"

text \<open>\<open>self.partitions[pid.0 as usize]\<close> panics out of bounds.\<close>

definition get_par :: "'p gc_heap \<Rightarrow> u16 \<Rightarrow> gc_partition option" where
  "get_par h pid = vec_get (partitions h) (unat pid)"

definition put_par :: "u16 \<Rightarrow> gc_partition \<Rightarrow> 'p gc_heap \<Rightarrow> 'p gc_heap" where
  "put_par pid p h = h\<lparr>partitions := (partitions h)[unat pid := p]\<rparr>"

definition update_par ::
  "(gc_partition \<Rightarrow> gc_partition) \<Rightarrow> u16 \<Rightarrow> 'p gc_heap \<Rightarrow> 'p gc_heap option" where
  "update_par f pid h = do { p \<leftarrow> get_par h pid; Some (put_par pid (f p) h) }"

definition type_info :: "'p gc_heap \<Rightarrow> u8 \<Rightarrow> 'p gc_type_info option" where
  "type_info h ty = vec_get (type_info_list (node_dtypes h)) (unat ty)"

lemma put_head_fields [frame_simps, simp]:
  "heads (put_head a g h) = (heads h)(a \<mapsto> g)" "payloads (put_head a g h) = payloads h"
  "partitions (put_head a g h) = partitions h" "node_dtypes (put_head a g h) = node_dtypes h"
  "total_memory_used (put_head a g h) = total_memory_used h"
  "weak_slots (put_head a g h) = weak_slots h" "scope_stacks (put_head a g h) = scope_stacks h"
  "memory_limit (put_head a g h) = memory_limit h" "gc_threshold (put_head a g h) = gc_threshold h"
  "opaque (put_head a g h) = opaque h" "get_par (put_head a g h) = get_par h"
  "type_info (put_head a g h) = type_info h" "drop_log (put_head a g h) = drop_log h"
  by (simp_all add: put_head_def get_par_def type_info_def fun_eq_iff)

lemma put_par_fields [frame_simps, simp]:
  "heads (put_par q p h) = heads h" "payloads (put_par q p h) = payloads h"
  "partitions (put_par q p h) = (partitions h)[unat q := p]"
  "node_dtypes (put_par q p h) = node_dtypes h"
  "total_memory_used (put_par q p h) = total_memory_used h"
  "weak_slots (put_par q p h) = weak_slots h" "scope_stacks (put_par q p h) = scope_stacks h"
  "memory_limit (put_par q p h) = memory_limit h" "gc_threshold (put_par q p h) = gc_threshold h"
  "opaque (put_par q p h) = opaque h" "type_info (put_par q p h) = type_info h"
  "drop_log (put_par q p h) = drop_log h"
  by (simp_all add: put_par_def type_info_def fun_eq_iff)

lemma get_par_put_par:
  "get_par h q = Some p0 \<Longrightarrow> get_par (put_par q p h) r = (if q = r then Some p else get_par h r)"
  by (auto simp: get_par_def vec_get_def unat_arith_simps)

lemma get_par_Some: "get_par h q = Some p \<longleftrightarrow> unat q < length (partitions h) \<and> partitions h ! unat q = p"
  by (simp add: get_par_def vec_get_Some)

lemma update_head_Some:
  "update_head f a h = Some h' \<longleftrightarrow> (\<exists>g. heads h a = Some g \<and> h' = put_head a (f g) h)"
  by (auto simp: update_head_def bind_eq_Some_conv)

lemma update_par_Some:
  "update_par f q h = Some h' \<longleftrightarrow> (\<exists>p. get_par h q = Some p \<and> h' = put_par q (f p) h)"
  by (auto simp: update_par_def bind_eq_Some_conv)

subsection \<open>The fields a marking phase leaves alone\<close>

text \<open>
  \<open>shape\<close> is everything of a head but its colour, its gray-listed and its visited bit.
\<close>

definition shape :: "gc_head \<Rightarrow> u8 \<times> bool \<times> bool \<times> bool \<times> u16 \<times> u32 \<times> addr option" where
  "shape g = (dtype g, is_root g, is_local g, contains_flag g ARENA_ALLOC, partition_id g,
              weak_id g, next_ptr g)"

lemma shape_setters [head_simps, simp]:
  "shape (set_color c g) = shape g" "shape (set_gray_listed b g) = shape g"
  "shape (set_traverse_visited b g) = shape g"
  by (simp_all add: shape_def)

lemma shape_eqD:
  assumes "shape g = shape g'"
  shows "dtype g = dtype g'" "is_root g = is_root g'" "is_local g = is_local g'"
    "contains_flag g ARENA_ALLOC = contains_flag g' ARENA_ALLOC" "partition_id g = partition_id g'"
    "weak_id g = weak_id g'" "next_ptr g = next_ptr g'" "is_root_or_local g = is_root_or_local g'"
  using assms by (simp_all add: shape_def is_root_or_local_iff)

lemma root_or_local_setters [head_simps, simp]:
  "is_root_or_local (set_color c g) = is_root_or_local g"
  "is_root_or_local (set_gray_listed b g) = is_root_or_local g"
  "is_root_or_local (set_traverse_visited b g) = is_root_or_local g"
  "is_root_or_local (g\<lparr>next_ptr := n\<rparr>) = is_root_or_local g"
  "is_root_or_local (g\<lparr>weak_id := w\<rparr>) = is_root_or_local g"
  by (simp_all add: is_root_or_local_iff)

definition par_shape :: "gc_partition \<Rightarrow> addr option \<times> usize \<times> gc_arena option \<times> usize \<times> usize" where
  "par_shape p = (nodes p, memory_used p, arena p, arena_capacity p, arena_max_alloc p)"

definition mark_frame :: "'p gc_heap \<Rightarrow> 'p gc_heap \<Rightarrow> bool" where
  "mark_frame h h' \<longleftrightarrow>
     (\<forall>a. map_option shape (heads h' a) = map_option shape (heads h a)) \<and>
     map par_shape (partitions h') = map par_shape (partitions h) \<and>
     h' = h\<lparr>heads := heads h', partitions := partitions h'\<rparr>"

lemma mark_frame_refl [simp, intro]: "mark_frame h h"
  by (simp add: mark_frame_def)

lemma mark_frame_trans [trans]:
  assumes "mark_frame h1 h2" "mark_frame h2 h3"
  shows "mark_frame h1 h3"
proof -
  have "h2 = h1\<lparr>heads := heads h2, partitions := partitions h2\<rparr>"
    "h3 = h2\<lparr>heads := heads h3, partitions := partitions h3\<rparr>"
    using assms by (simp_all add: mark_frame_def)
  then have "h3 = h1\<lparr>heads := heads h3, partitions := partitions h3\<rparr>"
    by (cases h1; cases h2; cases h3) simp
  with assms show ?thesis by (simp add: mark_frame_def)
qed

lemma mark_frame_fields:
  assumes "mark_frame h h'"
  shows "payloads h' = payloads h" "node_dtypes h' = node_dtypes h"
    "weak_slots h' = weak_slots h" "scope_stacks h' = scope_stacks h"
    "total_memory_used h' = total_memory_used h" "memory_limit h' = memory_limit h"
    "gc_threshold h' = gc_threshold h" "opaque h' = opaque h" "type_info h' = type_info h"
    "length (partitions h') = length (partitions h)" "dom (heads h') = dom (heads h)" "drop_log h' = drop_log h"
proof -
  have e: "h' = h\<lparr>heads := heads h', partitions := partitions h'\<rparr>"
    using assms by (simp add: mark_frame_def)
  show "payloads h' = payloads h" "node_dtypes h' = node_dtypes h"
    "weak_slots h' = weak_slots h" "scope_stacks h' = scope_stacks h"
    "total_memory_used h' = total_memory_used h" "memory_limit h' = memory_limit h"
    "gc_threshold h' = gc_threshold h" "opaque h' = opaque h" "drop_log h' = drop_log h"
    by (subst e, simp)+
  then show "type_info h' = type_info h" by (simp add: type_info_def fun_eq_iff)
  show "length (partitions h') = length (partitions h)"
    using assms by (metis length_map mark_frame_def)
  have "heads h' a = None \<longleftrightarrow> heads h a = None" for a
    using assms by (metis (no_types) mark_frame_def option.map_disc_iff)
  then show "dom (heads h') = dom (heads h)" by (auto simp: dom_def)
qed

lemma mark_frame_shape:
  "mark_frame h h' \<Longrightarrow> map_option shape (heads h' a) = map_option shape (heads h a)"
  by (simp add: mark_frame_def)

lemma mark_frame_head:
  assumes "mark_frame h h'" "heads h a = Some g"
  obtains g' where "heads h' a = Some g'" "shape g' = shape g"
proof -
  have "map_option shape (heads h' a) = map_option shape (heads h a)"
    using assms(1) by (simp add: mark_frame_def)
  with assms(2) that show thesis by auto
qed

lemma mark_frame_head_rev:
  assumes "mark_frame h h'" "heads h' a = Some g'"
  obtains g where "heads h a = Some g" "shape g' = shape g"
proof -
  have "map_option shape (heads h' a) = map_option shape (heads h a)"
    using assms(1) by (simp add: mark_frame_def)
  with assms(2) that show thesis by (cases "heads h a") auto
qed

lemma mark_frame_par:
  assumes "mark_frame h h'" "get_par h q = Some p"
  obtains p' where "get_par h' q = Some p'" "par_shape p' = par_shape p"
proof -
  have m: "map par_shape (partitions h') = map par_shape (partitions h)"
    using assms(1) by (simp add: mark_frame_def)
  then have l: "length (partitions h') = length (partitions h)" by (metis length_map)
  have i: "unat q < length (partitions h)" using assms(2) by (simp add: get_par_Some)
  with m have "par_shape (partitions h' ! unat q) = par_shape (partitions h ! unat q)"
    by (metis l nth_map)
  with assms(2) i l that [of "partitions h' ! unat q"] show thesis by (simp add: get_par_Some)
qed

lemma mark_frame_put_head:
  "heads h a = Some g \<Longrightarrow> shape g' = shape g \<Longrightarrow> mark_frame h (put_head a g' h)"
  by (auto simp: mark_frame_def put_head_def)

lemma mark_frame_put_par:
  assumes "get_par h q = Some p" "par_shape p' = par_shape p"
  shows "mark_frame h (put_par q p' h)"
proof -
  have "par_shape (partitions h ! unat q) = par_shape p'" using assms by (simp add: get_par_Some)
  then have "map par_shape ((partitions h)[unat q := p']) = map par_shape (partitions h)"
    by (metis list_update_id map_update)
  then show ?thesis by (simp add: mark_frame_def put_par_def)
qed

end
