(* ===== verification/Gc_Link.thy ===== *)
theory Gc_Link
  imports Gc_State
begin

section \<open>Node chains (src/src/node_link.rs)\<close>

text \<open>
  \<open>GcNodeLink\<close>: the intrusive singly linked list through the \<open>next\<close> field of the heads.
  The iterators read \<open>next\<close> of the current node before they hand it out.  A walk over a
  cyclic chain does not end, a walk through a dangling pointer faults: both are \<open>None\<close>.
\<close>

subsection \<open>Operations\<close>

definition link_prepend :: "addr \<Rightarrow> addr option \<Rightarrow> 'p gc_heap \<Rightarrow> (addr option \<times> 'p gc_heap) option" where
  "link_prepend node link h =
     do { h1 \<leftarrow> update_head (\<lambda>g. g\<lparr>next_ptr := link\<rparr>) node h; Some (Some node, h1) }"

text \<open>All the nodes \<open>NodeLinkIter\<close> yields.\<close>

partial_function (option) node_iter :: "(addr \<rightharpoonup> gc_head) \<Rightarrow> addr option \<Rightarrow> addr list option" where
  "node_iter m cur =
     (case cur of
        None \<Rightarrow> Some []
      | Some a \<Rightarrow> do { g \<leftarrow> m a; xs \<leftarrow> node_iter m (next_ptr g); Some (a # xs) })"

declare node_iter.simps [code]

definition link_len :: "addr option \<Rightarrow> 'p gc_heap \<Rightarrow> nat option" where
  "link_len link h = map_option length (node_iter (heads h) link)"

text \<open>\<open>for n in link.iter() { body(n) }\<close>, where the body may change the heap.\<close>

partial_function (option) for_nodes ::
  "(addr \<Rightarrow> 'p gc_heap \<Rightarrow> 'p gc_heap option) \<Rightarrow> addr option \<Rightarrow> 'p gc_heap \<Rightarrow> 'p gc_heap option" where
  "for_nodes body cur h =
     (case cur of
        None \<Rightarrow> Some h
      | Some a \<Rightarrow>
          do { g \<leftarrow> heads h a; h1 \<leftarrow> body a h; for_nodes body (next_ptr g) h1 })"

declare for_nodes.simps [code]

text \<open>
  \<open>filter_remove_with\<close>: unlink every node the predicate accepts, then hand it to
  \<open>remove_fn\<close>, which may free it.  What the two closures capture is the state \<open>st\<close>; a panic
  of the predicate is \<open>None\<close>.
\<close>

definition unlink_after ::
  "addr option \<Rightarrow> addr option \<Rightarrow> addr option \<Rightarrow> 'p gc_heap \<Rightarrow> (addr option \<times> 'p gc_heap) option" where
  "unlink_after prev nx link h =
     (case prev of
        Some p \<Rightarrow> do { h1 \<leftarrow> update_head (\<lambda>g. g\<lparr>next_ptr := nx\<rparr>) p h; Some (link, h1) }
      | None \<Rightarrow> Some (nx, h))"

partial_function (option) filter_remove_loop ::
  "(gc_head \<Rightarrow> bool option) \<Rightarrow> (addr \<Rightarrow> 's \<Rightarrow> 'p gc_heap \<Rightarrow> ('s \<times> 'p gc_heap) option)
     \<Rightarrow> addr option \<Rightarrow> addr option \<Rightarrow> addr option \<Rightarrow> 's \<Rightarrow> 'p gc_heap
     \<Rightarrow> (addr option \<times> 's \<times> 'p gc_heap) option" where
  "filter_remove_loop predicate remove_fn prev cur link st h =
     (case cur of
        None \<Rightarrow> Some (link, st, h)
      | Some node \<Rightarrow>
          do { g \<leftarrow> heads h node;
               b \<leftarrow> predicate g;
               if b then
                 do { r \<leftarrow> unlink_after prev (next_ptr g) link h;
                      q \<leftarrow> remove_fn node st (snd r);
                      filter_remove_loop predicate remove_fn prev (next_ptr g) (fst r) (fst q) (snd q) }
               else filter_remove_loop predicate remove_fn (Some node) (next_ptr g) link st h })"

declare filter_remove_loop.simps [code]

definition filter_remove_with ::
  "(gc_head \<Rightarrow> bool option) \<Rightarrow> (addr \<Rightarrow> 's \<Rightarrow> 'p gc_heap \<Rightarrow> ('s \<times> 'p gc_heap) option)
     \<Rightarrow> addr option \<Rightarrow> 's \<Rightarrow> 'p gc_heap \<Rightarrow> (addr option \<times> 's \<times> 'p gc_heap) option" where
  "filter_remove_with predicate remove_fn link st h =
     filter_remove_loop predicate remove_fn None link link st h"

subsection \<open>Chains as lists\<close>

primrec chain :: "(addr \<rightharpoonup> gc_head) \<Rightarrow> addr option \<Rightarrow> addr list \<Rightarrow> bool" where
  "chain m p [] \<longleftrightarrow> p = None"
| "chain m p (a # as) \<longleftrightarrow> p = Some a \<and> (\<exists>g. m a = Some g \<and> chain m (next_ptr g) as)"

lemma node_iter_chain: "chain m p as \<Longrightarrow> node_iter m p = Some as"
proof (induction as arbitrary: p)
  case Nil
  then show ?case by (simp add: node_iter.simps)
next
  case (Cons a as)
  then show ?case by (auto simp: node_iter.simps [of m "Some a"])
qed

lemma chain_node_iter: "node_iter m p = Some as \<Longrightarrow> chain m p as"
proof (induction as arbitrary: p)
  case Nil
  then show ?case by (subst (asm) node_iter.simps) (auto split: option.splits Option.bind_splits)
next
  case (Cons a as)
  then show ?case by (subst (asm) (1) node_iter.simps) (auto split: option.splits Option.bind_splits)
qed

lemma chain_iff: "chain m p as \<longleftrightarrow> node_iter m p = Some as"
  using node_iter_chain chain_node_iter by blast

lemma chain_unique: "chain m p as \<Longrightarrow> chain m p bs \<Longrightarrow> as = bs"
  by (simp add: chain_iff)

lemma chain_app: "chain m p (as @ bs) \<Longrightarrow> \<exists>q. chain m q bs"
  by (induction as arbitrary: p) auto

lemma chain_distinct: "chain m p as \<Longrightarrow> distinct as"
proof (induction as arbitrary: p)
  case Nil
  then show ?case by simp
next
  case (Cons a as)
  then obtain g where g: "m a = Some g" "chain m (next_ptr g) as" by auto
  have "a \<notin> set as"
  proof
    assume "a \<in> set as"
    then obtain us vs where as: "as = us @ a # vs" by (meson split_list)
    from chain_app [of m "next_ptr g" us "a # vs"] g as obtain q where "chain m q (a # vs)" by auto
    then have "chain m (next_ptr g) vs" using g(1) by auto
    with g(2) have "as = vs" by (rule chain_unique)
    with as show False by simp
  qed
  with Cons.IH [OF g(2)] show ?case by simp
qed

lemma chain_dom: "chain m p as \<Longrightarrow> set as \<subseteq> dom m"
  by (induction as arbitrary: p) auto

text \<open>Only the \<open>next\<close> fields of the listed nodes matter.\<close>

lemma chain_cong:
  assumes "\<And>a. a \<in> set as \<Longrightarrow> map_option next_ptr (m' a) = map_option next_ptr (m a)"
  shows "chain m' p as = chain m p as"
  using assms
proof (induction as arbitrary: p)
  case Nil
  then show ?case by simp
next
  case (Cons a as)
  have "map_option next_ptr (m' a) = map_option next_ptr (m a)" by (rule Cons.prems) simp
  moreover have "\<And>p. chain m' p as = chain m p as" by (rule Cons.IH) (rule Cons.prems, simp)
  ultimately show ?case by (cases "m a"; cases "m' a") auto
qed

lemma chain_mark_frame: "mark_frame h h' \<Longrightarrow> chain (heads h') p as = chain (heads h) p as"
proof (rule chain_cong)
  fix a assume "mark_frame h h'"
  then have "map_option shape (heads h' a) = map_option shape (heads h a)"
    by (simp add: mark_frame_def)
  then show "map_option next_ptr (heads h' a) = map_option next_ptr (heads h a)"
    by (cases "heads h a"; cases "heads h' a") (auto dest: shape_eqD)
qed

subsection \<open>Prepend\<close>

lemma link_prepend_chain:
  assumes "heads h node = Some g" "chain (heads h) link as" "node \<notin> set as"
  shows "\<exists>h'. link_prepend node link h = Some (Some node, h')
    \<and> h' = put_head node (g\<lparr>next_ptr := link\<rparr>) h \<and> chain (heads h') (Some node) (node # as)"
proof -
  have "chain ((heads h)(node \<mapsto> g\<lparr>next_ptr := link\<rparr>)) link as = chain (heads h) link as"
    by (rule chain_cong) (use assms(3) in auto)
  with assms show ?thesis by (simp add: link_prepend_def update_head_def)
qed

subsection \<open>Loops over a chain\<close>

text \<open>
  A body that keeps the \<open>next\<close> fields visits exactly the nodes of the chain, in order.
\<close>

lemma for_nodes_fold:
  assumes "chain (heads h) cur as"
    and "\<And>a u u'. a \<in> set as \<Longrightarrow> body a u = Some u' \<Longrightarrow>
           (\<And>b. map_option next_ptr (heads u' b) = map_option next_ptr (heads u b))"
  shows "for_nodes body cur h = fold_opt body as h"
  using assms
proof (induction as arbitrary: cur h)
  case Nil
  then show ?case by (simp add: for_nodes.simps)
next
  case (Cons a as)
  from Cons.prems(1) obtain g where g: "cur = Some a" "heads h a = Some g"
    "chain (heads h) (next_ptr g) as" by auto
  show ?case
  proof (cases "body a h")
    case None
    with g show ?thesis by (simp add: for_nodes.simps)
  next
    case (Some h1)
    have "chain (heads h1) (next_ptr g) as = chain (heads h) (next_ptr g) as"
      by (rule chain_cong) (rule Cons.prems(2) [OF _ Some], simp)
    with g(3) have "chain (heads h1) (next_ptr g) as" by simp
    then have "for_nodes body (next_ptr g) h1 = fold_opt body as h1"
      by (rule Cons.IH) (rule Cons.prems(2), simp_all)
    with g Some show ?thesis by (simp add: for_nodes.simps)
  qed
qed

text \<open>Whatever the chain, a property the body keeps holds after the loop.\<close>

lemma for_nodes_inv:
  assumes run: "for_nodes body cur h = Some h'" and "P h"
    and step: "\<And>a u u'. P u \<Longrightarrow> body a u = Some u' \<Longrightarrow> P u'"
  shows "P h'"
proof -
  have "P h \<longrightarrow> (\<forall>a u u'. P u \<longrightarrow> body a u = Some u' \<longrightarrow> P u') \<longrightarrow> P h'"
  proof (rule for_nodes.raw_induct [OF _ run])
    fix rec body cur h h'
    assume IH: "\<And>body cur h h'. rec body cur h = Some h' \<Longrightarrow>
        P h \<longrightarrow> (\<forall>a u u'. P u \<longrightarrow> body a u = Some u' \<longrightarrow> P u') \<longrightarrow> P h'"
      and eq: "(case cur of None \<Rightarrow> Some h
         | Some a \<Rightarrow> do { g \<leftarrow> heads h a; h1 \<leftarrow> body a h; rec body (next_ptr g) h1 }) = Some h'"
    show "P h \<longrightarrow> (\<forall>a u u'. P u \<longrightarrow> body a u = Some u' \<longrightarrow> P u') \<longrightarrow> P h'"
    proof (intro impI)
      assume P: "P h" and st: "\<forall>a u u'. P u \<longrightarrow> body a u = Some u' \<longrightarrow> P u'"
      show "P h'"
      proof (cases cur)
        case None
        with eq P show ?thesis by simp
      next
        case (Some a)
        with eq obtain g h1 where "heads h a = Some g" "body a h = Some h1"
          "rec body (next_ptr g) h1 = Some h'"
          by (auto simp: bind_eq_Some_conv)
        with IH P st show ?thesis by blast
      qed
    qed
  qed
  with assms(2) step show ?thesis by blast
qed

subsection \<open>Building a chain at its tail\<close>

text \<open>
  The sweeps build chains with a head and a tail pointer:
  \<open>match tail { Some(t) => t.next = Some(this), None => head = Some(this) }\<close>.
\<close>

definition append_tail ::
  "addr \<Rightarrow> addr option \<Rightarrow> addr option \<Rightarrow> 'p gc_heap \<Rightarrow> (addr option \<times> 'p gc_heap) option" where
  "append_tail this tail hd0 h =
     (case tail of
        Some t \<Rightarrow> do { h1 \<leftarrow> update_head (\<lambda>g. g\<lparr>next_ptr := Some this\<rparr>) t h; Some (hd0, h1) }
      | None \<Rightarrow> Some (Some this, h))"

definition tail_of :: "addr list \<Rightarrow> addr option" where
  "tail_of xs = (if xs = [] then None else Some (last xs))"

lemma tail_of_simps [simp]: "tail_of [] = None" "tail_of (xs @ [x]) = Some x"
  by (simp_all add: tail_of_def)

text \<open>Changing \<open>next\<close> fields only.\<close>

definition detach :: "gc_head \<Rightarrow> gc_head" where
  "detach g = g\<lparr>next_ptr := None\<rparr>"

definition link_frame :: "'p gc_heap \<Rightarrow> 'p gc_heap \<Rightarrow> bool" where
  "link_frame h h' \<longleftrightarrow>
     h' = h\<lparr>heads := heads h'\<rparr> \<and>
     (\<forall>a. map_option detach (heads h' a) = map_option detach (heads h a))"

lemma link_frame_refl [simp, intro]: "link_frame h h"
  by (simp add: link_frame_def)

lemma link_frame_trans [trans]: "link_frame h1 h2 \<Longrightarrow> link_frame h2 h3 \<Longrightarrow> link_frame h1 h3"
proof -
  assume a: "link_frame h1 h2" "link_frame h2 h3"
  then have "h2 = h1\<lparr>heads := heads h2\<rparr>" "h3 = h2\<lparr>heads := heads h3\<rparr>"
    by (simp_all add: link_frame_def)
  then have "h3 = h1\<lparr>heads := heads h3\<rparr>" by (cases h1; cases h2; cases h3) simp
  with a show ?thesis by (simp add: link_frame_def)
qed

lemma chain_snoc:
  assumes "chain m p xs" "xs \<noteq> []" "m (last xs) = Some g" "m x = Some gx" "next_ptr gx = None" "x \<notin> set xs"
  shows "chain (m(last xs \<mapsto> g\<lparr>next_ptr := Some x\<rparr>)) p (xs @ [x])"
  using assms
proof (induction xs arbitrary: p)
  case Nil
  then show ?case by simp
next
  case (Cons a as)
  from Cons.prems(1) obtain ga where a: "p = Some a" "m a = Some ga" "chain m (next_ptr ga) as" by auto
  have d: "distinct (a # as)" by (rule chain_distinct [OF Cons.prems(1)])
  show ?case
  proof (cases "as = []")
    case True
    with a Cons.prems show ?thesis by auto
  next
    case False
    then have "a \<noteq> last as" using d by auto
    moreover have "chain (m(last as \<mapsto> g\<lparr>next_ptr := Some x\<rparr>)) (next_ptr ga) (as @ [x])"
      by (rule Cons.IH) (use Cons.prems False a in auto)
    ultimately show ?thesis using a False by (simp add: fun_upd_def)
  qed
qed

lemma append_tail_chain:
  assumes "chain (heads h) p xs" "heads h x = Some gx" "next_ptr gx = None" "x \<notin> set xs"
  shows "\<exists>p' h'. append_tail x (tail_of xs) p h = Some (p', h') \<and>
    chain (heads h') p' (xs @ [x]) \<and> link_frame h h' \<and>
    (\<forall>a. a \<notin> set xs \<longrightarrow> heads h' a = heads h a)"
proof (cases "xs = []")
  case True
  with assms show ?thesis by (simp add: append_tail_def)
next
  case False
  then have "last xs \<in> set xs" by simp
  with chain_dom [OF assms(1)] obtain g where g: "heads h (last xs) = Some g" by blast
  let ?h = "put_head (last xs) (g\<lparr>next_ptr := Some x\<rparr>) h"
  have "append_tail x (tail_of xs) p h = Some (p, ?h)"
    using False g by (simp add: append_tail_def tail_of_def update_head_def)
  moreover have "chain (heads ?h) p (xs @ [x])"
    using chain_snoc [OF assms(1) False g assms(2,3,4)] by simp
  moreover have "link_frame h ?h" using g by (simp add: link_frame_def put_head_def detach_def)
  ultimately show ?thesis using \<open>last xs \<in> set xs\<close> by auto
qed

end
