(* ===== verification/Gc_Heap.thy ===== *)
theory Gc_Heap
  imports Gc_Link
begin

section \<open>The heap and its partitions (src/src/heap.rs, src/src/partition.rs)\<close>

text \<open>
  Creation, limits, accounting, attaching a node, roots and the gray list of a partition;
  then the well-formedness of a heap the rest of the development works under.
\<close>

subsection \<open>Creation\<close>

definition scope_stack_new :: "u16 option \<Rightarrow> scope_stack" where
  "scope_stack_new p = \<lparr>ss_list = [], ss_partition = p\<rparr>"

definition heap_new :: "'p gc_type_registry \<Rightarrow> 'p gc_heap" where
  "heap_new reg =
     \<lparr>node_dtypes = reg, partitions = [], memory_limit = 0, gc_threshold = 0,
      total_memory_used = 0, weak_slots = [], scope_stacks = [scope_stack_new None],
      opaque = 0, heads = Map.empty, payloads = Map.empty, drop_log = []\<rparr>"

text \<open>\<open>sys\<close> is what the system allocator returns for the arena block.\<close>

definition partition_new :: "usize \<Rightarrow> usize \<Rightarrow> addr option \<Rightarrow> gc_partition option" where
  "partition_new cap max_alloc sys =
     do { (ar, ma) \<leftarrow>
            (if cap > 0 then do { a \<leftarrow> arena_new cap sys; Some (Some a, max_alloc) }
             else Some (None, 0));
          Some \<lparr>nodes = None, gray_list = [], marking = False, memory_used = 0,
                arena = ar, arena_capacity = cap, arena_max_alloc = ma\<rparr> }"

definition reset_arena :: "addr option \<Rightarrow> gc_partition \<Rightarrow> gc_partition option" where
  "reset_arena sys p =
     (if arena_capacity p > 0 then
        do { a \<leftarrow> arena_new (arena_capacity p) sys; Some (p\<lparr>arena := Some a\<rparr>) }
      else Some (p\<lparr>arena := None\<rparr>))"

definition create_partition ::
  "usize \<Rightarrow> usize \<Rightarrow> addr option \<Rightarrow> 'p gc_heap \<Rightarrow> (u16 \<times> 'p gc_heap) option" where
  "create_partition cap max_alloc sys h =
     (let i = of_nat (length (partitions h)) in
      do { p \<leftarrow> partition_new cap max_alloc sys;
           Some (i, h\<lparr>partitions := vec_push (partitions h) p\<rparr>) })"

definition partition_ids :: "'p gc_heap \<Rightarrow> u16 list" where
  "partition_ids h = map of_nat [0..<length (partitions h)]"

subsection \<open>Limits and thresholds\<close>

definition MIN_GC_THRESHOLD :: usize where
  "MIN_GC_THRESHOLD = HEAD_SIZE + align_up 1 HEAD_ALIGN"

definition set_opaque :: "addr \<Rightarrow> 'p gc_heap \<Rightarrow> 'p gc_heap" where
  "set_opaque p h = h\<lparr>opaque := p\<rparr>"

definition set_memory_limit :: "usize \<Rightarrow> 'p gc_heap \<Rightarrow> usize \<times> 'p gc_heap" where
  "set_memory_limit limit h =
     (let h' =
        (if limit = 0 then h\<lparr>memory_limit := 0\<rparr>
         else
           (let applied = max (total_memory_used h) limit;
                h1 = h\<lparr>memory_limit := applied\<rparr>
            in if gc_threshold h1 > 0 \<and> gc_threshold h1 \<ge> applied then
                 h1\<lparr>gc_threshold := max (applied - drop_bit 2 applied) MIN_GC_THRESHOLD\<rparr>
               else h1))
      in (memory_limit h', h'))"

definition saturating_mul :: "usize \<Rightarrow> usize \<Rightarrow> usize" where
  "saturating_mul a b = (if unat a * unat b < 2 ^ 64 then a * b else - 1)"

definition set_gc_threshold :: "usize \<Rightarrow> 'p gc_heap \<Rightarrow> usize \<times> 'p gc_heap" where
  "set_gc_threshold threshold h =
     (let h' =
        (if threshold > 0 \<and> memory_limit h > 0 then
           (let capped = saturating_mul (memory_limit h) 8 div 10
            in h\<lparr>gc_threshold := min threshold capped\<rparr>)
         else h\<lparr>gc_threshold := threshold\<rparr>)
      in (gc_threshold h', h'))"

definition should_gc :: "'p gc_heap \<Rightarrow> bool" where
  "should_gc h \<longleftrightarrow> gc_threshold h > 0 \<and> total_memory_used h \<ge> gc_threshold h"

subsection \<open>Memory accounting\<close>

text \<open>
  The delta is an \<open>i32\<close>; \<open>delta as usize\<close> sign-extends.  \<open>-delta\<close> wraps at
  \<open>i32::MIN\<close>, as the release build does.
\<close>

definition i32_as_usize :: "32 word \<Rightarrow> usize" where
  "i32_as_usize d = scast d"

definition usize_as_i32 :: "usize \<Rightarrow> 32 word" where
  "usize_as_i32 s = ucast s"

definition update_mem_use :: "u16 \<Rightarrow> 32 word \<Rightarrow> 'p gc_heap \<Rightarrow> (usize \<times> 'p gc_heap) option" where
  "update_mem_use pid delta h =
     do { p \<leftarrow> get_par h pid;
          let d = (if 0 \<le> sint delta then i32_as_usize delta else i32_as_usize (- delta));
              p' = (if 0 \<le> sint delta then p\<lparr>memory_used := memory_used p + d\<rparr>
                    else p\<lparr>memory_used := memory_used p - d\<rparr>);
              total = (if 0 \<le> sint delta then total_memory_used h + d
                       else total_memory_used h - d)
          in Some (memory_used p', put_par pid p' (h\<lparr>total_memory_used := total\<rparr>)) }"

text \<open>
  For a size below \<open>2 ^ 31\<close> the cast to \<open>i32\<close> and back is the identity, so the counters
  move by exactly the size.
\<close>

lemma uint_small: "unat (s :: usize) < 2 ^ 31 \<Longrightarrow> uint s < 2147483648"
proof -
  assume "unat s < 2 ^ 31"
  then have "int (unat s) < int (2 ^ 31)" unfolding of_nat_less_iff .
  then show ?thesis by simp
qed
lemma sint_small: "unat (s :: usize) < 2 ^ 31 \<Longrightarrow> sint (ucast s :: 32 word) = uint s"
proof -
  assume a: "unat s < 2 ^ 31"
  have "sint (ucast s :: 32 word) = signed_take_bit 31 (uint s)"
    using signed_ucast_eq [of s, where 'a = int and 'c = 32] by simp
  also have "\<dots> = uint s"
    by (rule signed_take_bit_int_eq_self) (use uint_small [OF a] unsigned_greater_eq [of s, where 'a = int] in \<open>simp; linarith\<close>)+
  finally show ?thesis .
qed
lemma scast_small: "unat (s :: usize) < 2 ^ 31 \<Longrightarrow> scast (ucast s :: 32 word) = s"
proof -
  assume a: "unat s < 2 ^ 31"
  have "scast (ucast s :: 32 word) = (word_of_int (sint (ucast s :: 32 word)) :: usize)"
    by simp
  with sint_small [OF a] show ?thesis by simp
qed
lemma sint_neg_small: "unat (s :: usize) < 2 ^ 31 \<Longrightarrow> s \<noteq> 0 \<Longrightarrow> sint (- (ucast s :: 32 word)) < 0"
proof -
  assume a: "unat s < 2 ^ 31" and n: "s \<noteq> 0"
  have p: "0 < uint s" using n by (simp add: word_neq_0_conv [symmetric] uint_0_iff less_le)
  have "sint (- (ucast s :: 32 word)) = signed_take_bit 31 (- sint (ucast s :: 32 word))"
    by (simp add: sint_word_ariths)
  also have "\<dots> = - uint s" 
    unfolding sint_small [OF a]
    by (rule signed_take_bit_int_eq_self) (use uint_small [OF a] unsigned_greater_eq [of s, where 'a = int] in \<open>simp; linarith\<close>)+
  finally show ?thesis using p by simp
qed
lemma update_mem_use_add:
  assumes "unat s < 2 ^ 31" "get_par h pid = Some p"
  shows "update_mem_use pid (usize_as_i32 s) h =
    Some (memory_used p + s, put_par pid (p\<lparr>memory_used := memory_used p + s\<rparr>)
            (h\<lparr>total_memory_used := total_memory_used h + s\<rparr>))"
  using assms sint_small [OF assms(1)] scast_small [OF assms(1)] unsigned_greater_eq [of s, where 'a = int]
  by (simp add: update_mem_use_def usize_as_i32_def i32_as_usize_def Let_def)

lemma update_mem_use_sub:
  assumes "unat s < 2 ^ 31" "get_par h pid = Some p"
  shows "update_mem_use pid (- usize_as_i32 s) h =
    Some (memory_used p - s, put_par pid (p\<lparr>memory_used := memory_used p - s\<rparr>)
            (h\<lparr>total_memory_used := total_memory_used h - s\<rparr>))"
proof (cases "s = 0")
  case True
  with assms(2) show ?thesis
    by (simp add: update_mem_use_def usize_as_i32_def i32_as_usize_def Let_def)
next
  case False
  have "\<not> 0 \<le> sint (- (ucast s :: 32 word))" using sint_neg_small [OF assms(1) False] by simp
  with assms scast_small [OF assms(1)] show ?thesis
    by (simp add: update_mem_use_def usize_as_i32_def i32_as_usize_def Let_def)
qed

subsection \<open>Nodes, roots and gray lists\<close>

definition attach_node :: "u16 \<Rightarrow> addr \<Rightarrow> 'p gc_heap \<Rightarrow> 'p gc_heap option" where
  "attach_node pid node h =
     do { g \<leftarrow> heads h node;
          p \<leftarrow> get_par h pid;
          (link, h1) \<leftarrow> link_prepend node (nodes p) h;
          Some (put_par pid (p\<lparr>nodes := link\<rparr>) h1) }"

definition is_marking :: "'p gc_heap \<Rightarrow> u16 \<Rightarrow> bool option" where
  "is_marking h pid = map_option marking (get_par h pid)"

text \<open>\<open>GcPartition::add_gray_node\<close> on the partition with the given index.\<close>

definition par_add_gray_node :: "u16 \<Rightarrow> addr \<Rightarrow> 'p gc_heap \<Rightarrow> 'p gc_heap option" where
  "par_add_gray_node pid node h =
     do { g \<leftarrow> heads h node;
          c \<leftarrow> color g;
          if c = Black then Some h
          else
            (let g1 = (if c = White then set_color Gray g else g) in
             if is_gray_listed g1 then Some (put_head node g1 h)
             else update_par (\<lambda>p. p\<lparr>gray_list := vec_push (gray_list p) node\<rparr>) pid
                    (put_head node (set_gray_listed True g1) h)) }"

definition set_root_node :: "addr \<Rightarrow> 'p gc_heap \<Rightarrow> 'p gc_heap option" where
  "set_root_node node h =
     do { g \<leftarrow> heads h node;
          if is_root g then Some h
          else
            do { let h1 = put_head node (insert_flag ROOT g) h;
                     pid = partition_id g
                 in do { m \<leftarrow> is_marking h1 pid;
                         if m then par_add_gray_node pid node h1 else Some h1 } } }"

definition contains :: "addr \<Rightarrow> 'p gc_heap \<Rightarrow> bool option" where
  "contains node h =
     do { g \<leftarrow> heads h node;
          (case get_par h (partition_id g) of
             None \<Rightarrow> Some False
           | Some p \<Rightarrow> map_option (\<lambda>xs. node \<in> set xs) (node_iter (heads h) (nodes p))) }"

subsection \<open>Well-formed heaps\<close>

text \<open>The nodes of a partition, in chain order.\<close>

definition par_list :: "'p gc_heap \<Rightarrow> nat \<Rightarrow> addr list" where
  "par_list h i =
     (case node_iter (heads h) (nodes (partitions h ! i)) of Some xs \<Rightarrow> xs | None \<Rightarrow> [])"

definition node_ok :: "'p gc_heap \<Rightarrow> nat \<Rightarrow> addr \<Rightarrow> bool" where
  "node_ok h i a \<longleftrightarrow>
     (\<exists>g. heads h a = Some g \<and> partition_id g = of_nat i \<and> color g \<noteq> None \<and>
          type_info h (dtype g) \<noteq> None \<and> payloads h a \<noteq> None)"

definition in_par :: "'p gc_heap \<Rightarrow> nat \<Rightarrow> addr \<Rightarrow> bool" where
  "in_par h i a \<longleftrightarrow> (\<exists>g. heads h a = Some g \<and> unat (partition_id g) = i)"

definition hcolor :: "'p gc_heap \<Rightarrow> addr \<Rightarrow> tri_color option" where
  "hcolor h a = Option.bind (heads h a) color"

definition hroot :: "'p gc_heap \<Rightarrow> addr \<Rightarrow> bool" where
  "hroot h a \<longleftrightarrow> (\<exists>g. heads h a = Some g \<and> is_root_or_local g)"

definition hlisted :: "'p gc_heap \<Rightarrow> addr \<Rightarrow> bool" where
  "hlisted h a \<longleftrightarrow> (\<exists>g. heads h a = Some g \<and> is_gray_listed g)"

abbreviation glist :: "'p gc_heap \<Rightarrow> nat \<Rightarrow> addr list" where
  "glist h i \<equiv> gray_list (partitions h ! i)"

abbreviation pmarking :: "'p gc_heap \<Rightarrow> nat \<Rightarrow> bool" where
  "pmarking h i \<equiv> marking (partitions h ! i)"

text \<open>
  A gray list holds nodes of its partition, and every node that carries \<open>GRAY_LISTED\<close> is in
  the list of its partition.
\<close>

definition gray_ok :: "'p gc_heap \<Rightarrow> nat \<Rightarrow> bool" where
  "gray_ok h i \<longleftrightarrow>
     (\<forall>a\<in>set (glist h i). in_par h i a) \<and>
     (\<forall>a. in_par h i a \<longrightarrow> hlisted h a \<longrightarrow> a \<in> set (glist h i))"

text \<open>
  Every partition's chain is finite and holds nodes of that partition, with a colour, a
  registered type and a payload; every allocated node is in the chain of its partition; the
  gray lists are sound.
\<close>

definition heap_ok :: "'p gc_heap \<Rightarrow> bool" where
  "heap_ok h \<longleftrightarrow>
     length (partitions h) \<le> 2 ^ 16 \<and>
     (\<forall>i<length (partitions h).
        chain (heads h) (nodes (partitions h ! i)) (par_list h i) \<and>
        (\<forall>a\<in>set (par_list h i). node_ok h i a) \<and> gray_ok h i) \<and>
     dom (heads h) \<subseteq> (\<Union>i<length (partitions h). set (par_list h i))"

lemma par_list_chain: "chain (heads h) (nodes (partitions h ! i)) xs \<Longrightarrow> par_list h i = xs"
  by (simp add: par_list_def node_iter_chain)

lemma unat_of_nat_u16: "i < 2 ^ 16 \<Longrightarrow> unat (of_nat i :: u16) = i"
  by (simp add: unat_of_nat)

lemma heap_ok_len: "heap_ok h \<Longrightarrow> i < length (partitions h) \<Longrightarrow> i < 2 ^ 16"
  by (auto simp: heap_ok_def)

lemma heap_ok_chain:
  "heap_ok h \<Longrightarrow> i < length (partitions h) \<Longrightarrow>
     chain (heads h) (nodes (partitions h ! i)) (par_list h i)"
  by (simp add: heap_ok_def)

lemma heap_ok_distinct:
  "heap_ok h \<Longrightarrow> i < length (partitions h) \<Longrightarrow> distinct (par_list h i)"
  by (blast dest: heap_ok_chain chain_distinct)

lemma heap_ok_node:
  assumes "heap_ok h" "i < length (partitions h)" "a \<in> set (par_list h i)"
  obtains g c info v where "heads h a = Some g" "partition_id g = of_nat i"
    "unat (partition_id g) = i" "color g = Some c" "type_info h (dtype g) = Some info"
    "payloads h a = Some v"
proof -
  from assms have "node_ok h i a" by (simp add: heap_ok_def)
  then obtain g where g: "heads h a = Some g" "partition_id g = of_nat i" "color g \<noteq> None"
    "type_info h (dtype g) \<noteq> None" "payloads h a \<noteq> None"
    unfolding node_ok_def by blast
  moreover have "unat (partition_id g) = i"
    using g(2) unat_of_nat_u16 [OF heap_ok_len [OF assms(1,2)]] by simp
  ultimately show thesis using that by auto
qed

lemma heap_ok_in_list:
  assumes ok: "heap_ok h" and a: "heads h a = Some g"
  shows "unat (partition_id g) < length (partitions h)"
    and "a \<in> set (par_list h (unat (partition_id g)))"
proof -
  from a have "a \<in> dom (heads h)" by blast
  with ok obtain i where i: "i < length (partitions h)" "a \<in> set (par_list h i)"
    by (auto simp: heap_ok_def)
  from heap_ok_node [OF ok i] a have "unat (partition_id g) = i" by fastforce
  with i show "unat (partition_id g) < length (partitions h)"
    "a \<in> set (par_list h (unat (partition_id g)))" by auto
qed

lemma heap_ok_member_iff:
  assumes "heap_ok h" "i < length (partitions h)"
  shows "a \<in> set (par_list h i) \<longleftrightarrow> in_par h i a"
  unfolding in_par_def using assms heap_ok_in_list heap_ok_node by metis

lemma heap_ok_gray: "heap_ok h \<Longrightarrow> i < length (partitions h) \<Longrightarrow> gray_ok h i"
  by (simp add: heap_ok_def)

lemma in_par_unique: "in_par h i a \<Longrightarrow> in_par h j a \<Longrightarrow> i = j"
  by (auto simp: in_par_def)

lemma in_par_bound: "heap_ok h \<Longrightarrow> in_par h i a \<Longrightarrow> i < length (partitions h)"
  by (auto simp: in_par_def dest: heap_ok_in_list(1))

lemma heap_ok_color: "heap_ok h \<Longrightarrow> heads h a = Some g \<Longrightarrow> \<exists>c. color g = Some c"
  by (rule heap_ok_node [OF _ heap_ok_in_list]) auto

lemma heap_ok_live:
  assumes "heap_ok h" "heads h a = Some g"
  obtains c info v p where "color g = Some c" "type_info h (dtype g) = Some info"
    "payloads h a = Some v" "get_par h (partition_id g) = Some p"
  using heap_ok_node [OF assms(1) heap_ok_in_list [OF assms]] assms
    heap_ok_in_list(1) [OF assms] by (fastforce simp: get_par_Some)

text \<open>A step that changes colours, gray lists and marking flags only.\<close>

lemma par_list_mark_frame:
  assumes "mark_frame h h'" "i < length (partitions h)"
    and "chain (heads h) (nodes (partitions h ! i)) (par_list h i)"
  shows "par_list h' i = par_list h i" "nodes (partitions h' ! i) = nodes (partitions h ! i)"
proof -
  have "map par_shape (partitions h') = map par_shape (partitions h)"
    using assms(1) by (simp add: mark_frame_def)
  then have "par_shape (partitions h' ! i) = par_shape (partitions h ! i)"
    using assms(2) by (metis length_map nth_map)
  then show n: "nodes (partitions h' ! i) = nodes (partitions h ! i)" by (simp add: par_shape_def)
  have "chain (heads h') (nodes (partitions h' ! i)) (par_list h i)"
    unfolding n chain_mark_frame [OF assms(1)] by (rule assms(3))
  then show "par_list h' i = par_list h i" by (simp add: par_list_def node_iter_chain)
qed

lemma hroot_mark_frame: "mark_frame h h' \<Longrightarrow> hroot h' a = hroot h a"
  using mark_frame_shape [of h h' a]
  by (cases "heads h a"; cases "heads h' a") (auto simp: hroot_def dest: shape_eqD(8))

lemma in_par_mark_frame: "mark_frame h h' \<Longrightarrow> in_par h' i a = in_par h i a"
  using mark_frame_shape [of h h' a]
  by (cases "heads h a"; cases "heads h' a") (auto simp: in_par_def dest: shape_eqD(5))

lemma heap_ok_mark_frame:
  assumes ok: "heap_ok h" and fr: "mark_frame h h'"
    and col: "\<And>a g. heads h' a = Some g \<Longrightarrow> color g \<noteq> None"
    and gray: "\<And>i. i < length (partitions h') \<Longrightarrow> gray_ok h' i"
  shows "heap_ok h'"
proof -
  note ff = mark_frame_fields [OF fr]
  have list: "par_list h' i = par_list h i" "nodes (partitions h' ! i) = nodes (partitions h ! i)"
    if "i < length (partitions h)" for i
    using par_list_mark_frame [OF fr that heap_ok_chain [OF ok that]] by auto
  have "node_ok h' i a" if i: "i < length (partitions h)" and a: "a \<in> set (par_list h i)" for i a
  proof -
    from heap_ok_node [OF ok i a] obtain g info v where g: "heads h a = Some g"
      "partition_id g = of_nat i" "type_info h (dtype g) = Some info" "payloads h a = Some v"
      by metis
    from mark_frame_head [OF fr g(1)] obtain g' where g': "heads h' a = Some g'" "shape g' = shape g" .
    with g col [OF g'(1)] show ?thesis
      by (auto simp: node_ok_def ff dest: shape_eqD)
  qed
  with ok list gray show ?thesis
    by (simp add: heap_ok_def ff chain_mark_frame [OF fr])
qed

subsection \<open>Observations of a heap after an update\<close>

lemma obs_put_head [simp]:
  "hcolor (put_head a g h) b = (if b = a then color g else hcolor h b)"
  "hroot (put_head a g h) b = (if b = a then is_root_or_local g else hroot h b)"
  "hlisted (put_head a g h) b = (if b = a then is_gray_listed g else hlisted h b)"
  "in_par (put_head a g h) i b = (if b = a then unat (partition_id g) = i else in_par h i b)"
  by (simp_all add: hcolor_def hroot_def hlisted_def in_par_def)

lemma obs_heads:
  assumes "heads h' = heads h"
  shows "hcolor h' = hcolor h" "hroot h' = hroot h" "hlisted h' = hlisted h" "in_par h' = in_par h"
  using assms by (simp_all add: fun_eq_iff hcolor_def hroot_def hlisted_def in_par_def)

lemma obs_put_par [simp]:
  "hcolor (put_par q p h) = hcolor h" "hroot (put_par q p h) = hroot h"
  "hlisted (put_par q p h) = hlisted h" "in_par (put_par q p h) = in_par h"
  by (rule obs_heads, simp)+

lemma obs_head:
  assumes "heads h a = Some g"
  shows "hcolor h a = color g" "hroot h a = is_root_or_local g" "hlisted h a = is_gray_listed g"
    "in_par h i a \<longleftrightarrow> unat (partition_id g) = i"
  using assms by (simp_all add: hcolor_def hroot_def hlisted_def in_par_def)

lemma heap_ok_hcolor: "heap_ok h \<Longrightarrow> hcolor h a = None \<longleftrightarrow> heads h a = None"
  by (cases "heads h a") (auto simp: hcolor_def dest: heap_ok_color)

lemma heap_ok_hcolor_dom: "heap_ok h \<Longrightarrow> a \<in> dom (heads h) \<Longrightarrow> hcolor h a \<noteq> None"
  using heap_ok_hcolor [of h a] by auto

lemma heap_okI_mark_frame:
  assumes "heap_ok h" "mark_frame h h'"
    and "\<And>a. a \<in> dom (heads h) \<Longrightarrow> hcolor h' a \<noteq> None"
    and "\<And>i. i < length (partitions h) \<Longrightarrow> gray_ok h' i"
  shows "heap_ok h'"
proof (rule heap_ok_mark_frame [OF assms(1,2)])
  fix a g assume g: "heads h' a = Some g"
  then have "a \<in> dom (heads h)" using mark_frame_fields(11) [OF assms(2)] by blast
  from assms(3) [OF this] g show "color g \<noteq> None" by (simp add: hcolor_def)
qed (simp add: assms(4) mark_frame_fields [OF assms(2)])

text \<open>Pushing a node on a gray list.\<close>

definition push_gray :: "u16 \<Rightarrow> addr \<Rightarrow> gc_partition \<Rightarrow> 'p gc_heap \<Rightarrow> 'p gc_heap" where
  "push_gray q c p h = put_par q (p\<lparr>gray_list := vec_push (gray_list p) c\<rparr>) h"

lemma push_gray_obs:
  assumes "get_par h q = Some p"
  shows "mark_frame h (push_gray q c p h)" "heads (push_gray q c p h) = heads h"
    "set (glist (push_gray q c p h) j) = set (glist h j) \<union> (if j = unat q then {c} else {})"
    "pmarking (push_gray q c p h) j = pmarking h j"
proof -
  have p: "unat q < length (partitions h)" "p = partitions h ! unat q"
    using assms by (simp_all add: get_par_Some)
  show "mark_frame h (push_gray q c p h)"
    unfolding push_gray_def by (rule mark_frame_put_par [OF assms]) (simp add: par_shape_def)
  show "heads (push_gray q c p h) = heads h" by (simp add: push_gray_def)
  show "set (glist (push_gray q c p h) j) = set (glist h j) \<union> (if j = unat q then {c} else {})"
    using p by (cases "j = unat q") (auto simp: push_gray_def vec_push_def)
  show "pmarking (push_gray q c p h) j = pmarking h j"
    using p by (simp add: push_gray_def field_list_update [where f = marking])
qed

end
