(* ===== verification/Gc_Trace.thy ===== *)
theory Gc_Trace
  imports Gc_Heap
begin

section \<open>Tracing and traversal (src/src/trace.rs)\<close>

text \<open>
  \<open>GcTraceCtx\<close>, the trace of one node, the reference graph of a heap, and
  \<open>GcHeap::traverse\<close>.  A trace function is given by the nodes it submits,
  in order; \<open>add_node\<close> drops the ones already collected.
\<close>

subsection \<open>The trace context\<close>

record trace_ctx =
  traced_nodes :: "addr list"
  ctx_opaque :: addr

definition create_trace_ctx :: "'p gc_heap \<Rightarrow> trace_ctx" where
  "create_trace_ctx h = \<lparr>traced_nodes = [], ctx_opaque = opaque h\<rparr>"

definition ctx_add_node :: "addr \<Rightarrow> trace_ctx \<Rightarrow> trace_ctx" where
  "ctx_add_node node ctx =
     (if node \<in> set (traced_nodes ctx) then ctx
      else ctx\<lparr>traced_nodes := vec_push (traced_nodes ctx) node\<rparr>)"

definition take_nodes :: "trace_ctx \<Rightarrow> addr list \<times> trace_ctx" where
  "take_nodes ctx = (traced_nodes ctx, ctx\<lparr>traced_nodes := []\<rparr>)"

text \<open>A trace implementation hands its references to \<open>add_node\<close> one by one.\<close>

definition run_trace :: "addr list \<Rightarrow> trace_ctx \<Rightarrow> trace_ctx" where
  "run_trace refs ctx = fold ctx_add_node refs ctx"

text \<open>
  \<open>gctype_trace\<close> reads the payload behind the head, so a node whose payload has been
  dropped faults.
\<close>

definition gctype_trace :: "'p gc_type_info \<Rightarrow> addr \<Rightarrow> 'p gc_heap \<Rightarrow> trace_ctx \<Rightarrow> trace_ctx option" where
  "gctype_trace info node h ctx =
     do { v \<leftarrow> payloads h node; Some (run_trace (ti_trace_fn info v) ctx) }"

definition trace_node :: "'p gc_heap \<Rightarrow> addr \<Rightarrow> trace_ctx \<Rightarrow> trace_ctx option" where
  "trace_node h node ctx =
     do { g \<leftarrow> heads h node;
          info \<leftarrow> type_info h (dtype g);
          gctype_trace info node h ctx }"

definition gc_children :: "'p gc_type_info \<Rightarrow> 'p \<Rightarrow> 'p gc_heap \<Rightarrow> addr list" where
  "gc_children info v h = traced_nodes (run_trace (ti_trace_fn info v) (create_trace_ctx h))"

lemma ctx_add_node_set: "set (traced_nodes (ctx_add_node n ctx)) = insert n (set (traced_nodes ctx))"
  by (auto simp: ctx_add_node_def vec_push_def)

lemma run_trace_set: "set (traced_nodes (run_trace refs ctx)) = set (traced_nodes ctx) \<union> set refs"
  unfolding run_trace_def by (induction refs arbitrary: ctx) (auto simp: ctx_add_node_set)

lemma run_trace_distinct:
  "distinct (traced_nodes ctx) \<Longrightarrow> distinct (traced_nodes (run_trace refs ctx))"
  unfolding run_trace_def
  by (induction refs arbitrary: ctx) (auto simp: ctx_add_node_def vec_push_def)

subsection \<open>The reference graph\<close>

text \<open>The references the payload of a node submits; \<open>None\<close> when it cannot be traced.\<close>

definition refs_of :: "'p gc_heap \<Rightarrow> addr \<Rightarrow> addr list option" where
  "refs_of h a =
     do { g \<leftarrow> heads h a; info \<leftarrow> type_info h (dtype g); v \<leftarrow> payloads h a;
          Some (ti_trace_fn info v) }"

definition edge :: "'p gc_heap \<Rightarrow> addr \<Rightarrow> addr \<Rightarrow> bool" where
  "edge h a b \<longleftrightarrow> (\<exists>rs. refs_of h a = Some rs \<and> b \<in> set rs)"

lemma trace_node_refs:
  "trace_node h a ctx = map_option (\<lambda>rs. run_trace rs ctx) (refs_of h a)"
  by (cases "heads h a"; cases "payloads h a")
     (auto simp: trace_node_def refs_of_def gctype_trace_def split: Option.bind_split)

lemma refs_of_cong:
  assumes "mark_frame h h'"
  shows "refs_of h' a = refs_of h a"
proof -
  have "map_option shape (heads h' a) = map_option shape (heads h a)"
    using assms by (simp add: mark_frame_def)
  then show ?thesis
    by (cases "heads h a"; cases "heads h' a")
       (auto simp: refs_of_def mark_frame_fields [OF assms] dest: shape_eqD)
qed

lemma edge_mark_frame: "mark_frame h h' \<Longrightarrow> edge h' a b = edge h a b"
  by (simp add: edge_def refs_of_cong)

lemma refs_of_heap_ok: "heap_ok h \<Longrightarrow> heads h a = Some g \<Longrightarrow> \<exists>rs. refs_of h a = Some rs"
  by (erule (1) heap_ok_live) (auto simp: refs_of_def)

text \<open>Every reference of an allocated node leads to an allocated node.\<close>

definition refs_closed :: "'p gc_heap \<Rightarrow> bool" where
  "refs_closed h \<longleftrightarrow> (\<forall>a b. edge h a b \<longrightarrow> b \<in> dom (heads h))"

subsection \<open>Traversal\<close>

definition traverse_start :: "u16 \<Rightarrow> 'p gc_heap \<Rightarrow> 'p gc_heap option" where
  "traverse_start pid h =
     do { p \<leftarrow> get_par h pid;
          for_nodes (\<lambda>a. update_head (set_traverse_visited False) a) (nodes p) h }"

text \<open>\<open>while let Some(child) = gcx.traced_nodes.pop()\<close>: the last submitted child first.\<close>

definition push_children ::
  "'p gc_heap \<Rightarrow> addr \<Rightarrow> addr list \<Rightarrow> (addr \<times> addr option) list \<Rightarrow> (addr \<times> addr option) list option" where
  "push_children h cur children stack =
     fold_opt (\<lambda>child st.
        do { g \<leftarrow> heads h child;
             Some (if traverse_visited g then st else vec_push st (child, Some cur)) })
       (rev children) stack"

text \<open>
  The work list is a \<open>VecDeque\<close> used with \<open>pop_front\<close> and \<open>push_back\<close>.  Its measure is the
  number of unvisited nodes, then its length.  The callback is a function on a state of its
  own.  The context is empty again after every node.
\<close>

definition unvisited :: "'p gc_heap \<Rightarrow> addr set" where
  "unvisited h = {a. \<exists>g. heads h a = Some g \<and> \<not> traverse_visited g}"

function traverse_loop ::
  "(addr \<Rightarrow> addr option \<Rightarrow> 's \<Rightarrow> 's) \<Rightarrow> u16 option \<Rightarrow> (addr \<times> addr option) list
     \<Rightarrow> 's \<Rightarrow> 'p gc_heap \<Rightarrow> ('s \<times> 'p gc_heap) option" where
  "traverse_loop callback flt [] s h = Some (s, h)"
| "traverse_loop callback flt ((cur, parent) # stack) s h =
     (case heads h cur of
        None \<Rightarrow> None
      | Some g \<Rightarrow>
          if traverse_visited g then traverse_loop callback flt stack s h
          else
            (let h1 = put_head cur (set_traverse_visited True g) h;
                 s1 = (if flt = None \<or> flt = Some (partition_id g) then callback cur parent s
                       else s)
             in do { ctx \<leftarrow> trace_node h1 cur (create_trace_ctx h1);
                     st \<leftarrow> push_children h1 cur (traced_nodes ctx) stack;
                     traverse_loop callback flt st s1 h1 }))"
  by pat_completeness auto

lemma unvisited_visit:
  assumes "heads h a = Some g" "\<not> traverse_visited g"
  shows "card (unvisited (put_head a (set_traverse_visited True g) h)) < card (unvisited h)"
proof -
  have "unvisited (put_head a (set_traverse_visited True g) h) = unvisited h - {a}"
    by (auto simp: unvisited_def)
  moreover have "a \<in> unvisited h" using assms by (simp add: unvisited_def)
  ultimately show ?thesis by (metis card_Diff1_less finite)
qed

termination traverse_loop
  by (relation "measures [\<lambda>(_, _, _, _, h). card (unvisited h), \<lambda>(_, _, stack, _, _). length stack]")
     (auto simp: unvisited_visit)

definition traverse ::
  "addr \<Rightarrow> u16 option \<Rightarrow> (addr \<Rightarrow> addr option \<Rightarrow> 's \<Rightarrow> 's) \<Rightarrow> 's \<Rightarrow> 'p gc_heap
     \<Rightarrow> ('s \<times> 'p gc_heap) option" where
  "traverse node flt callback s h = traverse_loop callback flt [(node, None)] s h"

subsection \<open>What a traversal visits\<close>

text \<open>The visitor the properties use logs every call.\<close>

definition log_visit :: "addr \<Rightarrow> addr option \<Rightarrow> (addr \<times> addr option) list \<Rightarrow> (addr \<times> addr option) list" where
  "log_visit node parent lg = lg @ [(node, parent)]"

definition passes_filter :: "u16 option \<Rightarrow> 'p gc_heap \<Rightarrow> addr \<Rightarrow> bool" where
  "passes_filter flt h a \<longleftrightarrow> (\<exists>g. heads h a = Some g \<and> (flt = None \<or> flt = Some (partition_id g)))"

definition visited :: "'p gc_heap \<Rightarrow> addr set" where
  "visited h = {a. \<exists>g. heads h a = Some g \<and> traverse_visited g}"

lemma visited_visit:
  "heads h a = Some g \<Longrightarrow>
     visited (put_head a (set_traverse_visited True g) h) = insert a (visited h)"
  by (auto simp: visited_def)

lemma push_children_spec:
  fixes stack :: "(addr \<times> addr option) list"
  assumes "set cs \<subseteq> dom (heads h)"
  shows "\<exists>st. push_children h cur cs stack = Some st
    \<and> set (map fst stack) \<subseteq> set (map fst st)
    \<and> set (map fst st) \<subseteq> set (map fst stack) \<union> set cs
    \<and> set cs \<subseteq> visited h \<union> set (map fst st)"
proof -
  let ?P = "\<lambda>xs (st :: (addr \<times> addr option) list). set (map fst stack) \<subseteq> set (map fst st)
    \<and> set (map fst st) \<subseteq> set (map fst stack) \<union> set xs \<and> set xs \<subseteq> visited h \<union> set (map fst st)"
  have "\<exists>st. push_children h cur cs stack = Some st \<and> ?P (rev cs) st"
    unfolding push_children_def
  proof (rule fold_opt_prefix_rule)
    fix ys x zs t
    assume a: "rev cs = ys @ x # zs" "?P ys t"
    from a(1) have "x \<in> set cs" by (metis in_set_conv_decomp set_rev)
    with assms obtain g where g: "heads h x = Some g" by blast
    let ?t' = "if traverse_visited g then t else vec_push t (x, Some cur)"
    have "?P (ys @ [x]) ?t'"
    proof (cases "traverse_visited g")
      case True
      with g have "x \<in> visited h" by (simp add: visited_def)
      with a(2) True show ?thesis by auto
    next
      case False
      with a(2) show ?thesis by (auto simp: vec_push_def)
    qed
    with g show "\<exists>t'. (do { g \<leftarrow> heads h x;
        Some (if traverse_visited g then t else vec_push t (x, Some cur)) }) = Some t'
        \<and> ?P (ys @ [x]) t'"
      by simp
  qed simp
  then show ?thesis by simp
qed

text \<open>
  \<open>traverse\<close> never clears a flag and does not enter a node that has it: what it reaches from a node
  are the paths through nodes that were not visited before the call.
\<close>

inductive fresh_reach :: "'p gc_heap \<Rightarrow> addr \<Rightarrow> addr \<Rightarrow> bool" for h :: "'p gc_heap" and node :: addr where
  start: "node \<notin> visited h \<Longrightarrow> fresh_reach h node node"
| step: "fresh_reach h node a \<Longrightarrow> edge h a b \<Longrightarrow> b \<notin> visited h \<Longrightarrow> fresh_reach h node b"

lemma fresh_reach_new:
  assumes "fresh_reach h node a"
  shows "a \<notin> visited h" "node \<notin> visited h"
  using assms by (induction rule: fresh_reach.induct) simp_all

lemma fresh_reach_clean:
  assumes "visited h = {}"
  shows "fresh_reach h node = (edge h)\<^sup>*\<^sup>* node"
proof -
  have "fresh_reach h node a \<Longrightarrow> (edge h)\<^sup>*\<^sup>* node a" for a
    by (induction rule: fresh_reach.induct) (simp_all add: rtranclp.rtrancl_into_rtrancl)
  moreover have "(edge h)\<^sup>*\<^sup>* node a \<Longrightarrow> fresh_reach h node a" for a
    by (induction rule: rtranclp_induct) (auto simp: assms intro: fresh_reach.intros)
  ultimately show ?thesis by (auto simp: fun_eq_iff)
qed

text \<open>
  The invariant of the work list, relative to the heap \<open>h0\<close> and the start node.
\<close>

definition trav_inv ::
  "'p gc_heap \<Rightarrow> addr \<Rightarrow> u16 option \<Rightarrow> (addr \<times> addr option) list \<Rightarrow> (addr \<times> addr option) list
     \<Rightarrow> 'p gc_heap \<Rightarrow> bool" where
  "trav_inv h0 node flt stack lg h \<longleftrightarrow>
     mark_frame h0 h \<and>
     distinct (map fst lg) \<and> set (map fst lg) = {a \<in> visited h - visited h0. passes_filter flt h0 a} \<and>
     visited h0 \<subseteq> visited h \<and>
     visited h \<union> set (map fst stack) \<subseteq> visited h0 \<union> Collect (fresh_reach h0 node) \<and>
     node \<in> visited h \<union> set (map fst stack) \<and>
     (\<forall>a b. a \<in> visited h - visited h0 \<longrightarrow> edge h0 a b \<longrightarrow> b \<in> visited h \<union> set (map fst stack))"

lemma reach_alloc:
  assumes "refs_closed h" "node \<in> dom (heads h)" "a \<in> visited h \<union> Collect (fresh_reach h node)"
  shows "a \<in> dom (heads h)"
proof -
  have "a \<in> dom (heads h)" if "fresh_reach h node a"
    using that assms(1,2) by (induction rule: fresh_reach.induct) (auto simp: refs_closed_def)
  moreover have "a \<in> dom (heads h)" if "a \<in> visited h" using that by (auto simp: visited_def)
  ultimately show ?thesis using assms(3) by blast
qed

lemma traverse_loop_inv:
  assumes "heap_ok h0" "refs_closed h0" "node \<in> dom (heads h0)"
    and "trav_inv h0 node flt stack lg h"
  shows "\<exists>lg' h'. traverse_loop log_visit flt stack lg h = Some (lg', h')
    \<and> trav_inv h0 node flt [] lg' h'"
  using assms(4)
proof (induction "log_visit" flt stack lg h rule: traverse_loop.induct)
  case (1 flt s h)
  then show ?case by simp
next
  case (2 flt cur parent stack lg h)
  note inv = 2(3) [unfolded trav_inv_def]
  then have fr: "mark_frame h0 h" and reach: "cur \<in> visited h0 \<union> Collect (fresh_reach h0 node)" by auto
  have "cur \<in> dom (heads h0)" by (rule reach_alloc [OF assms(2,3) reach])
  then obtain g0 where g0: "heads h0 cur = Some g0" by blast
  from mark_frame_head [OF fr this] obtain g where g: "heads h cur = Some g" "shape g = shape g0" .
  show ?case
  proof (cases "traverse_visited g")
    case True
    with g(1) have "cur \<in> visited h" by (simp add: visited_def)
    then have "trav_inv h0 node flt stack lg h" using inv unfolding trav_inv_def by auto
    from 2(1) [OF g(1) True this] g(1) True show ?thesis by simp
  next
    case False
    let ?h1 = "put_head cur (set_traverse_visited True g) h"
    let ?lg = "if flt = None \<or> flt = Some (partition_id g) then log_visit cur parent lg else lg"
    have fr1: "mark_frame h0 ?h1"
      by (rule mark_frame_trans [OF fr mark_frame_put_head [OF g(1)]]) simp
    from refs_of_heap_ok [OF assms(1) g0] obtain rs where rs: "refs_of h0 cur = Some rs" by blast
    let ?ctx = "run_trace rs (create_trace_ctx ?h1)"
    have tr: "trace_node ?h1 cur (create_trace_ctx ?h1) = Some ?ctx"
      by (simp add: trace_node_refs refs_of_cong [OF fr1] rs)
    have cs: "set (traced_nodes ?ctx) = set rs" by (simp add: run_trace_set create_trace_ctx_def)
    have e: "edge h0 cur b \<longleftrightarrow> b \<in> set rs" for b by (simp add: edge_def rs)
    have "set rs \<subseteq> dom (heads h0)" using assms(2) e unfolding refs_closed_def by blast
    then have dom: "set (traced_nodes ?ctx) \<subseteq> dom (heads ?h1)"
      using mark_frame_fields(11) [OF fr1] cs by simp
    from push_children_spec [OF dom] obtain st where st:
      "push_children ?h1 cur (traced_nodes ?ctx) stack = Some st"
      "set (map fst stack) \<subseteq> set (map fst st)"
      "set (map fst st) \<subseteq> set (map fst stack) \<union> set rs" "set rs \<subseteq> visited ?h1 \<union> set (map fst st)"
      unfolding cs by blast
    have vis: "visited ?h1 = insert cur (visited h)" by (rule visited_visit [OF g(1)])
    have pas: "passes_filter flt h0 cur \<longleftrightarrow> flt = None \<or> flt = Some (partition_id g)"
      using g0 shape_eqD(5) [OF g(2)] by (simp add: passes_filter_def)
    have nv: "cur \<notin> visited h" using g(1) False by (simp add: visited_def)
    have nv0: "cur \<notin> visited h0" using inv nv by blast
    then have fc: "fresh_reach h0 node cur" using reach by simp
    have "{a \<in> visited ?h1 - visited h0. passes_filter flt h0 a} =
        {a \<in> visited h - visited h0. passes_filter flt h0 a} \<union> (if passes_filter flt h0 cur then {cur} else {})"
      using nv0 unfolding vis by auto
    then have lg: "distinct (map fst ?lg) \<and> set (map fst ?lg) = {a \<in> visited ?h1 - visited h0. passes_filter flt h0 a}"
      using inv nv pas by (auto simp: log_visit_def)
    let ?R = "visited h0 \<union> Collect (fresh_reach h0 node)"
    have "set rs \<subseteq> ?R" using e fresh_reach.step [OF fc] by blast
    moreover have "set (map fst stack) \<subseteq> ?R" using inv by auto
    ultimately have "set (map fst st) \<subseteq> ?R" using st(3) by blast
    moreover have "visited ?h1 \<subseteq> ?R" using inv reach unfolding vis by blast
    moreover have "visited h0 \<subseteq> visited ?h1" using inv unfolding vis by blast
    moreover have "node \<in> visited ?h1 \<union> set (map fst st)"
      using inv st(2) unfolding vis by auto
    moreover have "b \<in> visited ?h1 \<union> set (map fst st)" if "a \<in> visited ?h1 - visited h0" "edge h0 a b" for a b
    proof (cases "a = cur")
      case True
      with that(2) e st(4) show ?thesis by blast
    next
      case False
      with that inv have "b \<in> visited h \<union> insert cur (set (map fst stack))" unfolding vis by auto
      with st(2) show ?thesis unfolding vis by blast
    qed
    ultimately have "trav_inv h0 node flt st ?lg ?h1"
      unfolding trav_inv_def using fr1 lg by blast
    from 2(2) [OF g(1) False refl refl tr st(1) this] g(1) False tr st(1) show ?thesis
      by (simp add: Let_def)
  qed
qed

lemma traverse_reach:
  assumes "heap_ok h" "refs_closed h" "node \<in> dom (heads h)"
  shows "\<exists>lg h'. traverse node flt log_visit [] h = Some (lg, h') \<and> mark_frame h h'
    \<and> distinct (map fst lg)
    \<and> set (map fst lg) = {a. fresh_reach h node a \<and> passes_filter flt h a}
    \<and> visited h' = visited h \<union> {a. fresh_reach h node a}"
proof -
  have "trav_inv h node flt [(node, None)] [] h"
    by (auto simp: trav_inv_def intro: fresh_reach.start)
  from traverse_loop_inv [OF assms this] obtain lg h' where r:
    "traverse_loop log_visit flt [(node, None)] [] h = Some (lg, h')"
    "trav_inv h node flt [] lg h'" by blast
  from r(2) have inv: "mark_frame h h'" "distinct (map fst lg)"
    "set (map fst lg) = {a \<in> visited h' - visited h. passes_filter flt h a}" "visited h \<subseteq> visited h'"
    "visited h' \<subseteq> visited h \<union> Collect (fresh_reach h node)" "node \<in> visited h'"
    "\<And>a b. a \<in> visited h' - visited h \<Longrightarrow> edge h a b \<Longrightarrow> b \<in> visited h'"
    by (auto simp: trav_inv_def)
  have "a \<in> visited h' - visited h" if "fresh_reach h node a" for a
    using that
  proof (induction rule: fresh_reach.induct)
    case (step a b)
    with inv(7) show ?case by blast
  qed (use inv(6) in simp)
  then have "visited h' - visited h = {a. fresh_reach h node a}" using inv(5) by blast
  with inv(1-5) r(1) show ?thesis by (auto simp: traverse_def)
qed

text \<open>A traversal from a node that is visited already does nothing.\<close>

lemma traverse_again:
  assumes "node \<in> visited h"
  shows "traverse node flt cb s h = Some (s, h)"
  using assms by (auto simp: traverse_def visited_def)

end
