(* ===== verification/Gc_Mark.thy ===== *)
theory Gc_Mark
  imports Gc_Trace
begin

section \<open>Marking (src/src/mark_sweep.rs)\<close>

text \<open>
  The incremental tri-colour marker: \<open>mark_reset\<close>, \<open>mark_prepare\<close>, \<open>mark_grays\<close> and
  \<open>mark\<close>, then the tri-colour invariant they establish and keep, the termination of the
  loops, and what is black when marking is done.
\<close>

subsection \<open>Operations\<close>

definition heap_add_gray_node :: "addr \<Rightarrow> 'p gc_heap \<Rightarrow> 'p gc_heap option" where
  "heap_add_gray_node node h =
     do { g \<leftarrow> heads h node;
          c \<leftarrow> color g;
          if c \<noteq> Black then
            do { _ \<leftarrow> get_par h (partition_id g); par_add_gray_node (partition_id g) node h }
          else Some h }"

definition is_node_partition_marking :: "addr \<Rightarrow> 'p gc_heap \<Rightarrow> bool option" where
  "is_node_partition_marking node h = do { g \<leftarrow> heads h node; is_marking h (partition_id g) }"

definition mark_reset :: "u16 \<Rightarrow> 'p gc_heap \<Rightarrow> 'p gc_heap option" where
  "mark_reset pid h =
     do { p \<leftarrow> get_par h pid;
          h1 \<leftarrow> fold_opt (update_head (set_gray_listed False)) (gray_list p)
                  (put_par pid (p\<lparr>marking := False, gray_list := []\<rparr>) h);
          for_nodes (update_head (set_color White)) (nodes p) h1 }"

text \<open>One round of the seeding loop of \<open>mark_prepare\<close>, on the partition with index \<open>i\<close>.\<close>

definition update_par_at ::
  "(gc_partition \<Rightarrow> gc_partition) \<Rightarrow> nat \<Rightarrow> 'p gc_heap \<Rightarrow> 'p gc_heap option" where
  "update_par_at f i h =
     do { p \<leftarrow> vec_get (partitions h) i; Some (h\<lparr>partitions := (partitions h)[i := f p]\<rparr>) }"

definition push_gray_at :: "nat \<Rightarrow> addr \<Rightarrow> 'p gc_heap \<Rightarrow> 'p gc_heap option" where
  "push_gray_at i n = update_par_at (\<lambda>p. p\<lparr>gray_list := vec_push (gray_list p) n\<rparr>) i"

definition seed_first :: "nat \<Rightarrow> bool \<Rightarrow> addr \<Rightarrow> 'p gc_heap \<Rightarrow> 'p gc_heap option" where
  "seed_first i has_pending_grays n h =
     do { node \<leftarrow> heads h n;
          if is_root_or_local node then
            (let h1 = put_head n (set_color Gray node) h
             in if \<not> has_pending_grays then push_gray_at i n h1 else Some h1)
          else if \<not> has_pending_grays then Some (put_head n (set_color White node) h)
          else Some h }"

definition seed_second :: "nat \<Rightarrow> addr \<Rightarrow> 'p gc_heap \<Rightarrow> 'p gc_heap option" where
  "seed_second i n h =
     do { node \<leftarrow> heads h n;
          if is_root_or_local node then
            (let node1 = set_color Gray node in
             if \<not> is_gray_listed node1 then
               push_gray_at i n (put_head n (set_gray_listed True node1) h)
             else Some (put_head n node1 h))
          else Some h }"

definition seed_partition :: "nat \<Rightarrow> 'p gc_heap \<Rightarrow> 'p gc_heap option" where
  "seed_partition i h =
     do { p \<leftarrow> vec_get (partitions h) i;
          let has_pending_grays = (gray_list p \<noteq> []) in
          do { h1 \<leftarrow> for_nodes (seed_first i has_pending_grays) (nodes p) h;
               if has_pending_grays then for_nodes (seed_second i) (nodes p) h1 else Some h1 } }"

definition set_all_marking :: "'p gc_heap \<Rightarrow> 'p gc_heap" where
  "set_all_marking h = h\<lparr>partitions := map (\<lambda>p. p\<lparr>marking := True\<rparr>) (partitions h)\<rparr>"

definition mark_prepare :: "u16 \<Rightarrow> 'p gc_heap \<Rightarrow> 'p gc_heap option" where
  "mark_prepare pid h =
     (case get_par h pid of
        None \<Rightarrow> Some h
      | Some p \<Rightarrow>
          if marking p then Some h
          else fold_opt seed_partition [0..<length (partitions h)] (set_all_marking h))"

text \<open>
  The body of \<open>mark_grays\<close> for one gray node: trace it, shade its children from the last
  submitted to the first, flush the children of other partitions, blacken it.
\<close>

definition shade_child ::
  "u16 \<Rightarrow> addr \<Rightarrow> (u16 \<times> addr) list \<times> 'p gc_heap \<Rightarrow> ((u16 \<times> addr) list \<times> 'p gc_heap) option" where
  "shade_child pid ch = (\<lambda>(cross_buffer, h).
     do { child \<leftarrow> heads h ch;
          c \<leftarrow> color child;
          if c = White \<or> c = Gray then
            (let h1 = put_head ch (set_gray_listed True (set_color Gray child)) h;
                 child_pid = partition_id child
             in if child_pid = pid then
                  do { h2 \<leftarrow> update_par (\<lambda>p. p\<lparr>gray_list := vec_push (gray_list p) ch\<rparr>) pid h1;
                       Some (cross_buffer, h2) }
                else Some (vec_push cross_buffer (child_pid, ch), h1))
          else Some (cross_buffer, h) })"

definition flush_cross :: "(u16 \<times> addr) list \<Rightarrow> 'p gc_heap \<Rightarrow> 'p gc_heap option" where
  "flush_cross buf h =
     fold_opt (\<lambda>(cpid, n). update_par (\<lambda>p. p\<lparr>gray_list := vec_push (gray_list p) n\<rparr>) cpid) buf h"

definition blacken :: "u16 \<Rightarrow> addr \<Rightarrow> 'p gc_heap \<Rightarrow> 'p gc_heap option" where
  "blacken pid node h =
     do { gcx \<leftarrow> trace_node h node (create_trace_ctx h);
          (cross_buffer, h1) \<leftarrow> fold_opt (shade_child pid) (rev (traced_nodes gcx)) ([], h);
          h2 \<leftarrow> flush_cross cross_buffer h1;
          update_head (set_color Black) node h2 }"

text \<open>The nodes that are not black: what the loops make progress on.\<close>

definition not_black :: "'p gc_heap \<Rightarrow> addr set" where
  "not_black h = {a. \<exists>g. heads h a = Some g \<and> color g \<noteq> Some Black}"

lemma not_black_put_head:
  "not_black (put_head a g h) = (if color g = Some Black then not_black h - {a} else insert a (not_black h))"
  by (auto simp: not_black_def)

lemma not_black_put_par [simp]: "not_black (put_par q p h) = not_black h"
  by (simp add: not_black_def)

lemma shade_child_not_black:
  assumes "shade_child pid ch (buf, h) = Some (buf', h')"
  shows "not_black h' = not_black h"
proof -
  from assms obtain g c where g: "heads h ch = Some g" "color g = Some c"
    by (auto simp: shade_child_def bind_eq_Some_conv)
  have "ch \<in> not_black h" if "c \<noteq> Black" using that g by (simp add: not_black_def)
  with assms g show ?thesis
    by (auto simp: shade_child_def bind_eq_Some_conv update_par_Some not_black_put_head Let_def
        split: if_splits)
qed

lemma shade_children_not_black:
  "fold_opt (shade_child pid) cs (buf, h) = Some (buf', h') \<Longrightarrow> not_black h' = not_black h"
proof (induction cs arbitrary: buf h)
  case Nil
  then show ?case by simp
next
  case (Cons c cs)
  then obtain r where "shade_child pid c (buf, h) = Some r" "fold_opt (shade_child pid) cs r = Some (buf', h')"
    by (auto simp: bind_eq_Some_conv)
  then show ?case by (metis Cons.IH shade_child_not_black surj_pair)
qed

lemma flush_cross_heads: "flush_cross buf h = Some h' \<Longrightarrow> heads h' = heads h"
  unfolding flush_cross_def
  by (induction buf arbitrary: h) (fastforce simp: bind_eq_Some_conv update_par_Some)+

lemma blacken_Some:
  "blacken pid node h = Some h' \<longleftrightarrow>
     (\<exists>gcx buf h1 h2. trace_node h node (create_trace_ctx h) = Some gcx \<and>
        fold_opt (shade_child pid) (rev (traced_nodes gcx)) ([], h) = Some (buf, h1) \<and>
        flush_cross buf h1 = Some h2 \<and> update_head (set_color Black) node h2 = Some h')"
  by (auto simp: blacken_def bind_eq_Some_conv)

lemma blackenE:
  assumes "blacken pid node h = Some h'"
  obtains gcx buf h1 h2 where "trace_node h node (create_trace_ctx h) = Some gcx"
    "fold_opt (shade_child pid) (rev (traced_nodes gcx)) ([], h) = Some (buf, h1)"
    "flush_cross buf h1 = Some h2" "update_head (set_color Black) node h2 = Some h'"
  using assms unfolding blacken_Some by (elim exE conjE) (rule that)

lemma blacken_not_black:
  assumes "blacken pid node h = Some h'"
  shows "not_black h' = not_black h - {node}"
proof -
  from assms obtain gcx buf h1 h2 where s:
    "trace_node h node (create_trace_ctx h) = Some gcx"
    "fold_opt (shade_child pid) (rev (traced_nodes gcx)) ([], h) = Some (buf, h1)"
    "flush_cross buf h1 = Some h2" "update_head (set_color Black) node h2 = Some h'"
    by (rule blackenE)
  have "not_black h2 = not_black h1"
    unfolding not_black_def flush_cross_heads [OF s(3)] by (rule refl)
  also have "\<dots> = not_black h" by (rule shade_children_not_black [OF s(2)])
  finally have eq: "not_black h2 = not_black h" .
  from s(4) obtain g where "h' = put_head node (set_color Black g) h2"
    by (auto simp: update_head_Some)
  then show ?thesis by (simp add: not_black_put_head eq)
qed

lemma blacken_progress:
  assumes "blacken pid node h = Some h'" "heads h node = Some g" "color g = Some Gray"
  shows "card (not_black h') < card (not_black h)"
proof -
  have "node \<in> not_black h" using assms(2,3) by (simp add: not_black_def)
  then show ?thesis unfolding blacken_not_black [OF assms(1)] by (metis card_Diff1_less finite)
qed

text \<open>
  The \<open>while let\<close> of \<open>mark_grays\<close>.  A round that blackens leaves fewer nodes that are not
  black; a round that skips a node leaves a shorter gray list.
\<close>

function mark_loop :: "u16 \<Rightarrow> usize \<Rightarrow> usize \<Rightarrow> 'p gc_heap \<Rightarrow> (bool \<times> 'p gc_heap) option" where
  "mark_loop pid max_steps cnt h =
     (case get_par h pid of
        None \<Rightarrow> None
      | Some p \<Rightarrow>
          (case vec_pop (gray_list p) of
             None \<Rightarrow> Some (True, h)
           | Some (node_ptr, rest) \<Rightarrow>
               (case heads h node_ptr of
                  None \<Rightarrow> None
                | Some node \<Rightarrow>
                    (let node1 = set_gray_listed False node;
                         h1 = put_head node_ptr node1 (put_par pid (p\<lparr>gray_list := rest\<rparr>) h)
                     in case color node1 of
                          None \<Rightarrow> None
                        | Some c \<Rightarrow>
                            if c = Gray then
                              (if cnt \<ge> max_steps then
                                 map_option (Pair False)
                                   (update_par (\<lambda>q. q\<lparr>gray_list := vec_push (gray_list q) node_ptr\<rparr>)
                                      pid h1)
                               else
                                 (case blacken pid node_ptr h1 of
                                    None \<Rightarrow> None
                                  | Some h2 \<Rightarrow> mark_loop pid max_steps (cnt + 1) h2))
                            else mark_loop pid max_steps cnt h1))))"
  by pat_completeness auto

definition gray_len :: "'p gc_heap \<Rightarrow> u16 \<Rightarrow> nat" where
  "gray_len h pid = (case get_par h pid of None \<Rightarrow> 0 | Some p \<Rightarrow> length (gray_list p))"

lemma not_black_flag:
  "heads h a = Some g \<Longrightarrow> not_black (put_head a (set_gray_listed b g) (put_par q p h)) = not_black h"
  by (auto simp: not_black_def)

termination mark_loop
proof (relation "measures [\<lambda>(_, _, _, h). card (not_black h), \<lambda>(pid, _, _, h). gray_len h pid]",
    goal_cases)
  case 1
  then show ?case by simp
next
  case (2 pid max_steps cnt h p ptr node_ptr rest node node1 h1 c h2)
  then have "heads h1 node_ptr = Some node1" "not_black h1 = not_black h" "color node1 = Some Gray"
    by (auto simp: not_black_flag)
  with blacken_progress [OF 2(10)] show ?case by simp
next
  case (3 pid max_steps cnt h p ptr node_ptr rest node node1 h1 c)
  then have "not_black h1 = not_black h" by (auto simp: not_black_flag)
  moreover have "gray_len h1 pid < gray_len h pid"
    using 3 by (auto simp: gray_len_def get_par_put_par)
  ultimately show ?case by simp
qed

declare mark_loop.simps [simp del]

definition mark_grays :: "u16 \<Rightarrow> usize \<Rightarrow> 'p gc_heap \<Rightarrow> (bool \<times> 'p gc_heap) option" where
  "mark_grays pid max_steps h =
     (if max_steps = 0 then Some (False, h)
      else
        do { p \<leftarrow> get_par h pid;
             if gray_list p \<noteq> [] then mark_loop pid max_steps 0 h else Some (True, h) })"

definition mark :: "u16 \<Rightarrow> usize \<Rightarrow> 'p gc_heap \<Rightarrow> (bool \<times> 'p gc_heap) option" where
  "mark pid max_steps h =
     do { h1 \<leftarrow> mark_prepare pid h;
          if max_steps > 0 then mark_grays pid max_steps h1 else Some (False, h1) }"

subsection \<open>The loop of garbage_collect over mark\<close>

text \<open>
  No marking step changes the marking flag of a partition once \<open>mark_prepare\<close> has set it.
\<close>

definition flags_of :: "'p gc_heap \<Rightarrow> bool list" where
  "flags_of h = map marking (partitions h)"

lemma flags_of_simps [simp]:
  "flags_of (put_head a g h) = flags_of h"
  by (simp add: flags_of_def)

lemma flags_of_put_par:
  assumes "get_par h q = Some p" "marking p' = marking p"
  shows "flags_of (put_par q p' h) = flags_of h"
proof -
  have "marking (partitions h ! unat q) = marking p'" using assms by (simp add: get_par_Some)
  then show ?thesis by (simp add: flags_of_def map_field_update)
qed

lemma flags_of_push:
  "update_par (\<lambda>p. p\<lparr>gray_list := f p\<rparr>) q h = Some h' \<Longrightarrow> flags_of h' = flags_of h"
  by (auto simp: update_par_Some flags_of_put_par)

lemma push_gray_at_flags: "push_gray_at i n h = Some h' \<Longrightarrow> flags_of h' = flags_of h"
proof -
  assume "push_gray_at i n h = Some h'"
  then have "i < length (partitions h)"
    "h' = h\<lparr>partitions := (partitions h)[i := (partitions h ! i)\<lparr>gray_list := vec_push (gray_list (partitions h ! i)) n\<rparr>]\<rparr>"
    by (auto simp: push_gray_at_def update_par_at_def bind_eq_Some_conv vec_get_Some)
  then show ?thesis by (simp add: flags_of_def map_field_update)
qed

lemma shade_child_flags:
  "shade_child pid ch (buf, h) = Some (buf', h') \<Longrightarrow> flags_of h' = flags_of h"
  by (auto simp: shade_child_def bind_eq_Some_conv Let_def dest!: flags_of_push split: if_splits)

lemma blacken_flags:
  assumes "blacken pid node h = Some h'"
  shows "flags_of h' = flags_of h"
  using assms
proof (rule blackenE)
  fix gcx buf h1 h2
  assume a: "fold_opt (shade_child pid) (rev (traced_nodes gcx)) ([], h) = Some (buf, h1)"
    "flush_cross buf h1 = Some h2" "update_head (set_color Black) node h2 = Some h'"
  have "flags_of (snd (buf, h1)) = flags_of h"
    by (rule fold_opt_inv [OF a(1), where P = "\<lambda>r. flags_of (snd r) = flags_of h"])
       (auto dest: shade_child_flags)
  moreover have "flags_of h2 = flags_of h1"
    by (rule fold_opt_inv [OF a(2) [unfolded flush_cross_def],
          where P = "\<lambda>r. flags_of r = flags_of h1"]) (auto dest: flags_of_push)
  moreover have "flags_of h' = flags_of h2" using a(3) by (auto simp: update_head_Some)
  ultimately show ?thesis by simp
qed

lemma pop_flags:
  "get_par h pid = Some p \<Longrightarrow> flags_of (put_par pid (p\<lparr>gray_list := r\<rparr>) h) = flags_of h"
  by (simp add: flags_of_put_par)

text \<open>The four ways a round of the loop goes.\<close>

lemma mark_loopE:
  assumes "mark_loop pid m k h = Some (d, h')"
  obtains (empty) "d" "h' = h"
  | (full) p x rest g where "get_par h pid = Some p" "gray_list p = rest @ [x]"
      "heads h x = Some g" "color g = Some Gray" "\<not> d" "m \<le> k"
      "update_par (\<lambda>q. q\<lparr>gray_list := vec_push (gray_list q) x\<rparr>) pid
         (put_head x (set_gray_listed False g) (put_par pid (p\<lparr>gray_list := rest\<rparr>) h)) = Some h'"
  | (black) p x rest g h2 where "get_par h pid = Some p" "gray_list p = rest @ [x]"
      "heads h x = Some g" "color g = Some Gray" "\<not> m \<le> k"
      "blacken pid x (put_head x (set_gray_listed False g) (put_par pid (p\<lparr>gray_list := rest\<rparr>) h))
         = Some h2"
      "mark_loop pid m (k + 1) h2 = Some (d, h')"
  | (skip) p x rest g c where "get_par h pid = Some p" "gray_list p = rest @ [x]"
      "heads h x = Some g" "color g = Some c" "c \<noteq> Gray"
      "mark_loop pid m k (put_head x (set_gray_listed False g) (put_par pid (p\<lparr>gray_list := rest\<rparr>) h))
         = Some (d, h')"
proof -
  from assms obtain p where p: "get_par h pid = Some p"
    by (subst (asm) mark_loop.simps) (auto split: option.splits)
  show thesis
  proof (cases "gray_list p" rule: rev_cases)
    case Nil
    with p assms have "d \<and> h' = h" by (subst (asm) mark_loop.simps) simp
    with empty show thesis by blast
  next
    case (snoc rest x)
    then have pop: "vec_pop (gray_list p) = Some (x, rest)" by simp
    note r1 = assms [unfolded mark_loop.simps [of pid m k h] p option.case pop prod.case]
    from r1 obtain g where g: "heads h x = Some g" by (cases "heads h x") auto
    note r2 = r1 [unfolded g, simplified]
    from r2 obtain c where c: "color g = Some c" by (cases "color g") (auto simp: Let_def)
    note r3 = r2 [unfolded Let_def c, simplified]
    let ?h1 = "put_head x (set_gray_listed False g) (put_par pid (p\<lparr>gray_list := rest\<rparr>) h)"
    show thesis
    proof (cases "c = Gray")
      case False
      with r3 c have "mark_loop pid m k ?h1 = Some (d, h')" by simp
      with skip p snoc g c False show thesis by blast
    next
      case True
      show thesis
      proof (cases "m \<le> k")
        case m: True
        with r3 c True have "\<not> d" "update_par (\<lambda>q. q\<lparr>gray_list := vec_push (gray_list q) x\<rparr>) pid ?h1 = Some h'"
          by auto
        with full p snoc g c True m show thesis by blast
      next
        case m: False
        with r3 c True obtain h2 where "blacken pid x ?h1 = Some h2"
          "mark_loop pid m (k + 1) h2 = Some (d, h')"
          by (cases "blacken pid x ?h1") auto
        with black p snoc g c True m show thesis by blast
      qed
    qed
  qed
qed

lemma mark_loop_flags:
  "mark_loop pid m k h = Some (d, h') \<Longrightarrow> flags_of h' = flags_of h"
proof (induction pid m k h rule: mark_loop.induct)
  case (1 pid m k h)
  from 1(3) show ?case
  proof (cases rule: mark_loopE)
    case empty
    then show ?thesis by simp
  next
    case (full p x rest g)
    then show ?thesis using flags_of_push [OF full(7)] by (simp add: pop_flags)
  next
    case (black p x rest g h2)
    have "flags_of h' = flags_of h2"
      by (rule 1(1) [OF black(1) _ refl black(3) refl refl, of rest _ h2])
         (use black in \<open>simp_all\<close>)
    also have "\<dots> = flags_of h" using blacken_flags [OF black(6)] black(1) by (simp add: pop_flags)
    finally show ?thesis .
  next
    case (skip p x rest g c)
    let ?h1 = "put_head x (set_gray_listed False g) (put_par pid (p\<lparr>gray_list := rest\<rparr>) h)"
    have "flags_of h' = flags_of ?h1"
      by (rule 1(2) [OF skip(1) _ refl skip(3) refl refl, of rest c])
         (use skip in \<open>simp_all\<close>)
    then show ?thesis using skip(1) by (simp add: pop_flags)
  qed
qed

lemma mark_loop_progress:
  "mark_loop pid m k h = Some (d, h') \<Longrightarrow>
     not_black h' \<subseteq> not_black h \<and> (\<not> d \<longrightarrow> \<not> m \<le> k \<longrightarrow> not_black h' \<noteq> not_black h)"
proof (induction pid m k h rule: mark_loop.induct)
  case (1 pid m k h)
  from 1(3) show ?case
  proof (cases rule: mark_loopE)
    case empty
    then show ?thesis by simp
  next
    case (full p x rest g)
    then show ?thesis by (auto simp: update_par_Some not_black_flag)
  next
    case (black p x rest g h2)
    have "not_black h' \<subseteq> not_black h2"
      using 1(1) [OF black(1) _ refl black(3) refl refl, of rest Gray h2] black by simp
    moreover have "not_black h2 = not_black h - {x}"
      using blacken_not_black [OF black(6)] black(3) by (simp add: not_black_flag)
    moreover have "x \<in> not_black h" using black(3,4) by (simp add: not_black_def)
    ultimately show ?thesis by blast
  next
    case (skip p x rest g c)
    let ?h1 = "put_head x (set_gray_listed False g) (put_par pid (p\<lparr>gray_list := rest\<rparr>) h)"
    have "not_black h' \<subseteq> not_black ?h1 \<and> (\<not> d \<longrightarrow> \<not> m \<le> k \<longrightarrow> not_black h' \<noteq> not_black ?h1)"
      by (rule 1(2) [OF skip(1) _ refl skip(3) refl refl, of rest c])
         (use skip in \<open>simp_all\<close>)
    then show ?thesis using skip(3) by (simp add: not_black_flag)
  qed
qed

lemma seed_first_flags: "seed_first i b n h = Some h' \<Longrightarrow> flags_of h' = flags_of h"
  by (auto simp: seed_first_def bind_eq_Some_conv Let_def dest!: push_gray_at_flags split: if_splits)

lemma seed_second_flags: "seed_second i n h = Some h' \<Longrightarrow> flags_of h' = flags_of h"
  by (auto simp: seed_second_def bind_eq_Some_conv Let_def dest!: push_gray_at_flags split: if_splits)

lemma seed_partition_flags:
  assumes "seed_partition i h = Some h'"
  shows "flags_of h' = flags_of h"
proof -
  from assms obtain p where p: "vec_get (partitions h) i = Some p"
    by (auto simp: seed_partition_def bind_eq_Some_conv)
  have first: "flags_of u = flags_of h" if "for_nodes (seed_first i b) c h = Some u" for b c u
    by (rule for_nodes_inv [OF that, where P = "\<lambda>u. flags_of u = flags_of h"])
       (auto dest: seed_first_flags)
  have second: "flags_of v = flags_of u" if "for_nodes (seed_second i) c u = Some v" for c u v
    by (rule for_nodes_inv [OF that, where P = "\<lambda>v. flags_of v = flags_of u"])
       (auto dest: seed_second_flags)
  show ?thesis
    using assms p
    by (cases "gray_list p = []")
       (auto simp: seed_partition_def bind_eq_Some_conv dest!: first second)
qed

lemma mark_prepare_flags:
  assumes "mark_prepare pid h = Some h'" "get_par h pid = Some p"
  shows "\<exists>q. get_par h' pid = Some q \<and> marking q"
proof (cases "marking p")
  case True
  with assms show ?thesis by (simp add: mark_prepare_def)
next
  case False
  with assms have f: "fold_opt seed_partition [0..<length (partitions h)] (set_all_marking h) = Some h'"
    by (simp add: mark_prepare_def)
  have "flags_of h' = flags_of (set_all_marking h)"
    by (rule fold_opt_inv [OF f, where P = "\<lambda>u. flags_of u = flags_of (set_all_marking h)"])
       (auto dest: seed_partition_flags)
  then have eq: "map marking (partitions h') = map (\<lambda>_. True) (partitions h)"
    by (simp add: flags_of_def set_all_marking_def)
  then have l: "length (partitions h') = length (partitions h)" by (metis length_map)
  have i: "unat pid < length (partitions h)" using assms(2) by (simp add: get_par_Some)
  then have "marking (partitions h' ! unat pid)" using eq l by (metis nth_map)
  with i l show ?thesis by (simp add: get_par_Some)
qed

text \<open>\<open>while !self.mark(partition_id, 64) {}\<close>, with its measure.\<close>

definition unmarked :: "u16 \<Rightarrow> 'p gc_heap \<Rightarrow> nat" where
  "unmarked pid h = (case get_par h pid of Some p \<Rightarrow> (if marking p then 0 else 1) | None \<Rightarrow> 1)"

lemma mark_not_done:
  assumes "mark pid m h = Some (False, h')" "0 < m"
  shows "unmarked pid h' < unmarked pid h \<or>
    unmarked pid h' = unmarked pid h \<and> card (not_black h') < card (not_black h)"
proof -
  from assms obtain h1 where p: "mark_prepare pid h = Some h1" "mark_grays pid m h1 = Some (False, h')"
    by (auto simp: mark_def bind_eq_Some_conv)
  from p(2) assms(2) obtain q where q: "get_par h1 pid = Some q"
    and l: "mark_loop pid m 0 h1 = Some (False, h')"
    by (auto simp: mark_grays_def bind_eq_Some_conv split: if_splits)
  obtain p0 where p0: "get_par h pid = Some p0"
    using p(1) q by (cases "get_par h pid") (auto simp: mark_prepare_def)
  from mark_prepare_flags [OF p(1) this] q have mq: "marking q" by auto
  have fl: "flags_of h' = flags_of h1" by (rule mark_loop_flags [OF l])
  then have len: "length (partitions h') = length (partitions h1)" by (metis flags_of_def length_map)
  have i: "unat pid < length (partitions h1)" using q by (simp add: get_par_Some)
  with fl len have "marking (partitions h' ! unat pid) = marking (partitions h1 ! unat pid)"
    by (metis flags_of_def nth_map)
  with q mq i len have u': "unmarked pid h' = 0" by (simp add: unmarked_def get_par_def vec_get_def)
  show ?thesis
  proof (cases "marking p0")
    case False
    with p0 u' show ?thesis by (simp add: unmarked_def)
  next
    case True
    with p(1) p0 have "h1 = h" by (simp add: mark_prepare_def)
    with mark_loop_progress [OF l] assms(2) have "not_black h' \<subset> not_black h"
      by (auto simp: not_le)
    then have "card (not_black h') < card (not_black h)" by (rule psubset_card_mono [rotated]) simp
    with u' True p0 show ?thesis by (simp add: unmarked_def)
  qed
qed

function mark_until_done :: "u16 \<Rightarrow> 'p gc_heap \<Rightarrow> 'p gc_heap option" where
  "mark_until_done pid h =
     (case mark pid 64 h of
        None \<Rightarrow> None
      | Some (d, h1) \<Rightarrow> if d then Some h1 else mark_until_done pid h1)"
  by pat_completeness auto

termination mark_until_done
proof (relation "measures [\<lambda>(pid, h). unmarked pid h, \<lambda>(_, h). card (not_black h)]", goal_cases)
  case 1
  then show ?case by simp
next
  case (2 pid h r d h1)
  then have "mark pid 64 h = Some (False, h1)" by simp
  from mark_not_done [OF this] show ?case by auto
qed

declare mark_until_done.simps [simp del]

end
