(* ===== verification/Gc_Tricolor.thy ===== *)
theory Gc_Tricolor
  imports Gc_Mark
begin

section \<open>The tri-colour invariant (src/src/mark_sweep.rs)\<close>

text \<open>
  What marking establishes.  \<open>shade\<close> is the effect of turning a set of nodes gray, shared by
  the tracing of a node, the root registration and the write barriers; \<open>mark_inv\<close> is the
  tri-colour invariant over a set of partitions.  Taken for one partition it is what
  \<open>garbage_collect\<close> relies on; taken for all of them it is what a whole-heap marking gives.
\<close>

subsection \<open>Shading\<close>

definition shaded :: "'p gc_heap \<Rightarrow> addr set \<Rightarrow> 'p gc_heap \<Rightarrow> bool" where
  "shaded h C t \<longleftrightarrow>
     mark_frame h t \<and>
     (\<forall>a. hcolor t a = (if a \<in> C \<and> hcolor h a = Some White then Some Gray else hcolor h a)) \<and>
     (\<forall>a. hlisted t a \<longleftrightarrow> hlisted h a \<or> a \<in> C \<and> hcolor h a \<noteq> Some Black) \<and>
     (\<forall>j<length (partitions h). pmarking t j = pmarking h j)"

definition shade :: "'p gc_heap \<Rightarrow> addr set \<Rightarrow> 'p gc_heap \<Rightarrow> bool" where
  "shade h C t \<longleftrightarrow>
     shaded h C t \<and>
     (\<forall>j<length (partitions h).
        set (glist t j) = set (glist h j) \<union> {c \<in> C. in_par h j c \<and> hcolor h c \<noteq> Some Black})"

lemma shade_heap_ok:
  assumes ok: "heap_ok h" and s: "shade h C t" "C \<subseteq> dom (heads h)"
  shows "heap_ok t"
proof (rule heap_okI_mark_frame [OF ok])
  show fr: "mark_frame h t" using s by (simp add: shade_def shaded_def)
  show "hcolor t a \<noteq> None" if "a \<in> dom (heads h)" for a
    using s that heap_ok_hcolor [OF ok, of a] by (auto simp: shade_def shaded_def)
  show "gray_ok t i" if "i < length (partitions h)" for i
    using heap_ok_gray [OF ok that] s that
    by (auto simp: gray_ok_def shade_def shaded_def in_par_mark_frame [OF fr])
qed

text \<open>The loop over the children, with its buffer for the other partitions.\<close>

definition buffer_of :: "'p gc_heap \<Rightarrow> u16 \<Rightarrow> addr set \<Rightarrow> (u16 \<times> addr) set" where
  "buffer_of h pid C =
     {(q, c). c \<in> C \<and> hcolor h c \<noteq> Some Black \<and> q \<noteq> pid \<and> in_par h (unat q) c}"

definition shade_loop_inv ::
  "'p gc_heap \<Rightarrow> u16 \<Rightarrow> addr list \<Rightarrow> (u16 \<times> addr) list \<times> 'p gc_heap \<Rightarrow> bool" where
  "shade_loop_inv h pid ys = (\<lambda>(buf, t).
     shaded h (set ys) t \<and> set buf = buffer_of h pid (set ys) \<and>
     (\<forall>j<length (partitions h).
        set (glist t j) = set (glist h j) \<union>
          (if j = unat pid then {c \<in> set ys. in_par h j c \<and> hcolor h c \<noteq> Some Black} else {})))"

lemma shaded_mark_frame: "shaded h C t \<Longrightarrow> mark_frame h t"
  by (simp add: shaded_def)

lemma shaded_insert_black:
  assumes "shaded h C t" "hcolor h x = Some Black"
  shows "shaded h (insert x C) t"
  using assms by (auto simp: shaded_def)

lemma shaded_insert:
  assumes sh: "shaded h C t" and g: "heads t x = Some g" "hcolor t x \<noteq> Some Black"
    and t': "heads t' = (heads t)(x \<mapsto> set_gray_listed True (set_color Gray g))"
    and fr: "mark_frame t t'"
    and mk: "\<And>j. j < length (partitions h) \<Longrightarrow> pmarking t' j = pmarking t j"
    and col: "hcolor t x \<noteq> None"
  shows "shaded h (insert x C) t'"
proof -
  let ?t = "put_head x (set_gray_listed True (set_color Gray g)) t"
  have "heads t' = heads ?t" using t' by simp
  note ob = obs_heads [OF this]
  have eq: "hcolor t x = (if x \<in> C \<and> hcolor h x = Some White then Some Gray else hcolor h x)"
    using sh by (simp add: shaded_def)
  with col obtain c where c: "hcolor h x = Some c" by (cases "hcolor h x") auto
  with eq g(2) have c2: "hcolor h x = Some White \<or> hcolor h x = Some Gray" by (cases c) auto
  show ?thesis
    unfolding shaded_def ob
  proof (intro conjI allI impI)
    show "mark_frame h t'" by (rule mark_frame_trans [OF shaded_mark_frame [OF sh] fr])
    show "hcolor ?t a = (if a \<in> insert x C \<and> hcolor h a = Some White then Some Gray else hcolor h a)" for a
      using sh c2 by (auto simp: shaded_def)
    show "hlisted ?t a \<longleftrightarrow> hlisted h a \<or> a \<in> insert x C \<and> hcolor h a \<noteq> Some Black" for a
      using sh c2 by (auto simp: shaded_def)
    show "pmarking t' j = pmarking h j" if "j < length (partitions h)" for j
      using sh mk [OF that] that by (simp add: shaded_def)
  qed
qed

lemma buffer_of_insert:
  "buffer_of h pid (insert x C) = buffer_of h pid C \<union>
     (if hcolor h x = Some Black then {} else {(q, x) |q. q \<noteq> pid \<and> in_par h (unat q) x})"
  by (auto simp: buffer_of_def)

lemma shade_child_step:
  assumes ok: "heap_ok h" and pid: "unat pid < length (partitions h)" and x: "x \<in> dom (heads h)"
    and inv: "shade_loop_inv h pid ys (buf, t)"
  shows "\<exists>r. shade_child pid x (buf, t) = Some r \<and> shade_loop_inv h pid (ys @ [x]) r"
proof -
  from inv have sh: "shaded h (set ys) t" and buf: "set buf = buffer_of h pid (set ys)"
    and gl: "\<And>j. j < length (partitions h) \<Longrightarrow> set (glist t j) = set (glist h j) \<union>
      (if j = unat pid then {c \<in> set ys. in_par h j c \<and> hcolor h c \<noteq> Some Black} else {})"
    by (simp_all add: shade_loop_inv_def)
  have fr: "mark_frame h t" by (rule shaded_mark_frame [OF sh])
  note ff = mark_frame_fields [OF fr]
  from x obtain g0 where "heads h x = Some g0" by blast
  from mark_frame_head [OF fr this] obtain g where g: "heads t x = Some g" .
  have eq: "hcolor t x = (if x \<in> set ys \<and> hcolor h x = Some White then Some Gray else hcolor h x)"
    using sh by (simp add: shaded_def)
  moreover have "hcolor h x \<noteq> None" using x heap_ok_hcolor [OF ok] by auto
  ultimately have nn: "hcolor t x \<noteq> None" by simp
  then obtain c where c: "color g = Some c" "hcolor t x = Some c" by (auto simp: obs_head(1) [OF g])
  let ?q = "partition_id g"
  have q: "in_par h j x \<longleftrightarrow> j = unat ?q" for j
    using in_par_mark_frame [OF fr, of j x] by (auto simp: obs_head(4) [OF g])
  show ?thesis
  proof (cases "c = Black")
    case True
    with c eq have b: "hcolor h x = Some Black" by (auto split: if_splits)
    have "shade_loop_inv h pid (ys @ [x]) (buf, t)"
      using shaded_insert_black [OF sh b] buf gl b
      by (auto simp: shade_loop_inv_def buffer_of_insert)
    with True c(1) g show ?thesis by (simp add: shade_child_def)
  next
    case False
    then have cc: "c = White \<or> c = Gray" by (cases c) auto
    have nb: "hcolor h x \<noteq> Some Black" using eq c(2) False by (auto split: if_splits)
    let ?h1 = "put_head x (set_gray_listed True (set_color Gray g)) t"
    have fr1: "mark_frame t ?h1" by (rule mark_frame_put_head [OF g]) simp
    have ntb: "hcolor t x \<noteq> Some Black" using c False by simp
    show ?thesis
    proof (cases "?q = pid")
      case True
      have "unat pid < length (partitions t)" using pid ff by simp
      then obtain p where p: "get_par t pid = Some p" "p = partitions t ! unat pid"
        by (simp add: get_par_Some)
      let ?p' = "p\<lparr>gray_list := vec_push (gray_list p) x\<rparr>"
      let ?t' = "put_par pid ?p' ?h1"
      have r: "shade_child pid x (buf, t) = Some (buf, ?t')"
        using g c(1) cc True p(1) by (simp add: shade_child_def update_par_def Let_def)
      have "mark_frame t ?t'"
        by (rule mark_frame_trans [OF fr1 mark_frame_put_par]) (simp_all add: p(1) par_shape_def)
      then have "shaded h (insert x (set ys)) ?t'"
        by (rule shaded_insert [OF sh g ntb _ _ _ nn, rotated])
           (use p(2) in \<open>simp_all add: field_list_update [where f = marking]\<close>)
      moreover have "buffer_of h pid (insert x (set ys)) = buffer_of h pid (set ys)"
        using True nb q by (auto simp: buffer_of_insert unat_arith_simps)
      moreover have "set (glist ?t' j) = set (glist h j) \<union>
          (if j = unat pid then {c \<in> insert x (set ys). in_par h j c \<and> hcolor h c \<noteq> Some Black} else {})"
        if "j < length (partitions h)" for j
        using gl [OF that] True nb q p(2) that ff
        by (auto simp: nth_list_update vec_push_def)
      ultimately show ?thesis using r buf by (simp add: shade_loop_inv_def)
    next
      case False
      let ?b = "vec_push buf (?q, x)"
      have r: "shade_child pid x (buf, t) = Some (?b, ?h1)"
        using g c(1) cc False by (simp add: shade_child_def Let_def)
      have "shaded h (insert x (set ys)) ?h1"
        by (rule shaded_insert [OF sh g ntb _ fr1 _ nn]) simp_all
      moreover have "set ?b = buffer_of h pid (insert x (set ys))"
        using False nb q buf by (auto simp: buffer_of_insert vec_push_def word_unat_eq_iff)
      moreover have "unat ?q \<noteq> unat pid" using False by (simp add: word_unat_eq_iff)
      then have "set (glist ?h1 j) = set (glist h j) \<union>
          (if j = unat pid then {c \<in> insert x (set ys). in_par h j c \<and> hcolor h c \<noteq> Some Black} else {})"
        if "j < length (partitions h)" for j
        using gl [OF that] q by auto
      ultimately show ?thesis using r by (simp add: shade_loop_inv_def)
    qed
  qed
qed

lemma flush_cross_spec:
  assumes "\<forall>(q, c)\<in>set buf. unat q < length (partitions h)"
  shows "\<exists>t. flush_cross buf h = Some t \<and> mark_frame h t \<and> heads t = heads h \<and>
    (\<forall>j<length (partitions h). pmarking t j = pmarking h j \<and>
       set (glist t j) = set (glist h j) \<union> {c. \<exists>q. (q, c) \<in> set buf \<and> unat q = j})"
  unfolding flush_cross_def
proof (rule fold_opt_prefix_rule)
  fix ys x zs t
  assume b: "buf = ys @ x # zs"
    and t: "mark_frame h t \<and> heads t = heads h \<and>
      (\<forall>j<length (partitions h). pmarking t j = pmarking h j \<and>
         set (glist t j) = set (glist h j) \<union> {c. \<exists>q. (q, c) \<in> set ys \<and> unat q = j})"
  obtain q c where x: "x = (q, c)" by fastforce
  from t have fr: "mark_frame h t" by simp
  have l: "length (partitions t) = length (partitions h)" by (rule mark_frame_fields [OF fr])
  have "unat q < length (partitions t)" using assms b x l by simp
  then obtain p where p: "get_par t q = Some p" "p = partitions t ! unat q"
    by (simp add: get_par_Some)
  let ?t = "push_gray q c p t"
  note pg = push_gray_obs [OF p(1), of c]
  have "mark_frame h ?t" by (rule mark_frame_trans [OF fr pg(1)])
  moreover have "set (glist ?t j) = set (glist h j) \<union> {c. \<exists>q. (q, c) \<in> set (ys @ [x]) \<and> unat q = j}"
    "pmarking ?t j = pmarking h j" if "j < length (partitions h)" for j
    using t that x by (auto simp: pg)
  moreover have "heads ?t = heads h" using t by (simp add: pg)
  ultimately show "\<exists>t'. (case x of (cpid, n) \<Rightarrow>
        update_par (\<lambda>p. p\<lparr>gray_list := vec_push (gray_list p) n\<rparr>) cpid) t = Some t' \<and>
      mark_frame h t' \<and> heads t' = heads h \<and>
      (\<forall>j<length (partitions h). pmarking t' j = pmarking h j \<and>
         set (glist t' j) = set (glist h j) \<union> {c. \<exists>q. (q, c) \<in> set (ys @ [x]) \<and> unat q = j})"
    using x p(1) by (simp add: update_par_def push_gray_def)
qed simp

text \<open>Tracing and blackening a node: its references are shaded, then it is black.\<close>

lemma blacken_shade:
  assumes ok: "heap_ok h" and pid: "unat pid < length (partitions h)"
    and rs: "refs_of h node = Some rs" "set rs \<subseteq> dom (heads h)"
  shows "\<exists>t g. shade h (set rs) t \<and> heads t node = Some g \<and>
    blacken pid node h = Some (put_head node (set_color Black g) t)"
proof -
  let ?ctx = "run_trace rs (create_trace_ctx h)"
  have ctx: "trace_node h node (create_trace_ctx h) = Some ?ctx" by (simp add: trace_node_refs rs)
  have cs: "set (traced_nodes ?ctx) = set rs" by (simp add: run_trace_set create_trace_ctx_def)
  have "\<exists>r. fold_opt (shade_child pid) (rev (traced_nodes ?ctx)) ([], h) = Some r \<and>
      shade_loop_inv h pid (rev (traced_nodes ?ctx)) r"
  proof (rule fold_opt_prefix_rule)
    show "shade_loop_inv h pid [] ([], h)"
      by (simp add: shade_loop_inv_def shaded_def buffer_of_def)
  next
    fix ys x zs r
    assume "rev (traced_nodes ?ctx) = ys @ x # zs" and inv: "shade_loop_inv h pid ys r"
    then have "x \<in> set rs" by (metis cs in_set_conv_decomp set_rev)
    with rs(2) have "x \<in> dom (heads h)" by blast
    with inv show "\<exists>t'. shade_child pid x r = Some t' \<and> shade_loop_inv h pid (ys @ [x]) t'"
      by (cases r) (use shade_child_step [OF ok pid] in blast)
  qed
  then obtain buf t1 where f: "fold_opt (shade_child pid) (rev (traced_nodes ?ctx)) ([], h) = Some (buf, t1)"
    and "shade_loop_inv h pid (rev (traced_nodes ?ctx)) (buf, t1)"
    by force
  then have sh: "shaded h (set rs) t1" and buf: "set buf = buffer_of h pid (set rs)"
    and gl: "\<And>j. j < length (partitions h) \<Longrightarrow> set (glist t1 j) = set (glist h j) \<union>
      (if j = unat pid then {c \<in> set rs. in_par h j c \<and> hcolor h c \<noteq> Some Black} else {})"
    by (simp_all add: shade_loop_inv_def cs)
  note fr = shaded_mark_frame [OF sh]
  note ff = mark_frame_fields [OF fr]
  have "\<forall>(q, c)\<in>set buf. unat q < length (partitions t1)"
    using buf in_par_bound [OF ok] ff by (auto simp: buffer_of_def)
  from flush_cross_spec [OF this] obtain t where t: "flush_cross buf t1 = Some t"
    "mark_frame t1 t" "heads t = heads t1"
    "\<And>j. j < length (partitions t1) \<Longrightarrow> pmarking t j = pmarking t1 j \<and>
       set (glist t j) = set (glist t1 j) \<union> {c. \<exists>q. (q, c) \<in> set buf \<and> unat q = j}"
    by blast
  have sht: "shaded h (set rs) t"
    using sh mark_frame_trans [OF fr t(2)] t(4) ff
    by (simp add: shaded_def obs_heads [OF t(3)])
  have "{c. \<exists>q. (q, c) \<in> set buf \<and> unat q = j} =
      (if j = unat pid then {} else {c \<in> set rs. in_par h j c \<and> hcolor h c \<noteq> Some Black})"
    if "j < length (partitions h)" for j
  proof -
    have "j < 2 ^ 16" by (rule heap_ok_len [OF ok that])
    then have "unat (of_nat j :: u16) = j" by (rule unat_of_nat_u16)
    then show ?thesis
      unfolding buf buffer_of_def by (auto simp: word_unat_eq_iff intro!: exI [of _ "of_nat j"])
  qed
  with gl t(4) ff have "shade h (set rs) t" using sht by (auto simp: shade_def)
  moreover from rs(1) obtain g0 where "heads h node = Some g0"
    by (auto simp: refs_of_def bind_eq_Some_conv)
  from mark_frame_head [OF shaded_mark_frame [OF sht] this] obtain g where "heads t node = Some g" .
  ultimately show ?thesis
    using ctx f t(1) by (auto simp: blacken_def update_head_def)
qed

subsection \<open>The invariant\<close>

definition zone :: "nat set \<Rightarrow> 'p gc_heap \<Rightarrow> addr set" where
  "zone S h = {a. \<exists>i\<in>S. in_par h i a}"

text \<open>
  Over the partitions \<open>S\<close>: roots and locals are not white; a black node has no white
  reference; a gray node waits in the gray list of its partition, unless it is in \<open>X\<close>.
\<close>

definition tri_inv_upto :: "addr set \<Rightarrow> nat set \<Rightarrow> 'p gc_heap \<Rightarrow> bool" where
  "tri_inv_upto X S h \<longleftrightarrow>
     (\<forall>a\<in>zone S h. hroot h a \<longrightarrow> hcolor h a \<noteq> Some White) \<and>
     (\<forall>a\<in>zone S h. \<forall>b\<in>zone S h. edge h a b \<longrightarrow> hcolor h a = Some Black \<longrightarrow>
        hcolor h b \<noteq> Some White) \<and>
     (\<forall>i\<in>S. \<forall>a. in_par h i a \<longrightarrow> hcolor h a = Some Gray \<longrightarrow> a \<in> set (glist h i) \<union> X)"

definition tri_inv :: "nat set \<Rightarrow> 'p gc_heap \<Rightarrow> bool" where
  "tri_inv S h = tri_inv_upto {} S h"

lemma zone_mark_frame: "mark_frame h h' \<Longrightarrow> zone S h' = zone S h"
  by (simp add: zone_def in_par_mark_frame)

lemma zone_bound: "heap_ok h \<Longrightarrow> in_par h i a \<Longrightarrow> i < length (partitions h)"
  by (rule in_par_bound)

text \<open>Shading keeps the invariant.\<close>

lemma tri_inv_upto_shade:
  assumes ok: "heap_ok h" and sh: "shade h C t" and inv: "tri_inv_upto X S h"
  shows "tri_inv_upto X S t"
proof -
  have fr: "mark_frame h t" using sh by (simp add: shade_def shaded_def)
  have col: "hcolor t a = (if a \<in> C \<and> hcolor h a = Some White then Some Gray else hcolor h a)" for a
    using sh by (simp add: shade_def shaded_def)
  have gl: "set (glist t j) = set (glist h j) \<union> {c \<in> C. in_par h j c \<and> hcolor h c \<noteq> Some Black}"
    if "in_par h j a" for j a
    using sh in_par_bound [OF ok that] by (simp add: shade_def)
  show ?thesis
    unfolding tri_inv_upto_def zone_mark_frame [OF fr] hroot_mark_frame [OF fr]
      in_par_mark_frame [OF fr] edge_mark_frame [OF fr]
  proof (intro conjI ballI allI impI)
    fix a assume "a \<in> zone S h" "hroot h a"
    with inv show "hcolor t a \<noteq> Some White" by (auto simp: col tri_inv_upto_def)
  next
    fix a b assume ab: "a \<in> zone S h" "b \<in> zone S h" "edge h a b" "hcolor t a = Some Black"
    then have "hcolor h a = Some Black" by (simp add: col split: if_splits)
    with ab inv show "hcolor t b \<noteq> Some White" by (auto simp: col tri_inv_upto_def)
  next
    fix i a assume ia: "i \<in> S" "in_par h i a" "hcolor t a = Some Gray"
    show "a \<in> set (glist t i) \<union> X"
    proof (cases "hcolor h a = Some Gray")
      case True
      with ia inv show ?thesis by (auto simp: gl [OF ia(2)] tri_inv_upto_def)
    next
      case False
      with ia(3) have "a \<in> C" "hcolor h a = Some White" by (auto simp: col split: if_splits)
      with ia(2) show ?thesis by (simp add: gl [OF ia(2)])
    qed
  qed
qed

text \<open>Blackening a node whose references have been shaded keeps it too.\<close>

lemma tri_inv_blacken:
  assumes inv: "tri_inv_upto {x} S h" and g: "heads h x = Some g"
    and refs: "\<And>b. edge h x b \<Longrightarrow> b \<noteq> x \<Longrightarrow> hcolor h b \<noteq> Some White"
  shows "tri_inv S (put_head x (set_color Black g) h)"
proof -
  let ?t = "put_head x (set_color Black g) h"
  have fr: "mark_frame h ?t" by (rule mark_frame_put_head [OF g]) simp
  show ?thesis
    unfolding tri_inv_def tri_inv_upto_def zone_mark_frame [OF fr] hroot_mark_frame [OF fr]
      in_par_mark_frame [OF fr] edge_mark_frame [OF fr]
    using inv refs by (auto simp: tri_inv_upto_def)
qed

text \<open>Taking a node off its gray list.\<close>

definition pop_gray :: "u16 \<Rightarrow> addr \<Rightarrow> gc_head \<Rightarrow> addr list \<Rightarrow> gc_partition \<Rightarrow> 'p gc_heap \<Rightarrow> 'p gc_heap" where
  "pop_gray pid x g rest p h =
     put_head x (set_gray_listed False g) (put_par pid (p\<lparr>gray_list := rest\<rparr>) h)"

lemma pop_gray_obs:
  assumes "get_par h pid = Some p" "heads h x = Some g"
  shows "mark_frame h (pop_gray pid x g rest p h)" "hcolor (pop_gray pid x g rest p h) = hcolor h"
    "hlisted (pop_gray pid x g rest p h) a \<longleftrightarrow> a \<noteq> x \<and> hlisted h a"
    "glist (pop_gray pid x g rest p h) j = (if j = unat pid then rest else glist h j)"
    "pmarking (pop_gray pid x g rest p h) j = pmarking h j"
proof -
  have p: "unat pid < length (partitions h)" "p = partitions h ! unat pid"
    using assms(1) by (simp_all add: get_par_Some)
  have "mark_frame h (put_par pid (p\<lparr>gray_list := rest\<rparr>) h)"
    by (rule mark_frame_put_par [OF assms(1)]) (simp add: par_shape_def)
  then show "mark_frame h (pop_gray pid x g rest p h)"
    unfolding pop_gray_def by (rule mark_frame_trans) (rule mark_frame_put_head, use assms in simp_all)
  show "hcolor (pop_gray pid x g rest p h) = hcolor h"
    using assms by (auto simp: pop_gray_def fun_eq_iff obs_head)
  show "hlisted (pop_gray pid x g rest p h) a \<longleftrightarrow> a \<noteq> x \<and> hlisted h a"
    by (simp add: pop_gray_def)
  show "glist (pop_gray pid x g rest p h) j = (if j = unat pid then rest else glist h j)"
    using p by (cases "j = unat pid") (auto simp: pop_gray_def)
  show "pmarking (pop_gray pid x g rest p h) j = pmarking h j"
    using p by (simp add: pop_gray_def field_list_update [where f = marking])
qed

lemma pop_gray_heap_ok:
  assumes ok: "heap_ok h" and p: "get_par h pid = Some p" "gray_list p = rest @ [x]"
    and g: "heads h x = Some g"
  shows "heap_ok (pop_gray pid x g rest p h)"
proof (rule heap_okI_mark_frame [OF ok])
  note ob = pop_gray_obs [OF p(1) g]
  show "mark_frame h (pop_gray pid x g rest p h)" by (rule ob)
  show "hcolor (pop_gray pid x g rest p h) a \<noteq> None" if "a \<in> dom (heads h)" for a
    using that heap_ok_hcolor [OF ok] by (auto simp: ob)
  show "gray_ok (pop_gray pid x g rest p h) i" if "i < length (partitions h)" for i
    using heap_ok_gray [OF ok that] p
    by (auto simp: gray_ok_def ob in_par_mark_frame [OF ob(1)] get_par_Some split: if_splits)
qed

lemma tri_inv_pop_gray:
  assumes p: "get_par h pid = Some p" "gray_list p = rest @ [x]" and g: "heads h x = Some g"
    and inv: "tri_inv S h"
  shows "tri_inv_upto {x} S (pop_gray pid x g rest p h)"
    and "hcolor h x \<noteq> Some Gray \<Longrightarrow> tri_inv S (pop_gray pid x g rest p h)"
proof -
  note ob = pop_gray_obs [OF p(1) g, where rest = rest]
  have gl: "set (glist h (unat pid)) = insert x (set rest)" using p by (auto simp: get_par_Some)
  note unf = tri_inv_def tri_inv_upto_def zone_mark_frame [OF ob(1)] hroot_mark_frame [OF ob(1)]
      in_par_mark_frame [OF ob(1)] edge_mark_frame [OF ob(1)] ob(2) ob(4)
  show "tri_inv_upto {x} S (pop_gray pid x g rest p h)"
    using inv gl unfolding unf by auto
  show "tri_inv S (pop_gray pid x g rest p h)" if "hcolor h x \<noteq> Some Gray"
    using inv gl that unfolding unf by auto
qed

end
