(* ===== verification/Gc_Mark_Correct.thy ===== *)
theory Gc_Mark_Correct
  imports Gc_Tricolor
begin

section \<open>Correctness of marking (src/src/mark_sweep.rs)\<close>

text \<open>
  \<open>mark_grays\<close> keeps the tri-colour invariant of every set of partitions, does not fault, and
  shades only what its gray list reaches; \<open>mark_prepare\<close> establishes the invariant of every
  partition it finds with an empty gray list.
\<close>

subsection \<open>One round\<close>

definition blackened :: "'p gc_heap \<Rightarrow> addr \<Rightarrow> addr set \<Rightarrow> 'p gc_heap \<Rightarrow> bool" where
  "blackened h x C t \<longleftrightarrow>
     heap_ok t \<and> mark_frame h t \<and>
     (\<forall>S. tri_inv_upto {x} S h \<longrightarrow> tri_inv S t) \<and>
     (\<forall>a. hcolor t a = (if a = x then Some Black
        else if a \<in> C \<and> hcolor h a = Some White then Some Gray else hcolor h a)) \<and>
     (\<forall>j<length (partitions h).
        set (glist t j) = set (glist h j) \<union> {c \<in> C. in_par h j c \<and> hcolor h c \<noteq> Some Black} \<and>
        pmarking t j = pmarking h j)"

lemma blacken_correct:
  assumes ok: "heap_ok h" and pid: "unat pid < length (partitions h)"
    and rs: "refs_of h x = Some rs" "set rs \<subseteq> dom (heads h)"
  shows "\<exists>t. blacken pid x h = Some t \<and> blackened h x (set rs) t"
proof -
  from blacken_shade [OF assms] obtain u g where sh: "shade h (set rs) u"
    and g: "heads u x = Some g" and b: "blacken pid x h = Some (put_head x (set_color Black g) u)"
    by blast
  let ?t = "put_head x (set_color Black g) u"
  have fr: "mark_frame h u" using sh by (simp add: shade_def shaded_def)
  have fr2: "mark_frame u ?t" by (rule mark_frame_put_head [OF g]) simp
  have oku: "heap_ok u" by (rule shade_heap_ok [OF ok sh rs(2)])
  have "heap_ok ?t"
  proof (rule heap_okI_mark_frame [OF oku fr2])
    show "hcolor ?t a \<noteq> None" if "a \<in> dom (heads u)" for a
      using heap_ok_hcolor_dom [OF oku that] by simp
    show "gray_ok ?t i" if "i < length (partitions u)" for i
      using heap_ok_gray [OF oku that] g by (auto simp: gray_ok_def obs_head)
  qed
  moreover have "tri_inv S ?t" if "tri_inv_upto {x} S h" for S
  proof (rule tri_inv_blacken [OF tri_inv_upto_shade [OF ok sh that] g])
    fix b assume "edge u x b" "b \<noteq> x"
    then have "b \<in> set rs" using rs(1) by (simp add: edge_def refs_of_cong [OF fr])
    then show "hcolor u b \<noteq> Some White" using sh by (simp add: shade_def shaded_def)
  qed
  moreover have "hcolor ?t a = (if a = x then Some Black
       else if a \<in> set rs \<and> hcolor h a = Some White then Some Gray else hcolor h a)" for a
    using sh by (simp add: shade_def shaded_def)
  ultimately have "blackened h x (set rs) ?t"
    using sh mark_frame_trans [OF fr fr2] by (simp add: blackened_def shade_def shaded_def)
  with b show ?thesis by blast
qed

text \<open>
  What a run of \<open>mark_grays\<close> on the partition \<open>pid\<close> may do to a heap, when \<open>R\<close> holds of
  whatever the gray list reaches inside the partition.
\<close>

definition mark_run :: "(addr \<Rightarrow> bool) \<Rightarrow> nat \<Rightarrow> 'p gc_heap \<Rightarrow> 'p gc_heap \<Rightarrow> bool" where
  "mark_run R i h t \<longleftrightarrow>
     mark_frame h t \<and> heap_ok t \<and> (\<forall>S. tri_inv S h \<longrightarrow> tri_inv S t) \<and>
     (\<forall>a. in_par h i a \<longrightarrow> hcolor t a \<noteq> hcolor h a \<longrightarrow> R a) \<and>
     (\<forall>a. \<not> in_par h i a \<longrightarrow>
        hcolor t a = hcolor h a \<or> hcolor h a = Some White \<and> hcolor t a = Some Gray) \<and>
     (\<forall>a. hcolor h a = Some Black \<longrightarrow> hcolor t a = Some Black) \<and>
     (\<forall>a\<in>set (glist t i). R a) \<and>
     (\<forall>j<length (partitions h). pmarking t j = pmarking h j \<and>
        (j \<noteq> i \<longrightarrow> set (glist h j) \<subseteq> set (glist t j) \<and>
           set (glist t j) \<subseteq> set (glist h j) \<union> {b. \<exists>a. in_par h i a \<and> edge h a b \<and> in_par h j b}))"

definition traced_closed :: "(addr \<Rightarrow> bool) \<Rightarrow> nat \<Rightarrow> 'p gc_heap \<Rightarrow> bool" where
  "traced_closed R i h \<longleftrightarrow>
     (\<forall>a b. R a \<longrightarrow> edge h a b \<longrightarrow> b \<in> dom (heads h) \<and> (in_par h i b \<longrightarrow> R b))"

lemma mark_run_refl: "heap_ok h \<Longrightarrow> \<forall>a\<in>set (glist h i). R a \<Longrightarrow> mark_run R i h h"
  by (simp add: mark_run_def)

lemma mark_runD:
  assumes "mark_run R i h t"
  shows "mark_frame h t" "heap_ok t" "tri_inv S h \<Longrightarrow> tri_inv S t"
    "in_par h i a \<Longrightarrow> hcolor t a \<noteq> hcolor h a \<Longrightarrow> R a"
    "\<not> in_par h i a \<Longrightarrow> hcolor t a = hcolor h a \<or> hcolor h a = Some White \<and> hcolor t a = Some Gray"
    "hcolor h a = Some Black \<Longrightarrow> hcolor t a = Some Black"
    "a \<in> set (glist t i) \<Longrightarrow> R a"
    "j < length (partitions h) \<Longrightarrow> pmarking t j = pmarking h j"
    "j < length (partitions h) \<Longrightarrow> j \<noteq> i \<Longrightarrow> set (glist h j) \<subseteq> set (glist t j)"
    "j < length (partitions h) \<Longrightarrow> j \<noteq> i \<Longrightarrow>
       set (glist t j) \<subseteq> set (glist h j) \<union> {b. \<exists>a. in_par h i a \<and> edge h a b \<and> in_par h j b}"
  using assms unfolding mark_run_def by simp_all

lemma mark_run_trans:
  assumes r1: "mark_run R i h t" and r2: "mark_run R i t u"
  shows "mark_run R i h u"
proof -
  note d1 = mark_runD [OF r1] and d2 = mark_runD [OF r2]
  have fr: "mark_frame h t" by (rule d1)
  have l: "length (partitions t) = length (partitions h)" by (rule mark_frame_fields [OF fr])
  note ip = in_par_mark_frame [OF fr]
  show ?thesis
    unfolding mark_run_def
  proof (intro conjI allI impI ballI)
    show "mark_frame h u" by (rule mark_frame_trans [OF fr d2(1)])
    show "tri_inv S u" if "tri_inv S h" for S by (rule d2(3) [OF d1(3) [OF that]])
    show "R a" if "in_par h i a" "hcolor u a \<noteq> hcolor h a" for a
      using that d1(4) [of a] d2(4) [of a] by (cases "hcolor t a = hcolor h a") (simp_all add: ip)
    show "hcolor u a = hcolor h a \<or> hcolor h a = Some White \<and> hcolor u a = Some Gray"
      if "\<not> in_par h i a" for a
      using that d1(5) [of a] d2(5) [of a] by (auto simp: ip)
    show "hcolor u a = Some Black" if "hcolor h a = Some Black" for a
      using that d1(6) d2(6) by simp
    show "R a" if "a \<in> set (glist u i)" for a using that by (rule d2)
    show "pmarking u j = pmarking h j" if "j < length (partitions h)" for j
      using that d1(8) d2(8) l by simp
    show "set (glist h j) \<subseteq> set (glist u j)" if "j < length (partitions h)" "j \<noteq> i" for j
      using that d1(9) [of j] d2(9) [of j] l by auto
    show "set (glist u j) \<subseteq> set (glist h j) \<union> {b. \<exists>a. in_par h i a \<and> edge h a b \<and> in_par h j b}"
      if j: "j < length (partitions h)" "j \<noteq> i" for j
    proof -
      have "j < length (partitions t)" using j(1) l by simp
      from d2(10) [OF this j(2)] d1(10) [OF j] show ?thesis by (simp add: ip edge_mark_frame [OF fr]) blast
    qed
  qed (rule d2)
qed

lemma traced_closed_mark_frame:
  assumes "mark_frame h t"
  shows "traced_closed R i t = traced_closed R i h"
  by (simp add: traced_closed_def edge_mark_frame [OF assms] in_par_mark_frame [OF assms]
      mark_frame_fields [OF assms])

text \<open>A round that skips a node which is not gray, or puts a gray one back.\<close>

lemma mark_run_skip:
  assumes ok: "heap_ok h" and p: "get_par h pid = Some p" "gray_list p = rest @ [x]"
    and g: "heads h x = Some g" "hcolor h x \<noteq> Some Gray"
    and gr: "\<forall>a\<in>set (glist h (unat pid)). R a"
  shows "mark_run R (unat pid) h (pop_gray pid x g rest p h)"
proof -
  note ob = pop_gray_obs [OF p(1) g(1), where rest = rest]
  have "set rest \<subseteq> set (glist h (unat pid))" using p by (auto simp: get_par_Some)
  with gr show ?thesis
    using pop_gray_heap_ok [OF ok p g(1)] tri_inv_pop_gray(2) [OF p g(1) _ g(2)]
    by (auto simp: mark_run_def ob)
qed

lemma mark_run_put_back:
  assumes ok: "heap_ok h" and p: "get_par h pid = Some p" "gray_list p = rest @ [x]"
    and g: "heads h x = Some g" and gr: "\<forall>a\<in>set (glist h (unat pid)). R a"
    and q: "get_par (pop_gray pid x g rest p h) pid = Some q"
  shows "mark_run R (unat pid) h (push_gray pid x q (pop_gray pid x g rest p h))"
proof -
  let ?h1 = "pop_gray pid x g rest p h" and ?t = "push_gray pid x q (pop_gray pid x g rest p h)"
  note ob = pop_gray_obs [OF p(1) g, where rest = rest] and pg = push_gray_obs [OF q, of x]
  note hd = obs_heads [OF pg(2)]
  have fr: "mark_frame h ?t" by (rule mark_frame_trans [OF ob(1) pg(1)])
  have gl: "set (glist ?t j) = set (glist h j)" for j
    using p by (cases "j = unat pid") (auto simp: pg ob get_par_Some)
  have ok1: "heap_ok ?h1" by (rule pop_gray_heap_ok [OF ok p g])
  have "heap_ok ?t"
  proof (rule heap_okI_mark_frame [OF ok1 pg(1)])
    show "hcolor ?t a \<noteq> None" if "a \<in> dom (heads ?h1)" for a
      using heap_ok_hcolor_dom [OF ok1 that] by (simp add: hd)
    show "gray_ok ?t i" if "i < length (partitions ?h1)" for i
      using heap_ok_gray [OF ok, of i] that mark_frame_fields(10) [OF ob(1)]
      by (auto simp: gray_ok_def gl hd ob in_par_mark_frame [OF ob(1)])
  qed
  moreover have "tri_inv S ?t" if "tri_inv S h" for S
    using that unfolding tri_inv_def tri_inv_upto_def zone_mark_frame [OF fr]
      hroot_mark_frame [OF fr] in_par_mark_frame [OF fr] edge_mark_frame [OF fr] gl
    by (simp add: hd ob)
  ultimately show ?thesis
    using fr gr by (simp add: mark_run_def gl) (simp add: hd ob pg)
qed

lemma mark_run_blacken:
  assumes ok: "heap_ok h" and p: "get_par h pid = Some p" "gray_list p = rest @ [x]"
    and g: "heads h x = Some g" "hcolor h x = Some Gray"
    and gr: "\<forall>a\<in>set (glist h (unat pid)). R a" and cl: "traced_closed R (unat pid) h"
  shows "\<exists>t. blacken pid x (pop_gray pid x g rest p h) = Some t \<and> mark_run R (unat pid) h t"
proof -
  let ?h1 = "pop_gray pid x g rest p h" and ?i = "unat pid"
  note ob = pop_gray_obs [OF p(1) g(1), where rest = rest]
  have ok1: "heap_ok ?h1" by (rule pop_gray_heap_ok [OF ok p g(1)])
  have i: "?i < length (partitions h)" using p(1) by (simp add: get_par_Some)
  have l: "length (partitions ?h1) = length (partitions h)" by (rule mark_frame_fields [OF ob(1)])
  have x: "x \<in> set (glist h ?i)" and rest: "set rest \<subseteq> set (glist h ?i)"
    using p by (auto simp: get_par_Some)
  have Rx: "R x" using gr x by blast
  have xi: "in_par h ?i x" using heap_ok_gray [OF ok i] x by (simp add: gray_ok_def)
  from refs_of_heap_ok [OF ok g(1)] obtain rs where rs: "refs_of h x = Some rs" by blast
  then have e: "edge h x b \<longleftrightarrow> b \<in> set rs" for b by (simp add: edge_def)
  have dom: "set rs \<subseteq> dom (heads h)" and Rrs: "\<And>b. b \<in> set rs \<Longrightarrow> in_par h ?i b \<Longrightarrow> R b"
    using cl Rx e by (auto simp: traced_closed_def)
  have rs1: "refs_of ?h1 x = Some rs" using rs refs_of_cong [OF ob(1)] by simp
  have dom1: "set rs \<subseteq> dom (heads ?h1)" using dom mark_frame_fields(11) [OF ob(1)] by simp
  have i1: "?i < length (partitions ?h1)" using i l by simp
  from blacken_correct [OF ok1 i1 rs1 dom1] obtain t where
    bl: "blacken pid x ?h1 = Some t" "blackened ?h1 x (set rs) t" by blast
  then have t: "heap_ok t" "mark_frame ?h1 t"
    "\<And>S. tri_inv_upto {x} S ?h1 \<Longrightarrow> tri_inv S t"
    "\<And>a. hcolor t a = (if a = x then Some Black
       else if a \<in> set rs \<and> hcolor ?h1 a = Some White then Some Gray else hcolor ?h1 a)"
    "\<And>j. j < length (partitions ?h1) \<Longrightarrow> set (glist t j) =
       set (glist ?h1 j) \<union> {c \<in> set rs. in_par ?h1 j c \<and> hcolor ?h1 c \<noteq> Some Black}"
    "\<And>j. j < length (partitions ?h1) \<Longrightarrow> pmarking t j = pmarking ?h1 j"
    by (simp_all add: blackened_def)
  have "mark_run R ?i h t"
    unfolding mark_run_def
  proof (intro conjI allI impI ballI)
    show "mark_frame h t" by (rule mark_frame_trans [OF ob(1) t(2)])
    show "tri_inv S t" if "tri_inv S h" for S
      by (rule t(3)) (rule tri_inv_pop_gray(1) [OF p g(1) that])
    show "R a" if "in_par h ?i a" "hcolor t a \<noteq> hcolor h a" for a
      using that Rx Rrs by (auto simp: t(4) ob split: if_splits)
    show "hcolor t a = hcolor h a \<or> hcolor h a = Some White \<and> hcolor t a = Some Gray"
      if "\<not> in_par h ?i a" for a
      using that xi by (auto simp: t(4) ob)
    show "hcolor t a = Some Black" if "hcolor h a = Some Black" for a
      using that by (simp add: t(4) ob)
    show "R a" if "a \<in> set (glist t ?i)" for a
      using that t(5) [OF i1] Rrs gr rest by (auto simp: ob in_par_mark_frame [OF ob(1)])
    show "pmarking t j = pmarking h j" if "j < length (partitions h)" for j
      using that l t(6) by (simp add: ob)
    show "set (glist h j) \<subseteq> set (glist t j)" if "j < length (partitions h)" "j \<noteq> ?i" for j
      using that l t(5) by (auto simp: ob)
    show "set (glist t j) \<subseteq> set (glist h j) \<union> {b. \<exists>a. in_par h ?i a \<and> edge h a b \<and> in_par h j b}"
      if "j < length (partitions h)" "j \<noteq> ?i" for j
      using that l t(5) xi by (auto simp: ob e in_par_mark_frame [OF ob(1)])
  qed (rule t(1))
  with bl(1) show ?thesis by blast
qed

subsection \<open>The loop\<close>

lemma mark_loop_empty:
  "get_par h pid = Some p \<Longrightarrow> gray_list p = [] \<Longrightarrow> mark_loop pid m k h = Some (True, h)"
  by (simp add: mark_loop.simps)

lemma mark_loop_step:
  assumes "get_par h pid = Some p" "gray_list p = rest @ [x]" "heads h x = Some g" "color g = Some c"
  shows "mark_loop pid m k h =
    (let h1 = pop_gray pid x g rest p h in
     if c = Gray then
       (if m \<le> k then
          map_option (Pair False)
            (update_par (\<lambda>q. q\<lparr>gray_list := vec_push (gray_list q) x\<rparr>) pid h1)
        else (case blacken pid x h1 of None \<Rightarrow> None | Some h2 \<Rightarrow> mark_loop pid m (k + 1) h2))
     else mark_loop pid m k h1)"
  by (subst mark_loop.simps) (simp add: assms pop_gray_def Let_def)

lemma mark_loop_correct:
  assumes "heap_ok h" "unat pid < length (partitions h)" "\<forall>a\<in>set (glist h (unat pid)). R a"
    "traced_closed R (unat pid) h"
  shows "\<exists>d t. mark_loop pid m k h = Some (d, t) \<and> mark_run R (unat pid) h t \<and>
    (d \<longleftrightarrow> glist t (unat pid) = [])"
  using assms
proof (induction pid m k h rule: mark_loop.induct)
  case (1 pid m k h)
  note ok = 1(3) and i = 1(4) and gr = 1(5) and cl = 1(6)
  obtain p where p: "get_par h pid = Some p" "p = partitions h ! unat pid"
    using i by (simp add: get_par_Some)
  show ?case
  proof (cases "gray_list p" rule: rev_cases)
    case Nil
    with p ok gr show ?thesis
      by (intro exI [of _ True] exI [of _ h]) (simp add: mark_loop_empty mark_run_refl)
  next
    case (snoc rest x)
    have "x \<in> set (glist h (unat pid))" using snoc p(2) by simp
    with heap_ok_gray [OF ok i] obtain g where g: "heads h x = Some g"
      by (auto simp: gray_ok_def in_par_def)
    from heap_ok_color [OF ok g] obtain c where c: "color g = Some c" ..
    let ?h1 = "pop_gray pid x g rest p h"
    note ob = pop_gray_obs [OF p(1) g, where rest = rest]
    note step = mark_loop_step [OF p(1) snoc g c, of m k]
    have pop: "vec_pop (gray_list p) = Some (x, rest)" using snoc by simp
    have next_ok: "\<exists>d t. mark_loop pid m k' u = Some (d, t) \<and> mark_run R (unat pid) h t \<and>
        (d \<longleftrightarrow> glist t (unat pid) = [])"
      if r: "mark_run R (unat pid) h u"
        and IH: "heap_ok u \<Longrightarrow> unat pid < length (partitions u) \<Longrightarrow>
          \<forall>a\<in>set (glist u (unat pid)). R a \<Longrightarrow> traced_closed R (unat pid) u \<Longrightarrow>
          \<exists>d t. mark_loop pid m k' u = Some (d, t) \<and> mark_run R (unat pid) u t \<and>
            (d \<longleftrightarrow> glist t (unat pid) = [])" for u k'
    proof -
      note d = mark_runD [OF r]
      have "unat pid < length (partitions u)" using i mark_frame_fields(10) [OF d(1)] by simp
      with IH d(2,7) cl traced_closed_mark_frame [OF d(1)] obtain d' t where
        "mark_loop pid m k' u = Some (d', t)" "mark_run R (unat pid) u t"
        "d' \<longleftrightarrow> glist t (unat pid) = []" by blast
      with mark_run_trans [OF r] show ?thesis by blast
    qed
    show ?thesis
    proof (cases "c = Gray")
      case False
      then have "hcolor h x \<noteq> Some Gray" using c by (simp add: obs_head [OF g])
      from mark_run_skip [OF ok p(1) snoc g this gr] have r: "mark_run R (unat pid) h ?h1" .
      have "\<exists>d t. mark_loop pid m k ?h1 = Some (d, t) \<and> mark_run R (unat pid) h t \<and>
          (d \<longleftrightarrow> glist t (unat pid) = [])"
        by (rule next_ok [OF r])
           (rule 1(2) [OF p(1) pop refl g refl refl, folded pop_gray_def],
             use c False in \<open>simp_all\<close>)
      with False step show ?thesis by (simp add: Let_def)
    next
      case True
      then have gx: "hcolor h x = Some Gray" using c by (simp add: obs_head [OF g])
      show ?thesis
      proof (cases "m \<le> k")
        case True
        have "unat pid < length (partitions ?h1)" using i mark_frame_fields(10) [OF ob(1)] by simp
        then obtain q where q: "get_par ?h1 pid = Some q" by (simp add: get_par_Some)
        note r = mark_run_put_back [OF ok p(1) snoc g gr q]
        have "set (glist (push_gray pid x q ?h1) (unat pid)) \<noteq> {}"
          by (simp add: push_gray_obs [OF q])
        then have "glist (push_gray pid x q ?h1) (unat pid) \<noteq> []" by auto
        with r step True q \<open>c = Gray\<close> show ?thesis
          by (intro exI [of _ False] exI [of _ "push_gray pid x q ?h1"])
             (simp add: Let_def update_par_def push_gray_def)
      next
        case False
        from mark_run_blacken [OF ok p(1) snoc g gx gr cl] obtain t where
          t: "blacken pid x ?h1 = Some t" "mark_run R (unat pid) h t" by blast
        have "\<exists>d u. mark_loop pid m (k + 1) t = Some (d, u) \<and> mark_run R (unat pid) h u \<and>
            (d \<longleftrightarrow> glist u (unat pid) = [])"
          by (rule next_ok [OF t(2)])
             (rule 1(1) [OF p(1) pop refl g refl refl, folded pop_gray_def],
               use c True False t(1) in \<open>simp_all\<close>)
        with False True t(1) step show ?thesis by (simp add: Let_def)
      qed
    qed
  qed
qed

lemma mark_grays_correct:
  assumes "heap_ok h" "unat pid < length (partitions h)" "\<forall>a\<in>set (glist h (unat pid)). R a"
    "traced_closed R (unat pid) h" "m \<noteq> 0"
  shows "\<exists>d t. mark_grays pid m h = Some (d, t) \<and> mark_run R (unat pid) h t \<and>
    (d \<longleftrightarrow> glist t (unat pid) = [])"
proof -
  obtain p where p: "get_par h pid = Some p" "p = partitions h ! unat pid"
    using assms(2) by (simp add: get_par_Some)
  show ?thesis
  proof (cases "gray_list p = []")
    case True
    with p assms show ?thesis
      by (intro exI [of _ True] exI [of _ h]) (simp add: mark_grays_def mark_run_refl)
  next
    case False
    with p assms(5) mark_loop_correct [OF assms(1-4), of m 0] show ?thesis
      by (simp add: mark_grays_def)
  qed
qed

subsection \<open>Seeding\<close>

lemma push_gray_at_eq:
  assumes "i < length (partitions h)" "length (partitions h) \<le> 2 ^ 16"
  shows "get_par h (of_nat i) = Some (partitions h ! i)"
    and "push_gray_at i n h = Some (push_gray (of_nat i) n (partitions h ! i) h)"
proof -
  have u: "unat (of_nat i :: u16) = i" using assms by (intro unat_of_nat_u16) simp
  show "get_par h (of_nat i) = Some (partitions h ! i)" using assms u by (simp add: get_par_Some)
  show "push_gray_at i n h = Some (push_gray (of_nat i) n (partitions h ! i) h)"
    using assms u by (simp add: push_gray_at_def update_par_at_def vec_get_def push_gray_def put_par_def)
qed

lemma push_gray_at_frame: "push_gray_at i n h = Some h' \<Longrightarrow> mark_frame h h'"
  by (auto simp: push_gray_at_def update_par_at_def bind_eq_Some_conv mark_frame_def vec_get_Some
      map_update par_shape_def intro!: list_update_same_conv [THEN iffD2])

lemma mark_frame_next:
  "mark_frame h h' \<Longrightarrow> map_option next_ptr (heads h' a) = map_option next_ptr (heads h a)"
  using mark_frame_shape [of h h' a]
  by (cases "heads h a"; cases "heads h' a") (auto dest: shape_eqD)

lemma seed_first_frame:
  assumes "seed_first i pend n h = Some h'"
  shows "mark_frame h h'"
proof -
  from assms obtain g where g: "heads h n = Some g" by (auto simp: seed_first_def bind_eq_Some_conv)
  have "mark_frame h (put_head n (set_color c g) h)" for c by (rule mark_frame_put_head [OF g]) simp
  with assms g show ?thesis
    by (auto simp: seed_first_def Let_def split: if_splits
        intro: mark_frame_trans dest!: push_gray_at_frame)
qed

lemma seed_second_frame:
  assumes "seed_second i n h = Some h'"
  shows "mark_frame h h'"
proof -
  from assms obtain g where g: "heads h n = Some g" by (auto simp: seed_second_def bind_eq_Some_conv)
  have "mark_frame h (put_head n (set_color Gray g) h)"
    "mark_frame h (put_head n (set_gray_listed True (set_color Gray g)) h)"
    by (rule mark_frame_put_head [OF g], simp)+
  with assms g show ?thesis
    by (auto simp: seed_second_def Let_def split: if_splits
        intro: mark_frame_trans dest!: push_gray_at_frame)
qed

text \<open>The first loop, after the nodes \<open>ys\<close>.\<close>

definition seed_inv1 :: "'p gc_heap \<Rightarrow> nat \<Rightarrow> bool \<Rightarrow> addr list \<Rightarrow> 'p gc_heap \<Rightarrow> bool" where
  "seed_inv1 h i pend ys t \<longleftrightarrow>
     mark_frame h t \<and> hlisted t = hlisted h \<and>
     (\<forall>a. hcolor t a = (if a \<in> set ys then
        (if hroot h a then Some Gray else if pend then hcolor h a else Some White) else hcolor h a)) \<and>
     (\<forall>j. pmarking t j = pmarking h j \<and> set (glist t j) = set (glist h j) \<union>
        (if j = i \<and> \<not> pend then {a \<in> set ys. hroot h a} else {}))"

lemma seed_first_step:
  assumes ok: "heap_ok h" and i: "i < length (partitions h)" and n: "n \<in> dom (heads h)"
    and inv: "seed_inv1 h i pend ys t" and new: "n \<notin> set ys"
  shows "\<exists>u. seed_first i pend n t = Some u \<and> seed_inv1 h i pend (ys @ [n]) u"
proof -
  from inv have fr: "mark_frame h t" by (simp add: seed_inv1_def)
  from n obtain g0 where "heads h n = Some g0" by blast
  from mark_frame_head [OF fr this] obtain g where g: "heads t n = Some g" .
  have root: "is_root_or_local g \<longleftrightarrow> hroot h n"
    using obs_head(2) [OF g] hroot_mark_frame [OF fr, of n] by simp
  have col: "hcolor h n = color g" using inv new obs_head(1) [OF g] by (simp add: seed_inv1_def)
  have lst: "hlisted h n = is_gray_listed g"
    using inv obs_head(3) [OF g] by (simp add: seed_inv1_def)
  let ?h1 = "\<lambda>c. put_head n (set_color c g) t"
  have fr1: "mark_frame h (?h1 c)" for c
    by (rule mark_frame_trans [OF fr mark_frame_put_head [OF g]]) simp
  have l: "length (partitions (?h1 c)) = length (partitions h)" for c
    by (rule mark_frame_fields [OF fr1])
  have len: "length (partitions h) \<le> 2 ^ 16" using ok by (simp add: heap_ok_def)
  let ?q = "of_nat i :: u16"
  have u: "unat ?q = i" using i len by (intro unat_of_nat_u16) simp
  show ?thesis
  proof (cases "hroot h n")
    case True
    show ?thesis
    proof (cases pend)
      case True
      with g root \<open>hroot h n\<close> have "seed_first i pend n t = Some (?h1 Gray)"
        by (simp add: seed_first_def)
      moreover have "seed_inv1 h i pend (ys @ [n]) (?h1 Gray)"
        using inv fr1 True \<open>hroot h n\<close> lst by (auto simp: seed_inv1_def fun_eq_iff)
      ultimately show ?thesis by blast
    next
      case False
      have i1: "i < length (partitions (?h1 Gray))" "length (partitions (?h1 Gray)) \<le> 2 ^ 16"
        using i l len by simp_all
      let ?u = "push_gray ?q n (partitions t ! i) (?h1 Gray)"
      have pe: "get_par (?h1 Gray) ?q = Some (partitions t ! i)" "push_gray_at i n (?h1 Gray) = Some ?u"
        using push_gray_at_eq [OF i1] by simp_all
      note pg = push_gray_obs [OF pe(1), of n]
      have "seed_first i pend n t = Some ?u"
        using g root True False pe(2) by (simp add: seed_first_def Let_def)
      moreover have "seed_inv1 h i pend (ys @ [n]) ?u"
        using inv mark_frame_trans [OF fr1 pg(1)] False True lst
        by (auto simp: seed_inv1_def fun_eq_iff pg obs_heads [OF pg(2)] u)
      ultimately show ?thesis by blast
    qed
  next
    case False
    show ?thesis
    proof (cases pend)
      case True
      with g root False have "seed_first i pend n t = Some t" by (simp add: seed_first_def)
      moreover have "seed_inv1 h i pend (ys @ [n]) t"
        using inv True False by (auto simp: seed_inv1_def)
      ultimately show ?thesis by blast
    next
      case False
      with g root \<open>\<not> hroot h n\<close> have "seed_first i pend n t = Some (?h1 White)"
        by (simp add: seed_first_def)
      moreover have "seed_inv1 h i pend (ys @ [n]) (?h1 White)"
        using inv fr1 False \<open>\<not> hroot h n\<close> lst by (auto simp: seed_inv1_def fun_eq_iff)
      ultimately show ?thesis by blast
    qed
  qed
qed

text \<open>The second loop, which runs when the gray list was not empty.\<close>

definition seed_inv2 :: "'p gc_heap \<Rightarrow> nat \<Rightarrow> addr list \<Rightarrow> 'p gc_heap \<Rightarrow> bool" where
  "seed_inv2 h i ys t \<longleftrightarrow>
     mark_frame h t \<and>
     (\<forall>a. hlisted t a \<longleftrightarrow> hlisted h a \<or> a \<in> set ys \<and> hroot h a) \<and>
     (\<forall>a. hcolor t a = (if a \<in> set ys \<and> hroot h a then Some Gray else hcolor h a)) \<and>
     (\<forall>j. pmarking t j = pmarking h j \<and> set (glist t j) = set (glist h j) \<union>
        (if j = i then {a \<in> set ys. hroot h a \<and> \<not> hlisted h a} else {}))"

lemma seed_second_step:
  assumes ok: "heap_ok h" and i: "i < length (partitions h)" and n: "n \<in> dom (heads h)"
    and inv: "seed_inv2 h i ys t" and new: "n \<notin> set ys"
  shows "\<exists>u. seed_second i n t = Some u \<and> seed_inv2 h i (ys @ [n]) u"
proof -
  from inv have fr: "mark_frame h t" by (simp add: seed_inv2_def)
  from n obtain g0 where "heads h n = Some g0" by blast
  from mark_frame_head [OF fr this] obtain g where g: "heads t n = Some g" .
  have root: "is_root_or_local g \<longleftrightarrow> hroot h n"
    using obs_head(2) [OF g] hroot_mark_frame [OF fr, of n] by simp
  have lst: "hlisted h n = is_gray_listed g"
    using inv new obs_head(3) [OF g] by (simp add: seed_inv2_def)
  let ?g = "set_color Gray g"
  let ?h1 = "put_head n ?g t" and ?h2 = "put_head n (set_gray_listed True ?g) t"
  have fr1: "mark_frame h ?h1"
    by (rule mark_frame_trans [OF fr mark_frame_put_head [OF g]]) simp
  have fr2: "mark_frame h ?h2"
    by (rule mark_frame_trans [OF fr mark_frame_put_head [OF g]]) simp
  have l: "length (partitions ?h2) = length (partitions h)" by (rule mark_frame_fields [OF fr2])
  have len: "length (partitions h) \<le> 2 ^ 16" using ok by (simp add: heap_ok_def)
  let ?q = "of_nat i :: u16"
  have u: "unat ?q = i" using i len by (intro unat_of_nat_u16) simp
  show ?thesis
  proof (cases "hroot h n")
    case False
    with g root have "seed_second i n t = Some t" by (simp add: seed_second_def)
    moreover have "seed_inv2 h i (ys @ [n]) t" using inv False by (auto simp: seed_inv2_def)
    ultimately show ?thesis by blast
  next
    case True
    show ?thesis
    proof (cases "is_gray_listed g")
      case l: True
      with g root True have "seed_second i n t = Some ?h1" by (simp add: seed_second_def Let_def)
      moreover have "seed_inv2 h i (ys @ [n]) ?h1"
        using inv fr1 True l lst by (auto simp: seed_inv2_def)
      ultimately show ?thesis by blast
    next
      case nl: False
      have i1: "i < length (partitions ?h2)" "length (partitions ?h2) \<le> 2 ^ 16"
        using i l len by simp_all
      let ?u = "push_gray ?q n (partitions t ! i) ?h2"
      have pe: "get_par ?h2 ?q = Some (partitions t ! i)" "push_gray_at i n ?h2 = Some ?u"
        using push_gray_at_eq [OF i1] by simp_all
      note pg = push_gray_obs [OF pe(1), of n]
      have "seed_second i n t = Some ?u"
        using g root True nl pe(2) by (simp add: seed_second_def Let_def)
      moreover have "seed_inv2 h i (ys @ [n]) ?u"
        using inv mark_frame_trans [OF fr2 pg(1)] True nl lst
        by (auto simp: seed_inv2_def pg obs_heads [OF pg(2)] u)
      ultimately show ?thesis by blast
    qed
  qed
qed

lemma dom_in_list: "heap_ok h \<Longrightarrow> i < length (partitions h) \<Longrightarrow> a \<in> set (par_list h i) \<Longrightarrow> a \<in> dom (heads h)"
  by (auto simp: heap_ok_member_iff in_par_def)

lemma seed_first_loop:
  assumes ok: "heap_ok h" and i: "i < length (partitions h)"
  shows "\<exists>t. for_nodes (seed_first i pend) (nodes (partitions h ! i)) h = Some t \<and>
    seed_inv1 h i pend (par_list h i) t"
proof -
  let ?xs = "par_list h i"
  have "for_nodes (seed_first i pend) (nodes (partitions h ! i)) h = fold_opt (seed_first i pend) ?xs h"
    by (rule for_nodes_fold [OF heap_ok_chain [OF ok i]]) (rule mark_frame_next, rule seed_first_frame)
  moreover have "\<exists>t. fold_opt (seed_first i pend) ?xs h = Some t \<and> seed_inv1 h i pend ?xs t"
  proof (rule fold_opt_prefix_rule)
    show "seed_inv1 h i pend [] h" by (simp add: seed_inv1_def)
  next
    fix ys x zs t
    assume xs: "?xs = ys @ x # zs" and inv: "seed_inv1 h i pend ys t"
    then have "x \<notin> set ys" using heap_ok_distinct [OF ok i] by simp
    moreover have "x \<in> dom (heads h)" using xs by (intro dom_in_list [OF ok i]) simp
    ultimately show "\<exists>u. seed_first i pend x t = Some u \<and> seed_inv1 h i pend (ys @ [x]) u"
      using seed_first_step [OF ok i _ inv] by blast
  qed
  ultimately show ?thesis by simp
qed

lemma seed_second_loop:
  assumes ok: "heap_ok h" and i: "i < length (partitions h)"
  shows "\<exists>t. for_nodes (seed_second i) (nodes (partitions h ! i)) h = Some t \<and>
    seed_inv2 h i (par_list h i) t"
proof -
  let ?xs = "par_list h i"
  have "for_nodes (seed_second i) (nodes (partitions h ! i)) h = fold_opt (seed_second i) ?xs h"
    by (rule for_nodes_fold [OF heap_ok_chain [OF ok i]]) (rule mark_frame_next, rule seed_second_frame)
  moreover have "\<exists>t. fold_opt (seed_second i) ?xs h = Some t \<and> seed_inv2 h i ?xs t"
  proof (rule fold_opt_prefix_rule)
    show "seed_inv2 h i [] h" by (simp add: seed_inv2_def)
  next
    fix ys x zs t
    assume xs: "?xs = ys @ x # zs" and inv: "seed_inv2 h i ys t"
    then have "x \<notin> set ys" using heap_ok_distinct [OF ok i] by simp
    moreover have "x \<in> dom (heads h)" using xs by (intro dom_in_list [OF ok i]) simp
    ultimately show "\<exists>u. seed_second i x t = Some u \<and> seed_inv2 h i (ys @ [x]) u"
      using seed_second_step [OF ok i _ inv] by blast
  qed
  ultimately show ?thesis by simp
qed

text \<open>What seeding one partition does.\<close>

definition seeded :: "'p gc_heap \<Rightarrow> nat \<Rightarrow> 'p gc_heap \<Rightarrow> bool" where
  "seeded h i t \<longleftrightarrow>
     (\<forall>a. in_par h i a \<longrightarrow> hcolor t a =
        (if hroot h a then Some Gray else if glist h i = [] then Some White else hcolor h a)) \<and>
     set (glist t i) = set (glist h i) \<union> {a. in_par h i a \<and> hroot h a}"

definition seed_run :: "'p gc_heap \<Rightarrow> nat \<Rightarrow> 'p gc_heap \<Rightarrow> bool" where
  "seed_run h i t \<longleftrightarrow>
     mark_frame h t \<and> heap_ok t \<and> seeded h i t \<and>
     (\<forall>a. \<not> in_par h i a \<longrightarrow> hcolor t a = hcolor h a) \<and>
     (\<forall>j. pmarking t j = pmarking h j \<and> (j \<noteq> i \<longrightarrow> set (glist t j) = set (glist h j)))"

lemma seed_partition_correct:
  assumes ok: "heap_ok h" and i: "i < length (partitions h)"
  shows "\<exists>t. seed_partition i h = Some t \<and> seed_run h i t"
proof -
  let ?p = "partitions h ! i" and ?pend = "glist h i \<noteq> []"
  have xs: "a \<in> set (par_list h i) \<longleftrightarrow> in_par h i a" for a by (rule heap_ok_member_iff [OF ok i])
  from seed_first_loop [OF ok i] obtain u where u:
    "for_nodes (seed_first i ?pend) (nodes ?p) h = Some u" "seed_inv1 h i ?pend (par_list h i) u"
    by blast
  from u(2) have fr: "mark_frame h u" by (simp add: seed_inv1_def)
  have oku: "heap_ok u"
  proof (rule heap_okI_mark_frame [OF ok fr])
    show "hcolor u a \<noteq> None" if "a \<in> dom (heads h)" for a
      using u(2) heap_ok_hcolor_dom [OF ok that] by (simp add: seed_inv1_def)
    show "gray_ok u j" if "j < length (partitions h)" for j
      using u(2) heap_ok_gray [OF ok that] xs
      by (auto simp: seed_inv1_def gray_ok_def in_par_mark_frame [OF fr])
  qed
  show ?thesis
  proof (cases ?pend)
    case False
    with u i have "seed_partition i h = Some u" by (simp add: seed_partition_def vec_get_def)
    moreover have "seed_run h i u"
      using u(2) fr oku False xs by (auto simp: seed_run_def seeded_def seed_inv1_def)
    ultimately show ?thesis by blast
  next
    case True
    have iu: "i < length (partitions u)" using i mark_frame_fields(10) [OF fr] by simp
    have "nodes (partitions u ! i) = nodes ?p" "par_list u i = par_list h i"
      using par_list_mark_frame [OF fr i heap_ok_chain [OF ok i]] by simp_all
    with seed_second_loop [OF oku iu] obtain t where
      t: "for_nodes (seed_second i) (nodes ?p) u = Some t" "seed_inv2 u i (par_list h i) t"
      by auto
    from t(2) have frt: "mark_frame h t" by (auto simp: seed_inv2_def intro: mark_frame_trans [OF fr])
    have root: "hroot u = hroot h" by (simp add: fun_eq_iff hroot_mark_frame [OF fr])
    have gl: "set (glist t j) = set (glist h j) \<union> (if j = i then {a. in_par h i a \<and> hroot h a} else {})"
      for j
      using t(2) u(2) True xs heap_ok_gray [OF ok i]
      by (auto simp: seed_inv2_def seed_inv1_def root gray_ok_def)
    have "heap_ok t"
    proof (rule heap_okI_mark_frame [OF ok frt])
      show "hcolor t a \<noteq> None" if "a \<in> dom (heads h)" for a
        using t(2) u(2) heap_ok_hcolor_dom [OF ok that] by (simp add: seed_inv1_def seed_inv2_def)
      show "gray_ok t j" if "j < length (partitions h)" for j
        using u(2) t(2) heap_ok_gray [OF ok that] xs
        by (auto simp: seed_inv1_def seed_inv2_def gray_ok_def gl in_par_mark_frame [OF frt] root
            dest: in_par_unique)
    qed
    moreover have "seed_partition i h = Some t"
      using u t True i by (simp add: seed_partition_def vec_get_def)
    ultimately show ?thesis
      using frt t(2) u(2) True xs
      by (auto simp: seed_run_def seeded_def seed_inv1_def seed_inv2_def gl root)
  qed
qed

end
