(* ===== verification/Gc_Mark_Phase.thy ===== *)
theory Gc_Mark_Phase
  imports Gc_Mark_Correct
begin

section \<open>A complete marking phase (src/src/mark_sweep.rs)\<close>

text \<open>
  \<open>mark_prepare\<close> on the whole heap, reachability inside a set of partitions, and what the
  colours say once the gray lists are empty.
\<close>

subsection \<open>mark_prepare\<close>

lemma set_all_marking_obs:
  "heads (set_all_marking h) = heads h" "mark_frame h (set_all_marking h)"
  "i < length (partitions h) \<Longrightarrow> glist (set_all_marking h) i = glist h i"
  "i < length (partitions h) \<Longrightarrow> pmarking (set_all_marking h) i"
  by (simp_all add: set_all_marking_def mark_frame_def par_shape_def)

definition seeded_upto :: "'p gc_heap \<Rightarrow> nat set \<Rightarrow> 'p gc_heap \<Rightarrow> bool" where
  "seeded_upto h D t \<longleftrightarrow>
     mark_frame h t \<and> heap_ok t \<and>
     (\<forall>j<length (partitions h). pmarking t j \<and>
        (if j \<in> D then seeded h j t
         else set (glist t j) = set (glist h j) \<and> (\<forall>a. in_par h j a \<longrightarrow> hcolor t a = hcolor h a)))"

lemma seeded_upto_step:
  assumes ok: "heap_ok h" and i: "i < length (partitions h)" "i \<notin> D" and inv: "seeded_upto h D t"
  shows "\<exists>u. seed_partition i t = Some u \<and> seeded_upto h (insert i D) u"
proof -
  from inv have fr: "mark_frame h t" and okt: "heap_ok t" by (simp_all add: seeded_upto_def)
  have l: "length (partitions t) = length (partitions h)" by (rule mark_frame_fields [OF fr])
  with i(1) have it: "i < length (partitions t)" by simp
  from seed_partition_correct [OF okt it] obtain u where
    u: "seed_partition i t = Some u" "seed_run t i u" by blast
  have same: "set (glist t i) = set (glist h i)" "\<And>a. in_par h i a \<Longrightarrow> hcolor t a = hcolor h a"
    using inv i by (simp_all add: seeded_upto_def)
  have "glist t i = [] \<longleftrightarrow> glist h i = []" using same(1) by (metis set_empty2)
  then have "seeded h i u"
    using u(2) same
    by (simp add: seed_run_def seeded_def in_par_mark_frame [OF fr] hroot_mark_frame [OF fr])
  note sdi = this
  have fru: "mark_frame h u" "heap_ok u"
    using u(2) mark_frame_trans [OF fr] by (simp_all add: seed_run_def)
  have oth: "set (glist u j) = set (glist t j)" "in_par h j a \<Longrightarrow> hcolor u a = hcolor t a"
    if "j \<noteq> i" for j a
    using u(2) that in_par_unique [of h i a j] by (auto simp: seed_run_def in_par_mark_frame [OF fr])
  have mk: "pmarking u j = pmarking t j" for j using u(2) by (simp add: seed_run_def)
  have "pmarking u j \<and> (if j \<in> insert i D then seeded h j u
      else set (glist u j) = set (glist h j) \<and> (\<forall>a. in_par h j a \<longrightarrow> hcolor u a = hcolor h a))"
    if j: "j < length (partitions h)" for j
  proof (cases "j = i")
    case True
    with sdi inv j mk show ?thesis by (simp add: seeded_upto_def)
  next
    case False
    have "pmarking t j \<and> (if j \<in> D then seeded h j t
      else set (glist t j) = set (glist h j) \<and> (\<forall>a. in_par h j a \<longrightarrow> hcolor t a = hcolor h a))"
      using inv j by (simp add: seeded_upto_def)
    with False oth [OF False] mk show ?thesis
      by (cases "j \<in> D") (simp_all add: seeded_def)
  qed
  with fru have "seeded_upto h (insert i D) u" by (simp add: seeded_upto_def)
  with u(1) show ?thesis by blast
qed

lemma mark_prepare_marking:
  "get_par h pid = Some p \<Longrightarrow> marking p \<Longrightarrow> mark_prepare pid h = Some h"
  by (simp add: mark_prepare_def)

lemma mark_prepare_correct:
  assumes ok: "heap_ok h" and p: "get_par h pid = Some p" "\<not> marking p"
  shows "\<exists>t. mark_prepare pid h = Some t \<and> mark_frame h t \<and> heap_ok t \<and>
    (\<forall>j<length (partitions h). pmarking t j \<and> seeded h j t)"
proof -
  let ?n = "length (partitions h)" and ?h = "set_all_marking h"
  note so = set_all_marking_obs(1,2) [of h]
  note sg = set_all_marking_obs(3,4) [where h = h]
  note hd = obs_heads [OF so(1)]
  have okh: "heap_ok ?h"
    by (rule heap_okI_mark_frame [OF ok so(2)])
       (use heap_ok_hcolor_dom [OF ok] heap_ok_gray [OF ok] in
         \<open>simp_all add: hd gray_ok_def sg\<close>)
  have lh: "length (partitions ?h) = ?n" by (rule mark_frame_fields [OF so(2)])
  have "\<exists>t. fold_opt seed_partition [0..<?n] ?h = Some t \<and> seeded_upto ?h (set [0..<?n]) t"
  proof (rule fold_opt_prefix_rule)
    show "seeded_upto ?h (set []) ?h" using okh sg lh by (simp add: seeded_upto_def)
  next
    fix ys x zs t
    assume xs: "[0..<?n] = ys @ x # zs" and inv: "seeded_upto ?h (set ys) t"
    from xs have "x \<in> set [0..<?n]" by (metis in_set_conv_decomp)
    moreover have "x \<notin> set ys" using distinct_upt [of 0 ?n] xs by auto
    ultimately show "\<exists>u. seed_partition x t = Some u \<and> seeded_upto ?h (set (ys @ [x])) u"
      using seeded_upto_step [OF okh _ _ inv, of x] lh by auto
  qed
  then obtain t where t: "fold_opt seed_partition [0..<?n] ?h = Some t"
    "seeded_upto ?h (set [0..<?n]) t" by blast
  have "mark_prepare pid h = Some t" using p t(1) by (simp add: mark_prepare_def)
  moreover have "mark_frame h t" "heap_ok t"
    using t(2) mark_frame_trans [OF so(2)] by (auto simp: seeded_upto_def)
  moreover have "pmarking t j \<and> seeded h j t" if "j < ?n" for j
    using t(2) that lh sg by (simp add: seeded_upto_def seeded_def hd)
  ultimately show ?thesis by blast
qed

text \<open>
  A partition that was seeded from an empty gray list satisfies the invariant; one that had
  pending gray nodes keeps it.
\<close>

lemma seeded_tri_inv:
  assumes fr: "mark_frame h t"
    and sd: "\<And>i. i \<in> S \<Longrightarrow> seeded h i t \<and> glist h i = []"
  shows "tri_inv S t"
  unfolding tri_inv_def tri_inv_upto_def zone_mark_frame [OF fr] hroot_mark_frame [OF fr]
    in_par_mark_frame [OF fr] edge_mark_frame [OF fr]
proof (intro conjI ballI allI impI)
  fix a assume "a \<in> zone S h" "hroot h a"
  with sd show "hcolor t a \<noteq> Some White" by (auto simp: zone_def seeded_def)
next
  fix a b assume "a \<in> zone S h" "hcolor t a = Some Black"
  with sd show "hcolor t b \<noteq> Some White" by (auto simp: zone_def seeded_def split: if_splits)
next
  fix i a assume "i \<in> S" "in_par h i a" "hcolor t a = Some Gray"
  with sd [OF this(1)] show "a \<in> set (glist t i) \<union> {}"
    by (auto simp: seeded_def split: if_splits)
qed

text \<open>
  What the branch for pending gray nodes relies on: \<open>mark_prepare\<close> neither whitens the black nodes of
  such a partition nor lists them, so their children must already be marked, and every gray node
  must be in the list.  Roots and locals are listed again and need nothing.
\<close>

definition pending_ok :: "nat \<Rightarrow> 'p gc_heap \<Rightarrow> bool" where
  "pending_ok i h \<longleftrightarrow>
     (\<forall>a\<in>zone {i} h. \<forall>b\<in>zone {i} h. edge h a b \<longrightarrow> hcolor h a = Some Black \<longrightarrow> \<not> hroot h a \<longrightarrow>
        hcolor h b = Some White \<longrightarrow> hroot h b) \<and>
     (\<forall>a. in_par h i a \<longrightarrow> hcolor h a = Some Gray \<longrightarrow> \<not> hroot h a \<longrightarrow> a \<in> set (glist h i))"

lemma tri_inv_pending: "tri_inv {i} h \<Longrightarrow> pending_ok i h"
  by (auto simp: pending_ok_def tri_inv_def tri_inv_upto_def)

lemma seeded_tri_inv_pending:
  assumes fr: "mark_frame h t" and sd: "seeded h i t" "glist h i \<noteq> []" and inv: "pending_ok i h"
  shows "tri_inv {i} t"
  unfolding tri_inv_def tri_inv_upto_def zone_mark_frame [OF fr] hroot_mark_frame [OF fr]
    in_par_mark_frame [OF fr] edge_mark_frame [OF fr]
proof (intro conjI ballI allI impI)
  fix a assume "a \<in> zone {i} h" "hroot h a"
  with sd show "hcolor t a \<noteq> Some White" by (auto simp: zone_def seeded_def)
next
  fix a b assume a: "a \<in> zone {i} h" "b \<in> zone {i} h" "edge h a b" "hcolor t a = Some Black"
  with sd have "hcolor h a = Some Black" "\<not> hroot h a" by (auto simp: zone_def seeded_def split: if_splits)
  with a inv have "hcolor h b = Some White \<Longrightarrow> hroot h b" by (simp add: pending_ok_def)
  with a(2) sd show "hcolor t b \<noteq> Some White" by (auto simp: zone_def seeded_def)
next
  fix j a assume a: "j \<in> {i}" "in_par h j a" "hcolor t a = Some Gray"
  show "a \<in> set (glist t j) \<union> {}"
  proof (cases "hroot h a")
    case True
    with a sd show ?thesis by (auto simp: seeded_def)
  next
    case False
    with a sd have "hcolor h a = Some Gray" by (auto simp: seeded_def)
    with a inv sd False show ?thesis by (auto simp: pending_ok_def seeded_def)
  qed
qed

subsection \<open>Reachability\<close>

text \<open>
  What the roots and locals of the partitions \<open>S\<close> reach by references that stay inside \<open>S\<close>.
\<close>

inductive reach_in :: "nat set \<Rightarrow> 'p gc_heap \<Rightarrow> addr \<Rightarrow> bool" for S :: "nat set" and h :: "'p gc_heap" where
  root: "a \<in> zone S h \<Longrightarrow> hroot h a \<Longrightarrow> reach_in S h a"
| step: "reach_in S h a \<Longrightarrow> edge h a b \<Longrightarrow> b \<in> zone S h \<Longrightarrow> reach_in S h b"

inductive_cases reach_inE: "reach_in S h a"

lemma reach_in_zone: "reach_in S h a \<Longrightarrow> a \<in> zone S h"
  by (erule reach_inE)

lemma reach_in_mark_frame:
  assumes fr: "mark_frame h t"
  shows "reach_in S t = reach_in S h"
proof -
  have "reach_in S t a" if "reach_in S h a" for a
    using that
  proof induction
    case (root a)
    then show ?case
      by (intro reach_in.root) (simp_all add: zone_mark_frame [OF fr] hroot_mark_frame [OF fr])
  next
    case (step a b)
    from reach_in.step [OF step.IH] step.hyps show ?case
      by (simp add: zone_mark_frame [OF fr] edge_mark_frame [OF fr])
  qed
  moreover have "reach_in S h a" if "reach_in S t a" for a
    using that
  proof induction
    case (root a)
    then show ?case
      by (intro reach_in.root) (simp_all add: zone_mark_frame [OF fr] hroot_mark_frame [OF fr])
  next
    case (step a b)
    from reach_in.step [OF step.IH] step.hyps show ?case
      by (simp add: zone_mark_frame [OF fr] edge_mark_frame [OF fr])
  qed
  ultimately show ?thesis by (auto simp: fun_eq_iff)
qed

lemma reach_in_mono:
  assumes "reach_in S h a" "S \<subseteq> T"
  shows "reach_in T h a"
  using assms
proof (induction rule: reach_in.induct)
  case (root a)
  then show ?case by (intro reach_in.root) (auto simp: zone_def)
next
  case (step a b)
  then show ?case by (intro reach_in.step [OF step.IH]) (auto simp: zone_def)
qed

text \<open>With the gray lists of \<open>S\<close> empty, everything reachable inside \<open>S\<close> is black.\<close>

lemma tri_inv_done:
  assumes ok: "heap_ok h" and inv: "tri_inv S h" and empty: "\<And>i. i \<in> S \<Longrightarrow> glist h i = []"
    and r: "reach_in S h a"
  shows "hcolor h a = Some Black"
proof -
  have col: "hcolor h a = Some Black" if "a \<in> zone S h" "hcolor h a \<noteq> Some White" for a
  proof -
    from that(1) obtain i where i: "i \<in> S" "in_par h i a" by (auto simp: zone_def)
    then have "a \<in> dom (heads h)" by (auto simp: in_par_def)
    then obtain c where c: "hcolor h a = Some c" using heap_ok_hcolor_dom [OF ok] by auto
    moreover have "c \<noteq> Gray"
      using inv empty [OF i(1)] i c by (auto simp: tri_inv_def tri_inv_upto_def)
    ultimately show ?thesis using that(2) by (cases c) auto
  qed
  show ?thesis
    using r
  proof induction
    case (root a)
    then show ?case using inv by (intro col) (auto simp: tri_inv_def tri_inv_upto_def)
  next
    case (step a b)
    with inv reach_in_zone [OF step.hyps(1)] show ?case
      by (intro col) (auto simp: tri_inv_def tri_inv_upto_def)
  qed
qed

subsection \<open>Marking to the end\<close>

lemma mark_marking:
  assumes "get_par h pid = Some p" "marking p" "m \<noteq> 0"
  shows "mark pid m h = mark_grays pid m h"
  using assms by (simp add: mark_def mark_prepare_marking word_gt_0)

lemma mark_until_done_run:
  assumes "heap_ok h" "get_par h pid = Some p" "marking p" "\<forall>a\<in>set (glist h (unat pid)). R a"
    "traced_closed R (unat pid) h"
  shows "\<exists>t. mark_until_done pid h = Some t \<and> mark_run R (unat pid) h t \<and> glist t (unat pid) = []"
  using assms
proof (induction pid h arbitrary: p rule: mark_until_done.induct)
  case (1 pid h)
  let ?i = "unat pid"
  have i: "?i < length (partitions h)" using 1(3) by (simp add: get_par_Some)
  from mark_grays_correct [OF 1(2) i 1(5,6), of 64] obtain d t where
    t: "mark_grays pid 64 h = Some (d, t)" "mark_run R ?i h t" "d \<longleftrightarrow> glist t ?i = []"
    by auto
  have m: "mark pid 64 h = Some (d, t)" using mark_marking [OF 1(3,4), of 64] t(1) by simp
  note r = mark_runD [OF t(2)]
  show ?case
  proof (cases d)
    case True
    with m t(2,3) show ?thesis by (subst mark_until_done.simps) simp
  next
    case False
    have it: "?i < length (partitions t)" using i mark_frame_fields(10) [OF r(1)] by simp
    then have q: "get_par t pid = Some (partitions t ! ?i)" by (simp add: get_par_Some)
    have mq: "pmarking t ?i" using r(8) [OF i] 1(3,4) by (simp add: get_par_Some)
    have "\<exists>u. mark_until_done pid t = Some u \<and> mark_run R ?i t u \<and> glist u ?i = []"
      by (rule 1(1) [OF m refl False r(2) q mq])
         (use r(7) 1(6) traced_closed_mark_frame [OF r(1)] in blast)+
    then obtain u where "mark_until_done pid t = Some u" "mark_run R ?i t u" "glist u ?i = []" by blast
    with m False mark_run_trans [OF t(2)] show ?thesis
      by (subst mark_until_done.simps) auto
  qed
qed

lemma mark_until_done_prepare:
  assumes "mark_prepare pid h = Some h1" "get_par h1 pid = Some q" "marking q"
  shows "mark_until_done pid h = mark_until_done pid h1"
proof -
  have "mark pid 64 h = mark pid 64 h1"
    using assms by (simp add: mark_def mark_prepare_marking)
  then show ?thesis by (subst (1 2) mark_until_done.simps) simp
qed

text \<open>
  A phase that starts clean (not marking, empty gray list) ends with exactly the nodes its
  roots reach inside the partition black, and the others white.
\<close>

lemma mark_until_done_exact:
  assumes ok: "heap_ok h" and p: "get_par h pid = Some p" "\<not> marking p" "gray_list p = []"
    and cl: "\<And>a b. reach_in {unat pid} h a \<Longrightarrow> edge h a b \<Longrightarrow> b \<in> dom (heads h)"
  shows "\<exists>t. mark_until_done pid h = Some t \<and> mark_frame h t \<and> heap_ok t \<and>
    pmarking t (unat pid) \<and> glist t (unat pid) = [] \<and>
    (\<forall>a. in_par h (unat pid) a \<longrightarrow>
       hcolor t a = Some (if reach_in {unat pid} h a then Black else White))"
proof -
  let ?i = "unat pid" and ?R = "reach_in {unat pid} h"
  have i: "?i < length (partitions h)" "glist h ?i = []" using p by (auto simp: get_par_Some)
  from mark_prepare_correct [OF ok p(1,2)] obtain u where u: "mark_prepare pid h = Some u"
    "mark_frame h u" "heap_ok u" "pmarking u ?i" "seeded h ?i u"
    using i by blast
  have iu: "?i < length (partitions u)" using i mark_frame_fields(10) [OF u(2)] by simp
  then have q: "get_par u pid = Some (partitions u ! ?i)" by (simp add: get_par_Some)
  have gl: "\<forall>a\<in>set (glist u ?i). ?R a"
    using u(5) i by (auto simp: seeded_def zone_def intro: reach_in.root)
  have "traced_closed ?R ?i h"
    using cl by (auto simp: traced_closed_def zone_def intro: reach_in.step)
  then have tc: "traced_closed ?R ?i u" by (simp add: traced_closed_mark_frame [OF u(2)])
  from mark_until_done_run [OF u(3) q u(4) gl tc] obtain t where
    t: "mark_until_done pid u = Some t" "mark_run ?R ?i u t" "glist t ?i = []" by blast
  note r = mark_runD [OF t(2)]
  have fr: "mark_frame h t" by (rule mark_frame_trans [OF u(2) r(1)])
  have inv: "tri_inv {?i} t" using r(3) seeded_tri_inv [OF u(2), of "{?i}"] u(5) i by simp
  have col: "hcolor t a = Some (if ?R a then Black else White)" if a: "in_par h ?i a" for a
  proof (cases "?R a")
    case True
    then have "reach_in {?i} t a" by (simp add: reach_in_mark_frame [OF fr])
    from tri_inv_done [OF r(2) inv _ this] t(3) True show ?thesis by simp
  next
    case False
    then have "\<not> hroot h a" using a by (auto simp: zone_def intro: reach_in.root)
    then have "hcolor u a = Some White" using u(5) a i by (simp add: seeded_def)
    moreover have "hcolor t a = hcolor u a"
      using r(4) [of a] False a by (auto simp: in_par_mark_frame [OF u(2)])
    ultimately show ?thesis using False by simp
  qed
  have "mark_until_done pid h = Some t"
    using mark_until_done_prepare [OF u(1) q u(4)] t(1) by simp
  moreover have "pmarking t ?i" using r(8) [OF iu] u(4) by simp
  ultimately show ?thesis using fr r(2) t(3) col by blast
qed

text \<open>
  A partition is ready when it is clean, or in the middle of a marking phase that has kept the
  invariant.  From there marking ends with everything reachable black.
\<close>

definition ready :: "nat \<Rightarrow> 'p gc_heap \<Rightarrow> bool" where
  "ready i h \<longleftrightarrow> (if pmarking h i then tri_inv {i} h else glist h i = [])"

text \<open>
  A collection may also start on an idle partition that has gray nodes pending, pushed by the marking
  of another partition; \<open>pending_ok\<close> is the condition for that branch.  It is not automatic: the
  survivors of a sweep stay black, and stores into them are not recorded while the partition is idle.
\<close>

definition start_ok :: "nat \<Rightarrow> 'p gc_heap \<Rightarrow> bool" where
  "start_ok i h \<longleftrightarrow> (if pmarking h i then tri_inv {i} h else glist h i = [] \<or> pending_ok i h)"

lemma ready_start [intro]: "ready i h \<Longrightarrow> start_ok i h"
  by (simp add: ready_def start_ok_def split: if_splits)

lemma mark_until_done_sound:
  assumes ok: "heap_ok h" and cl: "refs_closed h" and i: "unat pid < length (partitions h)"
    and rd: "start_ok (unat pid) h"
  shows "\<exists>t. mark_until_done pid h = Some t \<and> mark_frame h t \<and> heap_ok t \<and>
    pmarking t (unat pid) \<and> glist t (unat pid) = [] \<and> tri_inv {unat pid} t"
proof -
  let ?i = "unat pid"
  have p: "get_par h pid = Some (partitions h ! ?i)" using i by (simp add: get_par_Some)
  obtain u where u: "mark_until_done pid h = mark_until_done pid u" "mark_frame h u" "heap_ok u"
    "pmarking u ?i" "tri_inv {?i} u"
  proof (cases "pmarking h ?i")
    case True
    with rd ok that [of h] show ?thesis by (simp add: start_ok_def)
  next
    case False
    from mark_prepare_correct [OF ok p False] i obtain u where u: "mark_prepare pid h = Some u"
      "mark_frame h u" "heap_ok u" "pmarking u ?i" "seeded h ?i u" by blast
    have "get_par u pid = Some (partitions u ! ?i)"
      using i mark_frame_fields(10) [OF u(2)] by (simp add: get_par_Some)
    moreover have "tri_inv {?i} u"
      using seeded_tri_inv [OF u(2), of "{?i}"] seeded_tri_inv_pending [OF u(2)] u(5) False rd
      by (cases "glist h ?i = []") (simp_all add: start_ok_def)
    ultimately show ?thesis using that mark_until_done_prepare [OF u(1)] u by blast
  qed
  have iu: "?i < length (partitions u)" using i mark_frame_fields(10) [OF u(2)] by simp
  then have q: "get_par u pid = Some (partitions u ! ?i)" by (simp add: get_par_Some)
  have tc: "traced_closed (\<lambda>_. True) ?i u"
    using cl unfolding traced_closed_mark_frame [OF u(2)]
    by (auto simp: traced_closed_def refs_closed_def)
  from mark_until_done_run [OF u(3) q u(4) _ tc] obtain t where
    t: "mark_until_done pid u = Some t" "mark_run (\<lambda>_. True) ?i u t" "glist t ?i = []" by auto
  note r = mark_runD [OF t(2)]
  have "mark_frame h t" by (rule mark_frame_trans [OF u(2) r(1)])
  with u t r(2) r(3) [OF u(5)] r(8) [OF iu] show ?thesis by auto
qed

end
