(* ===== verification/Gc_Weak.thy ===== *)
theory Gc_Weak
  imports Gc_Heap
begin

section \<open>Weak references (src/src/weak.rs)\<close>

text \<open>
  \<open>GcWeakRawId\<close>, a 24-bit slot index over an 8-bit version, and the slot table of the heap.
  \<open>weak_ok\<close> is the consistency of the table with the \<open>weak_id\<close> fields of the nodes.
\<close>

subsection \<open>Identifiers\<close>

definition weak_index :: "u32 \<Rightarrow> u32" where
  "weak_index w = drop_bit 8 w"

definition weak_version :: "u32 \<Rightarrow> u8" where
  "weak_version w = ucast (w AND 0xff)"

definition weak_is_null :: "u32 \<Rightarrow> bool" where
  "weak_is_null w \<longleftrightarrow> weak_version w = 0"

definition weak_new :: "u32 \<Rightarrow> u8 \<Rightarrow> u32" where
  "weak_new index version = push_bit 8 index OR ucast version"

lemma weak_version_new: "weak_version (weak_new i v) = v"
proof (rule bit_word_eqI)
  fix n assume "n < LENGTH(8)"
  have ff: "(0xff :: u32) = mask 8" by (simp add: mask_eq_exp_minus_1)
  show "bit (weak_version (weak_new i v)) n = bit v n"
    using \<open>n < LENGTH(8)\<close> unfolding weak_version_def weak_new_def ff
    by (auto simp: bit_simps)
qed

lemma weak_index_new:
  assumes "unat i < 2 ^ 24"
  shows "weak_index (weak_new i v) = i"
proof (rule bit_word_eqI)
  fix n assume n: "n < LENGTH(32)"
  have small: "\<not> bit i m" if "24 \<le> m" for m
  proof
    assume "bit i m"
    then have "bit (unat i) m" by (simp add: bit_unsigned_iff)
    then have "odd (unat i div 2 ^ m)" unfolding bit_iff_odd .
    moreover have "unat i < 2 ^ m" using assms that power_increasing [of 24 m "2 :: nat"] by simp
    ultimately show False by simp
  qed
  have vn: "\<not> bit v (n + 8)" using bit_imp_le_length [of v "n + 8"] by auto
  have "bit (weak_index (weak_new i v)) n \<longleftrightarrow> (n + 8 < 32 \<and> bit i n) \<or> bit v (n + 8)"
    using vn unfolding weak_index_def weak_new_def by (auto simp: bit_simps add.commute)
  also have "\<dots> \<longleftrightarrow> bit i n"
  proof (cases "24 \<le> n")
    case True
    with small [OF True] vn show ?thesis by blast
  next
    case False
    with vn show ?thesis by simp
  qed
  finally show "bit (weak_index (weak_new i v)) n = bit i n" .
qed

lemma weak_new_parts: "weak_new (weak_index w) (weak_version w) = w"
proof (rule bit_word_eqI)
  fix n assume n: "n < LENGTH(32)"
  have ff: "(0xff :: u32) = mask 8" by (simp add: mask_eq_exp_minus_1)
  show "bit (weak_new (weak_index w) (weak_version w)) n = bit w n"
    using n unfolding weak_new_def weak_index_def weak_version_def ff
    by (cases "n < 8") (auto simp: bit_simps)
qed

subsection \<open>Operations\<close>

text \<open>\<open>iter().position(|(_, slot)| slot.get().is_none())\<close>\<close>

fun free_slot :: "(u8 \<times> addr option) list \<Rightarrow> nat option" where
  "free_slot [] = None"
| "free_slot (s # ss) = (if snd s = None then Some 0 else map_option Suc (free_slot ss))"

definition next_version :: "u8 \<Rightarrow> u8" where
  "next_version curr_ver = (if curr_ver = - 1 then 1 else curr_ver + 1)"

definition downgrade :: "addr \<Rightarrow> 'p gc_heap \<Rightarrow> (u32 \<times> 'p gc_heap) option" where
  "downgrade node h =
     do { g \<leftarrow> heads h node;
          if \<not> weak_is_null (weak_id g) then Some (weak_id g, h)
          else if length (weak_slots h) \<ge> 2 ^ 24 - 1 then None
          else
            (let (i, slots) =
               (case free_slot (weak_slots h) of
                  Some i \<Rightarrow> (i, weak_slots h)
                | None \<Rightarrow> (length (weak_slots h), vec_push (weak_slots h) (0, None)));
                 curr_ver = fst (slots ! i);
                 version = next_version curr_ver;
                 weak = weak_new (of_nat i) version
             in Some (weak,
                  put_head node (g\<lparr>weak_id := weak\<rparr>)
                    (h\<lparr>weak_slots := slots[i := (version, Some node)]\<rparr>))) }"

definition upgrade :: "u32 \<Rightarrow> 'p gc_heap \<Rightarrow> addr option" where
  "upgrade w h =
     (if \<not> weak_is_null w then
        do { (version, node) \<leftarrow> vec_get (weak_slots h) (unat (weak_index w));
             if version = weak_version w then node else None }
      else None)"

text \<open>
  \<open>weak_slots.get_unchecked_mut(widx).1.set(None)\<close>, the clearing shared by the disposal of
  a node and the teardown of a partition.
\<close>

definition clear_weak_slot :: "gc_head \<Rightarrow> 'p gc_heap \<Rightarrow> 'p gc_heap option" where
  "clear_weak_slot g h =
     (if weak_is_null (weak_id g) then Some h
      else
        (let widx = unat (weak_index (weak_id g)) in
         if widx < length (weak_slots h) then
           Some (h\<lparr>weak_slots := (weak_slots h)[widx := (fst (weak_slots h ! widx), None)]\<rparr>)
         else None))"

subsection \<open>Consistency of the slot table\<close>

text \<open>A slot that points to a node is the slot that node's \<open>weak_id\<close> names, and vice versa.\<close>

definition weak_ok :: "'p gc_heap \<Rightarrow> bool" where
  "weak_ok h \<longleftrightarrow>
     length (weak_slots h) \<le> 2 ^ 24 - 1 \<and>
     (\<forall>i<length (weak_slots h). \<forall>a. snd (weak_slots h ! i) = Some a \<longrightarrow>
        (\<exists>g. heads h a = Some g \<and> weak_id g = weak_new (of_nat i) (fst (weak_slots h ! i)) \<and>
             fst (weak_slots h ! i) \<noteq> 0)) \<and>
     (\<forall>a g. heads h a = Some g \<longrightarrow> \<not> weak_is_null (weak_id g) \<longrightarrow>
        (\<exists>i<length (weak_slots h). weak_slots h ! i = (weak_version (weak_id g), Some a) \<and>
             weak_id g = weak_new (of_nat i) (weak_version (weak_id g))))"

lemma free_slot_Some:
  "free_slot ss = Some i \<Longrightarrow> i < length ss \<and> snd (ss ! i) = None"
  by (induction ss arbitrary: i) (auto split: if_splits)

lemma free_slot_None: "free_slot ss = None \<longleftrightarrow> (\<forall>s\<in>set ss. snd s \<noteq> None)"
  by (induction ss) auto

lemma weak_index_of_nat:
  assumes "i < 2 ^ 24"
  shows "weak_index (weak_new (of_nat i) v) = of_nat i" "unat (weak_index (weak_new (of_nat i) v)) = i"
proof -
  have u: "unat (of_nat i :: u32) = i" using assms by (simp add: unat_of_nat)
  then show "weak_index (weak_new (of_nat i) v) = of_nat i" using assms by (intro weak_index_new) simp
  then show "unat (weak_index (weak_new (of_nat i) v)) = i" using u by simp
qed

lemma unat_next_version: "unat (next_version v) = unat v mod 255 + 1"
proof (cases "v = - 1")
  case True
  have "unat (- 1 :: u8) = 255" by (simp add: unsigned_minus_1_eq_mask mask_eq_exp_minus_1)
  with True show ?thesis by (simp add: next_version_def)
next
  case False
  have lt: "unat v < 256" using unsigned_less [of v] by simp
  have "unat v \<noteq> 255"
  proof
    assume "unat v = 255"
    then have "v = 255" by (simp add: word_unat_eq_iff)
    moreover have "(255 :: u8) = - 1" by simp
    ultimately show False using False by simp
  qed
  with lt have "unat v < 255" by simp
  then have "unat (v + 1) = unat v + 1" by (simp add: unat_word_ariths)
  with False \<open>unat v < 255\<close> show ?thesis by (simp add: next_version_def)
qed

lemma next_version_nonzero: "next_version v \<noteq> 0"
proof
  assume "next_version v = 0"
  then have "unat (next_version v) = 0" by simp
  then show False by (simp add: unat_next_version)
qed

lemma next_version_new: "next_version v \<noteq> v"
proof
  assume "next_version v = v"
  then have "unat v mod 255 + 1 = unat v" using unat_next_version [of v] by simp
  moreover have "unat v < 256" using unsigned_less [of v] by simp
  then have "unat v < 255 \<or> unat v = 255" by linarith
  ultimately show False by auto
qed

lemma unat_next_version_funpow:
  "0 < unat v \<Longrightarrow> unat ((next_version ^^ k) v) = (unat v - 1 + k) mod 255 + 1"
proof (induction k)
  case 0
  have "unat v < 256" using unsigned_less [of v] by simp
  with 0 show ?case by simp
next
  case (Suc k)
  then show ?case by (simp add: unat_next_version) (simp add: mod_Suc_eq)
qed

subsection \<open>Correctness\<close>

text \<open>The slot a fresh weak reference is written to, and the table with that slot.\<close>

lemma weak_ok_set_slot:
  assumes ok: "weak_ok h" and i: "i < length slots" "length slots \<le> 2 ^ 24 - 1"
    and prev: "\<And>j. j < length slots \<Longrightarrow> j \<noteq> i \<Longrightarrow> j < length (weak_slots h) \<and> slots ! j = weak_slots h ! j"
    and old: "\<And>j. j < length (weak_slots h) \<Longrightarrow> j < length slots"
    and unused: "i < length (weak_slots h) \<Longrightarrow> snd (weak_slots h ! i) = None"
    and g: "heads h node = Some g" "weak_is_null (weak_id g)" and v: "v \<noteq> 0"
  shows "weak_ok (put_head node (g\<lparr>weak_id := weak_new (of_nat i) v\<rparr>)
      (h\<lparr>weak_slots := slots[i := (v, Some node)]\<rparr>))" (is "weak_ok ?h")
proof -
  have sl: "weak_slots ?h = slots[i := (v, Some node)]" by simp
  have nw: "\<not> weak_is_null (weak_new (of_nat i) v)" using v by (simp add: weak_is_null_def weak_version_new)
  have fwd: "\<exists>g'. heads ?h a = Some g' \<and> weak_id g' = weak_new (of_nat j) (fst (weak_slots ?h ! j)) \<and>
      fst (weak_slots ?h ! j) \<noteq> 0"
    if j: "j < length (weak_slots ?h)" "snd (weak_slots ?h ! j) = Some a" for j a
  proof (cases "j = i")
    case True
    with j i v show ?thesis by simp
  next
    case False
    with j prev [of j] have o: "j < length (weak_slots h)" "weak_slots ?h ! j = weak_slots h ! j"
      "snd (weak_slots h ! j) = Some a" by auto
    with ok obtain g' where g': "heads h a = Some g'"
      "weak_id g' = weak_new (of_nat j) (fst (weak_slots h ! j))" "fst (weak_slots h ! j) \<noteq> 0"
      unfolding weak_ok_def by blast
    then have "a \<noteq> node" using g by (auto simp: weak_is_null_def weak_version_new)
    with g' o(2) show ?thesis by auto
  qed
  have bwd: "\<exists>j<length (weak_slots ?h). weak_slots ?h ! j = (weak_version (weak_id g'), Some a) \<and>
      weak_id g' = weak_new (of_nat j) (weak_version (weak_id g'))"
    if a: "heads ?h a = Some g'" "\<not> weak_is_null (weak_id g')" for a g'
  proof (cases "a = node")
    case True
    with a have "weak_id g' = weak_new (of_nat i) v" by auto
    with i True show ?thesis by (intro exI [of _ i]) (simp add: weak_version_new)
  next
    case False
    with a have "heads h a = Some g'" by simp
    with a(2) ok obtain j where j: "j < length (weak_slots h)"
      "weak_slots h ! j = (weak_version (weak_id g'), Some a)"
      "weak_id g' = weak_new (of_nat j) (weak_version (weak_id g'))"
      unfolding weak_ok_def by blast
    then have "j \<noteq> i" using unused by auto
    with j old [OF j(1)] prev [of j] show ?thesis by (intro exI [of _ j]) simp
  qed
  show ?thesis
    unfolding weak_ok_def using i(2) fwd bwd by (intro conjI allI impI) (simp_all)
qed

lemma downgrade_fresh:
  assumes ok: "weak_ok h" and g: "heads h node = Some g" "weak_is_null (weak_id g)"
    and room: "length (weak_slots h) < 2 ^ 24 - 1"
  shows "\<exists>w h'. downgrade node h = Some (w, h') \<and> weak_ok h' \<and> \<not> weak_is_null w \<and>
    heads h' = (heads h)(node \<mapsto> g\<lparr>weak_id := w\<rparr>) \<and> upgrade w h = None \<and>
    (\<forall>j<length (weak_slots h). w \<noteq> weak_new (of_nat j) (fst (weak_slots h ! j)))"
proof -
  define i where "i = (case free_slot (weak_slots h) of Some i \<Rightarrow> i | None \<Rightarrow> length (weak_slots h))"
  define slots where "slots = (case free_slot (weak_slots h) of Some i \<Rightarrow> weak_slots h
    | None \<Rightarrow> vec_push (weak_slots h) (0, None))"
  define v where "v = next_version (fst (slots ! i))"
  have v: "v \<noteq> 0" unfolding v_def by (rule next_version_nonzero)
  have d: "downgrade node h = Some (weak_new (of_nat i) v,
      put_head node (g\<lparr>weak_id := weak_new (of_nat i) v\<rparr>)
        (h\<lparr>weak_slots := slots[i := (v, Some node)]\<rparr>))"
    using g room
    by (auto simp: downgrade_def i_def slots_def v_def Let_def split: option.splits)
  have "weak_ok (put_head node (g\<lparr>weak_id := weak_new (of_nat i) v\<rparr>)
      (h\<lparr>weak_slots := slots[i := (v, Some node)]\<rparr>))"
  proof (rule weak_ok_set_slot [OF ok])
    show "i < length slots" "length slots \<le> 2 ^ 24 - 1"
      using room by (auto simp: i_def slots_def vec_push_def dest: free_slot_Some split: option.splits)
    show "snd (weak_slots h ! i) = None" if "i < length (weak_slots h)"
      using that by (auto simp: i_def dest: free_slot_Some split: option.splits)
    show "j < length (weak_slots h) \<and> slots ! j = weak_slots h ! j" if "j < length slots" "j \<noteq> i" for j
      using that by (auto simp: i_def slots_def vec_push_def nth_append split: option.splits)
    show "j < length slots" if "j < length (weak_slots h)" for j
      using that by (auto simp: slots_def vec_push_def split: option.splits)
  qed (use g v in simp_all)
  moreover have free: "snd (weak_slots h ! i) = None" "slots ! i = weak_slots h ! i" if "i < length (weak_slots h)"
    using that by (auto simp: i_def slots_def dest: free_slot_Some split: option.splits)
  have "i \<le> length (weak_slots h)" by (auto simp: i_def dest: free_slot_Some split: option.splits)
  with room have i24: "i < 2 ^ 24" by simp
  have "upgrade (weak_new (of_nat i) v) h = None"
    using free(1) weak_index_of_nat(2) [OF i24, of v]
    by (cases "weak_slots h ! i") (auto simp: upgrade_def vec_get_def)
  moreover have "weak_new (of_nat i) v \<noteq> weak_new (of_nat j) (fst (weak_slots h ! j))" if j: "j < length (weak_slots h)" for j
  proof
    assume e: "weak_new (of_nat i) v = weak_new (of_nat j) (fst (weak_slots h ! j))"
    have "j < 2 ^ 24" using j room by simp
    from weak_index_of_nat(2) [OF this] weak_index_of_nat(2) [OF i24] e have "j = i" by metis
    moreover have "v = fst (weak_slots h ! j)" using e weak_version_new by metis
    ultimately show False using free(2) j next_version_new [of "fst (weak_slots h ! i)"] by (simp add: v_def)
  qed
  moreover have "\<not> weak_is_null (weak_new (of_nat i) v)" using v by (simp add: weak_is_null_def weak_version_new)
  ultimately show ?thesis using d by auto
qed

text \<open>Upgrading what downgrading returned gives the node back.\<close>

lemma upgrade_weak_ok:
  assumes ok: "weak_ok h" and g: "heads h node = Some g" "\<not> weak_is_null (weak_id g)"
  shows "upgrade (weak_id g) h = Some node"
proof -
  from ok g obtain i where i: "i < length (weak_slots h)"
    "weak_slots h ! i = (weak_version (weak_id g), Some node)"
    "weak_id g = weak_new (of_nat i) (weak_version (weak_id g))"
    unfolding weak_ok_def by blast
  have "i < 2 ^ 24" using i(1) ok by (simp add: weak_ok_def)
  then have "unat (weak_index (weak_id g)) = i" using i(3) weak_index_of_nat(2) by metis
  with i g(2) show ?thesis by (simp add: upgrade_def vec_get_def)
qed

text \<open>Whatever a weak reference upgrades to is a live node, with that very identifier.\<close>

lemma upgrade_live:
  assumes ok: "weak_ok h" and u: "upgrade w h = Some a"
  shows "\<exists>g. heads h a = Some g \<and> weak_id g = weak_new (weak_index w) (weak_version w)"
proof -
  from u obtain ver where s: "\<not> weak_is_null w" "unat (weak_index w) < length (weak_slots h)"
    "weak_slots h ! unat (weak_index w) = (ver, Some a)" "ver = weak_version w"
    by (auto simp: upgrade_def bind_eq_Some_conv vec_get_Some split: if_splits prod.splits)
  with ok have "\<exists>g. heads h a = Some g \<and>
      weak_id g = weak_new (of_nat (unat (weak_index w))) (fst (weak_slots h ! unat (weak_index w)))"
    unfolding weak_ok_def by (metis snd_conv)
  with s show ?thesis by simp
qed

lemma clear_weak_slot_ok:
  assumes ok: "weak_ok h" and g: "heads h node = Some g"
  shows "\<exists>h'. clear_weak_slot g h = Some h' \<and> h' = h\<lparr>weak_slots := weak_slots h'\<rparr> \<and>
    weak_ok (h'\<lparr>heads := (heads h')(node := None)\<rparr>)"
proof (cases "weak_is_null (weak_id g)")
  case True
  have "snd (weak_slots h ! i) \<noteq> Some node" if "i < length (weak_slots h)" for i
  proof
    assume "snd (weak_slots h ! i) = Some node"
    with ok that g have "weak_id g = weak_new (of_nat i) (fst (weak_slots h ! i))"
      "fst (weak_slots h ! i) \<noteq> 0" unfolding weak_ok_def by (metis option.inject)+
    with True show False by (simp add: weak_is_null_def weak_version_new)
  qed
  then have "weak_ok (h\<lparr>heads := (heads h)(node := None)\<rparr>)"
    using ok by (auto simp: weak_ok_def)
  with True show ?thesis by (simp add: clear_weak_slot_def)
next
  case False
  from ok g False obtain i where i: "i < length (weak_slots h)"
    "weak_slots h ! i = (weak_version (weak_id g), Some node)"
    "weak_id g = weak_new (of_nat i) (weak_version (weak_id g))"
    unfolding weak_ok_def by blast
  have "i < 2 ^ 24" using i(1) ok by (simp add: weak_ok_def)
  then have u: "unat (weak_index (weak_id g)) = i" using i(3) weak_index_of_nat(2) by metis
  let ?h = "h\<lparr>weak_slots := (weak_slots h)[i := (fst (weak_slots h ! i), None)]\<rparr>"
  have c: "clear_weak_slot g h = Some ?h" using False i(1) u by (simp add: clear_weak_slot_def Let_def)
  have uniq: "j = i" if "j < length (weak_slots h)" "snd (weak_slots h ! j) = Some node" for j
  proof -
    from ok that g have "weak_id g = weak_new (of_nat j) (fst (weak_slots h ! j))"
      unfolding weak_ok_def by (metis option.inject)
    moreover have "j < 2 ^ 24" using that(1) ok by (simp add: weak_ok_def)
    ultimately show "j = i" using u weak_index_of_nat(2) by metis
  qed
  have "weak_ok (?h\<lparr>heads := (heads ?h)(node := None)\<rparr>)"
    unfolding weak_ok_def
  proof (intro conjI allI impI)
    fix j a assume "j < length (weak_slots (?h\<lparr>heads := (heads ?h)(node := None)\<rparr>))"
      "snd (weak_slots (?h\<lparr>heads := (heads ?h)(node := None)\<rparr>) ! j) = Some a"
    then have j: "j < length (weak_slots h)" "j \<noteq> i" "snd (weak_slots h ! j) = Some a"
      by (cases "j = i"; simp)+
    then have "a \<noteq> node" using uniq by auto
    with ok j show "\<exists>g. heads (?h\<lparr>heads := (heads ?h)(node := None)\<rparr>) a = Some g \<and>
        weak_id g = weak_new (of_nat j) (fst (weak_slots (?h\<lparr>heads := (heads ?h)(node := None)\<rparr>) ! j)) \<and>
        fst (weak_slots (?h\<lparr>heads := (heads ?h)(node := None)\<rparr>) ! j) \<noteq> 0"
      by (simp add: weak_ok_def)
  next
    fix a g' assume "heads (?h\<lparr>heads := (heads ?h)(node := None)\<rparr>) a = Some g'"
      and nn: "\<not> weak_is_null (weak_id g')"
    then have a: "a \<noteq> node" "heads h a = Some g'" by (auto split: if_splits)
    with ok nn obtain j where j: "j < length (weak_slots h)"
      "weak_slots h ! j = (weak_version (weak_id g'), Some a)"
      "weak_id g' = weak_new (of_nat j) (weak_version (weak_id g'))"
      unfolding weak_ok_def by blast
    then have "j \<noteq> i" using i(2) a(1) by auto
    with j show "\<exists>i<length (weak_slots (?h\<lparr>heads := (heads ?h)(node := None)\<rparr>)).
        weak_slots (?h\<lparr>heads := (heads ?h)(node := None)\<rparr>) ! i = (weak_version (weak_id g'), Some a) \<and>
        weak_id g' = weak_new (of_nat i) (weak_version (weak_id g'))"
      by (intro exI [of _ j]) simp
  qed (use ok in \<open>simp add: weak_ok_def\<close>)
  with c show ?thesis by simp
qed

subsection \<open>The version counter\<close>

text \<open>
  C39: the version of a weak slot is never the null version and comes back to the same value after
  every 255 reuses of the slot, and not before.
\<close>
theorem weak_version_cycle:
  assumes "v \<noteq> 0"
  shows "(next_version ^^ k) v \<noteq> 0 \<and> ((next_version ^^ k) v = v \<longleftrightarrow> 255 dvd k)"
proof -
  have "unat v < 2 ^ LENGTH(8)" by (rule unsigned_less)
  then have v: "0 < unat v" "unat v \<le> 255" using assms by (auto simp: unat_gt_0)
  have u: "unat ((next_version ^^ k) v) = (unat v - 1 + k) mod 255 + 1" by (rule unat_next_version_funpow [OF v(1)])
  have "(unat v - 1 + k) mod 255 + 1 = unat v \<longleftrightarrow> (unat v - 1 + k) mod 255 = (unat v - 1) mod 255"
    using v by (cases "unat v - 1 = 255") auto
  also have "\<dots> \<longleftrightarrow> 255 dvd k"
    by (metis add_diff_cancel_left' le_add1 mod_eq_dvd_iff_nat)
  finally have "(next_version ^^ k) v = v \<longleftrightarrow> 255 dvd k" using u by (metis word_unat_eq_iff)
  then show ?thesis using u by (metis Suc_eq_plus1 nat.simps(3) unat_0)
qed

theorem weak_version_cycle_witness:
  "(next_version ^^ 255) (7 :: u8) = 7 \<and> (next_version ^^ 254) (7 :: u8) \<noteq> 7"
  using weak_version_cycle [of 7 255] weak_version_cycle [of 7 254] by simp

lemma upgrade_iff:
  assumes "weak_ok h"
  shows "upgrade w h = Some a \<longleftrightarrow> \<not> weak_is_null w \<and> map_option weak_id (heads h a) = Some w"
proof
  assume u: "upgrade w h = Some a"
  then have "\<not> weak_is_null w" by (auto simp: upgrade_def split: if_splits)
  then show "\<not> weak_is_null w \<and> map_option weak_id (heads h a) = Some w"
    using upgrade_live [OF assms u] by (auto simp: weak_new_parts)
next
  assume r: "\<not> weak_is_null w \<and> map_option weak_id (heads h a) = Some w"
  then obtain g where "heads h a = Some g" "weak_id g = w" by auto
  with upgrade_weak_ok [OF assms this(1)] r show "upgrade w h = Some a" by simp
qed

end
