(* ===== verification/Gc_Arena_Safe.thy ===== *)
theory Gc_Arena_Safe
  imports Gc_Arena "HOL-Library.Multiset"
begin

section \<open>The arena never hands out a block twice\<close>

text \<open>
  The invariant of \<open>GcArena\<close>: the live blocks, the free list and the holes of a running
  sweep are pairwise disjoint, lie below the bump pointer, and \<open>live_count\<close> counts the
  live blocks.  Every operation keeps it.
\<close>

subsection \<open>Pairwise disjoint blocks\<close>

type_synonym nat_block = "nat \<times> nat"

definition apart :: "nat_block \<Rightarrow> nat_block \<Rightarrow> bool" where
  "apart b c \<longleftrightarrow> fst b + snd b \<le> fst c \<or> fst c + snd c \<le> fst b"

primrec separate :: "nat_block list \<Rightarrow> bool" where
  "separate [] \<longleftrightarrow> True"
| "separate (b # bs) \<longleftrightarrow> (\<forall>c\<in>set bs. apart b c) \<and> separate bs"

lemma apart_sym: "apart b c \<longleftrightarrow> apart c b"
  by (auto simp: apart_def)

lemma separate_append:
  "separate (xs @ ys) \<longleftrightarrow> separate xs \<and> separate ys \<and> (\<forall>b\<in>set xs. \<forall>c\<in>set ys. apart b c)"
  by (induction xs) auto

lemma separate_Cons_move: "separate (xs @ b # ys) \<longleftrightarrow> separate (b # xs @ ys)"
  by (auto simp: separate_append apart_sym)

lemma separate_mset: "mset xs = mset ys \<Longrightarrow> separate xs = separate ys"
proof (induction xs arbitrary: ys)
  case Nil
  then show ?case by simp
next
  case (Cons b xs)
  then have "b \<in> set ys" by (metis list.set_intros(1) set_mset_mset)
  then obtain us vs where ys: "ys = us @ b # vs" by (meson split_list)
  with Cons.prems have m: "mset xs = mset (us @ vs)" by simp
  have "set xs = set (us @ vs)" using m by (rule mset_eq_setD)
  with Cons.IH [OF m] show ?case unfolding ys separate_Cons_move by simp
qed

lemma separate_shrink:
  "separate (b # bs) \<Longrightarrow> fst c = fst b \<Longrightarrow> snd c \<le> snd b \<Longrightarrow> separate (c # bs)"
  by (fastforce simp: apart_def)

lemma separate_distinct:
  "separate bs \<Longrightarrow> \<forall>b\<in>set bs. 0 < snd b \<Longrightarrow> distinct (map fst bs)"
  by (induction bs) (force simp: apart_def)+

lemma separate_total:
  assumes "separate bs" "\<forall>b\<in>set bs. 0 < snd b \<and> fst b + snd b \<le> B"
  shows "sum_list (map snd bs) \<le> B"
  using assms
proof (induction "length bs" arbitrary: bs B rule: less_induct)
  case less
  show ?case
  proof (cases "bs = []")
    case False
    define m where "m = Max (set (map fst bs))"
    have "m \<in> fst ` set bs" using False Max_in [of "set (map fst bs)"] by (simp add: m_def)
    then obtain c where c: "c \<in> set bs" "fst c = m" by blast
    obtain us vs where bs: "bs = us @ c # vs" using c(1) by (meson split_list)
    have sep: "\<forall>b\<in>set (us @ vs). apart c b" "separate (us @ vs)"
      using less.prems(1) unfolding bs separate_Cons_move by auto
    have "\<forall>b\<in>set (us @ vs). 0 < snd b \<and> fst b + snd b \<le> m"
    proof
      fix b assume b: "b \<in> set (us @ vs)"
      then have "fst b \<le> m" unfolding m_def bs by (intro Max_ge) auto
      moreover have "0 < snd c" "0 < snd b" using less.prems(2) b c(1) bs by auto
      ultimately show "0 < snd b \<and> fst b + snd b \<le> m"
        using sep(1) b c(2) by (fastforce simp: apart_def)
    qed
    with less.hyps [OF _ sep(2)] bs have "sum_list (map snd (us @ vs)) \<le> m" by simp
    moreover have "m + snd c \<le> B" using less.prems(2) c by auto
    ultimately show ?thesis by (simp add: bs)
  qed simp
qed

subsection \<open>The invariant\<close>

definition nblk :: "gc_arena \<Rightarrow> addr \<times> usize \<Rightarrow> nat_block" where
  "nblk ar b = (unat (fst b - base ar), unat (snd b))"

definition hblk :: "hole \<Rightarrow> nat_block" where
  "hblk h = (unat (h_offset h), unat (h_size h))"

definition arena_blocks ::
  "gc_arena \<Rightarrow> (addr \<times> usize) list \<Rightarrow> (addr \<times> usize) list \<Rightarrow> hole list \<Rightarrow> nat_block list" where
  "arena_blocks ar L F H = map (nblk ar) L @ map (nblk ar) F @ map hblk H"

definition arena_inv ::
  "gc_arena \<Rightarrow> (addr \<times> usize) list \<Rightarrow> (addr \<times> usize) list \<Rightarrow> hole list \<Rightarrow> bool" where
  "arena_inv ar L F H \<longleftrightarrow>
     unat (base ar) + unat (capacity ar) < 2 ^ 64 \<and> unat (capacity ar) \<le> 2 ^ 63 \<and>
     bump ar \<le> capacity ar \<and>
     free_chain ar (free_head ar) F \<and>
     separate (arena_blocks ar L F H) \<and>
     (\<forall>b\<in>set (arena_blocks ar L F H). 16 \<le> snd b \<and> fst b + snd b \<le> unat (bump ar)) \<and>
     unat (live_count ar) = length L"

text \<open>A layout the allocator is asked for: what \<open>std::alloc::Layout\<close> guarantees.\<close>

definition layout_ok :: "layout \<Rightarrow> bool" where
  "layout_ok l \<longleftrightarrow> (\<exists>k<63. l_align l = 2 ^ k) \<and> unat (l_size l) + unat (l_align l) \<le> 2 ^ 63"

definition block_size :: "layout \<Rightarrow> usize" where
  "block_size l = max (l_size l) MIN_ALLOC_SIZE"

lemma MIN_ALLOC_SIZE_16: "MIN_ALLOC_SIZE = 16"
  by (simp add: MIN_ALLOC_SIZE_def)

lemma unat_block_size: "unat (block_size l) = max (unat (l_size l)) 16"
  by (simp add: block_size_def MIN_ALLOC_SIZE_16 max_def word_le_nat_alt)

lemma nblk_base_cong: "base ar' = base ar \<Longrightarrow> nblk ar' = nblk ar"
  by (simp add: nblk_def fun_eq_iff)

lemma arena_inv_distinct:
  assumes "arena_inv ar L F H"
  shows "distinct (map fst (L @ F))"
proof -
  have "distinct (map fst (arena_blocks ar L F H))"
    by (rule separate_distinct) (use assms in \<open>fastforce simp: arena_inv_def\<close>)+
  moreover have "arena_blocks ar L F H = map (nblk ar) (L @ F) @ map hblk H"
    by (simp add: arena_blocks_def)
  ultimately have "distinct (map fst (map (nblk ar) (L @ F)))"
    by (metis distinct_append map_append)
  moreover have "map fst (map (nblk ar) xs) = map (\<lambda>a. unat (a - base ar)) (map fst xs)" for xs
    by (simp add: nblk_def)
  ultimately have "distinct (map (\<lambda>a. unat (a - base ar)) (map fst (L @ F)))" by metis
  then show ?thesis by (rule distinct_map [THEN iffD1, THEN conjunct1])
qed

text \<open>With the arena's own bounds, \<open>base + offset\<close> does not wrap.\<close>

lemma arena_inv_addr:
  assumes "arena_inv ar L F H" "b \<in> set (L @ F)"
  shows "unat (fst b) = unat (base ar) + fst (nblk ar b)"
    and "fst (nblk ar b) + unat (snd b) \<le> unat (capacity ar)"
proof -
  have "nblk ar b \<in> set (arena_blocks ar L F H)" using assms(2) by (auto simp: arena_blocks_def)
  then have le: "fst (nblk ar b) + snd (nblk ar b) \<le> unat (bump ar)"
    using assms(1) by (auto simp: arena_inv_def)
  have cap: "unat (bump ar) \<le> unat (capacity ar)"
    using assms(1) by (simp add: arena_inv_def word_le_nat_alt)
  then show "fst (nblk ar b) + unat (snd b) \<le> unat (capacity ar)"
    using le by (simp add: nblk_def)
  have "unat (base ar) + unat (fst b - base ar) < 2 ^ 64"
    using assms(1) le cap by (simp add: arena_inv_def nblk_def)
  then have "unat (base ar + (fst b - base ar)) = unat (base ar) + unat (fst b - base ar)"
    using unat_add_lem [of "base ar" "fst b - base ar"] by simp
  then show "unat (fst b) = unat (base ar) + fst (nblk ar b)" by (simp add: nblk_def)
qed

text \<open>Every live block takes 16 bytes below the bump pointer, so \<open>live_count\<close> cannot overflow.\<close>

lemma arena_live_bound:
  assumes "arena_inv ar L F H"
  shows "length L * 16 \<le> unat (bump ar)"
proof -
  let ?bs = "map (nblk ar) L"
  have all: "\<forall>b\<in>set ?bs. 16 \<le> snd b \<and> fst b + snd b \<le> unat (bump ar)"
    using assms by (auto simp: arena_inv_def arena_blocks_def)
  have "\<forall>b\<in>set ?bs. 0 < snd b \<and> fst b + snd b \<le> unat (bump ar)"
    using all by (meson less_le_trans zero_less_numeral)
  moreover have "separate ?bs"
    using assms by (simp add: arena_inv_def arena_blocks_def separate_append)
  ultimately have "sum_list (map snd ?bs) \<le> unat (bump ar)" by (rule separate_total [rotated])
  moreover have "length ?bs * 16 \<le> sum_list (map snd ?bs)"
    using all by (induction L) auto
  ultimately show ?thesis by simp
qed

subsection \<open>Creation\<close>

lemma arena_new_inv:
  assumes "arena_new cap sys = Some ar" and "\<And>p. sys = Some p \<Longrightarrow> unat p + unat cap < 2 ^ 64"
  shows "arena_inv ar [] [] []"
  using assms
  by (auto simp: arena_new_def layout_from_size_align_def bind_eq_Some_conv arena_inv_def
      arena_blocks_def split: if_splits)

subsection \<open>Allocation\<close>

lemma bump_offset_facts:
  assumes "arena_inv ar L F H" "layout_ok l"
  shows "unat (bump ar) \<le> unat (bump_offset (l_align l) ar)"
    and "unat (l_align l) dvd unat (bump_offset (l_align l) ar)"
    and "unat (bump_offset (l_align l) ar) + unat (block_size l) < 2 ^ 64"
proof -
  from assms(2) obtain k where k: "l_align l = 2 ^ k" "k < 63"
    and sz: "unat (l_size l) + unat (l_align l) \<le> 2 ^ 63"
    by (auto simp: layout_ok_def)
  have ua: "unat (l_align l) = 2 ^ k" using k by (simp add: unat_two_power)
  have b: "unat (bump ar) \<le> 2 ^ 63"
    using assms(1) by (auto simp: arena_inv_def word_le_nat_alt)
  have eq: "bump_offset (l_align l) ar = align_up (bump ar) (l_align l)"
    by (simp add: bump_offset_def align_up_def Let_def add_diff_eq)
  have le: "unat (bump ar) + 2 ^ k \<le> 2 ^ 64" using b sz ua by simp
  note up = align_up_bounds [OF k(1) _ le]
  show "unat (bump ar) \<le> unat (bump_offset (l_align l) ar)"
    "unat (l_align l) dvd unat (bump_offset (l_align l) ar)"
    using up k(2) by (simp_all add: eq ua)
  have "(2 :: nat) ^ k \<le> 2 ^ 62" using k(2) by (intro power_increasing) auto
  then show "unat (bump_offset (l_align l) ar) + unat (block_size l) < 2 ^ 64"
    using up(2) k(2) b sz by (simp add: eq ua unat_block_size max_def)
qed

lemma arena_alloc_bump:
  assumes inv: "arena_inv ar L F H" and ok: "layout_ok l"
    and fits: "bump_offset (l_align l) ar + block_size l \<le> capacity ar"
  defines "p \<equiv> base ar + bump_offset (l_align l) ar"
    and "ar' \<equiv> ar\<lparr>bump := bump_offset (l_align l) ar + block_size l,
                   live_count := live_count ar + 1\<rparr>"
  shows "arena_alloc l ar = Some (Some p, ar')"
    and "arena_inv ar' ((p, block_size l) # L) F H"
proof -
  note bo = bump_offset_facts [OF inv ok]
  let ?o = "bump_offset (l_align l) ar"
  show "arena_alloc l ar = Some (Some p, ar')"
    using fits by (simp add: arena_alloc_def Let_def block_size_def p_def ar'_def)
  have end_nat: "unat (?o + block_size l) = unat ?o + unat (block_size l)"
    using bo(3) by (simp add: unat_word_ariths)
  have nb: "nblk ar (p, block_size l) = (unat ?o, unat (block_size l))"
    by (simp add: nblk_def p_def)
  have below: "\<forall>b\<in>set (arena_blocks ar L F H). fst b + snd b \<le> unat ?o"
    using inv bo(1) by (fastforce simp: arena_inv_def)
  have blocks: "arena_blocks ar' ((p, block_size l) # L) F H
      = (unat ?o, unat (block_size l)) # arena_blocks ar L F H"
    using nb nblk_base_cong [of ar' ar] by (simp add: arena_blocks_def ar'_def)
  have sixteen: "16 \<le> unat (block_size l)" by (simp add: unat_block_size)
  have "length L * 16 \<le> 2 ^ 63"
    using arena_live_bound [OF inv] inv by (simp add: arena_inv_def word_le_nat_alt)
  then have lc: "unat (live_count ar + 1) = Suc (length L)"
    using inv by (simp add: arena_inv_def unat_word_ariths)
  have "\<forall>c\<in>set (arena_blocks ar L F H). apart (unat ?o, unat (block_size l)) c"
    using below by (auto simp: apart_def)
  moreover have "free_chain ar' (free_head ar') F"
    using inv free_chain_cong [of F ar' ar] by (simp add: arena_inv_def ar'_def)
  ultimately show "arena_inv ar' ((p, block_size l) # L) F H"
    using inv fits lc sixteen below
    unfolding arena_inv_def blocks
    by (auto simp: ar'_def end_nat word_le_nat_alt) 
qed

lemma first_fit_Some:
  "first_fit n bs = (Some p, bs') \<Longrightarrow>
     \<exists>us b vs. bs = us @ b # vs \<and> fst b = p \<and> n \<le> snd b \<and> bs' = us @ vs \<and> (\<forall>u\<in>set us. snd u < n)"
proof (induction bs arbitrary: bs')
  case Nil
  then show ?case by simp
next
  case (Cons c bs)
  show ?case
  proof (cases "n \<le> snd c")
    case True
    with Cons.prems have "c # bs = [] @ c # bs \<and> fst c = p \<and> n \<le> snd c \<and> bs' = [] @ bs" by simp
    then show ?thesis by (metis empty_iff list.set(1))
  next
    case False
    with Cons.prems obtain cs where cs: "first_fit n bs = (Some p, cs)" "bs' = c # cs"
      by (auto split: prod.splits)
    from Cons.IH [OF cs(1)] obtain us b vs where "bs = us @ b # vs" "fst b = p" "n \<le> snd b"
      "cs = us @ vs" "\<forall>u\<in>set us. snd u < n" by blast
    with False cs(2) have "c # bs = (c # us) @ b # vs \<and> fst b = p \<and> n \<le> snd b
        \<and> bs' = (c # us) @ vs \<and> (\<forall>u\<in>set (c # us). snd u < n)" by auto
    then show ?thesis by blast
  qed
qed

lemma first_fit_None: "first_fit n bs = (None, bs') \<Longrightarrow> bs' = bs \<and> (\<forall>b\<in>set bs. snd b < n)"
  by (induction bs arbitrary: bs') (auto split: if_splits prod.splits)

lemma arena_alloc_slow:
  assumes inv: "arena_inv ar L F H" and ok: "layout_ok l"
    and full: "\<not> bump_offset (l_align l) ar + block_size l \<le> capacity ar"
  shows "\<exists>r ar'. arena_alloc l ar = Some (r, ar') \<and> base ar' = base ar \<and> capacity ar' = capacity ar
    \<and> (case r of
          None \<Rightarrow> arena_inv ar' L F H \<and> (\<forall>b\<in>set F. snd b < block_size l)
        | Some p \<Rightarrow> \<exists>us b vs. F = us @ b # vs \<and> fst b = p \<and> block_size l \<le> snd b
             \<and> arena_inv ar' ((p, block_size l) # L) (us @ vs) H)"
proof -
  obtain r F' where ff: "first_fit (block_size l) F = (r, F')" by fastforce
  have "free_chain ar (free_head ar) F" "distinct (map fst F)"
    using inv arena_inv_distinct [OF inv] by (simp_all add: arena_inv_def)
  from alloc_from_free_list_first_fit [OF this, of "block_size l"] ff
  obtain ar1 where ar1: "alloc_from_free_list (block_size l) ar = Some (r, ar1)"
    "free_chain ar1 (free_head ar1) F'" "base ar1 = base ar" "capacity ar1 = capacity ar"
    "bump ar1 = bump ar" "live_count ar1 = live_count ar" by auto
  have nb: "nblk ar1 = nblk ar" by (rule nblk_base_cong) (rule ar1(3))
  show ?thesis
  proof (cases r)
    case None
    then have "arena_alloc l ar = Some (None, ar1)"
      using full ar1(1) by (simp add: arena_alloc_def Let_def block_size_def)
    moreover from first_fit_None None ff have "F' = F" "\<forall>b\<in>set F. snd b < block_size l" by auto
    ultimately show ?thesis
      using inv ar1 None nb by (auto simp: arena_inv_def arena_blocks_def)
  next
    case (Some p)
    let ?ar' = "ar1\<lparr>live_count := live_count ar1 + 1\<rparr>"
    have res: "arena_alloc l ar = Some (Some p, ?ar')"
      using full ar1(1) Some by (simp add: arena_alloc_def Let_def block_size_def)
    from first_fit_Some ff Some obtain us b vs where F: "F = us @ b # vs" "fst b = p"
      "block_size l \<le> snd b" "F' = us @ vs" by blast
    have nb': "nblk ?ar' = nblk ar" by (rule nblk_base_cong) (simp add: ar1(3))
    have bpos: "\<forall>c\<in>set (arena_blocks ar L F H). 16 \<le> snd c \<and> fst c + snd c \<le> unat (bump ar)"
      and sep: "separate (arena_blocks ar L F H)"
      using inv by (simp_all add: arena_inv_def)
    have "mset (arena_blocks ar L F H) = mset (nblk ar b # arena_blocks ar L (us @ vs) H)"
      by (simp add: arena_blocks_def F(1))
    then have sep': "separate (nblk ar b # arena_blocks ar L (us @ vs) H)"
      and set': "set (arena_blocks ar L F H) = insert (nblk ar b) (set (arena_blocks ar L (us @ vs) H))"
      using sep separate_mset by (blast, metis list.simps(15) mset_eq_setD)
    have small: "snd (nblk ar (p, block_size l)) \<le> snd (nblk ar b)"
      "fst (nblk ar (p, block_size l)) = fst (nblk ar b)"
      using F(2,3) by (simp_all add: nblk_def word_le_nat_alt)
    have sep2: "separate (nblk ar (p, block_size l) # arena_blocks ar L (us @ vs) H)"
      by (rule separate_shrink [OF sep' small(2,1)])
    have blocks: "arena_blocks ?ar' ((p, block_size l) # L) (us @ vs) H
        = nblk ar (p, block_size l) # arena_blocks ar L (us @ vs) H"
      by (simp add: arena_blocks_def nb')
    have sixteen: "16 \<le> snd (nblk ar (p, block_size l))"
      by (simp add: nblk_def unat_block_size)
    have "length L * 16 \<le> 2 ^ 63"
      using arena_live_bound [OF inv] inv by (simp add: arena_inv_def word_le_nat_alt)
    then have lc: "unat (live_count ar + 1) = Suc (length L)"
      using inv by (simp add: arena_inv_def unat_word_ariths)
    have "free_chain ?ar' (free_head ?ar') (us @ vs)"
      using ar1(2) F(4) free_chain_cong [of "us @ vs" ?ar' ar1] by simp
    then have "arena_inv ?ar' ((p, block_size l) # L) (us @ vs) H"
      using inv lc sixteen small bpos sep2 unfolding arena_inv_def blocks set'
      by (auto simp: ar1)
    with F have "\<exists>us b vs. F = us @ b # vs \<and> fst b = p \<and> block_size l \<le> snd b
        \<and> arena_inv ?ar' ((p, block_size l) # L) (us @ vs) H" by blast
    with res Some show ?thesis
      by (intro exI [of _ r] exI [of _ ?ar']) (simp add: ar1)
  qed
qed

subsection \<open>Reclaiming one block\<close>

lemma arena_inv_perm: "mset L = mset L' \<Longrightarrow> arena_inv ar L F H = arena_inv ar L' F H"
proof -
  assume m: "mset L = mset L'"
  have "mset (arena_blocks ar L F H) = mset (arena_blocks ar L' F H)"
    using m by (simp add: arena_blocks_def)
  note separate_mset [OF this] mset_eq_setD [OF this]
  then show ?thesis using mset_eq_length [OF m] by (simp only: arena_inv_def)
qed

lemma collect_hole_inv:
  assumes inv: "arena_inv ar ((node, max n MIN_ALLOC_SIZE) # L) F H"
    and res: "collect_hole H node n ar = (H', ar')"
  shows "arena_inv ar' L F H'" and "base ar' = base ar" and "capacity ar' = capacity ar"
proof -
  let ?s = "max n MIN_ALLOC_SIZE"
  let ?b = "nblk ar (node, ?s)"
  show "base ar' = base ar" "capacity ar' = capacity ar"
    using res by (auto simp: collect_hole_def Let_def split: if_splits)
  have blocks: "arena_blocks ar ((node, ?s) # L) F H = ?b # arena_blocks ar L F H"
    by (simp add: arena_blocks_def)
  have all: "16 \<le> snd ?b" "fst ?b + snd ?b \<le> unat (bump ar)"
    "\<forall>c\<in>set (arena_blocks ar L F H). 16 \<le> snd c \<and> fst c + snd c \<le> unat (bump ar)"
    and sep: "\<forall>c\<in>set (arena_blocks ar L F H). apart ?b c" "separate (arena_blocks ar L F H)"
    and lc: "unat (live_count ar) = Suc (length L)"
    and cap: "unat (bump ar) \<le> unat (capacity ar)"
      "unat (base ar) + unat (capacity ar) < 2 ^ 64" "unat (capacity ar) \<le> 2 ^ 63"
    and ch: "free_chain ar (free_head ar) F"
    using inv unfolding arena_inv_def blocks by (auto simp: word_le_nat_alt)
  have lc': "unat (saturating_sub1 (live_count ar)) = length L"
    using lc by (auto simp: saturating_sub1_def unat_minus_one)
  have ends: "unat (node + ?s) = unat (base ar) + fst ?b + snd ?b"
  proof -
    have a: "unat node = unat (base ar) + fst ?b"
      using arena_inv_addr(1) [OF inv, of "(node, ?s)"] by simp
    have "unat node + unat ?s < 2 ^ 64"
      using a all(2) cap by (simp add: nblk_def)
    then have "unat (node + ?s) = unat node + unat ?s"
      using unat_add_lem [of node ?s] by simp
    with a show ?thesis by (simp add: nblk_def)
  qed
  have bend: "unat (base ar + bump ar) = unat (base ar) + unat (bump ar)"
    using unat_add_lem [of "base ar" "bump ar"] cap by simp
  show "arena_inv ar' L F H'"
  proof (cases "node + ?s = base ar + bump ar")
    case True
    then have at: "fst ?b + snd ?b = unat (bump ar)" using ends bend by simp
    have ar': "ar' = ar\<lparr>bump := node - base ar, live_count := saturating_sub1 (live_count ar)\<rparr>"
      and H': "H' = H"
      using res True by (auto simp: collect_hole_def Let_def)
    have below: "\<forall>c\<in>set (arena_blocks ar L F H). 16 \<le> snd c \<and> fst c + snd c \<le> fst ?b"
    proof
      fix c assume "c \<in> set (arena_blocks ar L F H)"
      with all(3) sep(1) at show "16 \<le> snd c \<and> fst c + snd c \<le> fst ?b"
        by (fastforce simp: apart_def)
    qed
    have "free_chain ar' (free_head ar') F"
      using ch free_chain_cong [of F ar' ar] by (simp add: ar')
    moreover have "arena_blocks ar' L F H = arena_blocks ar L F H"
      using nblk_base_cong [of ar' ar] by (simp add: arena_blocks_def ar')
    ultimately show ?thesis
      using below sep cap lc' all at by (auto simp: arena_inv_def H' ar' nblk_def word_le_nat_alt)
  next
    case False
    let ?h = "\<lparr>h_offset = node - base ar, h_size = ?s\<rparr>"
    have ar': "ar' = ar\<lparr>live_count := saturating_sub1 (live_count ar)\<rparr>"
      and H': "H' = H @ [?h]"
      using res False by (auto simp: collect_hole_def Let_def vec_push_def)
    have hb: "hblk ?h = ?b" by (simp add: hblk_def nblk_def)
    have bl: "arena_blocks ar' L F H' = arena_blocks ar L F H @ [?b]"
      using nblk_base_cong [of ar' ar] hb by (simp add: arena_blocks_def ar' H')
    have "free_chain ar' (free_head ar') F"
      using ch free_chain_cong [of F ar' ar] by (simp add: ar')
    moreover have "separate (arena_blocks ar' L F H')"
      unfolding bl using sep by (auto simp: separate_append apart_sym)
    ultimately show ?thesis
      unfolding arena_inv_def bl using all cap lc' by (auto simp: ar' word_le_nat_alt)
  qed
qed

subsection \<open>The end of a sweep\<close>

lemma merge_two:
  assumes sep: "separate (hblk h # hblk g # bs)" and eq: "h_offset h + h_size h = h_offset g"
    and bound: "\<forall>b\<in>set (hblk h # hblk g # bs). 16 \<le> snd b \<and> fst b + snd b \<le> B" and "B < 2 ^ 64"
  shows "separate (hblk (h\<lparr>h_size := h_size h + h_size g\<rparr>) # bs)"
    and "hblk (h\<lparr>h_size := h_size h + h_size g\<rparr>) = (fst (hblk h), snd (hblk h) + snd (hblk g))"
    and "fst (hblk h) + snd (hblk h) = fst (hblk g)"
proof -
  let ?m = "h\<lparr>h_size := h_size h + h_size g\<rparr>"
  have b: "fst (hblk h) + snd (hblk h) < 2 ^ 64" "fst (hblk g) + snd (hblk g) < 2 ^ 64"
    using bound \<open>B < 2 ^ 64\<close> by auto
  then have "unat (h_offset h + h_size h) = fst (hblk h) + snd (hblk h)"
    using unat_add_lem [of "h_offset h" "h_size h"] by (simp add: hblk_def)
  then show adj: "fst (hblk h) + snd (hblk h) = fst (hblk g)"
    using eq by (simp add: hblk_def)
  then have "snd (hblk h) + snd (hblk g) < 2 ^ 64" using b by simp
  then show m: "hblk ?m = (fst (hblk h), snd (hblk h) + snd (hblk g))"
    using unat_add_lem [of "h_size h" "h_size g"] by (simp add: hblk_def)
  show "separate (hblk ?m # bs)"
    unfolding m using sep bound adj by (fastforce simp: apart_def)
qed

text \<open>Merging keeps the holes disjoint, keeps their bounds, and loses no byte.\<close>

lemma merge_adjacent_inv:
  assumes "separate (map hblk hs @ bs)" and "B < 2 ^ 64"
    and "\<forall>b\<in>set (map hblk hs @ bs). 16 \<le> snd b \<and> fst b + snd b \<le> B"
  shows "separate (map hblk (merge_adjacent hs) @ bs)
    \<and> (\<forall>b\<in>set (map hblk (merge_adjacent hs)). 16 \<le> snd b \<and> fst b + snd b \<le> B)
    \<and> sum_list (map (\<lambda>h. unat (h_size h)) (merge_adjacent hs)) = sum_list (map (\<lambda>h. unat (h_size h)) hs)"
  using assms
proof (induction hs arbitrary: bs rule: merge_adjacent.induct)
  case 1
  then show ?case by simp
next
  case (2 h)
  then show ?case by simp
next
  case (3 h g hs)
  show ?case
  proof (cases "h_offset h + h_size h = h_offset g")
    case True
    let ?m = "h\<lparr>h_size := h_size h + h_size g\<rparr>"
    note m2 = merge_two [of h g "map hblk hs @ bs" B]
    have pre: "separate (hblk h # hblk g # map hblk hs @ bs)"
      "\<forall>b\<in>set (hblk h # hblk g # map hblk hs @ bs). 16 \<le> snd b \<and> fst b + snd b \<le> B"
      using 3 by auto
    note m = m2(1) [OF pre(1) True pre(2) 3(4)] m2(2,3) [OF pre(1) True pre(2) 3(4)]
    have "\<forall>b\<in>set (map hblk (?m # hs) @ bs). 16 \<le> snd b \<and> fst b + snd b \<le> B"
      using pre(2) m(2,3) by auto
    with 3(1) [OF True, of bs] m(1) 3(4) have IH:
      "separate (map hblk (merge_adjacent (?m # hs)) @ bs)"
      "\<forall>b\<in>set (map hblk (merge_adjacent (?m # hs))). 16 \<le> snd b \<and> fst b + snd b \<le> B"
      "sum_list (map (\<lambda>h. unat (h_size h)) (merge_adjacent (?m # hs)))
        = sum_list (map (\<lambda>h. unat (h_size h)) (?m # hs))"
      by auto
    have "unat (h_size ?m) = unat (h_size h) + unat (h_size g)"
      using m(2) by (simp add: hblk_def)
    with IH True show ?thesis by (simp del: map_append)
  next
    case False
    have move: "separate (map hblk xs @ hblk h # bs) = separate (hblk h # map hblk xs @ bs)" for xs
      by (rule separate_Cons_move)
    have "separate (map hblk (g # hs) @ hblk h # bs)"
      "\<forall>b\<in>set (map hblk (g # hs) @ hblk h # bs). 16 \<le> snd b \<and> fst b + snd b \<le> B"
      using 3(3,5) by (simp_all only: move) auto
    with 3(2) [OF False, of "hblk h # bs"] 3(4) have IH:
      "separate (map hblk (merge_adjacent (g # hs)) @ hblk h # bs)"
      "\<forall>b\<in>set (map hblk (merge_adjacent (g # hs))). 16 \<le> snd b \<and> fst b + snd b \<le> B"
      "sum_list (map (\<lambda>h. unat (h_size h)) (merge_adjacent (g # hs)))
        = sum_list (map (\<lambda>h. unat (h_size h)) (g # hs))"
      by auto
    from IH(1) have "separate (hblk h # map hblk (merge_adjacent (g # hs)) @ bs)"
      by (simp only: move)
    with IH False 3(5) show ?thesis by simp
  qed
qed

definition hole_block :: "gc_arena \<Rightarrow> hole \<Rightarrow> addr \<times> usize" where
  "hole_block ar h = (base ar + h_offset h, h_size h)"

lemma link_hole_fields [simp]:
  "base (link_hole h ar) = base ar" "capacity (link_hole h ar) = capacity ar"
  "bump (link_hole h ar) = bump ar" "live_count (link_hole h ar) = live_count ar"
  "free_head (link_hole h ar) = Some (base ar + h_offset h)"
  "cell_size (link_hole h ar) = (cell_size ar)(base ar + h_offset h \<mapsto> h_size h)"
  "cell_next (link_hole h ar) = (cell_next ar)(base ar + h_offset h \<mapsto> free_head ar)"
  by (simp_all add: link_hole_def Let_def write_free_size_def write_free_next_def)

lemma link_holes_chain:
  assumes "distinct (map h_offset hs)"
  shows "let ar' = fold link_hole (rev hs) (ar\<lparr>free_head := None\<rparr>) in
    free_chain ar' (free_head ar') (map (hole_block ar) hs) \<and> base ar' = base ar
    \<and> capacity ar' = capacity ar \<and> bump ar' = bump ar \<and> live_count ar' = live_count ar"
  using assms
proof (induction hs)
  case Nil
  then show ?case by simp
next
  case (Cons h hs)
  define ar1 where "ar1 = fold link_hole (rev hs) (ar\<lparr>free_head := None\<rparr>)"
  from Cons have IH: "free_chain ar1 (free_head ar1) (map (hole_block ar) hs)" "base ar1 = base ar"
    "capacity ar1 = capacity ar" "bump ar1 = bump ar" "live_count ar1 = live_count ar"
    by (auto simp: ar1_def Let_def)
  have "\<forall>x\<in>set hs. h_offset x \<noteq> h_offset h"
    using Cons.prems by (metis distinct.simps(2) imageI list.map(2) list.set_map)
  then have "free_chain (link_hole h ar1) (free_head ar1) (map (hole_block ar) hs)
      = free_chain ar1 (free_head ar1) (map (hole_block ar) hs)"
    using IH(2)
    by (intro free_chain_cong) (auto simp: hole_block_def)
  then have "free_chain (link_hole h ar1) (free_head (link_hole h ar1)) (map (hole_block ar) (h # hs))"
    using IH(1,2) by (simp add: hole_block_def)
  moreover have "fold link_hole (rev (h # hs)) (ar\<lparr>free_head := None\<rparr>) = link_hole h ar1"
    by (simp add: ar1_def)
  ultimately show ?case
    unfolding Let_def by (simp only: link_hole_fields IH simp_thms)
qed

lemma finish_sweep_inv:
  assumes inv: "arena_inv ar L F H" and res: "finish_sweep H ar = (H', ar')"
  shows "H' = []" and "base ar' = base ar" and "capacity ar' = capacity ar"
    and "\<exists>F'. arena_inv ar' L F' [] \<and>
      (if L = [] then bump ar' = 0 \<and> F' = []
       else bump ar' = bump ar \<and> F' = map (hole_block ar) (merge_adjacent (sort_key h_offset H)) \<and>
         sum_list (map (unat \<circ> snd) F') = sum_list (map (\<lambda>h. unat (h_size h)) H))"
proof -
  have lc: "live_count ar = 0 \<longleftrightarrow> L = []"
    using inv by (auto simp: arena_inv_def unat_eq_zero)
  define hs where "hs = sort_key h_offset H"
  define ms where "ms = merge_adjacent hs"
  have all: "\<forall>b\<in>set (arena_blocks ar L F H). 16 \<le> snd b \<and> fst b + snd b \<le> unat (bump ar)"
    and sep: "separate (arena_blocks ar L F H)"
    and cap: "unat (base ar) + unat (capacity ar) < 2 ^ 64" "unat (capacity ar) \<le> 2 ^ 63"
      "bump ar \<le> capacity ar" "unat (live_count ar) = length L"
    using inv by (simp_all add: arena_inv_def)
  have "mset (map hblk hs @ map (nblk ar) L) = mset (map (nblk ar) L @ map hblk H)"
    by (simp add: hs_def)
  then have "separate (map hblk hs @ map (nblk ar) L) = separate (map (nblk ar) L @ map hblk H)"
    by (rule separate_mset)
  then have s1: "separate (map hblk hs @ map (nblk ar) L)"
    using sep by (simp add: arena_blocks_def separate_append)
  have s2: "\<forall>b\<in>set (map hblk hs @ map (nblk ar) L). 16 \<le> snd b \<and> fst b + snd b \<le> unat (bump ar)"
    using all by (auto simp: arena_blocks_def hs_def)
  have "unat (bump ar) < 2 ^ 64" using unsigned_less [of "bump ar"] by simp
  from merge_adjacent_inv [OF s1 this s2]
  have m: "separate (map hblk ms @ map (nblk ar) L)"
    "\<forall>b\<in>set (map hblk ms). 16 \<le> snd b \<and> fst b + snd b \<le> unat (bump ar)"
    "sum_list (map (\<lambda>h. unat (h_size h)) ms) = sum_list (map (\<lambda>h. unat (h_size h)) hs)"
    by (simp_all add: ms_def)
  have "mset (map (\<lambda>h. unat (h_size h)) hs) = mset (map (\<lambda>h. unat (h_size h)) H)"
    by (simp add: hs_def)
  then have sum: "sum_list (map (\<lambda>h. unat (h_size h)) hs) = sum_list (map (\<lambda>h. unat (h_size h)) H)"
    by (metis sum_mset_sum_list)
  have "\<forall>b\<in>set (map hblk ms). 0 < snd b" using m(2) by fastforce
  then have "distinct (map fst (map hblk ms))"
    using m(1) by (intro separate_distinct) (simp_all add: separate_append)
  then have "distinct (map unat (map h_offset ms))" by (simp add: hblk_def comp_def)
  then have d: "distinct (map h_offset ms)" by (rule distinct_map [THEN iffD1, THEN conjunct1])
  define ar1 where "ar1 = fold link_hole (rev ms) (ar\<lparr>free_head := None\<rparr>)"
  from link_holes_chain [OF d, of ar]
  have ar1: "free_chain ar1 (free_head ar1) (map (hole_block ar) ms)" "base ar1 = base ar"
    "capacity ar1 = capacity ar" "bump ar1 = bump ar" "live_count ar1 = live_count ar"
    by (auto simp: ar1_def Let_def)
  have fs: "(H', ar') = (if L = [] then ([], ar\<lparr>bump := 0, free_head := None\<rparr>) else ([], ar1))"
    using res lc by (simp add: finish_sweep_def compact_holes_eq ar1_def ms_def hs_def Let_def
        split: if_splits)
  then show "H' = []" "base ar' = base ar" "capacity ar' = capacity ar"
    using ar1 by (auto split: if_splits)
  have nb: "map (nblk ar1) (map (hole_block ar) ms) = map hblk ms"
    using ar1(2) by (simp add: nblk_def hole_block_def hblk_def)
  have nbL: "map (nblk ar1) L = map (nblk ar) L" using nblk_base_cong [OF ar1(2)] by simp
  show "\<exists>F'. arena_inv ar' L F' [] \<and>
      (if L = [] then bump ar' = 0 \<and> F' = []
       else bump ar' = bump ar \<and> F' = map (hole_block ar) (merge_adjacent (sort_key h_offset H)) \<and>
         sum_list (map (unat \<circ> snd) F') = sum_list (map (\<lambda>h. unat (h_size h)) H))"
  proof (cases "L = []")
    case True
    with fs cap have "arena_inv ar' L [] []" by (simp add: arena_inv_def arena_blocks_def)
    with True fs show ?thesis by auto
  next
    case False
    have "separate (map (nblk ar) L @ map hblk ms)"
      using m(1) by (auto simp: separate_append apart_sym)
    then have "arena_inv ar1 L (map (hole_block ar) ms) []"
      using ar1 cap m(2) s2 unfolding arena_inv_def arena_blocks_def nb nbL by auto
    moreover have "sum_list (map (unat \<circ> snd) (map (hole_block ar) ms))
        = sum_list (map (\<lambda>h. unat (h_size h)) H)"
      using m(3) sum by (simp add: hole_block_def comp_def)
    ultimately show ?thesis using False fs ar1(4) by (auto simp: ms_def hs_def)
  qed
qed

subsection \<open>The allocator interface\<close>

text \<open>
  What \<open>alloc_node_mem\<close> relies on when it takes arena memory: an allocation returns, and
  a block it hands out is separate from every block still in use.
\<close>

fun alloc_many ::
  "(layout \<Rightarrow> 's \<Rightarrow> (addr option \<times> 's) option) \<Rightarrow> layout list \<Rightarrow> 's \<Rightarrow> (addr list \<times> 's) option"
where
  "alloc_many alloc [] s = Some ([], s)"
| "alloc_many alloc (l # ls) s =
     do { (r, s1) \<leftarrow> alloc l s;
          (ps, s2) \<leftarrow> alloc_many alloc ls s1;
          Some ((case r of Some p \<Rightarrow> [p] | None \<Rightarrow> []) @ ps, s2) }"

locale block_allocator =
  fixes inv :: "'s \<Rightarrow> (addr \<times> usize) list \<Rightarrow> bool"
    and alloc :: "layout \<Rightarrow> 's \<Rightarrow> (addr option \<times> 's) option"
    and origin :: "'s \<Rightarrow> addr"
  assumes alloc_returns: "inv s L \<Longrightarrow> layout_ok l \<Longrightarrow> \<exists>r s'. alloc l s = Some (r, s')"
    and alloc_full: "inv s L \<Longrightarrow> layout_ok l \<Longrightarrow> alloc l s = Some (None, s') \<Longrightarrow> inv s' L"
    and alloc_block: "inv s L \<Longrightarrow> layout_ok l \<Longrightarrow> alloc l s = Some (Some p, s') \<Longrightarrow>
      inv s' ((p, block_size l) # L)"
    and alloc_origin: "inv s L \<Longrightarrow> layout_ok l \<Longrightarrow> alloc l s = Some (r, s') \<Longrightarrow> origin s' = origin s"
    and inv_separate: "inv s L \<Longrightarrow>
      separate (map (\<lambda>b. (unat (fst b - origin s), unat (snd b))) L)"
    and inv_sizes: "inv s L \<Longrightarrow> b \<in> set L \<Longrightarrow> 0 < unat (snd b)"
begin

lemma alloc_fresh:
  assumes "inv s L" "layout_ok l" "alloc l s = Some (Some p, s')"
  shows "p \<notin> fst ` set L"
proof
  assume "p \<in> fst ` set L"
  then obtain b where b: "b \<in> set L" "fst b = p" by auto
  have "separate (map (\<lambda>b. (unat (fst b - origin s'), unat (snd b))) ((p, block_size l) # L))"
    using alloc_block [OF assms] by (rule inv_separate)
  with b have "apart (unat (p - origin s'), unat (block_size l)) (unat (p - origin s'), unat (snd b))"
    by auto
  moreover have "0 < unat (snd b)" using inv_sizes [OF assms(1) b(1)] .
  ultimately show False by (auto simp: apart_def unat_block_size)
qed

lemma alloc_many_distinct:
  assumes "inv s L" "\<forall>l\<in>set ls. layout_ok l"
  shows "\<exists>ps s'. alloc_many alloc ls s = Some (ps, s') \<and> distinct ps \<and> set ps \<inter> fst ` set L = {}"
  using assms
proof (induction ls arbitrary: s L)
  case Nil
  then show ?case by simp
next
  case (Cons l ls)
  have "layout_ok l" using Cons.prems(2) by simp
  from alloc_returns [OF Cons.prems(1) this] obtain r s1 where r: "alloc l s = Some (r, s1)"
    by blast
  show ?case
  proof (cases r)
    case None
    with r Cons.prems have "inv s1 L" using alloc_full by auto
    from Cons.IH [OF this] Cons.prems(2) r None show ?thesis by auto
  next
    case (Some p)
    with r Cons.prems have i: "inv s1 ((p, block_size l) # L)" using alloc_block by auto
    have "p \<notin> fst ` set L" 
      by (rule alloc_fresh [OF Cons.prems(1)]) (use Cons.prems r Some in auto)
    with Cons.IH [OF i] Cons.prems(2) r Some show ?thesis by fastforce
  qed
qed

end

definition arena_holds :: "gc_arena \<Rightarrow> (addr \<times> usize) list \<Rightarrow> bool" where
  "arena_holds ar L \<longleftrightarrow> (\<exists>F. arena_inv ar L F [])"

lemma arena_alloc_cases:
  assumes "arena_inv ar L F H" "layout_ok l"
  shows "\<exists>r ar'. arena_alloc l ar = Some (r, ar') \<and> base ar' = base ar \<and>
    capacity ar' = capacity ar \<and>
    (\<exists>F'. arena_inv ar' (case r of None \<Rightarrow> L | Some p \<Rightarrow> (p, block_size l) # L) F' H)"
proof (cases "bump_offset (l_align l) ar + block_size l \<le> capacity ar")
  case True
  from arena_alloc_bump [OF assms True] show ?thesis
    by (intro exI conjI) (assumption | simp)+
next
  case False
  from arena_alloc_slow [OF assms False] obtain r ar' where
    r: "arena_alloc l ar = Some (r, ar')" "base ar' = base ar" "capacity ar' = capacity ar"
    and c: "case r of
          None \<Rightarrow> arena_inv ar' L F H \<and> (\<forall>b\<in>set F. snd b < block_size l)
        | Some p \<Rightarrow> \<exists>us b vs. F = us @ b # vs \<and> fst b = p \<and> block_size l \<le> snd b
             \<and> arena_inv ar' ((p, block_size l) # L) (us @ vs) H"
    by blast
  from c have "\<exists>F'. arena_inv ar' (case r of None \<Rightarrow> L | Some p \<Rightarrow> (p, block_size l) # L) F' H"
    by (cases r) auto
  with r show ?thesis by blast
qed

interpretation arena_al: block_allocator arena_holds arena_alloc base
proof unfold_locales
  fix s s' :: gc_arena and L l r p
  assume h: "arena_holds s L"
  then obtain F where F: "arena_inv s L F []" by (auto simp: arena_holds_def)
  show "separate (map (\<lambda>b. (unat (fst b - base s), unat (snd b))) L)"
    using F by (simp add: arena_inv_def arena_blocks_def separate_append nblk_def [abs_def])
  show "0 < unat (snd b)" if "b \<in> set L" for b
  proof -
    have "nblk s b \<in> set (arena_blocks s L F [])" using that by (simp add: arena_blocks_def)
    then have "16 \<le> snd (nblk s b)" using F by (auto simp: arena_inv_def)
    then show ?thesis by (simp add: nblk_def)
  qed
  assume ok: "layout_ok l"
  note c = arena_alloc_cases [OF F ok]
  then show "\<exists>r s'. arena_alloc l s = Some (r, s')" by blast
  show "base s' = base s" if "arena_alloc l s = Some (r, s')"
    using c that by auto
  show "arena_holds s' L" if "arena_alloc l s = Some (None, s')"
    using c that by (auto simp: arena_holds_def)
  show "arena_holds s' ((p, block_size l) # L)" if "arena_alloc l s = Some (Some p, s')"
    using c that by (auto simp: arena_holds_def)
qed

subsection \<open>Properties of the arena\<close>

definition small_arena :: gc_arena where
  "small_arena = \<lparr>base = 0x1000, capacity = 128, bump = 0, free_head = None, live_count = 0,
     cell_size = Map.empty, cell_next = Map.empty\<rparr>"

lemma small_arena_new: "arena_new 128 (Some 0x1000) = Some small_arena"
  by (simp add: arena_new_def layout_from_size_align_def is_power_of_two_def small_arena_def)

lemma small_arena_holds: "arena_holds small_arena []"
  unfolding arena_holds_def by (rule exI, rule arena_new_inv [OF small_arena_new]) simp

definition holed_arena :: gc_arena where
  "holed_arena = small_arena\<lparr>bump := 128, live_count := 1\<rparr>"

definition listed_arena :: gc_arena where
  "listed_arena = holed_arena\<lparr>free_head := Some 0x1028,
     cell_size := [0x1028 \<mapsto> 16, 0x1058 \<mapsto> 40], cell_next := [0x1028 \<mapsto> Some 0x1058, 0x1058 \<mapsto> None]\<rparr>"

text \<open>
  C25: an allocation from an arena never faults; a block it hands out is large enough, lies inside
  the arena and is disjoint from every block that is in use, and a failed allocation leaves
  the blocks in use as they are.
\<close>
theorem arena_blocks_disjoint:
  assumes inv: "arena_holds ar L" and l: "layout_ok l"
  shows "\<exists>r ar'. arena_alloc l ar = Some (r, ar') \<and> base ar' = base ar \<and> capacity ar' = capacity ar \<and>
    (case r of
       None \<Rightarrow> arena_holds ar' L
     | Some p \<Rightarrow> arena_holds ar' ((p, block_size l) # L) \<and> l_size l \<le> block_size l \<and>
         unat (p - base ar) + unat (block_size l) \<le> unat (capacity ar) \<and>
         (\<forall>b\<in>set L. apart (nblk ar (p, block_size l)) (nblk ar b)))"
proof -
  obtain F where "arena_inv ar L F []" using inv by (auto simp: arena_holds_def)
  from arena_alloc_cases [OF this l] obtain r ar' F' where a: "arena_alloc l ar = Some (r, ar')"
    "base ar' = base ar" "capacity ar' = capacity ar"
    "arena_inv ar' (case r of None \<Rightarrow> L | Some p \<Rightarrow> (p, block_size l) # L) F' []" by blast
  show ?thesis
  proof (cases r)
    case None
    with a show ?thesis by (auto simp: arena_holds_def)
  next
    case (Some p)
    then have i: "arena_inv ar' ((p, block_size l) # L) F' []" using a(4) by simp
    have n: "nblk ar' = nblk ar" by (rule nblk_base_cong [OF a(2)])
    have "\<forall>b\<in>set L. apart (nblk ar (p, block_size l)) (nblk ar b)"
      using i by (auto simp: arena_inv_def arena_blocks_def n)
    moreover have "unat (p - base ar) + unat (block_size l) \<le> unat (capacity ar)"
      using arena_inv_addr(2) [OF i, of "(p, block_size l)"] a(2,3) by (simp add: nblk_def)
    ultimately show ?thesis using a i Some by (auto simp: arena_holds_def block_size_def)
  qed
qed

theorem arena_blocks_disjoint_witness:
  "\<exists>p ar'. arena_alloc \<lparr>l_size = 40, l_align = 8\<rparr> small_arena = Some (Some p, ar') \<and> p = 0x1000 \<and>
     arena_holds ar' [(p, 40)]"
proof -
  have l: "layout_ok \<lparr>l_size = 40, l_align = 8\<rparr>"
    unfolding layout_ok_def by (rule conjI, rule exI [of _ 3]) simp_all
  have "fst (the (arena_alloc \<lparr>l_size = 40, l_align = 8\<rparr> small_arena)) = Some 0x1000"
    by (simp add: arena_alloc_def small_arena_def bump_offset_def MIN_ALLOC_SIZE_def)
  moreover have "block_size \<lparr>l_size = 40, l_align = 8\<rparr> = 40" by (simp add: block_size_def MIN_ALLOC_SIZE_def)
  ultimately show ?thesis
    using arena_blocks_disjoint [OF small_arena_holds l] by (auto split: option.splits)
qed

text \<open>
  C26: \<open>finish_sweep\<close> keeps the arena consistent: when no block is in use the whole arena is empty
  again, otherwise the new free list holds exactly the bytes of the holes of this sweep, in
  blocks disjoint from each other and from the blocks in use.
\<close>
theorem finish_sweep_reclaims:
  assumes inv: "arena_inv ar L F H"
  shows "\<exists>ar' F'. finish_sweep H ar = ([], ar') \<and> arena_inv ar' L F' [] \<and>
    base ar' = base ar \<and> capacity ar' = capacity ar \<and>
    (if L = [] then bump ar' = 0 \<and> F' = []
     else bump ar' = bump ar \<and>
       sum_list (map (unat \<circ> snd) F') = sum_list (map (\<lambda>h. unat (h_size h)) H))"
proof -
  obtain H' ar' where r: "finish_sweep H ar = (H', ar')" by (cases "finish_sweep H ar") auto
  show ?thesis using finish_sweep_inv [OF inv r] r by (auto split: if_splits)
qed

theorem finish_sweep_reclaims_witness:
  "\<exists>ar' F'. finish_sweep [\<lparr>h_offset = 88, h_size = 40\<rparr>, \<lparr>h_offset = 40, h_size = 48\<rparr>] holed_arena = ([], ar') \<and>
     arena_inv ar' [(0x1000, 40)] F' [] \<and> sum_list (map (unat \<circ> snd) F') = 88"
proof -
  have "arena_inv holed_arena [(0x1000, 40)] [] [\<lparr>h_offset = 88, h_size = 40\<rparr>, \<lparr>h_offset = 40, h_size = 48\<rparr>]"
    by (simp add: arena_inv_def arena_blocks_def holed_arena_def small_arena_def nblk_def hblk_def apart_def)
  from finish_sweep_reclaims [OF this] show ?thesis by auto
qed

text \<open>
  C28: the in-place compaction of the hole vector with its read and write index and its swaps
  computes the recursive merge of adjacent holes.
\<close>
theorem hole_compaction_reference: "compact_holes hs = merge_adjacent hs"
  by (rule compact_holes_eq)

text \<open>
  C27: the walk along the intrusive free list is a first fit: it unlinks the first cell that is large
  enough and keeps the order of the others, and it changes nothing when there is none.
\<close>
theorem free_list_first_fit:
  assumes "free_chain ar (free_head ar) bs" "distinct (map fst bs)"
  shows "\<exists>r ar' bs'. alloc_from_free_list needed ar = Some (r, ar') \<and> free_chain ar' (free_head ar') bs' \<and>
    (case r of
       None \<Rightarrow> bs' = bs \<and> (\<forall>b\<in>set bs. snd b < needed)
     | Some p \<Rightarrow> \<exists>us n vs. bs = us @ (p, n) # vs \<and> needed \<le> n \<and> bs' = us @ vs \<and> (\<forall>u\<in>set us. snd u < needed))"
proof -
  obtain r bs' where f: "first_fit needed bs = (r, bs')" by (cases "first_fit needed bs") auto
  from alloc_from_free_list_first_fit [OF assms, of needed] obtain ar' where
    a: "alloc_from_free_list needed ar = Some (r, ar')" "free_chain ar' (free_head ar') bs'" by (auto simp: f)
  moreover have "case r of None \<Rightarrow> bs' = bs \<and> (\<forall>b\<in>set bs. snd b < needed)
     | Some p \<Rightarrow> \<exists>us n vs. bs = us @ (p, n) # vs \<and> needed \<le> n \<and> bs' = us @ vs \<and> (\<forall>u\<in>set us. snd u < needed)"
    using f first_fit_Some [of needed bs] first_fit_None [of needed bs] by (cases r) force+
  ultimately show ?thesis by blast
qed

theorem free_list_first_fit_witness:
  "\<exists>ar'. alloc_from_free_list 32 listed_arena = Some (Some 0x1058, ar') \<and> free_chain ar' (free_head ar') [(0x1028, 16)]"
proof -
  have c: "free_chain listed_arena (free_head listed_arena) [(0x1028, 16), (0x1058, 40)]"
    by (simp add: listed_arena_def read_free_size_def read_free_next_def)
  let ?bs = "[(0x1028, 16), (0x1058, 40)] :: (addr \<times> usize) list"
  have d: "distinct (map fst ?bs)" by simp
  from free_list_first_fit [OF c d, of 32] obtain r ar' bs' where a: "alloc_from_free_list 32 listed_arena = Some (r, ar')"
      "free_chain ar' (free_head ar') bs'"
      "case r of None \<Rightarrow> bs' = ?bs \<and> (\<forall>b\<in>set ?bs. snd b < 32)
       | Some p \<Rightarrow> \<exists>us n vs. ?bs = us @ (p, n) # vs \<and> 32 \<le> n \<and> bs' = us @ vs \<and> (\<forall>u\<in>set us. snd u < 32)"
    by blast
  then have "r = Some 0x1058 \<and> bs' = [(0x1028, 16)]"
    by (auto split: option.splits simp: Cons_eq_append_conv)
  with a show ?thesis by auto
qed

end
