(* ===== verification/Gc_Mem.thy ===== *)
theory Gc_Mem
  imports Gc_Weak Gc_Arena_Safe
begin

section \<open>Allocation and disposal of nodes (src/src/mem.rs)\<close>

text \<open>
  What the system allocator answers is the parameter \<open>sys\<close> of an allocation.  Freeing takes
  the node out of \<open>heads\<close> and \<open>payloads\<close>, dropping its payload out of \<open>payloads\<close> only:
  a second drop, or a use after the free, is a fault.  A payload's \<open>Drop\<close> is taken not to
  call back into the heap, which is the contract \<open>garbage_collect\<close> states.
\<close>

subsection \<open>Operations\<close>

text \<open>
  The two \<open>ptr::write\<close> and the accounting both paths of \<open>alloc_node_mem\<close> end with.
\<close>

definition write_node :: "u16 \<Rightarrow> u32 \<Rightarrow> 'p \<Rightarrow> usize \<Rightarrow> addr \<Rightarrow> 'p gc_heap \<Rightarrow> 'p gc_heap option" where
  "write_node pid ats payload gross_size p h =
     (let node_info = \<lparr>attrs = ats, partition_word = ucast pid, weak_id = 0, next_ptr = None\<rparr>
      in map_option snd
           (update_mem_use pid (usize_as_i32 gross_size)
              (put_head p node_info (h\<lparr>payloads := (payloads h)(p \<mapsto> payload)\<rparr>))))"

text \<open>The arena path: \<open>None\<close> falls through to the system allocator.\<close>

definition try_arena :: "u16 \<Rightarrow> bool \<Rightarrow> layout \<Rightarrow> 'p gc_heap \<Rightarrow> (addr option \<times> 'p gc_heap) option" where
  "try_arena pid skip_arena l h =
     do { par \<leftarrow> get_par h pid;
          if \<not> skip_arena \<and> l_size l \<le> arena_max_alloc par then
            (case arena par of
               None \<Rightarrow> Some (None, h)
             | Some ar \<Rightarrow>
                 do { (r, ar') \<leftarrow> arena_alloc l ar;
                      Some (r, put_par pid (par\<lparr>arena := Some ar'\<rparr>) h) })
          else Some (None, h) }"

definition alloc_node_mem ::
  "'p rust_type \<Rightarrow> u8 \<Rightarrow> u16 \<Rightarrow> 'p \<Rightarrow> bool \<Rightarrow> addr option \<Rightarrow> 'p gc_heap
     \<Rightarrow> (((gc_error \<times> 'p) + (addr \<times> usize)) \<times> 'p gc_heap) option" where
  "alloc_node_mem t gc_type pid payload skip_arena sys h =
     (if get_par h pid = None then Some (Inl (PartitionNotFound, payload), h)
      else
        (case layout_from_size_align (layout_size_of t) (layout_align_of t) of
           None \<Rightarrow> Some (Inl (AllocationFailed, payload), h)
         | Some l \<Rightarrow>
             (let gross_size = l_size l in
              if memory_limit h > 0 \<and> total_memory_used h + gross_size > memory_limit h then
                Some (Inl (PartitionFull, payload), h)
              else
                do { (r, h1) \<leftarrow> try_arena pid skip_arena l h;
                     (case r of
                        Some p \<Rightarrow>
                          do { h2 \<leftarrow> write_node pid (fresh_attrs gc_type OR ucast ARENA_ALLOC) payload
                                      gross_size p h1;
                               Some (Inr (p, gross_size), h2) }
                      | None \<Rightarrow>
                          (case sys of
                             None \<Rightarrow> Some (Inl (AllocationFailed, payload), h1)
                           | Some p \<Rightarrow>
                               do { h2 \<leftarrow> write_node pid (fresh_attrs gc_type) payload gross_size p h1;
                                    Some (Inr (p, gross_size), h2) })) })))"

definition alloc_raw ::
  "'p rust_type \<Rightarrow> u8 \<Rightarrow> u16 \<Rightarrow> 'p \<Rightarrow> addr option \<Rightarrow> 'p gc_heap
     \<Rightarrow> (((gc_error \<times> 'p) + addr) \<times> 'p gc_heap) option" where
  "alloc_raw t gc_type pid payload sys h =
     do { (r, h1) \<leftarrow> alloc_node_mem t gc_type pid payload False sys h;
          (case r of
             Inl e \<Rightarrow> Some (Inl e, h1)
           | Inr (head_ptr, _) \<Rightarrow>
               do { h2 \<leftarrow> attach_node pid head_ptr h1; Some (Inr head_ptr, h2) }) }"

definition alloc_root_raw ::
  "'p rust_type \<Rightarrow> u8 \<Rightarrow> u16 \<Rightarrow> 'p \<Rightarrow> addr option \<Rightarrow> 'p gc_heap
     \<Rightarrow> (((gc_error \<times> 'p) + addr) \<times> 'p gc_heap) option" where
  "alloc_root_raw t gc_type pid payload sys h =
     do { (r, h1) \<leftarrow> alloc_node_mem t gc_type pid payload True sys h;
          (case r of
             Inl e \<Rightarrow> Some (Inl e, h1)
           | Inr (head_ptr, _) \<Rightarrow>
               do { h2 \<leftarrow> update_head (insert_flag ROOT) head_ptr h1;
                    h3 \<leftarrow> attach_node pid head_ptr h2;
                    m \<leftarrow> is_marking h3 pid;
                    h4 \<leftarrow> (if m then par_add_gray_node pid head_ptr h3 else Some h3);
                    Some (Inr head_ptr, h4) }) }"

text \<open>
  \<open>drop_fn\<close> on the payload of a node; \<open>None\<close> in the table means nothing to drop.  The call is
  recorded in \<open>drop_log\<close>, the one effect of a destructor on the outside that the model has: freeing
  a node whose payload was not dropped leaves no entry there.
\<close>

definition call_drop_fn :: "'p gc_type_info \<Rightarrow> addr \<Rightarrow> 'p gc_heap \<Rightarrow> 'p gc_heap option" where
  "call_drop_fn info node h =
     (if ti_drop_fn info then
        do { _ \<leftarrow> payloads h node;
             Some (h\<lparr>payloads := (payloads h)(node := None), drop_log := vec_push (drop_log h) node\<rparr>) }
      else Some h)"

definition drop_node_payload_without_dealloc :: "addr \<Rightarrow> 'p gc_heap \<Rightarrow> 'p gc_heap option" where
  "drop_node_payload_without_dealloc node h =
     do { g \<leftarrow> heads h node; info \<leftarrow> type_info h (dtype g); call_drop_fn info node h }"

text \<open>Either way the node is gone; arena memory stays with the arena.\<close>

definition mem_dealloc :: "addr \<Rightarrow> 'p gc_heap \<Rightarrow> 'p gc_heap" where
  "mem_dealloc node h = h\<lparr>heads := (heads h)(node := None), payloads := (payloads h)(node := None)\<rparr>"

definition dispose_mem_only ::
  "addr \<Rightarrow> u16 \<Rightarrow> usize \<Rightarrow> 'p gc_heap \<Rightarrow> (usize \<times> 'p gc_heap) option" where
  "dispose_mem_only node pid gross_size h =
     do { _ \<leftarrow> heads h node;
          (_, h1) \<leftarrow> update_mem_use pid (- usize_as_i32 gross_size) (mem_dealloc node h);
          Some (gross_size, h1) }"

definition dispose :: "addr \<Rightarrow> 'p gc_heap \<Rightarrow> (usize \<times> 'p gc_heap) option" where
  "dispose node h =
     do { g \<leftarrow> heads h node;
          h1 \<leftarrow> clear_weak_slot g h;
          info \<leftarrow> type_info h1 (dtype g);
          h2 \<leftarrow> call_drop_fn info node h1;
          dispose_mem_only node (partition_id g) (l_size (info_layout info)) h2 }"

definition dispose_no_drop :: "addr \<Rightarrow> 'p gc_heap \<Rightarrow> (usize \<times> 'p gc_heap) option" where
  "dispose_no_drop node h =
     do { g \<leftarrow> heads h node;
          h1 \<leftarrow> clear_weak_slot g h;
          info \<leftarrow> type_info h1 (dtype g);
          dispose_mem_only node (partition_id g) (l_size (info_layout info)) h1 }"

subsection \<open>What disposing of nodes does\<close>

definition node_size :: "'p gc_heap \<Rightarrow> addr \<Rightarrow> usize" where
  "node_size h a =
     (case heads h a of None \<Rightarrow> 0
      | Some g \<Rightarrow> (case type_info h (dtype g) of None \<Rightarrow> 0 | Some info \<Rightarrow> ti_layout_size info))"

text \<open>
  What a disposal relies on: the slot table is consistent, and every node has a registered
  type whose size the \<open>i32\<close> accounting can hold, and an existing partition.
\<close>

definition disp_ok :: "'p gc_heap \<Rightarrow> bool" where
  "disp_ok h \<longleftrightarrow>
     weak_ok h \<and>
     (\<forall>a g. heads h a = Some g \<longrightarrow>
        (\<exists>info. type_info h (dtype g) = Some info \<and> unat (ti_layout_size info) < 2 ^ 31) \<and>
        unat (partition_id g) < length (partitions h))"

definition drop_arena :: "gc_partition \<Rightarrow> gc_partition" where
  "drop_arena p = p\<lparr>arena := None\<rparr>"

text \<open>
  The nodes \<open>xs\<close> are gone, the counters went down by their sizes, and nothing else changed
  but \<open>next\<close> fields, weak slots and the arenas.
\<close>

definition freed_list :: "'p gc_heap \<Rightarrow> addr list \<Rightarrow> 'p gc_heap \<Rightarrow> bool" where
  "freed_list h xs h' \<longleftrightarrow>
     (\<forall>a. map_option detach (heads h' a) =
        (if a \<in> set xs then None else map_option detach (heads h a))) \<and>
     payloads h' = payloads h |` (- set xs) \<and>
     length (partitions h') = length (partitions h) \<and>
     (\<forall>j<length (partitions h).
        drop_arena (partitions h' ! j) = drop_arena ((partitions h ! j)\<lparr>memory_used :=
          memory_used (partitions h ! j) - sum_sizes (node_size h) (filter (in_par h j) xs)\<rparr>)) \<and>
     total_memory_used h' = total_memory_used h - sum_sizes (node_size h) xs \<and>
     node_dtypes h' = node_dtypes h \<and> scope_stacks h' = scope_stacks h \<and>
     memory_limit h' = memory_limit h \<and> gc_threshold h' = gc_threshold h \<and> opaque h' = opaque h"

definition arenas :: "'p gc_heap \<Rightarrow> gc_arena option list" where
  "arenas h = map arena (partitions h)"

lemma detach_view [head_simps, simp]:
  "dtype (detach g) = dtype g" "partition_id (detach g) = partition_id g"
  "color (detach g) = color g" "is_root_or_local (detach g) = is_root_or_local g"
  "weak_id (detach g) = weak_id g" "contains_flag (detach g) f = contains_flag g f"
  "is_gray_listed (detach g) = is_gray_listed g" "next_ptr (detach g) = None"
  by (simp_all add: detach_def)

text \<open>Two heads that agree up to \<open>next\<close> agree on everything else.\<close>

lemma detach_eqD:
  assumes "detach g = detach g'"
  shows "dtype g = dtype g'" "partition_id g = partition_id g'" "color g = color g'"
    "is_root_or_local g = is_root_or_local g'" "weak_id g = weak_id g'"
    "contains_flag g f = contains_flag g' f" "is_gray_listed g = is_gray_listed g'"
  using assms by (metis detach_view)+

lemma detach_obs:
  assumes "map_option detach (heads h' a) = map_option detach (heads h a)"
    and "node_dtypes h' = node_dtypes h"
  shows "in_par h' i a = in_par h i a" "node_size h' a = node_size h a" "hcolor h' a = hcolor h a"
    "hroot h' a = hroot h a" "hlisted h' a = hlisted h a"
  using assms
  by (cases "heads h a"; cases "heads h' a";
      auto simp: in_par_def node_size_def hcolor_def hroot_def hlisted_def type_info_def dest: detach_eqD)+

lemma freed_list_heads:
  assumes "freed_list h xs h'" "a \<notin> set xs"
  shows "map_option detach (heads h' a) = map_option detach (heads h a)"
  using assms by (simp add: freed_list_def)

lemma freed_list_gone:
  assumes "freed_list h xs h'" "a \<in> set xs"
  shows "heads h' a = None"
proof -
  have "map_option detach (heads h' a) = None" using assms by (simp add: freed_list_def)
  then show ?thesis by simp
qed

lemma freed_list_Nil: "freed_list h [] h"
  by (simp add: freed_list_def restrict_map_def)

lemma freed_list_append:
  assumes f: "freed_list h xs h1" "freed_list h1 ys h2" and dis: "set xs \<inter> set ys = {}"
  shows "freed_list h (xs @ ys) h2"
proof -
  have ob: "in_par h1 j a = in_par h j a" "node_size h1 a = node_size h a" if "a \<in> set ys" for j a
  proof -
    have "a \<notin> set xs" using that dis by auto
    from detach_obs [OF freed_list_heads [OF f(1) this]] f(1)
    show "in_par h1 j a = in_par h j a" "node_size h1 a = node_size h a"
      by (simp_all add: freed_list_def)
  qed
  have flt: "filter (in_par h1 j) ys = filter (in_par h j) ys" for j
    by (rule filter_cong) (simp_all add: ob)
  have "sum_sizes (node_size h1) zs = sum_sizes (node_size h) zs" if "set zs \<subseteq> set ys" for zs
    using that ob by (intro sum_sizes_cong) auto
  note sz = this
  have "drop_arena (partitions h2 ! j) = drop_arena ((partitions h ! j)\<lparr>memory_used :=
      memory_used (partitions h ! j) - sum_sizes (node_size h) (filter (in_par h j) (xs @ ys))\<rparr>)"
    if j: "j < length (partitions h)" for j
  proof -
    have 1: "drop_arena (partitions h1 ! j) = drop_arena ((partitions h ! j)\<lparr>memory_used :=
        memory_used (partitions h ! j) - sum_sizes (node_size h) (filter (in_par h j) xs)\<rparr>)"
      using f(1) j by (simp add: freed_list_def)
    have 2: "drop_arena (partitions h2 ! j) = drop_arena ((partitions h1 ! j)\<lparr>memory_used :=
        memory_used (partitions h1 ! j) - sum_sizes (node_size h) (filter (in_par h j) ys)\<rparr>)"
      using f j by (simp add: freed_list_def flt sz)
    have comm: "drop_arena (p\<lparr>memory_used := memory_used p - s\<rparr>) =
        (drop_arena p)\<lparr>memory_used := memory_used (drop_arena p) - s\<rparr>" for p s
      by (cases p) (simp add: drop_arena_def)
    show ?thesis
      unfolding 2 comm 1 by (cases "partitions h ! j") (simp add: drop_arena_def algebra_simps)
  qed
  moreover have "total_memory_used h2 = total_memory_used h - sum_sizes (node_size h) (xs @ ys)"
    using f by (simp add: freed_list_def sz diff_diff_add)
  moreover have "payloads h2 = payloads h |` (- set (xs @ ys))"
    using f by (auto simp: freed_list_def restrict_map_def fun_eq_iff)
  moreover have "map_option detach (heads h2 a) =
      (if a \<in> set (xs @ ys) then None else map_option detach (heads h a))" for a
    using f by (simp add: freed_list_def)
  ultimately show ?thesis using f by (simp add: freed_list_def)
qed

lemma disp_ok_cong:
  assumes ok: "disp_ok h" and w: "weak_ok h'"
    and hd: "\<And>a g'. heads h' a = Some g' \<Longrightarrow> \<exists>g. heads h a = Some g \<and> detach g' = detach g"
    and "node_dtypes h' = node_dtypes h" "length (partitions h') = length (partitions h)"
  shows "disp_ok h'"
proof -
  have "(\<exists>info. type_info h' (dtype g') = Some info \<and> unat (ti_layout_size info) < 2 ^ 31) \<and>
      unat (partition_id g') < length (partitions h')" if "heads h' a = Some g'" for a g'
  proof -
    from hd [OF that] obtain g where g: "heads h a = Some g" "detach g' = detach g" by blast
    with ok assms(4,5) show ?thesis
      using detach_eqD(1,2) [OF g(2)] by (auto simp: disp_ok_def type_info_def)
  qed
  with w show ?thesis by (simp add: disp_ok_def)
qed

lemma weak_ok_ids:
  "weak_ok h \<longleftrightarrow>
     length (weak_slots h) \<le> 2 ^ 24 - 1 \<and>
     (\<forall>i<length (weak_slots h). \<forall>a. snd (weak_slots h ! i) = Some a \<longrightarrow>
        map_option weak_id (heads h a) = Some (weak_new (of_nat i) (fst (weak_slots h ! i))) \<and>
        fst (weak_slots h ! i) \<noteq> 0) \<and>
     (\<forall>a w. map_option weak_id (heads h a) = Some w \<longrightarrow> \<not> weak_is_null w \<longrightarrow>
        (\<exists>i<length (weak_slots h). weak_slots h ! i = (weak_version w, Some a) \<and>
             w = weak_new (of_nat i) (weak_version w)))"
  unfolding weak_ok_def map_option_eq_Some by (intro conj_cong refl) blast+

lemma weak_ok_heads:
  assumes "weak_ok h" "weak_slots h' = weak_slots h"
    and "\<And>a. map_option weak_id (heads h' a) = map_option weak_id (heads h a)"
  shows "weak_ok h'"
  using assms(1) unfolding weak_ok_ids assms(2,3) .

lemma disp_ok_link_frame:
  assumes ok: "disp_ok h" and fr: "link_frame h h'"
  shows "disp_ok h'"
proof -
  have h': "h' = h\<lparr>heads := heads h'\<rparr>" using fr by (simp add: link_frame_def)
  have d: "map_option detach (heads h' a) = map_option detach (heads h a)" for a
    using fr by (simp add: link_frame_def)
  have "map_option weak_id (heads h' a) = map_option weak_id (heads h a)" for a
    using d [of a] by (cases "heads h a"; cases "heads h' a") (auto dest: detach_eqD)
  note ids = this
  have "weak_ok h" using ok by (simp add: disp_ok_def)
  then have "weak_ok h'" by (rule weak_ok_heads [OF _ _ ids]) (subst h', simp)
  then show ?thesis
  proof (rule disp_ok_cong [OF ok])
    show "\<exists>g. heads h a = Some g \<and> detach g' = detach g" if "heads h' a = Some g'" for a g'
      using d [of a] that by (cases "heads h a") auto
  qed (subst h', simp)+
qed

text \<open>Disposing of one node.\<close>

lemma dispose_mem_only_freed:
  assumes ok: "disp_ok h" and g: "heads h a = Some g"
    and w: "clear_weak_slot g h = Some h1" "h1 = h\<lparr>weak_slots := weak_slots h1\<rparr>"
      "weak_ok (h1\<lparr>heads := (heads h1)(a := None)\<rparr>)"
    and h2: "h2 = h1 \<or> h2 = h1\<lparr>payloads := (payloads h1)(a := None), drop_log := L\<rparr>"
  shows "\<exists>h'. dispose_mem_only a (partition_id g) (node_size h a) h2 = Some (node_size h a, h') \<and>
    freed_list h [a] h' \<and> disp_ok h' \<and> arenas h' = arenas h \<and>
    heads h' = (heads h)(a := None)"
proof -
  let ?q = "partition_id g" and ?s = "node_size h a"
  from ok g obtain info where info: "type_info h (dtype g) = Some info"
    "unat (ti_layout_size info) < 2 ^ 31" "unat ?q < length (partitions h)"
    unfolding disp_ok_def by blast
  then have s: "unat ?s < 2 ^ 31" using g by (simp add: node_size_def)
  obtain sl where sl: "h1 = h\<lparr>weak_slots := sl\<rparr>" using w(2) by blast
  have h2f: "partitions h2 = partitions h" "heads h2 = heads h" "total_memory_used h2 = total_memory_used h"
    "weak_slots h2 = sl" "node_dtypes h2 = node_dtypes h" "(payloads h2)(a := None) = (payloads h)(a := None)"
    "scope_stacks h2 = scope_stacks h" "memory_limit h2 = memory_limit h"
    "gc_threshold h2 = gc_threshold h" "opaque h2 = opaque h"
    using h2 unfolding sl by auto
  let ?p = "partitions h ! unat ?q" and ?d = "mem_dealloc a h2"
  have p: "get_par ?d ?q = Some ?p" using info(3) h2f by (simp add: get_par_Some mem_dealloc_def)
  let ?h' = "put_par ?q (?p\<lparr>memory_used := memory_used ?p - ?s\<rparr>)
      (?d\<lparr>total_memory_used := total_memory_used ?d - ?s\<rparr>)"
  have run: "dispose_mem_only a ?q ?s h2 = Some (?s, ?h')"
    using g update_mem_use_sub [OF s p] by (simp add: dispose_mem_only_def h2f)
  have fl: "filter (in_par h j) [a] = (if j = unat ?q then [a] else [])" for j
    using g by (auto simp: in_par_def)
  have fr: "freed_list h [a] ?h'"
    unfolding freed_list_def fl
    using info(3) g
    by (auto simp: mem_dealloc_def h2f nth_list_update restrict_map_def fun_eq_iff
        sum_sizes_def drop_arena_def fun_cong [OF h2f(6)])
  have "weak_ok ?h'"
    by (rule weak_ok_heads [OF w(3)]) (simp_all add: mem_dealloc_def h2f sl)
  then have "disp_ok ?h'"
    by (rule disp_ok_cong [OF ok]) (auto simp: mem_dealloc_def h2f split: if_splits)
  moreover have "arenas ?h' = arenas h"
    using info(3) by (simp add: arenas_def mem_dealloc_def h2f map_field_update [where f = arena])
  moreover have "heads ?h' = (heads h)(a := None)" by (simp add: mem_dealloc_def h2f)
  ultimately show ?thesis using run fr by blast
qed

lemma node_size_info:
  "heads h a = Some g \<Longrightarrow> type_info h (dtype g) = Some info \<Longrightarrow> l_size (info_layout info) = node_size h a"
  by (simp add: node_size_def info_layout_def)

lemma dispose_no_drop_freed:
  assumes ok: "disp_ok h" and a: "a \<in> dom (heads h)"
  shows "\<exists>h'. dispose_no_drop a h = Some (node_size h a, h') \<and> freed_list h [a] h' \<and> disp_ok h' \<and> arenas h' = arenas h \<and>
    heads h' = (heads h)(a := None)"
proof -
  from a obtain g where g: "heads h a = Some g" by blast
  from ok g obtain info where info: "type_info h (dtype g) = Some info" by (auto simp: disp_ok_def)
  have "weak_ok h" using ok by (simp add: disp_ok_def)
  from clear_weak_slot_ok [OF this g] obtain h1 where w: "clear_weak_slot g h = Some h1"
    "h1 = h\<lparr>weak_slots := weak_slots h1\<rparr>" "weak_ok (h1\<lparr>heads := (heads h1)(a := None)\<rparr>)" by blast
  have "type_info h1 = type_info h" by (subst w(2)) (simp add: type_info_def fun_eq_iff)
  with dispose_mem_only_freed [OF ok g w disjI1 [OF refl]] g info w(1) show ?thesis
    by (simp add: dispose_no_drop_def node_size_info)
qed

definition droppable :: "'p gc_heap \<Rightarrow> addr \<Rightarrow> bool" where
  "droppable h a \<longleftrightarrow>
     (\<exists>g info. heads h a = Some g \<and> type_info h (dtype g) = Some info \<and>
        (ti_drop_fn info \<longrightarrow> payloads h a \<noteq> None))"

lemma dispose_freed:
  assumes ok: "disp_ok h" and a: "droppable h a"
  shows "\<exists>h'. dispose a h = Some (node_size h a, h') \<and> freed_list h [a] h' \<and> disp_ok h' \<and> arenas h' = arenas h \<and>
    heads h' = (heads h)(a := None)"
proof -
  from a obtain g info where g: "heads h a = Some g" and info: "type_info h (dtype g) = Some info"
    and dr: "ti_drop_fn info \<Longrightarrow> \<exists>v. payloads h a = Some v"
    by (auto simp: droppable_def)
  have "weak_ok h" using ok by (simp add: disp_ok_def)
  from clear_weak_slot_ok [OF this g] obtain h1 where w: "clear_weak_slot g h = Some h1"
    "h1 = h\<lparr>weak_slots := weak_slots h1\<rparr>" "weak_ok (h1\<lparr>heads := (heads h1)(a := None)\<rparr>)" by blast
  have h1: "type_info h1 = type_info h" "payloads h1 = payloads h"
    by (subst w(2), simp add: type_info_def fun_eq_iff)+
  let ?h2 = "if ti_drop_fn info then h1\<lparr>payloads := (payloads h1)(a := None), drop_log := vec_push (drop_log h1) a\<rparr> else h1"
  have "call_drop_fn info a h1 = Some ?h2" using dr h1 by (auto simp: call_drop_fn_def)
  moreover have "?h2 = h1 \<or> ?h2 = h1\<lparr>payloads := (payloads h1)(a := None), drop_log := vec_push (drop_log h1) a\<rparr>" by simp
  ultimately show ?thesis
    using dispose_mem_only_freed [OF ok g w, of ?h2] g info w(1) h1
    by (simp add: dispose_def node_size_info)
qed

end
