(* ===== verification/Gc_Sweep.thy ===== *)
theory Gc_Sweep
  imports Gc_Mark_Phase Gc_Mem
begin

section \<open>Sweeping and collection (src/src/mark_sweep.rs)\<close>

text \<open>
  The three-step sweep, \<open>sweep_unlink\<close>, \<open>sweep_drop_payloads\<close> and \<open>sweep_dispose\<close>, and
  \<open>garbage_collect\<close>.
\<close>

subsection \<open>Operations\<close>

definition white_non_root :: "gc_head \<Rightarrow> tri_color \<Rightarrow> bool" where
  "white_non_root g c \<longleftrightarrow> c = White \<and> \<not> is_root_or_local g"

partial_function (option) unlink_loop ::
  "addr option \<Rightarrow> addr option \<Rightarrow> addr option \<Rightarrow> addr option \<Rightarrow> addr option \<Rightarrow> 'p gc_heap
     \<Rightarrow> (addr option \<times> addr option \<times> 'p gc_heap) option" where
  "unlink_loop cur white_head white_tail survivor_head survivor_tail h =
     (case cur of
        None \<Rightarrow> Some (white_head, survivor_head, h)
      | Some this \<Rightarrow>
          do { g \<leftarrow> heads h this;
               c \<leftarrow> color g;
               h1 \<leftarrow> update_head detach this h;
               if white_non_root g c then
                 do { r \<leftarrow> append_tail this white_tail white_head h1;
                      unlink_loop (next_ptr g) (fst r) (Some this) survivor_head survivor_tail (snd r) }
               else
                 do { r \<leftarrow> append_tail this survivor_tail survivor_head h1;
                      unlink_loop (next_ptr g) white_head white_tail (fst r) (Some this) (snd r) } })"

declare unlink_loop.simps [code]

text \<open>The inner \<open>None\<close> is the \<open>None\<close> of the code: no finished mark cycle, or no node.\<close>

definition sweep_unlink :: "u16 \<Rightarrow> 'p gc_heap \<Rightarrow> (addr option option \<times> 'p gc_heap) option" where
  "sweep_unlink pid h =
     (case get_par h pid of
        None \<Rightarrow> Some (None, h)
      | Some par \<Rightarrow>
          if \<not> (marking par \<and> gray_list par = []) then Some (None, h)
          else
            (let h1 = put_par pid (par\<lparr>marking := False, nodes := None\<rparr>) h in
             (case nodes par of
                None \<Rightarrow> Some (None, h1)
              | Some link0 \<Rightarrow>
                  do { r \<leftarrow> unlink_loop (Some link0) None None None None h1;
                       h3 \<leftarrow> update_par (\<lambda>q. q\<lparr>nodes := fst (snd r)\<rparr>) pid (snd (snd r));
                       Some (Some (fst r), h3) })))"

definition sweep_drop_payloads :: "addr option \<Rightarrow> 'p gc_heap \<Rightarrow> 'p gc_heap option" where
  "sweep_drop_payloads white h = for_nodes drop_node_payload_without_dealloc white h"

text \<open>The body of \<open>sweep_dispose\<close> for a node of the current pass.\<close>

definition dispose_white ::
  "u16 \<Rightarrow> addr \<Rightarrow> usize \<times> hole list \<times> 'p gc_heap \<Rightarrow> (usize \<times> hole list \<times> 'p gc_heap) option" where
  "dispose_white pid this = (\<lambda>(freed_bytes, holes, h).
     do { g \<leftarrow> heads h this;
          info \<leftarrow> type_info h (dtype g);
          r \<leftarrow> dispose_no_drop this h;
          if contains_flag g ARENA_ALLOC then
            do { par \<leftarrow> get_par (snd r) pid;
                 ar \<leftarrow> arena par;
                 let hr = collect_hole holes this (l_size (info_layout info)) ar
                 in Some (freed_bytes + fst r, fst hr,
                          put_par pid (par\<lparr>arena := Some (snd hr)\<rparr>) (snd r)) }
          else Some (freed_bytes + fst r, holes, snd r) })"

partial_function (option) dispose_pass ::
  "u16 \<Rightarrow> u8 \<Rightarrow> addr option \<Rightarrow> addr option \<Rightarrow> addr option \<Rightarrow> usize \<times> hole list \<times> 'p gc_heap
     \<Rightarrow> (addr option \<times> usize \<times> hole list \<times> 'p gc_heap) option" where
  "dispose_pass pid pass cur kept_head kept_tail st =
     (case cur of
        None \<Rightarrow> Some (kept_head, st)
      | Some this \<Rightarrow>
          do { g \<leftarrow> heads (snd (snd st)) this;
               info \<leftarrow> type_info (snd (snd st)) (dtype g);
               if ti_drop_pass info = pass then
                 do { st1 \<leftarrow> dispose_white pid this st;
                      dispose_pass pid pass (next_ptr g) kept_head kept_tail st1 }
               else
                 do { h1 \<leftarrow> update_head detach this (snd (snd st));
                      r \<leftarrow> append_tail this kept_tail kept_head h1;
                      dispose_pass pid pass (next_ptr g) (fst r) (Some this)
                        (fst st, fst (snd st), snd r) } })"

declare dispose_pass.simps [code]

text \<open>The loop over the passes, with its early exit; nodes of no pass are left behind.\<close>

fun dispose_passes ::
  "u16 \<Rightarrow> u8 list \<Rightarrow> addr option \<Rightarrow> usize \<times> hole list \<times> 'p gc_heap
     \<Rightarrow> (usize \<times> hole list \<times> 'p gc_heap) option" where
  "dispose_passes pid [] remaining st = Some st"
| "dispose_passes pid (pass # passes) remaining st =
     do { r \<leftarrow> dispose_pass pid pass remaining None None st;
          if fst r = None then Some (snd r) else dispose_passes pid passes (fst r) (snd r) }"

definition sweep_dispose :: "u16 \<Rightarrow> addr option \<Rightarrow> 'p gc_heap \<Rightarrow> (usize \<times> 'p gc_heap) option" where
  "sweep_dispose pid white h =
     do { r \<leftarrow> dispose_passes pid (drop_passes (node_dtypes h)) white (0, [], h);
          par \<leftarrow> get_par (snd (snd r)) pid;
          Some (fst r,
            (case arena par of
               None \<Rightarrow> snd (snd r)
             | Some ar \<Rightarrow>
                 put_par pid (par\<lparr>arena := Some (snd (finish_sweep (fst (snd r)) ar))\<rparr>) (snd (snd r)))) }"

text \<open>
  What \<open>garbage_collect\<close> does after marking, and what a host does that runs the three steps
  itself.
\<close>

definition collect_white :: "u16 \<Rightarrow> 'p gc_heap \<Rightarrow> (usize \<times> 'p gc_heap) option" where
  "collect_white pid h1 =
     do { r \<leftarrow> sweep_unlink pid h1;
          (case fst r of
             None \<Rightarrow> Some (0, snd r)
           | Some white \<Rightarrow>
               do { h3 \<leftarrow> sweep_drop_payloads white (snd r); sweep_dispose pid white h3 }) }"

definition garbage_collect :: "u16 \<Rightarrow> 'p gc_heap \<Rightarrow> (usize \<times> 'p gc_heap) option" where
  "garbage_collect pid h =
     (case get_par h pid of
        None \<Rightarrow> Some (0, h)
      | Some _ \<Rightarrow> Option.bind (mark_until_done pid h) (collect_white pid))"

subsection \<open>Splitting the chain\<close>

definition dead :: "'p gc_heap \<Rightarrow> addr \<Rightarrow> bool" where
  "dead h a \<longleftrightarrow> hcolor h a = Some White \<and> \<not> hroot h a"

lemma link_frame_obs:
  assumes "link_frame h h'"
  shows "map_option detach (heads h' a) = map_option detach (heads h a)"
    "node_dtypes h' = node_dtypes h" "partitions h' = partitions h" "payloads h' = payloads h"
    "scope_stacks h' = scope_stacks h" "weak_slots h' = weak_slots h"
    "total_memory_used h' = total_memory_used h" "memory_limit h' = memory_limit h"
    "gc_threshold h' = gc_threshold h" "opaque h' = opaque h" "drop_log h' = drop_log h"
proof -
  have h': "h' = h\<lparr>heads := heads h'\<rparr>" using assms by (simp add: link_frame_def)
  show "map_option detach (heads h' a) = map_option detach (heads h a)"
    using assms by (simp add: link_frame_def)
  show "node_dtypes h' = node_dtypes h" "partitions h' = partitions h" "payloads h' = payloads h"
    "scope_stacks h' = scope_stacks h" "weak_slots h' = weak_slots h"
    "total_memory_used h' = total_memory_used h" "memory_limit h' = memory_limit h"
    "gc_threshold h' = gc_threshold h" "opaque h' = opaque h" "drop_log h' = drop_log h"
    by (subst h', simp)+
qed

lemma dead_detach:
  "map_option detach (heads h' a) = map_option detach (heads h a) \<Longrightarrow> node_dtypes h' = node_dtypes h
    \<Longrightarrow> dead h' a = dead h a"
  using detach_obs [of h' a h] by (simp add: dead_def)

lemma link_frame_detach: "heads h a = Some g \<Longrightarrow> link_frame h (put_head a (detach g) h)"
  by (simp add: link_frame_def put_head_def detach_def)

lemma chain_put_other:
  "a \<notin> set xs \<Longrightarrow> chain (heads (put_head a g h)) p xs = chain (heads h) p xs"
  by (rule chain_cong) auto

text \<open>
  One element moves to the end of one of the two chains being built; the other chains are not
  touched.
\<close>

lemma move_to_tail:
  assumes "chain (heads h) p xs" "heads h a = Some g" "a \<notin> set xs"
  shows "\<exists>p' h'. append_tail a (tail_of xs) p (put_head a (detach g) h) = Some (p', h') \<and>
    chain (heads h') p' (xs @ [a]) \<and> link_frame h h' \<and>
    (\<forall>b. b \<notin> set (xs @ [a]) \<longrightarrow> heads h' b = heads h b)"
proof -
  let ?h = "put_head a (detach g) h"
  have c: "chain (heads ?h) p xs" using assms(1) chain_put_other [OF assms(3)] by blast
  have "heads ?h a = Some (detach g)" by simp
  from append_tail_chain [OF c this _ assms(3)] obtain p' h' where
    "append_tail a (tail_of xs) p ?h = Some (p', h')" "chain (heads h') p' (xs @ [a])"
    "link_frame ?h h'" "\<forall>b. b \<notin> set xs \<longrightarrow> heads h' b = heads ?h b" by auto
  with link_frame_trans [OF link_frame_detach [OF assms(2)]] show ?thesis by auto
qed

lemma chain_outside:
  assumes "\<forall>b. b \<notin> set ys \<longrightarrow> heads h' b = heads h b" "set xs \<inter> set ys = {}"
  shows "chain (heads h') p xs = chain (heads h) p xs"
proof (rule chain_cong)
  fix a assume "a \<in> set xs"
  with assms(2) have "a \<notin> set ys" by auto
  with assms(1) show "map_option next_ptr (heads h' a) = map_option next_ptr (heads h a)" by simp
qed

lemma unlink_loop_correct:
  assumes "chain (heads h) cur as" "chain (heads h) wh W" "chain (heads h) sh S"
    "distinct (as @ W @ S)" "\<forall>a\<in>set as. hcolor h a \<noteq> None"
  shows "\<exists>wh' sh' h'. unlink_loop cur wh (tail_of W) sh (tail_of S) h = Some (wh', sh', h') \<and>
    chain (heads h') wh' (W @ filter (dead h) as) \<and>
    chain (heads h') sh' (S @ filter (\<lambda>a. \<not> dead h a) as) \<and> link_frame h h' \<and>
    (\<forall>b. b \<notin> set (as @ W @ S) \<longrightarrow> heads h' b = heads h b)"
  using assms
proof (induction as arbitrary: cur wh W sh S h)
  case Nil
  then show ?case by (simp add: unlink_loop.simps)
next
  case (Cons a as)
  from Cons.prems(1) obtain g where g: "cur = Some a" "heads h a = Some g"
    "chain (heads h) (next_ptr g) as" by auto
  from Cons.prems(5) g(2) obtain c where c: "color g = Some c" by (auto simp: obs_head)
  have wn: "white_non_root g c \<longleftrightarrow> dead h a"
    using g(2) c by (simp add: white_non_root_def dead_def obs_head)
  let ?h1 = "put_head a (detach g) h"
  have upd: "update_head detach a h = Some ?h1" using g(2) by (simp add: update_head_def)
  show ?case
  proof (cases "dead h a")
    case True
    have "a \<notin> set W" using Cons.prems(4) by auto
    from move_to_tail [OF Cons.prems(2) g(2) this] obtain wh1 h2 where
      m: "append_tail a (tail_of W) wh ?h1 = Some (wh1, h2)" "chain (heads h2) wh1 (W @ [a])"
      "link_frame h h2" and o: "\<forall>b. b \<notin> set (W @ [a]) \<longrightarrow> heads h2 b = heads h b" by blast
    note lf = link_frame_obs [OF m(3)]
    have dd: "dead h2 b = dead h b" "hcolor h2 b = hcolor h b" for b
      using dead_detach [OF lf(1,2)] detach_obs(3) [OF lf(1,2)] by auto
    have c1: "chain (heads h2) (next_ptr g) as"
      using chain_outside [OF o, where xs = as] Cons.prems(4) g(3) by auto
    have c2: "chain (heads h2) sh S"
      using chain_outside [OF o, where xs = S] Cons.prems(3,4) by auto
    have "distinct (as @ (W @ [a]) @ S)" using Cons.prems(4) by auto
    moreover have "\<forall>b\<in>set as. hcolor h2 b \<noteq> None" using Cons.prems(5) dd by simp
    ultimately obtain wh' sh' h' where r:
      "unlink_loop (next_ptr g) wh1 (tail_of (W @ [a])) sh (tail_of S) h2 = Some (wh', sh', h')"
      "chain (heads h') wh' ((W @ [a]) @ filter (dead h2) as)"
      "chain (heads h') sh' (S @ filter (\<lambda>a. \<not> dead h2 a) as)" "link_frame h2 h'"
      "\<forall>b. b \<notin> set (as @ (W @ [a]) @ S) \<longrightarrow> heads h' b = heads h2 b"
      using Cons.IH [OF c1 m(2) c2] by blast
    have "unlink_loop cur wh (tail_of W) sh (tail_of S) h = Some (wh', sh', h')"
      using r(1) g c wn True upd m(1) by (subst unlink_loop.simps) simp
    moreover have "dead h2 = dead h" by (simp add: fun_eq_iff dd)
    moreover have "\<forall>b. b \<notin> set ((a # as) @ W @ S) \<longrightarrow> heads h' b = heads h b"
      using r(5) o by auto
    ultimately show ?thesis
      using r(2,3) True link_frame_trans [OF m(3) r(4)] by simp
  next
    case False
    have "a \<notin> set S" using Cons.prems(4) by auto
    from move_to_tail [OF Cons.prems(3) g(2) this] obtain sh1 h2 where
      m: "append_tail a (tail_of S) sh ?h1 = Some (sh1, h2)" "chain (heads h2) sh1 (S @ [a])"
      "link_frame h h2" and o: "\<forall>b. b \<notin> set (S @ [a]) \<longrightarrow> heads h2 b = heads h b" by blast
    note lf = link_frame_obs [OF m(3)]
    have dd: "dead h2 b = dead h b" "hcolor h2 b = hcolor h b" for b
      using dead_detach [OF lf(1,2)] detach_obs(3) [OF lf(1,2)] by auto
    have c1: "chain (heads h2) (next_ptr g) as"
      using chain_outside [OF o, where xs = as] Cons.prems(4) g(3) by auto
    have c2: "chain (heads h2) wh W"
      using chain_outside [OF o, where xs = W] Cons.prems(2,4) by auto
    have "distinct (as @ W @ (S @ [a]))" using Cons.prems(4) by auto
    moreover have "\<forall>b\<in>set as. hcolor h2 b \<noteq> None" using Cons.prems(5) dd by simp
    ultimately obtain wh' sh' h' where r:
      "unlink_loop (next_ptr g) wh (tail_of W) sh1 (tail_of (S @ [a])) h2 = Some (wh', sh', h')"
      "chain (heads h') wh' (W @ filter (dead h2) as)"
      "chain (heads h') sh' ((S @ [a]) @ filter (\<lambda>a. \<not> dead h2 a) as)" "link_frame h2 h'"
      "\<forall>b. b \<notin> set (as @ W @ (S @ [a])) \<longrightarrow> heads h' b = heads h2 b"
      using Cons.IH [OF c1 c2 m(2)] by blast
    have "unlink_loop cur wh (tail_of W) sh (tail_of S) h = Some (wh', sh', h')"
      using r(1) g c wn False upd m(1) by (subst unlink_loop.simps) simp
    moreover have "dead h2 = dead h" by (simp add: fun_eq_iff dd)
    moreover have "\<forall>b. b \<notin> set ((a # as) @ W @ S) \<longrightarrow> heads h' b = heads h b"
      using r(5) o by auto
    ultimately show ?thesis
      using r(2,3) False link_frame_trans [OF m(3) r(4)] by simp
  qed
qed

subsection \<open>sweep_unlink\<close>

text \<open>
  The white nodes come out as a chain of their own, in order; the survivors stay in the
  partition, in order; no node is touched but for its \<open>next\<close> field.
\<close>

definition unlinked :: "'p gc_heap \<Rightarrow> nat \<Rightarrow> addr option \<Rightarrow> 'p gc_heap \<Rightarrow> bool" where
  "unlinked h i wh t \<longleftrightarrow>
     (\<forall>a. map_option detach (heads t a) = map_option detach (heads h a)) \<and>
     (\<forall>b. b \<notin> set (par_list h i) \<longrightarrow> heads t b = heads h b) \<and>
     chain (heads t) wh (filter (dead h) (par_list h i)) \<and>
     chain (heads t) (nodes (partitions t ! i)) (filter (\<lambda>a. \<not> dead h a) (par_list h i)) \<and>
     t = h\<lparr>heads := heads t, partitions := (partitions h)[i := (partitions h ! i)
       \<lparr>marking := False, nodes := nodes (partitions t ! i)\<rparr>]\<rparr>"

lemma sweep_unlink_correct:
  assumes ok: "heap_ok h" and i: "unat pid < length (partitions h)"
    and m: "pmarking h (unat pid)" "glist h (unat pid) = []"
  shows "\<exists>w t. sweep_unlink pid h = Some (w, t) \<and>
    (case w of None \<Rightarrow> par_list h (unat pid) = [] \<and> unlinked h (unat pid) None t
     | Some wh \<Rightarrow> par_list h (unat pid) \<noteq> [] \<and> unlinked h (unat pid) wh t)"
proof -
  let ?i = "unat pid" and ?p = "partitions h ! unat pid"
  let ?xs = "par_list h ?i"
  have p: "get_par h pid = Some ?p" using i by (simp add: get_par_Some)
  have ch: "chain (heads h) (nodes ?p) ?xs" by (rule heap_ok_chain [OF ok i])
  let ?h1 = "put_par pid (?p\<lparr>marking := False, nodes := None\<rparr>) h"
  show ?thesis
  proof (cases "nodes ?p")
    case None
    with ch have "?xs = []" by (cases ?xs) auto
    moreover have "sweep_unlink pid h = Some (None, ?h1)" using p m None by (simp add: sweep_unlink_def)
    moreover have "unlinked h ?i None ?h1" if "?xs = []"
      using that i by (simp add: unlinked_def put_par_def)
    ultimately show ?thesis by simp
  next
    case (Some a)
    have d1: "dead ?h1 = dead h" by (simp add: dead_def fun_eq_iff)
    have col: "\<forall>b\<in>set ?xs. hcolor ?h1 b \<noteq> None"
      using heap_ok_hcolor_dom [OF ok] dom_in_list [OF ok i] by simp
    have ch1: "chain (heads ?h1) (Some a) ?xs" using ch Some by simp
    have "\<exists>wh' sh' h'. unlink_loop (Some a) None (tail_of []) None (tail_of []) ?h1 = Some (wh', sh', h') \<and>
        chain (heads h') wh' ([] @ filter (dead ?h1) ?xs) \<and>
        chain (heads h') sh' ([] @ filter (\<lambda>b. \<not> dead ?h1 b) ?xs) \<and> link_frame ?h1 h' \<and>
        (\<forall>b. b \<notin> set (?xs @ [] @ []) \<longrightarrow> heads h' b = heads ?h1 b)"
      by (rule unlink_loop_correct [OF ch1]) (use col heap_ok_distinct [OF ok i] in auto)
    then obtain wh sh h2 where u: "unlink_loop (Some a) None None None None ?h1 = Some (wh, sh, h2)"
      "chain (heads h2) wh (filter (dead h) ?xs)" "chain (heads h2) sh (filter (\<lambda>b. \<not> dead h b) ?xs)"
      "link_frame ?h1 h2" "\<forall>b. b \<notin> set ?xs \<longrightarrow> heads h2 b = heads h b"
      by (auto simp: d1)
    have h2: "h2 = ?h1\<lparr>heads := heads h2\<rparr>" using u(4) by (simp add: link_frame_def)
    have ps: "partitions h2 = (partitions h)[?i := ?p\<lparr>marking := False, nodes := None\<rparr>]"
      by (subst h2) simp
    let ?q = "?p\<lparr>marking := False, nodes := None\<rparr>"
    have q: "get_par h2 pid = Some ?q" using i by (simp add: get_par_Some ps)
    let ?t = "put_par pid (?q\<lparr>nodes := sh\<rparr>) h2"
    have run: "sweep_unlink pid h = Some (Some wh, ?t)"
      using p m Some u(1) q by (simp add: sweep_unlink_def update_par_def)
    have nt: "nodes (partitions ?t ! ?i) = sh" using i by (simp add: ps)
    have "?t = h\<lparr>heads := heads ?t, partitions := (partitions h)[?i := ?p
       \<lparr>marking := False, nodes := nodes (partitions ?t ! ?i)\<rparr>]\<rparr>"
      unfolding nt by (simp add: put_par_def ps) (subst h2, simp add: put_par_def)
    then have "unlinked h ?i wh ?t"
      unfolding unlinked_def nt using u(2,3,5) link_frame_obs(1) [OF u(4)] by simp
    moreover have "?xs \<noteq> []" using ch Some by auto
    ultimately show ?thesis using run by auto
  qed
qed

subsection \<open>sweep_drop_payloads\<close>

definition needs_drop_fn :: "'p gc_heap \<Rightarrow> addr \<Rightarrow> bool" where
  "needs_drop_fn h a \<longleftrightarrow>
     (\<exists>g info. heads h a = Some g \<and> type_info h (dtype g) = Some info \<and> ti_drop_fn info)"

lemma sweep_drop_payloads_correct:
  assumes ch: "chain (heads h) w xs"
    and ok: "\<And>a. a \<in> set xs \<Longrightarrow> droppable h a"
  shows "\<exists>t. sweep_drop_payloads w h = Some t \<and>
    t = h\<lparr>payloads := (\<lambda>a. if a \<in> set xs \<and> needs_drop_fn h a then None else payloads h a),
          drop_log := drop_log h @ filter (needs_drop_fn h) xs\<rparr>"
proof -
  let ?pl = "\<lambda>ys a. if a \<in> set ys \<and> needs_drop_fn h a then None else payloads h a"
  let ?u = "\<lambda>ys. h\<lparr>payloads := ?pl ys, drop_log := drop_log h @ filter (needs_drop_fn h) ys\<rparr>"
  have "sweep_drop_payloads w h = fold_opt drop_node_payload_without_dealloc xs h"
    unfolding sweep_drop_payloads_def
    by (rule for_nodes_fold [OF ch])
       (auto simp: drop_node_payload_without_dealloc_def call_drop_fn_def bind_eq_Some_conv
         split: if_splits)
  moreover have "\<exists>t. fold_opt drop_node_payload_without_dealloc xs h = Some t \<and>
      t = ?u xs"
  proof (rule fold_opt_prefix_rule)
    show "h = ?u []" by simp
  next
    fix ys x zs t
    assume xs: "xs = ys @ x # zs" and t: "t = ?u ys"
    have x: "x \<notin> set ys" "x \<in> set xs" using chain_distinct [OF ch] xs by auto
    from ok [OF x(2)] obtain g info where g: "heads h x = Some g" "type_info h (dtype g) = Some info"
      "ti_drop_fn info \<Longrightarrow> \<exists>v. payloads h x = Some v"
      by (auto simp: droppable_def)
    have nd: "needs_drop_fn h x \<longleftrightarrow> ti_drop_fn info" using g(1,2) by (simp add: needs_drop_fn_def)
    have ti: "type_info t = type_info h" unfolding t by (simp add: type_info_def fun_eq_iff)
    show "\<exists>t'. drop_node_payload_without_dealloc x t = Some t' \<and> t' = ?u (ys @ [x])"
    proof (cases "ti_drop_fn info")
      case True
      with g(3) obtain v where "payloads t x = Some v" using x(1) unfolding t by auto
      with g True ti have "drop_node_payload_without_dealloc x t =
          Some (t\<lparr>payloads := (payloads t)(x := None), drop_log := vec_push (drop_log t) x\<rparr>)"
        unfolding t by (simp add: drop_node_payload_without_dealloc_def call_drop_fn_def)
      moreover have "(payloads t)(x := None) = ?pl (ys @ [x])"
        using True nd unfolding t by (auto simp: fun_eq_iff)
      ultimately show ?thesis using True nd unfolding t by (simp add: vec_push_def)
    next
      case False
      have "drop_node_payload_without_dealloc x t = Some t"
        using g ti False unfolding t by (simp add: drop_node_payload_without_dealloc_def call_drop_fn_def)
      moreover have "?pl ys = ?pl (ys @ [x])" using False nd by (auto simp: fun_eq_iff)
      ultimately show ?thesis using False nd unfolding t by simp
    qed
  qed
  ultimately show ?thesis by simp
qed

end
