(* ===== verification/Gc_Dispose.thy ===== *)
theory Gc_Dispose
  imports Gc_Sweep
begin

section \<open>Disposal of the white nodes (src/src/mark_sweep.rs)\<close>

text \<open>
  \<open>sweep_dispose\<close> frees every node of its list whose type has a registered drop pass, in
  pass order, moves the counters by their sizes, and leaves every other node as it was.
\<close>

subsection \<open>One node\<close>

definition arena_present :: "'p gc_heap \<Rightarrow> nat \<Rightarrow> bool" where
  "arena_present h i \<longleftrightarrow> i < length (arenas h) \<and> arenas h ! i \<noteq> None"

definition in_arena :: "'p gc_heap \<Rightarrow> addr \<Rightarrow> bool" where
  "in_arena h a \<longleftrightarrow> (\<exists>g. heads h a = Some g \<and> contains_flag g ARENA_ALLOC)"

definition pass_is :: "'p gc_heap \<Rightarrow> u8 \<Rightarrow> addr \<Rightarrow> bool" where
  "pass_is h pass a \<longleftrightarrow>
     (\<exists>g info. heads h a = Some g \<and> type_info h (dtype g) = Some info \<and> ti_drop_pass info = pass)"

lemma detach_obs2:
  assumes "map_option detach (heads h' a) = map_option detach (heads h a)"
    and "node_dtypes h' = node_dtypes h"
  shows "in_arena h' a = in_arena h a" "pass_is h' q a = pass_is h q a" "droppable h' a \<longleftrightarrow>
      (\<exists>g info. heads h a = Some g \<and> type_info h (dtype g) = Some info \<and>
        (ti_drop_fn info \<longrightarrow> payloads h' a \<noteq> None))"
  using assms
  by (cases "heads h a"; cases "heads h' a";
      auto simp: in_arena_def pass_is_def droppable_def type_info_def dest: detach_eqD)+

lemma arena_present_cong: "arenas h' = arenas h \<Longrightarrow> arena_present h' = arena_present h"
  by (simp add: arena_present_def fun_eq_iff)

lemma arena_present_par:
  "i < length (partitions h) \<Longrightarrow> arena_present h i \<longleftrightarrow> arena (partitions h ! i) \<noteq> None"
  by (simp add: arena_present_def arenas_def)

lemma length_arenas [simp]: "length (arenas h) = length (partitions h)"
  by (simp add: arenas_def)

text \<open>Replacing an arena by an arena.\<close>

lemma drop_arena_update: "drop_arena (p\<lparr>arena := x\<rparr>) = drop_arena p"
  by (simp add: drop_arena_def)

lemma put_arena:
  assumes "get_par h pid = Some p" "arena p \<noteq> None"
  shows "freed_list h [] (put_par pid (p\<lparr>arena := Some ar\<rparr>) h)"
    "arena_present (put_par pid (p\<lparr>arena := Some ar\<rparr>) h) = arena_present h"
    "disp_ok h \<Longrightarrow> disp_ok (put_par pid (p\<lparr>arena := Some ar\<rparr>) h)"
proof -
  have i: "unat pid < length (partitions h)" "p = partitions h ! unat pid"
    using assms(1) by (simp_all add: get_par_Some)
  have "drop_arena (partitions (put_par pid (p\<lparr>arena := Some ar\<rparr>) h) ! j) = drop_arena (partitions h ! j)" for j
    using i by (simp add: field_list_update [where f = drop_arena] drop_arena_update)
  then show "freed_list h [] (put_par pid (p\<lparr>arena := Some ar\<rparr>) h)"
    by (simp add: freed_list_def restrict_map_def)
  show "arena_present (put_par pid (p\<lparr>arena := Some ar\<rparr>) h) = arena_present h"
    using i assms(2) by (auto simp: fun_eq_iff arena_present_def arenas_def nth_list_update split: if_splits)
  show "disp_ok (put_par pid (p\<lparr>arena := Some ar\<rparr>) h)" if "disp_ok h"
  proof (rule disp_ok_cong [OF that])
    have "weak_ok h" using that by (simp add: disp_ok_def)
    then show "weak_ok (put_par pid (p\<lparr>arena := Some ar\<rparr>) h)" by (rule weak_ok_heads) simp_all
  qed auto
qed

lemma freed_list_trans0:
  "freed_list h xs h1 \<Longrightarrow> freed_list h1 [] h2 \<Longrightarrow> freed_list h xs h2"
  using freed_list_append [of h xs h1 "[]" h2] by simp

lemma freed_list_from0:
  "freed_list h [] h1 \<Longrightarrow> freed_list h1 xs h2 \<Longrightarrow> freed_list h xs h2"
  using freed_list_append [of h "[]" h1 xs h2] by simp

text \<open>
  What a disposal does besides freeing the node: the weak slot of the node is cleared, its
  \<open>drop_fn\<close> is called or not, and its memory goes to the arena as a hole.
\<close>

definition cleared_slot :: "'p gc_heap \<Rightarrow> addr \<Rightarrow> (u8 \<times> addr option) list \<Rightarrow> (u8 \<times> addr option) list" where
  "cleared_slot h a slots =
     (case heads h a of None \<Rightarrow> slots
      | Some g \<Rightarrow> if weak_is_null (weak_id g) then slots
                  else slots[unat (weak_index (weak_id g)) := (fst (slots ! unat (weak_index (weak_id g))), None)])"

definition drop_entry :: "'p gc_heap \<Rightarrow> addr \<Rightarrow> addr list" where
  "drop_entry h a = filter (needs_drop_fn h) [a]"

type_synonym sweep_view = "hole list \<times> gc_arena option list \<times> (u8 \<times> addr option) list"

definition sweep_view :: "hole list \<Rightarrow> 'p gc_heap \<Rightarrow> sweep_view" where
  "sweep_view holes h = (holes, arenas h, weak_slots h)"

definition sweep_effect :: "nat \<Rightarrow> 'p gc_heap \<Rightarrow> addr \<Rightarrow> sweep_view \<Rightarrow> sweep_view" where
  "sweep_effect i h a = (\<lambda>(holes, ars, slots).
     (case (if in_arena h a then ars ! i else None) of
        None \<Rightarrow> (holes, ars, cleared_slot h a slots)
      | Some r \<Rightarrow> (let hr = collect_hole holes a (node_size h a) r
                  in (fst hr, ars[i := Some (snd hr)], cleared_slot h a slots))))"

lemma needs_drop_fn_cong:
  assumes "map_option detach (heads h' a) = map_option detach (heads h a)" "node_dtypes h' = node_dtypes h"
  shows "needs_drop_fn h' a = needs_drop_fn h a"
  using assms by (cases "heads h a"; cases "heads h' a") (auto simp: needs_drop_fn_def type_info_def dest: detach_eqD)

lemma effects_cong:
  assumes "map_option detach (heads h' a) = map_option detach (heads h a)" "node_dtypes h' = node_dtypes h"
  shows "cleared_slot h' a = cleared_slot h a" "drop_entry h' a = drop_entry h a"
    "sweep_effect i h' a = sweep_effect i h a"
proof -
  show c: "cleared_slot h' a = cleared_slot h a"
    using assms(1) by (cases "heads h a"; cases "heads h' a") (auto simp: cleared_slot_def fun_eq_iff dest: detach_eqD)
  show "drop_entry h' a = drop_entry h a"
    by (simp add: drop_entry_def needs_drop_fn_cong [OF assms])
  show "sweep_effect i h' a = sweep_effect i h a"
    by (simp only: sweep_effect_def c detach_obs(2) [OF assms] detach_obs2(1) [OF assms])
qed

lemma arenas_put_par: "get_par h pid = Some p \<Longrightarrow> arenas (put_par pid q h) = (arenas h)[unat pid := arena q]"
  by (simp add: arenas_def map_update)

lemma dispose_mem_only_effects:
  assumes "dispose_mem_only a pid n h = Some (m, t)"
  shows "arenas t = arenas h" "weak_slots t = weak_slots h" "drop_log t = drop_log h"
proof -
  obtain k where "update_mem_use pid (- usize_as_i32 n) (mem_dealloc a h) = Some (k, t)"
    using assms by (auto simp: dispose_mem_only_def bind_eq_Some_conv)
  then obtain p p' tot where t: "t = put_par pid p' ((mem_dealloc a h)\<lparr>total_memory_used := tot\<rparr>)"
    "get_par (mem_dealloc a h) pid = Some p" "arena p' = arena p"
    by (auto simp: update_mem_use_def bind_eq_Some_conv Let_def split: if_splits)
  have "arenas t = (arenas h)[unat pid := arena p]" using t by (simp add: arenas_def map_update mem_dealloc_def)
  moreover have "unat pid < length (partitions h)" "partitions h ! unat pid = p"
    using t(2) by (simp_all add: get_par_Some mem_dealloc_def)
  ultimately show "arenas t = arenas h" by (simp add: arenas_def list_update_same_conv)
  show "weak_slots t = weak_slots h" "drop_log t = drop_log h" by (simp_all add: t(1) mem_dealloc_def)
qed

lemma clear_weak_slot_effects:
  assumes "heads h a = Some g" "clear_weak_slot g h = Some t"
  shows "t = h\<lparr>weak_slots := cleared_slot h a (weak_slots h)\<rparr>"
  using assms by (auto simp: clear_weak_slot_def cleared_slot_def Let_def split: if_splits)

lemma dispose_no_drop_effects:
  assumes "dispose_no_drop a h = Some (n, t)"
  shows "arenas t = arenas h" "weak_slots t = cleared_slot h a (weak_slots h)" "drop_log t = drop_log h"
proof -
  from assms obtain g h1 info where g: "heads h a = Some g" "clear_weak_slot g h = Some h1"
    "dispose_mem_only a (partition_id g) (l_size (info_layout info)) h1 = Some (n, t)" "type_info h1 (dtype g) = Some info"
    by (auto simp: dispose_no_drop_def bind_eq_Some_conv)
  note c = clear_weak_slot_effects [OF g(1,2)]
  show "arenas t = arenas h" "weak_slots t = cleared_slot h a (weak_slots h)" "drop_log t = drop_log h"
    using dispose_mem_only_effects [OF g(3)] by (simp_all add: c arenas_def)
qed

lemma dispose_effects:
  assumes "dispose a h = Some (n, t)"
  shows "arenas t = arenas h" "weak_slots t = cleared_slot h a (weak_slots h)"
    "drop_log t = drop_log h @ drop_entry h a"
proof -
  from assms obtain g h1 h2 info where g: "heads h a = Some g" "clear_weak_slot g h = Some h1"
    "type_info h1 (dtype g) = Some info" "call_drop_fn info a h1 = Some h2"
    "dispose_mem_only a (partition_id g) (l_size (info_layout info)) h2 = Some (n, t)"
    by (auto simp: dispose_def bind_eq_Some_conv)
  note c = clear_weak_slot_effects [OF g(1,2)]
  have "needs_drop_fn h a \<longleftrightarrow> ti_drop_fn info" using g(1,3) by (simp add: c needs_drop_fn_def type_info_def)
  then have d: "arenas h2 = arenas h1" "weak_slots h2 = weak_slots h1" "drop_log h2 = drop_log h1 @ drop_entry h a"
    using g(4) by (auto simp: call_drop_fn_def drop_entry_def vec_push_def arenas_def bind_eq_Some_conv split: if_splits)
  show "arenas t = arenas h" "weak_slots t = cleared_slot h a (weak_slots h)"
    "drop_log t = drop_log h @ drop_entry h a"
    using dispose_mem_only_effects [OF g(5)] d by (simp_all add: c arenas_def)
qed

text \<open>A hole goes to the arena of the partition, whichever sweep disposes of the node.\<close>

lemma hole_effect:
  assumes p: "get_par h1 pid = Some p" "arena p = Some r" and a: "in_arena h a"
    and h1: "arenas h1 = arenas h" "weak_slots h1 = cleared_slot h a (weak_slots h)"
  shows "sweep_effect (unat pid) h a (sweep_view holes h) =
    sweep_view (fst (collect_hole holes a (node_size h a) r))
      (put_par pid (p\<lparr>arena := Some (snd (collect_hole holes a (node_size h a) r))\<rparr>) h1)"
proof -
  have "arenas h1 ! unat pid = Some r" using p by (simp add: arenas_def get_par_Some)
  then have "arenas h ! unat pid = Some r" by (simp only: h1(1))
  with a show ?thesis
    by (simp add: sweep_effect_def sweep_view_def Let_def arenas_put_par [OF p(1)] h1)
qed

lemma no_hole_effect:
  assumes a: "\<not> in_arena h a" and h1: "arenas h1 = arenas h" "weak_slots h1 = cleared_slot h a (weak_slots h)"
  shows "sweep_effect i h a (sweep_view holes h) = sweep_view holes h1"
  using assms by (simp add: sweep_effect_def sweep_view_def)

lemma dispose_white_effects:
  assumes "dispose_white pid a (n, holes, h) = Some (n', holes', t)"
  shows "sweep_view holes' t = sweep_effect (unat pid) h a (sweep_view holes h)" "drop_log t = drop_log h"
proof -
  from assms obtain g info m h1 where g: "heads h a = Some g" "type_info h (dtype g) = Some info"
    and d: "dispose_no_drop a h = Some (m, h1)"
    and b: "(if contains_flag g ARENA_ALLOC then
        do { par \<leftarrow> get_par h1 pid; ar \<leftarrow> arena par;
             let hr = collect_hole holes a (l_size (info_layout info)) ar
             in Some (n + m, fst hr, put_par pid (par\<lparr>arena := Some (snd hr)\<rparr>) h1) }
      else Some (n + m, holes, h1)) = Some (n', holes', t)"
    by (auto simp: dispose_white_def bind_eq_Some_conv simp del: Product_Type.split_paired_All cong: if_cong)
  have r: "if contains_flag g ARENA_ALLOC then
        \<exists>par ar. get_par h1 pid = Some par \<and> arena par = Some ar \<and>
          holes' = fst (collect_hole holes a (node_size h a) ar) \<and>
          t = put_par pid (par\<lparr>arena := Some (snd (collect_hole holes a (node_size h a) ar))\<rparr>) h1
      else holes' = holes \<and> t = h1"
    using b by (auto simp: bind_eq_Some_conv Let_def node_size_info [OF g] split: if_splits)
  note e = dispose_no_drop_effects [OF d]
  have ia: "in_arena h a \<longleftrightarrow> contains_flag g ARENA_ALLOC" using g by (simp add: in_arena_def)
  show "sweep_view holes' t = sweep_effect (unat pid) h a (sweep_view holes h)"
  proof (cases "in_arena h a")
    case True
    with r ia obtain par ar where p: "get_par h1 pid = Some par" "arena par = Some ar"
      "holes' = fst (collect_hole holes a (node_size h a) ar)"
      "t = put_par pid (par\<lparr>arena := Some (snd (collect_hole holes a (node_size h a) ar))\<rparr>) h1" by auto
    show ?thesis unfolding p(3,4) by (rule hole_effect [OF p(1,2) True e(1,2), symmetric])
  next
    case False
    with r ia no_hole_effect [OF False e(1,2)] show ?thesis by simp
  qed
  show "drop_log t = drop_log h" using r e(3) by (auto split: if_splits)
qed

lemma dispose_white_correct:
  assumes ok: "disp_ok h" and a: "a \<in> dom (heads h)"
    and ar: "in_arena h a \<Longrightarrow> arena_present h (unat pid)"
  shows "\<exists>holes' h'. dispose_white pid a (n, holes, h) = Some (n + node_size h a, holes', h') \<and>
    freed_list h [a] h' \<and> disp_ok h' \<and> arena_present h' = arena_present h \<and>
    heads h' = (heads h)(a := None)"
proof -
  from a obtain g where g: "heads h a = Some g" by blast
  with ok obtain info where info: "type_info h (dtype g) = Some info" by (auto simp: disp_ok_def)
  from dispose_no_drop_freed [OF ok a] obtain h1 where h1: "dispose_no_drop a h = Some (node_size h a, h1)"
    "freed_list h [a] h1" "disp_ok h1" "arenas h1 = arenas h" "heads h1 = (heads h)(a := None)" by blast
  show ?thesis
  proof (cases "contains_flag g ARENA_ALLOC")
    case False
    with g info h1 arena_present_cong [OF h1(4)] show ?thesis by (simp add: dispose_white_def)
  next
    case True
    with g ar have "arena_present h1 (unat pid)"
      by (simp add: in_arena_def arena_present_cong [OF h1(4)])
    then obtain p r where p: "get_par h1 pid = Some p" "arena p = Some r"
      by (auto simp: arena_present_def arenas_def get_par_Some)
    let ?hr = "collect_hole holes a (l_size (info_layout info)) r"
    let ?h' = "put_par pid (p\<lparr>arena := Some (snd ?hr)\<rparr>) h1"
    have "arena p \<noteq> None" using p(2) by simp
    note pa = put_arena [OF p(1) this, of "snd ?hr"]
    have "dispose_white pid a (n, holes, h) = Some (n + node_size h a, fst ?hr, ?h')"
      using g info h1(1) True p by (simp add: dispose_white_def Let_def)
    moreover have "freed_list h [a] ?h'" by (rule freed_list_trans0 [OF h1(2) pa(1)])
    moreover have "arena_present ?h' = arena_present h"
      using pa(2) arena_present_cong [OF h1(4)] by simp
    ultimately show ?thesis using pa(3) [OF h1(3)] h1(5) by auto
  qed
qed

subsection \<open>One pass\<close>

lemma link_frame_freed:
  assumes "link_frame h h'"
  shows "freed_list h [] h'"
  using link_frame_obs [OF assms] by (simp add: freed_list_def restrict_map_def)

lemma pass_is_freed:
  assumes "freed_list h ys h'" "a \<notin> set ys"
  shows "pass_is h' q a = pass_is h q a" "in_arena h' a = in_arena h a" "node_size h' a = node_size h a"
proof -
  have d: "map_option detach (heads h' a) = map_option detach (heads h a)"
    "node_dtypes h' = node_dtypes h"
    using assms freed_list_heads by (auto simp: freed_list_def)
  show "pass_is h' q a = pass_is h q a" "in_arena h' a = in_arena h a" "node_size h' a = node_size h a"
    using detach_obs2 [OF d] detach_obs [OF d] by auto
qed

lemma fold_effect_freed:
  assumes "freed_list h ys h'" "set xs \<inter> set ys = {}"
  shows "fold (sweep_effect i h') xs v = fold (sweep_effect i h) xs v"
proof (rule fold_cong)
  fix a assume "a \<in> set xs"
  then have "a \<notin> set ys" using assms(2) by auto
  from effects_cong(3) [OF freed_list_heads [OF assms(1) this]] assms(1)
  show "sweep_effect i h' a = sweep_effect i h a" by (simp add: freed_list_def)
qed simp_all

lemma dispose_pass_correct:
  assumes "disp_ok h" "chain (heads h) cur as" "chain (heads h) kh K" "distinct (as @ K)"
    and "\<forall>a\<in>set as. in_arena h a \<longrightarrow> arena_present h (unat pid)"
  shows "\<exists>kh' holes' h'. dispose_pass pid pass cur kh (tail_of K) (n, holes, h) =
      Some (kh', n + sum_sizes (node_size h) (filter (pass_is h pass) as), holes', h') \<and>
    chain (heads h') kh' (K @ filter (\<lambda>a. \<not> pass_is h pass a) as) \<and>
    freed_list h (filter (pass_is h pass) as) h' \<and> disp_ok h' \<and> arena_present h' = arena_present h \<and>
    (\<forall>b. b \<notin> set (as @ K) \<longrightarrow> heads h' b = heads h b) \<and> drop_log h' = drop_log h \<and>
    sweep_view holes' h' = fold (sweep_effect (unat pid) h) (filter (pass_is h pass) as) (sweep_view holes h)"
  using assms
proof (induction as arbitrary: cur kh K n holes h)
  case Nil
  then show ?case by (simp add: dispose_pass.simps freed_list_Nil)
next
  case (Cons a as)
  note ok = Cons.prems(1) and dist = Cons.prems(4)
  from Cons.prems(2) obtain g where g: "cur = Some a" "heads h a = Some g"
    "chain (heads h) (next_ptr g) as" by auto
  with ok obtain info where info: "type_info h (dtype g) = Some info" by (auto simp: disp_ok_def)
  have ps: "pass_is h pass a \<longleftrightarrow> ti_drop_pass info = pass" using g info by (simp add: pass_is_def)
  show ?case
  proof (cases "pass_is h pass a")
    case True
    have "in_arena h a \<Longrightarrow> arena_present h (unat pid)" using Cons.prems(5) by simp
    from dispose_white_correct [OF ok _ this, where n = n and holes = holes] g obtain holes1 h1 where
      d: "dispose_white pid a (n, holes, h) = Some (n + node_size h a, holes1, h1)"
      "freed_list h [a] h1" "disp_ok h1" "arena_present h1 = arena_present h"
      "heads h1 = (heads h)(a := None)" by blast
    have o: "\<forall>b. b \<notin> set [a] \<longrightarrow> heads h1 b = heads h b" using d(5) by simp
    note de = dispose_white_effects [OF d(1)]
    have same: "pass_is h1 pass b = pass_is h pass b" "in_arena h1 b = in_arena h b"
      "node_size h1 b = node_size h b" if "b \<in> set as" for b
      using pass_is_freed [OF d(2), of b] that dist by auto
    have f: "filter (pass_is h1 pass) as = filter (pass_is h pass) as"
      "filter (\<lambda>a. \<not> pass_is h1 pass a) as = filter (\<lambda>a. \<not> pass_is h pass a) as"
      by (auto intro: filter_cong simp: same)
    have sz: "sum_sizes (node_size h1) (filter (pass_is h pass) as) =
        sum_sizes (node_size h) (filter (pass_is h pass) as)"
      by (rule sum_sizes_cong) (simp add: same)
    have fe: "fold (sweep_effect (unat pid) h1) (filter (pass_is h pass) as) v =
        fold (sweep_effect (unat pid) h) (filter (pass_is h pass) as) v" for v
      by (rule fold_effect_freed [OF d(2)]) (use dist in auto)
    have c1: "chain (heads h1) (next_ptr g) as" using chain_outside [OF o, of as] dist g(3) by auto
    have c2: "chain (heads h1) kh K" using chain_outside [OF o, of K] dist Cons.prems(3) by auto
    have "distinct (as @ K)" using dist by auto
    from Cons.IH [OF d(3) c1 c2 this, where n = "n + node_size h a" and holes = holes1] Cons.prems(5) same(2) d(4)
    obtain kh' holes' h' where r:
      "dispose_pass pid pass (next_ptr g) kh (tail_of K) (n + node_size h a, holes1, h1) =
        Some (kh', n + node_size h a + sum_sizes (node_size h) (filter (pass_is h pass) as), holes', h')"
      "chain (heads h') kh' (K @ filter (\<lambda>a. \<not> pass_is h pass a) as)"
      "freed_list h1 (filter (pass_is h pass) as) h'" "disp_ok h'" "arena_present h' = arena_present h"
      "\<forall>b. b \<notin> set (as @ K) \<longrightarrow> heads h' b = heads h1 b" "drop_log h' = drop_log h1"
      "sweep_view holes' h' = fold (sweep_effect (unat pid) h) (filter (pass_is h pass) as) (sweep_view holes1 h1)"
      by (auto simp: f sz fe)
    have "dispose_pass pid pass cur kh (tail_of K) (n, holes, h) =
        Some (kh', n + sum_sizes (node_size h) (filter (pass_is h pass) (a # as)), holes', h')"
      using r(1) g info ps True d(1) by (subst dispose_pass.simps) (simp add: add.assoc)
    moreover have "freed_list h (filter (pass_is h pass) (a # as)) h'"
      using freed_list_append [OF d(2) r(3)] True dist by auto
    moreover have "\<forall>b. b \<notin> set ((a # as) @ K) \<longrightarrow> heads h' b = heads h b" using r(6) o by auto
    ultimately show ?thesis using r(2,4,5,7,8) de True by auto
  next
    case False
    have "a \<notin> set K" using dist by auto
    from move_to_tail [OF Cons.prems(3) g(2) this] obtain kh1 h2 where
      m: "append_tail a (tail_of K) kh (put_head a (detach g) h) = Some (kh1, h2)"
      "chain (heads h2) kh1 (K @ [a])" "link_frame h h2"
      and o: "\<forall>b. b \<notin> set (K @ [a]) \<longrightarrow> heads h2 b = heads h b" by blast
    have fr: "freed_list h [] h2" by (rule link_frame_freed [OF m(3)])
    have same: "pass_is h2 pass = pass_is h pass" "in_arena h2 = in_arena h" "node_size h2 = node_size h"
      using pass_is_freed [OF fr] by (simp_all add: fun_eq_iff)
    note fe = fold_effect_freed [OF fr, where i = "unat pid"]
    have sv: "sweep_view holes h2 = sweep_view holes h" "drop_log h2 = drop_log h"
      by (simp_all add: sweep_view_def arenas_def link_frame_obs [OF m(3)])
    have ap: "arena_present h2 = arena_present h"
      by (rule arena_present_cong) (simp add: arenas_def link_frame_obs [OF m(3)])
    have upd: "update_head detach a h = Some (put_head a (detach g) h)"
      using g(2) by (simp add: update_head_def)
    have c1: "chain (heads h2) (next_ptr g) as" using chain_outside [OF o, of as] dist g(3) by auto
    have "distinct (as @ (K @ [a]))" using dist by auto
    from Cons.IH [OF disp_ok_link_frame [OF ok m(3)] c1 m(2) this, where n = n and holes = holes] Cons.prems(5) same ap
    obtain kh' holes' h' where r:
      "dispose_pass pid pass (next_ptr g) kh1 (tail_of (K @ [a])) (n, holes, h2) =
        Some (kh', n + sum_sizes (node_size h) (filter (pass_is h pass) as), holes', h')"
      "chain (heads h') kh' ((K @ [a]) @ filter (\<lambda>a. \<not> pass_is h pass a) as)"
      "freed_list h2 (filter (pass_is h pass) as) h'" "disp_ok h'" "arena_present h' = arena_present h"
      "\<forall>b. b \<notin> set (as @ K @ [a]) \<longrightarrow> heads h' b = heads h2 b" "drop_log h' = drop_log h2"
      "sweep_view holes' h' = fold (sweep_effect (unat pid) h) (filter (pass_is h pass) as) (sweep_view holes h2)"
      by (auto simp: fe)
    have "dispose_pass pid pass cur kh (tail_of K) (n, holes, h) =
        Some (kh', n + sum_sizes (node_size h) (filter (pass_is h pass) (a # as)), holes', h')"
      using r(1) g info ps False upd m(1) by (subst dispose_pass.simps) simp
    moreover have "freed_list h (filter (pass_is h pass) (a # as)) h'"
      using freed_list_from0 [OF fr r(3)] False by simp
    moreover have "\<forall>b. b \<notin> set ((a # as) @ K) \<longrightarrow> heads h' b = heads h b" using r(6) o by auto
    ultimately show ?thesis using r(2,4,5,7,8) sv False by auto
  qed
qed

subsection \<open>All the passes\<close>

lemma pass_is_unique: "pass_is h q a \<Longrightarrow> pass_is h r a \<Longrightarrow> q = r"
  by (auto simp: pass_is_def)

lemma chain_None: "chain m None xs \<Longrightarrow> xs = []"
  by (cases xs) auto

definition pass_order :: "'p gc_heap \<Rightarrow> u8 list \<Rightarrow> addr list \<Rightarrow> addr list" where
  "pass_order h ps xs = concat (map (\<lambda>q. filter (pass_is h q) xs) ps)"

lemma set_pass_order: "set (pass_order h ps xs) = {a \<in> set xs. \<exists>q\<in>set ps. pass_is h q a}"
  by (auto simp: pass_order_def)

lemma distinct_pass_order:
  "distinct ps \<Longrightarrow> distinct xs \<Longrightarrow> distinct (pass_order h ps xs)"
proof (induction ps)
  case (Cons q ps)
  then have "distinct (pass_order h ps xs)" by simp
  moreover have "set (filter (pass_is h q) xs) \<inter> set (pass_order h ps xs) = {}"
    using Cons.prems(1) pass_is_unique by (auto simp: set_pass_order)
  ultimately show ?case using Cons.prems(2) by (simp add: pass_order_def)
qed (simp add: pass_order_def)

text \<open>The nodes are disposed pass by pass, and in list order within a pass.\<close>

lemma dispose_passes_correct:
  assumes "disp_ok h" "chain (heads h) rem as" "distinct ps"
    and "\<forall>a\<in>set as. in_arena h a \<longrightarrow> arena_present h (unat pid)"
  shows "\<exists>holes' h'. dispose_passes pid ps rem (n, holes, h) =
      Some (n + sum_sizes (node_size h) (pass_order h ps as), holes', h') \<and>
    freed_list h (pass_order h ps as) h' \<and> disp_ok h' \<and> arena_present h' = arena_present h \<and>
    (\<forall>b. b \<notin> set as \<longrightarrow> heads h' b = heads h b) \<and> drop_log h' = drop_log h \<and>
    sweep_view holes' h' = fold (sweep_effect (unat pid) h) (pass_order h ps as) (sweep_view holes h)"
  using assms
proof (induction ps arbitrary: rem as n holes h)
  case Nil
  then show ?case by (simp add: pass_order_def freed_list_Nil)
next
  case (Cons q ps)
  let ?P = "filter (pass_is h q) as" and ?K = "filter (\<lambda>a. \<not> pass_is h q a) as"
  have dist: "distinct as" by (rule chain_distinct [OF Cons.prems(2)])
  from dispose_pass_correct [OF Cons.prems(1,2), of None "[]", where n = n and holes = holes and pid = pid and pass = q]
    dist Cons.prems(4) obtain kh holes1 h1 where
    d: "dispose_pass pid q rem None None (n, holes, h) =
        Some (kh, n + sum_sizes (node_size h) ?P, holes1, h1)"
      "chain (heads h1) kh ?K" "freed_list h ?P h1" "disp_ok h1" "arena_present h1 = arena_present h"
      "\<forall>b. b \<notin> set as \<longrightarrow> heads h1 b = heads h b" "drop_log h1 = drop_log h"
      "sweep_view holes1 h1 = fold (sweep_effect (unat pid) h) ?P (sweep_view holes h)"
    by auto
  have kept: "a \<notin> set ?P" if "a \<in> set ?K" for a using that by simp
  have same: "pass_is h1 r a = pass_is h r a" "in_arena h1 a = in_arena h a"
    "node_size h1 a = node_size h a" if "a \<in> set ?K" for r a
    using pass_is_freed [OF d(3) kept [OF that]] by auto
  have rest: "pass_order h ps as = pass_order h ps ?K"
  proof -
    have "filter (pass_is h r) as = filter (pass_is h r) ?K" if "r \<in> set ps" for r
      using that Cons.prems(3) pass_is_unique by (auto simp: filter_filter intro!: filter_cong)
    then show ?thesis unfolding pass_order_def by (metis (no_types, lifting) map_eq_conv)
  qed
  have split: "pass_order h (q # ps) as = ?P @ pass_order h ps ?K"
    unfolding rest [symmetric] by (simp add: pass_order_def)
  show ?case
  proof (cases "kh = None")
    case True
    with d(2) have "?K = []" by (auto dest: chain_None)
    then have "pass_order h ps ?K = []" by (simp add: pass_order_def)
    with True d show ?thesis unfolding split by simp
  next
    case False
    have ord: "pass_order h1 ps ?K = pass_order h ps ?K"
    proof -
      have "filter (pass_is h1 r) ?K = filter (pass_is h r) ?K" for r
        by (rule filter_cong [OF refl]) (rule same)
      then show ?thesis by (simp only: pass_order_def)
    qed
    have sz: "sum_sizes (node_size h1) (pass_order h ps ?K) = sum_sizes (node_size h) (pass_order h ps ?K)"
      by (rule sum_sizes_cong) (simp add: set_pass_order same)
    have "\<forall>a\<in>set ?K. in_arena h1 a \<longrightarrow> arena_present h1 (unat pid)"
      using Cons.prems(4) same(2) d(5) by auto
    moreover have "distinct ps" using Cons.prems(3) by simp
    ultimately obtain holes' h' where r:
      "dispose_passes pid ps kh (n + sum_sizes (node_size h) ?P, holes1, h1) =
        Some (n + sum_sizes (node_size h) ?P + sum_sizes (node_size h) (pass_order h ps ?K), holes', h')"
      "freed_list h1 (pass_order h ps ?K) h'" "disp_ok h'" "arena_present h' = arena_present h1"
      "\<forall>b. b \<notin> set ?K \<longrightarrow> heads h' b = heads h1 b" "drop_log h' = drop_log h1"
      "sweep_view holes' h' = fold (sweep_effect (unat pid) h1) (pass_order h ps ?K) (sweep_view holes1 h1)"
      using Cons.IH [OF d(4,2), where n = "n + sum_sizes (node_size h) ?P" and holes = holes1]
      unfolding ord sz by blast
    have dj: "set ?P \<inter> set (pass_order h ps ?K) = {}" by (auto simp: set_pass_order)
    have "fold (sweep_effect (unat pid) h1) (pass_order h ps ?K) v = fold (sweep_effect (unat pid) h) (pass_order h ps ?K) v" for v
      by (rule fold_effect_freed [OF d(3)]) (use dj in blast)
    then have sv: "sweep_view holes' h' = fold (sweep_effect (unat pid) h) (pass_order h (q # ps) as) (sweep_view holes h)"
      unfolding split r(7) d(8) by simp
    from freed_list_append [OF d(3) r(2) dj] have "freed_list h (pass_order h (q # ps) as) h'"
      unfolding split .
    moreover have "dispose_passes pid (q # ps) rem (n, holes, h) =
        Some (n + sum_sizes (node_size h) (pass_order h (q # ps) as), holes', h')"
      using d(1) r(1) False unfolding split by (cases kh) (simp_all add: add.assoc)
    moreover have "\<forall>b. b \<notin> set as \<longrightarrow> heads h' b = heads h b" using r(5) d(6) by auto
    ultimately show ?thesis using r(3,4,6) d(5,7) sv by auto
  qed
qed

text \<open>
  What a sweep leaves of the arenas and the weak slots, given the order in which it disposes of
  the nodes.
\<close>

definition sweep_result :: "nat \<Rightarrow> 'p gc_heap \<Rightarrow> addr list \<Rightarrow> gc_arena option list \<times> (u8 \<times> addr option) list" where
  "sweep_result i h ys =
     (case fold (sweep_effect i h) ys (sweep_view [] h) of
        (holes, ars, slots) \<Rightarrow> (ars[i := map_option (\<lambda>r. snd (finish_sweep holes r)) (ars ! i)], slots))"

lemma sweep_resultI:
  assumes v: "sweep_view holes u = fold (sweep_effect i h) ys (sweep_view [] h)" and i: "i < length (partitions u)"
    and t: "arenas t = (arenas u)[i := map_option (\<lambda>r. snd (finish_sweep holes r)) (arena (partitions u ! i))]"
      "weak_slots t = weak_slots u"
  shows "(arenas t, weak_slots t) = sweep_result i h ys"
proof -
  have "arenas u ! i = arena (partitions u ! i)" using i by (simp add: arenas_def)
  then show ?thesis by (simp add: sweep_result_def v [symmetric]) (simp add: sweep_view_def t)
qed

lemma sweep_dispose_correct:
  assumes ok: "disp_ok h" and ch: "chain (heads h) white as" and i: "unat pid < length (partitions h)"
    and ps: "distinct (drop_passes (node_dtypes h))"
      "\<forall>a\<in>set as. \<exists>q\<in>set (drop_passes (node_dtypes h)). pass_is h q a"
    and ar: "\<forall>a\<in>set as. in_arena h a \<longrightarrow> arena_present h (unat pid)"
  shows "\<exists>ys t. sweep_dispose pid white h = Some (sum_sizes (node_size h) ys, t) \<and>
    set ys = set as \<and> distinct ys \<and> freed_list h ys t \<and> disp_ok t \<and>
    arena_present t = arena_present h \<and> (\<forall>b. b \<notin> set as \<longrightarrow> heads t b = heads h b) \<and>
    ys = pass_order h (drop_passes (node_dtypes h)) as \<and> drop_log t = drop_log h \<and>
    (arenas t, weak_slots t) = sweep_result (unat pid) h ys"
proof -
  let ?ys = "pass_order h (drop_passes (node_dtypes h)) as"
  have ys: "set ?ys = set as" "distinct ?ys"
    using ps distinct_pass_order chain_distinct [OF ch] by (auto simp: set_pass_order)
  from dispose_passes_correct [OF ok ch ps(1) ar, of 0 "[]"] obtain holes' h' where
    d: "dispose_passes pid (drop_passes (node_dtypes h)) white (0, [], h) =
        Some (sum_sizes (node_size h) ?ys, holes', h')"
      "freed_list h ?ys h'" "disp_ok h'" "arena_present h' = arena_present h"
      "\<forall>b. b \<notin> set as \<longrightarrow> heads h' b = heads h b" "drop_log h' = drop_log h"
      "sweep_view holes' h' = fold (sweep_effect (unat pid) h) ?ys (sweep_view [] h)" by auto
  have i': "unat pid < length (partitions h')" using d(2) i by (simp add: freed_list_def)
  then obtain p where p: "get_par h' pid = Some p" by (simp add: get_par_Some)
  then have pa': "partitions h' ! unat pid = p" by (simp add: get_par_Some)
  note sr = sweep_resultI [OF d(7) i', unfolded pa']
  show ?thesis
  proof (cases "arena p")
    case None
    then have "arenas h' = (arenas h')[unat pid := map_option (\<lambda>r. snd (finish_sweep holes' r)) (arena p)]"
      using i' pa' by (auto simp: arenas_def intro!: nth_equalityI simp: nth_list_update)
    from sr [OF this refl] None d p ys show ?thesis
      by (intro exI [of _ ?ys] exI [of _ h']) (simp add: sweep_dispose_def)
  next
    case (Some r)
    let ?t = "put_par pid (p\<lparr>arena := Some (snd (finish_sweep holes' r))\<rparr>) h'"
    have "arena p \<noteq> None" using Some by simp
    note pa = put_arena [OF p this, of "snd (finish_sweep holes' r)"]
    have "arenas ?t = (arenas h')[unat pid := map_option (\<lambda>r. snd (finish_sweep holes' r)) (arena p)]"
      using Some by (simp add: arenas_put_par [OF p])
    from sr [OF this] Some d p ys pa(2,3) freed_list_trans0 [OF d(2) pa(1)] show ?thesis
      by (intro exI [of _ ?ys] exI [of _ ?t]) (simp add: sweep_dispose_def)
  qed
qed

end
