(* ===== verification/Gc_Collect.thy ===== *)
theory Gc_Collect
  imports Gc_Dispose
begin

section \<open>A complete collection (src/src/mark_sweep.rs)\<close>

text \<open>
  \<open>heap_inv\<close>, the invariant a collection works under, and the correctness of the three-step
  sweep and of \<open>garbage_collect\<close>: what is freed, what survives, what is returned.
\<close>

subsection \<open>The invariant\<close>

text \<open>The registry knows the drop pass of every type of a live node.\<close>

definition passes_ok :: "'p gc_heap \<Rightarrow> bool" where
  "passes_ok h \<longleftrightarrow>
     distinct (drop_passes (node_dtypes h)) \<and>
     (\<forall>a\<in>dom (heads h). \<exists>q\<in>set (drop_passes (node_dtypes h)). pass_is h q a)"

text \<open>A node allocated from an arena lives in a partition that has one.\<close>

definition arena_nodes_ok :: "'p gc_heap \<Rightarrow> bool" where
  "arena_nodes_ok h \<longleftrightarrow> (\<forall>i a. in_par h i a \<longrightarrow> in_arena h a \<longrightarrow> arena_present h i)"

definition heap_inv :: "'p gc_heap \<Rightarrow> bool" where
  "heap_inv h \<longleftrightarrow> heap_ok h \<and> disp_ok h \<and> passes_ok h \<and> arena_nodes_ok h"

subsection \<open>Removing nodes keeps a heap well-formed\<close>

definition removed :: "'p gc_heap \<Rightarrow> addr set \<Rightarrow> 'p gc_heap \<Rightarrow> bool" where
  "removed h D t \<longleftrightarrow>
     (\<forall>a. map_option detach (heads t a) = (if a \<in> D then None else map_option detach (heads h a))) \<and>
     (\<forall>a. a \<notin> D \<longrightarrow> payloads t a = payloads h a) \<and> node_dtypes t = node_dtypes h \<and>
     length (partitions t) = length (partitions h) \<and>
     (\<forall>j<length (partitions h).
        chain (heads t) (nodes (partitions t ! j)) (filter (\<lambda>a. a \<notin> D) (par_list h j)) \<and>
        glist t j = glist h j)"

lemma removed_obs:
  assumes "removed h D t" "a \<notin> D"
  shows "in_par t j a = in_par h j a" "hcolor t a = hcolor h a" "hroot t a = hroot h a"
    "hlisted t a = hlisted h a" "node_size t a = node_size h a" "in_arena t a = in_arena h a"
    "pass_is t q a = pass_is h q a" "payloads t a = payloads h a"
proof -
  have d: "map_option detach (heads t a) = map_option detach (heads h a)" "node_dtypes t = node_dtypes h"
    using assms by (simp_all add: removed_def)
  show "in_par t j a = in_par h j a" "hcolor t a = hcolor h a" "hroot t a = hroot h a"
    "hlisted t a = hlisted h a" "node_size t a = node_size h a" "in_arena t a = in_arena h a"
    "pass_is t q a = pass_is h q a" "payloads t a = payloads h a"
    using detach_obs [OF d] detach_obs2 [OF d] assms by (simp_all add: removed_def)
qed

lemma removed_gone:
  assumes "removed h D t" "a \<in> D"
  shows "heads t a = None"
proof -
  have "map_option detach (heads t a) = None" using assms by (simp add: removed_def)
  then show ?thesis by simp
qed

lemma removed_par_list:
  "removed h D t \<Longrightarrow> j < length (partitions h) \<Longrightarrow> par_list t j = filter (\<lambda>a. a \<notin> D) (par_list h j)"
  by (rule par_list_chain) (simp add: removed_def)

lemma removed_live:
  assumes "removed h D t" "heads h a = Some g" "a \<notin> D"
  obtains g' where "heads t a = Some g'" "detach g' = detach g"
proof -
  have "map_option detach (heads t a) = map_option detach (heads h a)" using assms by (simp add: removed_def)
  with assms(2) that show thesis by auto
qed

lemma removed_live_rev:
  assumes "removed h D t" "heads t a = Some g'"
  obtains g where "heads h a = Some g" "detach g' = detach g" "a \<notin> D"
proof -
  have "map_option detach (heads t a) = (if a \<in> D then None else map_option detach (heads h a))"
    using assms(1) unfolding removed_def by blast
  with assms(2) that show thesis by (cases "a \<in> D"; cases "heads h a") auto
qed

lemma heap_ok_removed:
  assumes ok: "heap_ok h" and r: "removed h D t"
    and gray: "\<And>j a. j < length (partitions h) \<Longrightarrow> a \<in> set (glist h j) \<Longrightarrow> a \<notin> D"
  shows "heap_ok t"
proof -
  have len: "length (partitions t) = length (partitions h)" using r by (simp add: removed_def)
  have ti: "type_info t = type_info h" using r by (simp add: removed_def type_info_def fun_eq_iff)
  have lists: "par_list t j = filter (\<lambda>a. a \<notin> D) (par_list h j)" if "j < length (partitions h)" for j
    by (rule removed_par_list [OF r that])
  have node: "node_ok t j a" if j: "j < length (partitions h)" and a: "a \<in> set (par_list t j)" for j a
  proof -
    from a lists [OF j] have "a \<in> set (par_list h j)" and D: "a \<notin> D" by auto
    from heap_ok_node [OF ok j this(1)] obtain g info v where g: "heads h a = Some g"
      "partition_id g = of_nat j" "type_info h (dtype g) = Some info" "payloads h a = Some v"
      "color g \<noteq> None" by (metis option.distinct(1))
    from removed_live [OF r g(1) D] obtain g' where g': "heads t a = Some g'" "detach g' = detach g" .
    with g detach_eqD [OF g'(2)] removed_obs(8) [OF r D] show ?thesis
      by (simp add: node_ok_def ti)
  qed
  have gok: "gray_ok t j" if j: "j < length (partitions h)" for j
  proof -
    have gl: "glist t j = glist h j" using r j by (simp add: removed_def)
    have "in_par t j a" if "a \<in> set (glist h j)" for a
      using that gray [OF j that] heap_ok_gray [OF ok j] removed_obs(1) [OF r] by (simp add: gray_ok_def)
    moreover have "a \<in> set (glist h j)" if "in_par t j a" "hlisted t a" for a
    proof -
      have "a \<notin> D" using that(1) removed_gone [OF r] by (auto simp: in_par_def)
      with that heap_ok_gray [OF ok j] removed_obs(1,4) [OF r this] show ?thesis
        by (simp add: gray_ok_def)
    qed
    ultimately show ?thesis by (simp add: gray_ok_def gl)
  qed
  have "dom (heads t) \<subseteq> (\<Union>j<length (partitions h). set (par_list t j))"
  proof
    fix a assume "a \<in> dom (heads t)"
    then obtain g' where "heads t a = Some g'" by blast
    from removed_live_rev [OF r this] obtain g where g: "heads h a = Some g" "a \<notin> D" by blast
    have "unat (partition_id g) < length (partitions h)" "a \<in> set (par_list h (unat (partition_id g)))"
      using heap_ok_in_list [OF ok g(1)] by auto
    with g(2) lists show "a \<in> (\<Union>j<length (partitions h). set (par_list t j))" by auto
  qed
  with node gok ok r lists show ?thesis
    by (simp add: heap_ok_def len removed_def)
qed

lemma passes_ok_removed:
  assumes "passes_ok h" "removed h D t"
  shows "passes_ok t"
proof -
  have nd: "node_dtypes t = node_dtypes h" using assms(2) by (simp add: removed_def)
  have "\<exists>q\<in>set (drop_passes (node_dtypes h)). pass_is t q a" if "a \<in> dom (heads t)" for a
  proof -
    from that obtain g' where "heads t a = Some g'" by blast
    from removed_live_rev [OF assms(2) this] have "a \<in> dom (heads h)" "a \<notin> D" by auto
    with assms(1) removed_obs(7) [OF assms(2)] show ?thesis by (auto simp: passes_ok_def)
  qed
  with assms(1) show ?thesis by (simp add: passes_ok_def nd)
qed

lemma arena_nodes_ok_removed:
  assumes "arena_nodes_ok h" "removed h D t" "arena_present t = arena_present h"
  shows "arena_nodes_ok t"
  unfolding arena_nodes_ok_def
proof (intro allI impI)
  fix i a assume a: "in_par t i a" "in_arena t a"
  then have "a \<notin> D" using removed_gone [OF assms(2)] by (auto simp: in_par_def)
  with a assms removed_obs [OF assms(2) this] show "arena_present t i"
    by (auto simp: arena_nodes_ok_def)
qed

subsection \<open>The three-step sweep\<close>

lemma garbage_collect_eq:
  "get_par h pid = Some p \<Longrightarrow>
     garbage_collect pid h = Option.bind (mark_until_done pid h) (collect_white pid)"
  by (simp add: garbage_collect_def)

definition swept :: "'p gc_heap \<Rightarrow> nat \<Rightarrow> usize \<Rightarrow> 'p gc_heap \<Rightarrow> bool" where
  "swept h i n t \<longleftrightarrow>
     removed h {a. in_par h i a \<and> dead h a} t \<and> heap_inv t \<and>
     n = sum_sizes (node_size h) (filter (dead h) (par_list h i)) \<and>
     total_memory_used t = total_memory_used h - n \<and>
     memory_used (partitions t ! i) = memory_used (partitions h ! i) - n \<and>
     \<not> pmarking t i \<and>
     (\<forall>j<length (partitions h). j \<noteq> i \<longrightarrow>
        memory_used (partitions t ! j) = memory_used (partitions h ! j) \<and> pmarking t j = pmarking h j) \<and>
     scope_stacks t = scope_stacks h \<and> memory_limit t = memory_limit h \<and>
     gc_threshold t = gc_threshold h"

lemma swept_intro:
  assumes inv: "heap_inv h" and i: "i < length (partitions h)" and gl: "glist h i = []"
    and rm: "removed h {a. in_par h i a \<and> dead h a} t" and ok2: "disp_ok t" "arena_present t = arena_present h"
    and n: "n = sum_sizes (node_size h) (filter (dead h) (par_list h i))"
      "total_memory_used t = total_memory_used h - n"
    and mem: "\<And>j. j < length (partitions h) \<Longrightarrow> memory_used (partitions t ! j) =
        memory_used (partitions h ! j) - (if j = i then n else 0)"
    and mk: "\<And>j. j < length (partitions h) \<Longrightarrow> pmarking t j = (j \<noteq> i \<and> pmarking h j)"
    and rest: "scope_stacks t = scope_stacks h" "memory_limit t = memory_limit h"
        "gc_threshold t = gc_threshold h"
  shows "swept h i n t"
proof -
  have ok: "heap_ok h" using inv by (simp add: heap_inv_def)
  have "a \<notin> {a. in_par h i a \<and> dead h a}"
    if "j < length (partitions h)" "a \<in> set (glist h j)" for j a
  proof
    assume "a \<in> {a. in_par h i a \<and> dead h a}"
    moreover have "in_par h j a" using heap_ok_gray [OF ok that(1)] that(2) by (simp add: gray_ok_def)
    ultimately have "j = i" using in_par_unique by blast
    with that gl show False by simp
  qed
  then have "heap_ok t" by (rule heap_ok_removed [OF ok rm])
  with passes_ok_removed [OF _ rm] arena_nodes_ok_removed [OF _ rm ok2(2)] ok2(1) inv
  have "heap_inv t" by (simp add: heap_inv_def)
  with rm n mem mk rest i show ?thesis by (simp add: swept_def)
qed

text \<open>
  The fields \<open>swept\<close> does not speak of; with \<open>swept\<close> they fix the whole heap but the drop log.  The
  dead nodes are disposed of drop pass by drop pass and in list order within a pass, which decides
  what is left of the arena; of a partition without nodes the arena is left alone.
\<close>

definition sweep_order :: "'p gc_heap \<Rightarrow> nat \<Rightarrow> addr list" where
  "sweep_order h i = pass_order h (drop_passes (node_dtypes h)) (filter (dead h) (par_list h i))"

definition swept_rest :: "'p gc_heap \<Rightarrow> nat \<Rightarrow> usize \<Rightarrow> 'p gc_heap \<Rightarrow> bool" where
  "swept_rest h i n t \<longleftrightarrow>
     payloads t = payloads h |` (- {a. in_par h i a \<and> dead h a}) \<and> opaque t = opaque h \<and>
     (\<forall>j<length (partitions h). drop_arena (partitions t ! j) = drop_arena ((partitions h ! j)
        \<lparr>nodes := nodes (partitions t ! j), marking := (j \<noteq> i \<and> pmarking h j),
         memory_used := memory_used (partitions h ! j) - (if j = i then n else 0)\<rparr>)) \<and>
     (arenas t, weak_slots t) =
       (if par_list h i = [] then (arenas h, weak_slots h) else sweep_result i h (sweep_order h i))"

lemma swept_rest_empty:
  assumes e: "par_list h i = []" "{a. in_par h i a \<and> dead h a} = {}" and i: "i < length (partitions h)"
    and t: "payloads t = payloads h" "opaque t = opaque h" "weak_slots t = weak_slots h"
      "partitions t = (partitions h)[i := (partitions h ! i)\<lparr>marking := False, nodes := s\<rparr>]"
  shows "swept_rest h i 0 t"
  using i by (auto simp: swept_rest_def e t restrict_map_def arenas_def map_field_update [where f = arena]
      nth_list_update drop_arena_def)

text \<open>
  The state between unlinking the dead nodes of partition \<open>i\<close> and freeing them: the white list
  \<open>wh\<close> holds the dead nodes, the partition's list \<open>s\<close> the others; payloads of dead nodes may
  already have been dropped.
\<close>

definition unlinked_state :: "'p gc_heap \<Rightarrow> nat \<Rightarrow> addr option \<Rightarrow> addr option \<Rightarrow> 'p gc_heap \<Rightarrow> bool" where
  "unlinked_state h i wh s t \<longleftrightarrow>
     (\<forall>a. map_option detach (heads t a) = map_option detach (heads h a)) \<and>
     (\<forall>b. b \<notin> set (par_list h i) \<longrightarrow> heads t b = heads h b) \<and>
     chain (heads t) wh (filter (dead h) (par_list h i)) \<and>
     chain (heads t) s (filter (\<lambda>a. \<not> dead h a) (par_list h i)) \<and>
     (\<forall>a. a \<notin> set (filter (dead h) (par_list h i)) \<longrightarrow> payloads t a = payloads h a) \<and>
     partitions t = (partitions h)[i := (partitions h ! i)\<lparr>marking := False, nodes := s\<rparr>] \<and>
     node_dtypes t = node_dtypes h \<and> weak_slots t = weak_slots h \<and> disp_ok t \<and>
     total_memory_used t = total_memory_used h \<and> scope_stacks t = scope_stacks h \<and>
     memory_limit t = memory_limit h \<and> gc_threshold t = gc_threshold h \<and> opaque t = opaque h"

lemma unlinked_state_intro:
  assumes inv: "heap_inv h" and un: "unlinked h i wh t"
  shows "unlinked_state h i wh (nodes (partitions t ! i)) t"
proof -
  define s where "s = nodes (partitions t ! i)"
  have t: "t = h\<lparr>heads := heads t, partitions := (partitions h)[i := (partitions h ! i)\<lparr>marking := False, nodes := s\<rparr>]\<rparr>"
    and d: "map_option detach (heads t a) = map_option detach (heads h a)"
    and c: "\<forall>b. b \<notin> set (par_list h i) \<longrightarrow> heads t b = heads h b"
      "chain (heads t) wh (filter (dead h) (par_list h i))"
      "chain (heads t) s (filter (\<lambda>a. \<not> dead h a) (par_list h i))" for a
    using un unfolding unlinked_def s_def by blast+
  have f: "node_dtypes t = node_dtypes h" "payloads t = payloads h" "weak_slots t = weak_slots h"
    "total_memory_used t = total_memory_used h" "scope_stacks t = scope_stacks h"
    "memory_limit t = memory_limit h" "gc_threshold t = gc_threshold h" "opaque t = opaque h"
    by (subst t, simp)+
  have p: "partitions t = (partitions h)[i := (partitions h ! i)\<lparr>marking := False, nodes := s\<rparr>]"
    by (subst t) simp
  have "disp_ok t"
  proof (rule disp_ok_cong)
    show dok: "disp_ok h" using inv by (simp add: heap_inv_def)
    then have w: "weak_ok h" by (simp add: disp_ok_def)
    have "map_option weak_id (heads t a) = map_option weak_id (heads h a)" for a
      using d [of a] by (cases "heads h a"; cases "heads t a") (auto dest: detach_eqD)
    then show "weak_ok t" by (rule weak_ok_heads [OF w f(3)])
    show "\<exists>g. heads h a = Some g \<and> detach g' = detach g" if "heads t a = Some g'" for a g'
      using d [of a] that by (cases "heads h a") auto
  qed (simp_all add: f p)
  with c d f p show ?thesis unfolding unlinked_state_def s_def by simp
qed

lemma unlinked_state_arena: "unlinked_state h i wh s t \<Longrightarrow> arena_present t = arena_present h"
  by (rule arena_present_cong) (simp add: unlinked_state_def arenas_def map_field_update [where f = arena])

lemma unlinked_state_none_dead:
  assumes inv: "heap_inv h" and i: "i < length (partitions h)" and gl: "glist h i = []"
    and u: "unlinked_state h i wh s t" and none: "filter (dead h) (par_list h i) = []"
  shows "swept h i 0 t"
proof (rule swept_intro [OF inv i gl])
  have ok: "heap_ok h" using inv by (simp add: heap_inv_def)
  let ?xs = "par_list h i"
  have De: "{a. in_par h i a \<and> dead h a} = {}"
    using none heap_ok_member_iff [OF ok i] by (auto simp: filter_empty_conv)
  have p: "partitions t = (partitions h)[i := (partitions h ! i)\<lparr>marking := False, nodes := s\<rparr>]"
    using u by (simp add: unlinked_state_def)
  show "removed h {a. in_par h i a \<and> dead h a} t"
    unfolding removed_def De
  proof (intro conjI allI impI)
    show "map_option detach (heads t a) = (if a \<in> {} then None else map_option detach (heads h a))" for a
      using u by (simp add: unlinked_state_def)
    show "payloads t a = payloads h a" for a using u none by (simp add: unlinked_state_def)
    fix j assume j: "j < length (partitions h)"
    show "glist t j = glist h j" by (simp add: p field_list_update [where f = gray_list])
    show "chain (heads t) (nodes (partitions t ! j)) (filter (\<lambda>a. a \<notin> {}) (par_list h j))"
    proof (cases "j = i")
      case True
      have "filter (\<lambda>a. \<not> dead h a) ?xs = ?xs" using none by (auto simp: filter_empty_conv intro!: filter_True)
      with u True i show ?thesis by (simp add: unlinked_state_def)
    next
      case False
      have "chain (heads t) (nodes (partitions h ! j)) (par_list h j)"
      proof -
        have "\<forall>b. b \<notin> set ?xs \<longrightarrow> heads t b = heads h b" using u by (simp add: unlinked_state_def)
        from chain_outside [OF this, of "par_list h j"] show ?thesis
          using heap_ok_chain [OF ok j] heap_ok_member_iff [OF ok j] heap_ok_member_iff [OF ok i]
            in_par_unique [of h j _ i] False by blast
      qed
      with False show ?thesis by (simp add: p)
    qed
  qed (use u in \<open>simp_all add: unlinked_state_def\<close>)
  show "arena_present t = arena_present h" by (rule unlinked_state_arena [OF u])
qed (use u i none in \<open>simp_all add: unlinked_state_def nth_list_update\<close>)

lemma unlinked_state_dropped:
  assumes u: "unlinked_state h i wh s t" and pl: "payloads t = payloads h"
    and i: "i < length (partitions h)" and ok: "heap_ok h"
  shows "\<exists>t'. sweep_drop_payloads wh t = Some t' \<and> unlinked_state h i wh s t' \<and>
    drop_log t' = drop_log t @ filter (needs_drop_fn h) (filter (dead h) (par_list h i))"
proof -
  let ?white = "filter (dead h) (par_list h i)"
  have c: "chain (heads t) wh ?white" and n: "node_dtypes t = node_dtypes h"
    and d: "map_option detach (heads t a) = map_option detach (heads h a)" for a
    using u by (simp_all add: unlinked_state_def)
  have dr: "droppable t a" if a: "a \<in> set ?white" for a
  proof -
    from a have "a \<in> set (par_list h i)" by simp
    from heap_ok_node [OF ok i this] obtain g info v where "heads h a = Some g"
      "type_info h (dtype g) = Some info" "payloads h a = Some v" by metis
    then show ?thesis using detach_obs2(3) [OF d n, of a] pl by auto
  qed
  from sweep_drop_payloads_correct [OF c dr] obtain t2 where
    t2: "sweep_drop_payloads wh t = Some t2"
    "t2 = t\<lparr>payloads := (\<lambda>a. if a \<in> set ?white \<and> needs_drop_fn t a then None else payloads t a),
       drop_log := drop_log t @ filter (needs_drop_fn t) ?white\<rparr>"
    by blast
  have f: "heads t2 = heads t" "partitions t2 = partitions t" "node_dtypes t2 = node_dtypes t"
    "weak_slots t2 = weak_slots t" "total_memory_used t2 = total_memory_used t"
    "scope_stacks t2 = scope_stacks t" "memory_limit t2 = memory_limit t"
    "gc_threshold t2 = gc_threshold t" "opaque t2 = opaque t"
    "\<And>a. a \<notin> set ?white \<Longrightarrow> payloads t2 a = payloads t a"
    unfolding t2(2) by (simp_all del: set_filter)
  have "disp_ok t2"
  proof (rule disp_ok_cong)
    show "disp_ok t" using u by (simp add: unlinked_state_def)
    then have "weak_ok t" by (simp add: disp_ok_def)
    then show "weak_ok t2" by (rule weak_ok_heads) (simp_all add: f)
  qed (simp_all add: f)
  with u have "unlinked_state h i wh s t2"
    unfolding unlinked_state_def f by (simp add: f(10))
  moreover have "needs_drop_fn t = needs_drop_fn h" by (rule ext) (rule needs_drop_fn_cong [OF d n])
  then have "drop_log t2 = drop_log t @ filter (needs_drop_fn h) ?white" unfolding t2(2) by simp
  ultimately show ?thesis using t2(1) by blast
qed

lemma freed_removed:
  assumes ok: "heap_ok h" and i: "i < length (partitions h)" and u: "unlinked_state h i wh s t1"
    and ys: "set ys = set (filter (dead h) (par_list h i))" and fl: "freed_list t1 ys t"
    and o: "\<forall>b. b \<notin> set ys \<longrightarrow> heads t b = heads t1 b"
    and nd: "\<And>j. j < length (partitions h) \<Longrightarrow> nodes (partitions t ! j) = nodes (partitions t1 ! j)"
      "\<And>j. j < length (partitions h) \<Longrightarrow> glist t j = glist t1 j"
  shows "removed h {a. in_par h i a \<and> dead h a} t"
proof -
  let ?xs = "par_list h i"
  let ?white = "filter (dead h) ?xs"
  have xs: "a \<in> set ?xs \<longleftrightarrow> in_par h i a" for a by (rule heap_ok_member_iff [OF ok i])
  then have D: "{a. in_par h i a \<and> dead h a} = set ?white" by auto
  have p: "partitions t1 = (partitions h)[i := (partitions h ! i)\<lparr>marking := False, nodes := s\<rparr>]"
    and d1: "map_option detach (heads t1 a) = map_option detach (heads h a)"
    and o1: "\<forall>b. b \<notin> set ?xs \<longrightarrow> heads t1 b = heads h b"
    and c1: "chain (heads t1) s (filter (\<lambda>a. \<not> dead h a) ?xs)" for a
    using u by (simp_all add: unlinked_state_def)
  show ?thesis
    unfolding removed_def D
  proof (intro conjI allI impI)
    show "map_option detach (heads t a) =
        (if a \<in> set ?white then None else map_option detach (heads h a))" for a
      using fl unfolding freed_list_def ys by (simp only: d1)
    show "payloads t a = payloads h a" if "a \<notin> set ?white" for a
    proof -
      have "payloads t = payloads t1 |` (- set ?white)" using fl unfolding freed_list_def ys by blast
      then have "payloads t a = payloads t1 a" using that by (simp add: restrict_map_def)
      with u that show ?thesis unfolding unlinked_state_def by simp
    qed
    show "node_dtypes t = node_dtypes h" using fl u by (simp add: freed_list_def unlinked_state_def)
    show "length (partitions t) = length (partitions h)" using fl p by (simp add: freed_list_def)
    fix j assume j: "j < length (partitions h)"
    show "glist t j = glist h j"
      using nd(2) [OF j] by (simp add: p field_list_update [where f = gray_list])
    show "chain (heads t) (nodes (partitions t ! j)) (filter (\<lambda>a. a \<notin> set ?white) (par_list h j))"
    proof (cases "j = i")
      case True
      have "filter (\<lambda>a. a \<notin> set ?white) ?xs = filter (\<lambda>a. \<not> dead h a) ?xs"
        by (rule filter_cong) auto
      moreover have "chain (heads t) s (filter (\<lambda>a. \<not> dead h a) ?xs)"
        using chain_outside [OF o, of "filter (\<lambda>a. \<not> dead h a) ?xs"] c1 ys by auto
      ultimately show ?thesis using True nd(1) [OF j] i by (simp add: p)
    next
      case False
      have jx: "a \<notin> set ?xs" if "a \<in> set (par_list h j)" for a
        using that heap_ok_member_iff [OF ok j] xs in_par_unique [of h j a i] False by auto
      then have fe: "filter (\<lambda>a. a \<notin> set ?white) (par_list h j) = par_list h j"
        by (intro filter_True) auto
      have "chain (heads t) (nodes (partitions h ! j)) (par_list h j)"
        using chain_outside [OF o, of "par_list h j"] chain_outside [OF o1, of "par_list h j"]
          jx heap_ok_chain [OF ok j] ys by auto
      with False show ?thesis using nd(1) [OF j] by (simp add: p fe del: set_filter)
    qed
  qed
qed

lemma sweep_dispose_swept:
  assumes inv: "heap_inv h" and i: "unat pid < length (partitions h)" and gl: "glist h (unat pid) = []"
    and u: "unlinked_state h (unat pid) wh s t1"
  shows "\<exists>n t. sweep_dispose pid wh t1 = Some (n, t) \<and> swept h (unat pid) n t \<and>
    (par_list h (unat pid) \<noteq> [] \<longrightarrow> swept_rest h (unat pid) n t) \<and> drop_log t = drop_log t1"
proof -
  let ?i = "unat pid"
  let ?xs = "par_list h ?i"
  let ?white = "filter (dead h) ?xs"
  have ok: "heap_ok h" and pok: "passes_ok h" and aok: "arena_nodes_ok h"
    using inv by (simp_all add: heap_inv_def)
  have xs: "a \<in> set ?xs \<longleftrightarrow> in_par h ?i a" for a by (rule heap_ok_member_iff [OF ok i])
  have p: "partitions t1 = (partitions h)[?i := (partitions h ! ?i)\<lparr>marking := False, nodes := s\<rparr>]"
    and d1: "map_option detach (heads t1 a) = map_option detach (heads h a)"
    and n1: "node_dtypes t1 = node_dtypes h" and dok: "disp_ok t1"
    and c1: "chain (heads t1) wh ?white" for a
    using u by (simp_all add: unlinked_state_def)
  note ob = detach_obs [OF d1 n1] detach_obs2(1,2) [OF d1 n1]
  note ap = unlinked_state_arena [OF u]
  have ps: "distinct (drop_passes (node_dtypes t1))"
    "\<forall>a\<in>set ?white. \<exists>q\<in>set (drop_passes (node_dtypes t1)). pass_is t1 q a"
    using pok dom_in_list [OF ok i] by (auto simp: passes_ok_def n1 ob)
  have ar: "\<forall>a\<in>set ?white. in_arena t1 a \<longrightarrow> arena_present t1 ?i"
    using aok xs by (auto simp: arena_nodes_ok_def ob ap)
  have i1: "unat pid < length (partitions t1)" using i by (simp add: p)
  from sweep_dispose_correct [OF dok c1 i1 ps ar] obtain ys t where
    d: "sweep_dispose pid wh t1 = Some (sum_sizes (node_size t1) ys, t)" "set ys = set ?white"
    "distinct ys" "freed_list t1 ys t" "disp_ok t" "arena_present t = arena_present t1"
    "\<forall>b. b \<notin> set ?white \<longrightarrow> heads t b = heads t1 b"
    "ys = pass_order t1 (drop_passes (node_dtypes t1)) ?white" "drop_log t = drop_log t1"
    "(arenas t, weak_slots t) = sweep_result ?i t1 ys" by blast
  let ?n = "sum_sizes (node_size t1) ys"
  have "node_size t1 = node_size h" by (simp add: fun_eq_iff ob)
  then have n: "?n = sum_sizes (node_size h) ?white"
    using d(2,3) heap_ok_distinct [OF ok i] by (simp add: sum_sizes_distinct)
  have par: "drop_arena (partitions t ! j) = drop_arena ((partitions t1 ! j)\<lparr>memory_used :=
      memory_used (partitions h ! j) - (if j = ?i then ?n else 0)\<rparr>)"
    if j: "j < length (partitions h)" for j
  proof -
    have "filter (in_par t1 j) ys = (if j = ?i then ys else [])"
      using d(2) xs in_par_unique [of h j _ ?i] by (auto simp: ob filter_empty_conv intro!: filter_True)
    moreover have "memory_used (partitions t1 ! j) = memory_used (partitions h ! j)"
      by (simp add: p field_list_update [where f = memory_used])
    ultimately show ?thesis using d(4) j by (simp add: freed_list_def p)
  qed
  have fld: "nodes (partitions t ! j) = nodes (partitions t1 ! j)"
    "glist t j = glist t1 j" "pmarking t j = pmarking t1 j"
    "memory_used (partitions t ! j) = memory_used (partitions h ! j) - (if j = ?i then ?n else 0)"
    if "j < length (partitions h)" for j
    using arg_cong [OF par [OF that], of nodes] arg_cong [OF par [OF that], of gray_list]
      arg_cong [OF par [OF that], of marking] arg_cong [OF par [OF that], of memory_used]
    by (simp_all add: drop_arena_def)
  have "swept h ?i ?n t"
  proof (rule swept_intro [OF inv i gl])
    show "removed h {a. in_par h ?i a \<and> dead h a} t"
      by (rule freed_removed [OF ok i u d(2,4)]) (use d(2,7) fld in auto)
    show "disp_ok t" by (rule d(5))
    show "arena_present t = arena_present h" using d(6) ap by simp
    show "?n = sum_sizes (node_size h) ?white" by (rule n)
    show "total_memory_used t = total_memory_used h - ?n"
      using d(4) u by (simp add: freed_list_def unlinked_state_def)
    show "memory_used (partitions t ! j) = memory_used (partitions h ! j) - (if j = ?i then ?n else 0)"
      if "j < length (partitions h)" for j by (rule fld(4) [OF that])
    show "pmarking t j = (j \<noteq> ?i \<and> pmarking h j)" if "j < length (partitions h)" for j
      using fld(3) [OF that] that i by (simp add: p nth_list_update)
  qed (use d(4) u in \<open>simp_all add: freed_list_def unlinked_state_def\<close>)
  moreover have "swept_rest h ?i ?n t" if ne: "?xs \<noteq> []"
    unfolding swept_rest_def
  proof (intro conjI allI impI)
    have D: "{a. in_par h ?i a \<and> dead h a} = set ?white" using xs by auto
    have "payloads t = payloads t1 |` (- set ?white)" using d(4) unfolding freed_list_def d(2) by blast
    moreover have "payloads t1 a = payloads h a" if "a \<notin> set ?white" for a
      using u that unfolding unlinked_state_def by simp
    ultimately show "payloads t = payloads h |` (- {a. in_par h ?i a \<and> dead h a})"
      unfolding D by (auto simp: restrict_map_def fun_eq_iff simp del: set_filter)
    show "opaque t = opaque h" using d(4) u by (simp add: freed_list_def unlinked_state_def)
    show "drop_arena (partitions t ! j) = drop_arena ((partitions h ! j)
        \<lparr>nodes := nodes (partitions t ! j), marking := (j \<noteq> ?i \<and> pmarking h j),
         memory_used := memory_used (partitions h ! j) - (if j = ?i then ?n else 0)\<rparr>)"
      if "j < length (partitions h)" for j
      using par [OF that] fld(1) [OF that] that i by (simp add: p nth_list_update drop_arena_def)
    have "sweep_effect ?i t1 = sweep_effect ?i h" by (rule ext) (rule effects_cong(3) [OF d1 n1])
    moreover have "arenas t1 = arenas h" by (simp add: arenas_def p map_field_update [where f = arena])
    then have "sweep_view [] t1 = sweep_view [] h" using u by (simp add: sweep_view_def unlinked_state_def)
    moreover have "pass_is t1 = pass_is h" by (simp add: fun_eq_iff ob)
    then have "ys = sweep_order h ?i" by (simp add: d(8) sweep_order_def pass_order_def n1)
    ultimately have "sweep_result ?i t1 ys = sweep_result ?i h (sweep_order h ?i)" by (simp add: sweep_result_def)
    with d(10) ne show "(arenas t, weak_slots t) =
       (if ?xs = [] then (arenas h, weak_slots h) else sweep_result ?i h (sweep_order h ?i))" by simp
  qed
  ultimately show ?thesis using d(1,9) by blast
qed

lemma collect_white_correct:
  assumes inv: "heap_inv h" and i: "unat pid < length (partitions h)"
    and m: "pmarking h (unat pid)" "glist h (unat pid) = []"
  shows "\<exists>n t. collect_white pid h = Some (n, t) \<and> swept h (unat pid) n t \<and> swept_rest h (unat pid) n t \<and>
    drop_log t = drop_log h @ filter (needs_drop_fn h) (filter (dead h) (par_list h (unat pid)))"
proof -
  let ?i = "unat pid"
  have ok: "heap_ok h" using inv by (simp add: heap_inv_def)
  from sweep_unlink_correct [OF ok i m] obtain w t1 where
    u: "sweep_unlink pid h = Some (w, t1)"
    and w: "case w of None \<Rightarrow> par_list h ?i = [] \<and> unlinked h ?i None t1 | Some wh \<Rightarrow> par_list h ?i \<noteq> [] \<and> unlinked h ?i wh t1"
    by blast
  show ?thesis
  proof (cases w)
    case None
    with w have un: "unlinked h ?i None t1" and e: "par_list h ?i = []" by simp_all
    have "swept h ?i 0 t1"
      by (rule unlinked_state_none_dead [OF inv i m(2) unlinked_state_intro [OF inv un]]) (simp add: e)
    moreover have "swept_rest h ?i 0 t1" "drop_log t1 = drop_log h"
    proof -
      have "{a. in_par h ?i a \<and> dead h a} = {}" using heap_ok_member_iff [OF ok i] e by auto
      moreover have t1: "t1 = h\<lparr>heads := heads t1, partitions := (partitions h)[?i := (partitions h ! ?i)
         \<lparr>marking := False, nodes := nodes (partitions t1 ! ?i)\<rparr>]\<rparr>" using un unfolding unlinked_def by blast
      have "payloads t1 = payloads h" "opaque t1 = opaque h" "weak_slots t1 = weak_slots h"
        "partitions t1 = (partitions h)[?i := (partitions h ! ?i)
         \<lparr>marking := False, nodes := nodes (partitions t1 ! ?i)\<rparr>]"
        by (subst t1, simp)+
      ultimately show "swept_rest h ?i 0 t1" by (rule swept_rest_empty [OF e _ i])
      show "drop_log t1 = drop_log h" by (subst t1) simp
    qed
    ultimately show ?thesis using u None e by (simp add: collect_white_def)
  next
    case (Some wh)
    with w have un: "unlinked h ?i wh t1" and ne: "par_list h ?i \<noteq> []" by simp_all
    note us = unlinked_state_intro [OF inv un]
    have pt: "payloads t1 = payloads h" and dl: "drop_log t1 = drop_log h"
    proof -
      obtain hs ps where "t1 = h\<lparr>heads := hs, partitions := ps\<rparr>" using un unfolding unlinked_def by blast
      then show "payloads t1 = payloads h" "drop_log t1 = drop_log h" by simp_all
    qed
    from unlinked_state_dropped [OF us pt i ok] obtain t2 where t2: "sweep_drop_payloads wh t1 = Some t2"
      "unlinked_state h ?i wh (nodes (partitions t1 ! ?i)) t2"
      "drop_log t2 = drop_log t1 @ filter (needs_drop_fn h) (filter (dead h) (par_list h ?i))" by blast
    from sweep_dispose_swept [OF inv i m(2) t2(2)] ne obtain n t where
      "sweep_dispose pid wh t2 = Some (n, t)" "swept h ?i n t" "swept_rest h ?i n t" "drop_log t = drop_log t2" by blast
    with u Some t2(1,3) dl show ?thesis by (simp add: collect_white_def)
  qed
qed

end
