(* ===== verification/Gc_Remove.thy ===== *)
theory Gc_Remove
  imports Gc_Collect
begin

section \<open>Unlinking and freeing in one walk (src/src/node\_link.rs, src/src/mark\_sweep.rs)\<close>

text \<open>
  The contract between \<open>filter_remove_with\<close> and the closures that free nodes is the locale
  \<open>remover\<close>; the walk is proved correct against it once.  \<open>dispose_all_nodes\<close> and the
  one-phase \<open>sweep\<close> provide it.
\<close>

subsection \<open>Cutting a node out of a chain\<close>

lemma chain_cut:
  assumes "chain m p (K @ a # as)" "K \<noteq> []" "m a = Some g" "m (last K) = Some gl" "distinct (K @ a # as)"
  shows "chain (m(last K \<mapsto> gl\<lparr>next_ptr := next_ptr g\<rparr>)) p (K @ as)"
  using assms
proof (induction K arbitrary: p)
  case Nil
  then show ?case by simp
next
  case (Cons k K)
  from Cons.prems(1) obtain gk where gk: "p = Some k" "m k = Some gk" "chain m (next_ptr gk) (K @ a # as)" by auto
  show ?case
  proof (cases "K = []")
    case True
    with gk Cons.prems have "chain m (next_ptr g) as" "k \<notin> set as" by auto
    then have "chain (m(k \<mapsto> gl\<lparr>next_ptr := next_ptr g\<rparr>)) (next_ptr g) as"
      by (subst chain_cong [where m = m]) auto
    with gk True show ?thesis by (simp add: fun_upd_def)
  next
    case False
    then have ne: "k \<noteq> last K" using Cons.prems(5) by auto
    have "chain (m(last K \<mapsto> gl\<lparr>next_ptr := next_ptr g\<rparr>)) (next_ptr gk) (K @ as)"
      by (rule Cons.IH) (use Cons.prems False gk in auto)
    with gk False ne show ?thesis by (simp add: fun_upd_def)
  qed
qed

lemma unlink_after_correct:
  assumes c: "chain (heads h) link (K @ a # as)" and g: "heads h a = Some g"
  shows "\<exists>link' h'. unlink_after (tail_of K) (next_ptr g) link h = Some (link', h') \<and>
    chain (heads h') link' (K @ as) \<and> link_frame h h' \<and> heads h' a = Some g \<and>
    (\<forall>b. b \<notin> set K \<longrightarrow> heads h' b = heads h b)"
proof (cases "K = []")
  case True
  with c g show ?thesis by (auto simp: unlink_after_def)
next
  case False
  then have l: "last K \<in> set K" by simp
  have d: "distinct (K @ a # as)" by (rule chain_distinct [OF c])
  from chain_dom [OF c] l obtain gl where gl: "heads h (last K) = Some gl" by auto
  let ?h = "put_head (last K) (gl\<lparr>next_ptr := next_ptr g\<rparr>) h"
  have "unlink_after (tail_of K) (next_ptr g) link h = Some (link, ?h)"
    using False gl by (simp add: unlink_after_def tail_of_def update_head_def)
  moreover have "chain (heads ?h) link (K @ as)" using chain_cut [OF c False g gl d] by simp
  moreover have "link_frame h ?h" using gl by (simp add: link_frame_def put_head_def detach_def)
  moreover have "last K \<noteq> a" using l d by auto
  ultimately show ?thesis using l g by auto
qed

subsection \<open>The contract of a removing closure\<close>

text \<open>
  \<open>rem\<close> frees a node it is allowed to free, adds its size to the count in its state and
  leaves all other nodes; being allowed does not depend on other nodes.  Its other effects are what
  \<open>obs\<close> observes of its state and of the heap: \<open>eff\<close> says how freeing a node changes the
  observation, from the head of that node alone.
\<close>

locale remover =
  fixes rem :: "addr \<Rightarrow> 's \<Rightarrow> 'p gc_heap \<Rightarrow> ('s \<times> 'p gc_heap) option"
    and can :: "'p gc_heap \<Rightarrow> addr \<Rightarrow> bool"
    and cnt :: "'s \<Rightarrow> usize"
    and obs :: "'s \<Rightarrow> 'p gc_heap \<Rightarrow> 'o"
    and eff :: "'p gc_heap \<Rightarrow> addr \<Rightarrow> 'o \<Rightarrow> 'o"
  assumes rem_frees: "disp_ok h \<Longrightarrow> can h a \<Longrightarrow>
      \<exists>s' h'. rem a s h = Some (s', h') \<and> cnt s' = cnt s + node_size h a \<and> freed_list h [a] h' \<and>
        disp_ok h' \<and> arena_present h' = arena_present h \<and> heads h' = (heads h)(a := None) \<and>
        obs s' h' = eff h a (obs s h)"
    and obs_link: "link_frame h h' \<Longrightarrow> obs s h' = obs s h"
    and eff_cong: "map_option detach (heads h' a) = map_option detach (heads h a) \<Longrightarrow>
      node_dtypes h' = node_dtypes h \<Longrightarrow> eff h' a = eff h a"
    and can_keep: "can h a \<Longrightarrow> freed_list h xs h' \<Longrightarrow> a \<notin> set xs \<Longrightarrow>
      arena_present h' = arena_present h \<Longrightarrow> can h' a"
begin

lemma fold_eff_freed:
  assumes "freed_list h ys h'" "set xs \<inter> set ys = {}"
  shows "fold (eff h') xs v = fold (eff h) xs v"
proof (rule fold_cong)
  fix a assume "a \<in> set xs"
  then have "a \<notin> set ys" using assms(2) by auto
  from eff_cong [OF freed_list_heads [OF assms(1) this]] assms(1) show "eff h' a = eff h a" by (simp add: freed_list_def)
qed simp_all

lemma filter_remove_step:
  assumes ok: "disp_ok h" and c: "chain (heads h) link (K @ a # as)" and g: "heads h a = Some g" and a: "can h a"
  shows "\<exists>link' h1 s' h'. unlink_after (tail_of K) (next_ptr g) link h = Some (link', h1) \<and>
    rem a s h1 = Some (s', h') \<and> cnt s' = cnt s + node_size h a \<and> chain (heads h') link' (K @ as) \<and>
    freed_list h [a] h' \<and> disp_ok h' \<and> arena_present h' = arena_present h \<and>
    (\<forall>b. b \<notin> set K \<union> {a} \<longrightarrow> heads h' b = heads h b) \<and> obs s' h' = eff h a (obs s h)"
proof -
  from unlink_after_correct [OF c g] obtain link' h1 where
    u: "unlink_after (tail_of K) (next_ptr g) link h = Some (link', h1)" "chain (heads h1) link' (K @ as)"
      "link_frame h h1" "\<forall>b. b \<notin> set K \<longrightarrow> heads h1 b = heads h b" by blast
  have f1: "freed_list h [] h1" by (rule link_frame_freed [OF u(3)])
  have ap: "arena_present h1 = arena_present h"
    by (rule arena_present_cong) (simp add: arenas_def link_frame_obs [OF u(3)])
  have "can h1 a" by (rule can_keep [OF a f1]) (simp_all add: ap)
  from rem_frees [OF disp_ok_link_frame [OF ok u(3)] this] obtain s' h' where
    r: "rem a s h1 = Some (s', h')" "cnt s' = cnt s + node_size h1 a" "freed_list h1 [a] h'"
      "disp_ok h'" "arena_present h' = arena_present h1" "heads h' = (heads h1)(a := None)"
      "obs s' h' = eff h1 a (obs s h1)" by blast
  have "obs s' h' = eff h a (obs s h)"
    using fold_eff_freed [OF f1, of "[a]" "obs s h"] by (simp add: r(7) obs_link [OF u(3)])
  moreover have "node_size h1 a = node_size h a" using pass_is_freed(3) [OF f1] by simp
  moreover have "chain (heads h') link' (K @ as)"
    using u(2) chain_distinct [OF c] by (subst chain_cong [where m = "heads h1"]) (auto simp: r(6))
  moreover have "freed_list h [a] h'" by (rule freed_list_from0 [OF f1 r(3)])
  ultimately show ?thesis using u(1,4) r ap by auto
qed

text \<open>The walk removes exactly the accepted nodes and keeps the others in order.\<close>

lemma filter_remove_loop_correct:
  assumes "disp_ok h" "chain (heads h) link (K @ as)" "chain (heads h) cur as"
    and "\<And>g. pr (detach g) = pr g"
    and "\<And>a. a \<in> set as \<Longrightarrow> \<exists>g. heads h a = Some g \<and> pr g = Some (P a) \<and> (P a \<longrightarrow> can h a)"
  shows "\<exists>link' s' h'. filter_remove_loop pr rem (tail_of K) cur link s h = Some (link', s', h') \<and>
    cnt s' = cnt s + sum_sizes (node_size h) (filter P as) \<and>
    chain (heads h') link' (K @ filter (\<lambda>a. \<not> P a) as) \<and>
    freed_list h (filter P as) h' \<and> disp_ok h' \<and> arena_present h' = arena_present h \<and>
    (\<forall>b. b \<notin> set (K @ as) \<longrightarrow> heads h' b = heads h b) \<and> obs s' h' = fold (eff h) (filter P as) (obs s h)"
  using assms
proof (induction as arbitrary: cur link K s h)
  case Nil
  then show ?case by (simp add: filter_remove_loop.simps freed_list_Nil)
next
  case (Cons a as)
  note ok = Cons.prems(1) and pr = Cons.prems(4)
  from Cons.prems(3) obtain g where g: "cur = Some a" "heads h a = Some g" "chain (heads h) (next_ptr g) as" by auto
  have pg: "pr g = Some (P a)" "P a \<Longrightarrow> can h a" using Cons.prems(5) [of a] g(2) by auto
  have dist: "distinct (K @ a # as)" by (rule chain_distinct [OF Cons.prems(2)])
  show ?case
  proof (cases "P a")
    case True
    from filter_remove_step [OF ok Cons.prems(2) g(2) pg(2) [OF True]] obtain link1 h1 s1 h2 where
      r: "unlink_after (tail_of K) (next_ptr g) link h = Some (link1, h1)" "rem a s h1 = Some (s1, h2)"
        "cnt s1 = cnt s + node_size h a" "chain (heads h2) link1 (K @ as)" "freed_list h [a] h2" "disp_ok h2"
        "arena_present h2 = arena_present h" "\<forall>b. b \<notin> set K \<union> {a} \<longrightarrow> heads h2 b = heads h b"
        "obs s1 h2 = eff h a (obs s h)" by blast
    have c2: "chain (heads h2) (next_ptr g) as"
      using g(3) dist r(8) by (subst chain_cong [where m = "heads h"]) auto
    have P2: "\<exists>g. heads h2 b = Some g \<and> pr g = Some (P b) \<and> (P b \<longrightarrow> can h2 b)" if b: "b \<in> set as" for b
    proof -
      have "b \<notin> set K \<union> {a}" using dist b by auto
      then have "heads h2 b = heads h b" using r(8) by blast
      moreover have "can h b \<Longrightarrow> can h2 b" by (rule can_keep [OF _ r(5) _ r(7)]) (use dist b in auto)
      ultimately show ?thesis using Cons.prems(5) [of b] b by auto
    qed
    from Cons.IH [OF r(6,4) c2 pr P2, of s1] obtain link' s' h' where
      q: "filter_remove_loop pr rem (tail_of K) (next_ptr g) link1 s1 h2 = Some (link', s', h')"
        "cnt s' = cnt s1 + sum_sizes (node_size h2) (filter P as)"
        "chain (heads h') link' (K @ filter (\<lambda>a. \<not> P a) as)" "freed_list h2 (filter P as) h'" "disp_ok h'"
        "arena_present h' = arena_present h2" "\<forall>b. b \<notin> set (K @ as) \<longrightarrow> heads h' b = heads h2 b"
        "obs s' h' = fold (eff h2) (filter P as) (obs s1 h2)" by blast
    have "fold (eff h2) (filter P as) v = fold (eff h) (filter P as) v" for v
      by (rule fold_eff_freed [OF r(5)]) (use dist in auto)
    then have ob: "obs s' h' = fold (eff h) (filter P (a # as)) (obs s h)" using True by (simp add: q(8) r(9))
    have "sum_sizes (node_size h2) (filter P as) = sum_sizes (node_size h) (filter P as)"
      by (rule sum_sizes_cong, rule pass_is_freed(3) [OF r(5)]) (use dist in auto)
    then have "cnt s' = cnt s + sum_sizes (node_size h) (filter P (a # as))"
      using q(2) r(3) True by (simp add: add.assoc)
    moreover have "freed_list h (filter P (a # as)) h'"
      using freed_list_append [OF r(5) q(4)] True dist by auto
    moreover have "filter_remove_loop pr rem (tail_of K) cur link s h = Some (link', s', h')"
      using g pg(1) True r(1,2) q(1) by (subst filter_remove_loop.simps) simp
    moreover have "\<forall>b. b \<notin> set (K @ a # as) \<longrightarrow> heads h' b = heads h b" using q(7) r(8) by auto
    ultimately show ?thesis using q(3,5,6) r(7) ob True by auto
  next
    case False
    have "chain (heads h) link ((K @ [a]) @ as)" using Cons.prems(2) by simp
    from Cons.IH [OF ok this g(3) pr, of s] Cons.prems(5) obtain link' s' h' where
      q: "filter_remove_loop pr rem (tail_of (K @ [a])) (next_ptr g) link s h = Some (link', s', h')"
        "cnt s' = cnt s + sum_sizes (node_size h) (filter P as)"
        "chain (heads h') link' ((K @ [a]) @ filter (\<lambda>a. \<not> P a) as)" "freed_list h (filter P as) h'" "disp_ok h'"
        "arena_present h' = arena_present h" "\<forall>b. b \<notin> set ((K @ [a]) @ as) \<longrightarrow> heads h' b = heads h b"
        "obs s' h' = fold (eff h) (filter P as) (obs s h)"
      by (auto simp del: append_assoc)
    have "filter_remove_loop pr rem (tail_of K) cur link s h = Some (link', s', h')"
      using g pg(1) False q(1) by (subst filter_remove_loop.simps) simp
    with q False show ?thesis by auto
  qed
qed

end

subsection \<open>Pass after pass\<close>

text \<open>
  The outer loop \<open>dispose_all_nodes\<close> and \<open>sweep\<close> share: one walk per drop pass, until the chain
  is empty.
\<close>

fun remove_passes ::
  "(u8 \<Rightarrow> gc_head \<Rightarrow> bool option) \<Rightarrow> (addr \<Rightarrow> 's \<Rightarrow> 'p gc_heap \<Rightarrow> ('s \<times> 'p gc_heap) option)
     \<Rightarrow> u8 list \<Rightarrow> addr option \<Rightarrow> 's \<Rightarrow> 'p gc_heap \<Rightarrow> (addr option \<times> 's \<times> 'p gc_heap) option" where
  "remove_passes predicate remove_fn [] link st h = Some (link, st, h)"
| "remove_passes predicate remove_fn (pass # passes) link st h =
     do { (link1, st1, h1) \<leftarrow> filter_remove_with (predicate pass) remove_fn link st h;
          if link1 = None then Some (link1, st1, h1)
          else remove_passes predicate remove_fn passes link1 st1 h1 }"

definition one_pass :: "(u8 \<Rightarrow> addr \<Rightarrow> bool) \<Rightarrow> bool" where
  "one_pass P \<longleftrightarrow> (\<forall>q r a. P q a \<longrightarrow> P r a \<longrightarrow> q = r)"

definition passes_list :: "(u8 \<Rightarrow> addr \<Rightarrow> bool) \<Rightarrow> u8 list \<Rightarrow> addr list \<Rightarrow> addr list" where
  "passes_list P ps xs = concat (map (\<lambda>q. filter (P q) xs) ps)"

lemma set_passes_list: "set (passes_list P ps xs) = {a \<in> set xs. \<exists>q\<in>set ps. P q a}"
  by (auto simp: passes_list_def)

lemma distinct_passes_list:
  assumes "one_pass P" "distinct ps" "distinct xs"
  shows "distinct (passes_list P ps xs)"
  using assms(2)
proof (induction ps)
  case (Cons q ps)
  have "set (filter (P q) xs) \<inter> set (passes_list P ps xs) = {}"
    using Cons.prems assms(1) by (auto simp: set_passes_list one_pass_def)
  then show ?case using Cons assms(3) by (simp add: passes_list_def)
qed (simp add: passes_list_def)

lemma passes_list_filter:
  assumes "one_pass P" "q \<notin> set ps"
  shows "passes_list P ps (filter (\<lambda>a. \<not> P q a) xs) = passes_list P ps xs"
proof -
  have "filter (P r) (filter (\<lambda>a. \<not> P q a) xs) = filter (P r) xs" if "r \<in> set ps" for r
    unfolding filter_filter by (rule filter_cong) (use assms that in \<open>auto simp: one_pass_def\<close>)
  then show ?thesis unfolding passes_list_def by (metis (no_types, lifting) map_eq_conv)
qed

context remover
begin

lemma remove_passes_correct:
  assumes "disp_ok h" "chain (heads h) link as" "distinct ps"
    and uniq: "one_pass P"
    and "\<And>q g. pr q (detach g) = pr q g"
    and "\<And>q a. q \<in> set ps \<Longrightarrow> a \<in> set as \<Longrightarrow> \<exists>g. heads h a = Some g \<and> pr q g = Some (P q a) \<and> (P q a \<longrightarrow> can h a)"
  shows "\<exists>link' s' h'. remove_passes pr rem ps link s h = Some (link', s', h') \<and>
    cnt s' = cnt s + sum_sizes (node_size h) (passes_list P ps as) \<and>
    chain (heads h') link' (filter (\<lambda>a. \<forall>q\<in>set ps. \<not> P q a) as) \<and>
    freed_list h (passes_list P ps as) h' \<and> disp_ok h' \<and> arena_present h' = arena_present h \<and>
    (\<forall>b. b \<notin> set as \<longrightarrow> heads h' b = heads h b) \<and> obs s' h' = fold (eff h) (passes_list P ps as) (obs s h)"
  using assms(1-3,5,6)
proof (induction ps arbitrary: link as s h)
  case Nil
  then show ?case by (simp add: passes_list_def freed_list_Nil)
next
  case (Cons q ps)
  let ?F = "filter (P q) as" and ?K = "filter (\<lambda>a. \<not> P q a) as"
  have c0: "chain (heads h) link ([] @ as)" using Cons.prems(2) by simp
  have P0: "\<exists>g. heads h a = Some g \<and> pr q g = Some (P q a) \<and> (P q a \<longrightarrow> can h a)" if "a \<in> set as" for a
    using Cons.prems(5) that by simp
  from filter_remove_loop_correct [OF Cons.prems(1) c0 Cons.prems(2,4) P0, of s] obtain link1 s1 h1 where
    r: "filter_remove_with (pr q) rem link s h = Some (link1, s1, h1)" "cnt s1 = cnt s + sum_sizes (node_size h) ?F"
      "chain (heads h1) link1 ?K" "freed_list h ?F h1" "disp_ok h1" "arena_present h1 = arena_present h"
      "\<forall>b. b \<notin> set as \<longrightarrow> heads h1 b = heads h b" "obs s1 h1 = fold (eff h) ?F (obs s h)"
    by (auto simp: filter_remove_with_def)
  have d: "distinct as" by (rule chain_distinct [OF Cons.prems(2)])
  have pl: "passes_list P (q # ps) as = ?F @ passes_list P ps as" by (simp add: passes_list_def)
  have kf: "filter (\<lambda>a. \<forall>q\<in>set ps. \<not> P q a) ?K = filter (\<lambda>a. \<forall>r\<in>set (q # ps). \<not> P r a) as"
    by (auto intro: filter_cong)
  show ?case
  proof (cases "link1 = None")
    case True
    then have e: "?K = []" using r(3) chain_None by blast
    then have all: "\<forall>a\<in>set as. P q a" by (simp add: filter_empty_conv)
    have "\<not> P p a" if "p \<in> set ps" "a \<in> set as" for p a
    proof
      assume "P p a"
      with uniq all that(2) have "p = q" unfolding one_pass_def by blast
      with that(1) Cons.prems(3) show False by simp
    qed
    then have "passes_list P ps as = []" by (simp add: passes_list_def filter_empty_conv)
    moreover have "filter (\<lambda>a. \<forall>r\<in>set (q # ps). \<not> P r a) as = []" using all by (simp add: filter_empty_conv)
    ultimately show ?thesis using r True e pl by auto
  next
    case False
    have P1: "\<exists>g. heads h1 a = Some g \<and> pr p g = Some (P p a) \<and> (P p a \<longrightarrow> can h1 a)"
      if p: "p \<in> set ps" and a: "a \<in> set ?K" for p a
    proof -
      from Cons.prems(5) [of p a] p a obtain g where g: "heads h a = Some g" "pr p g = Some (P p a)"
        "P p a \<Longrightarrow> can h a" by auto
      have na: "a \<notin> set ?F" using a by simp
      have "map_option detach (heads h1 a) = map_option detach (heads h a)" by (rule freed_list_heads [OF r(4) na])
      with g(1) obtain g1 where g1: "heads h1 a = Some g1" "detach g1 = detach g" by (cases "heads h1 a") auto
      have "pr p g1 = pr p g" using Cons.prems(4) [of p g1] Cons.prems(4) [of p g] g1(2) by simp
      moreover have "P p a \<Longrightarrow> can h1 a" by (rule can_keep [OF g(3) r(4) na r(6)])
      ultimately show ?thesis using g g1 by auto
    qed
    have "distinct ps" using Cons.prems(3) by simp
    from Cons.IH [OF r(5,3) this Cons.prems(4) P1, of s1] obtain link' s' h' where
      t: "remove_passes pr rem ps link1 s1 h1 = Some (link', s', h')"
        "cnt s' = cnt s1 + sum_sizes (node_size h1) (passes_list P ps ?K)"
        "chain (heads h') link' (filter (\<lambda>a. \<forall>q\<in>set ps. \<not> P q a) ?K)"
        "freed_list h1 (passes_list P ps ?K) h'" "disp_ok h'" "arena_present h' = arena_present h1"
        "\<forall>b. b \<notin> set ?K \<longrightarrow> heads h' b = heads h1 b" "obs s' h' = fold (eff h1) (passes_list P ps ?K) (obs s1 h1)" by blast
    have pk: "passes_list P ps ?K = passes_list P ps as"
      by (rule passes_list_filter [OF uniq]) (use Cons.prems(3) in auto)
    have dis: "set ?F \<inter> set (passes_list P ps as) = {}"
      unfolding pk [symmetric] by (auto simp: set_passes_list)
    have "sum_sizes (node_size h1) (passes_list P ps as) = sum_sizes (node_size h) (passes_list P ps as)"
      by (rule sum_sizes_cong, rule pass_is_freed(3) [OF r(4)]) (use dis in blast)
    then have "cnt s' = cnt s + sum_sizes (node_size h) (passes_list P (q # ps) as)"
      using t(2) r(2) unfolding pk pl by (simp add: add.assoc)
    moreover have "freed_list h (passes_list P (q # ps) as) h'"
      unfolding pl using freed_list_append [OF r(4) t(4) [unfolded pk] dis] .
    moreover have "remove_passes pr rem (q # ps) link s h = Some (link', s', h')"
      using r(1) t(1) False by (cases link1) simp_all
    moreover have "\<forall>b. b \<notin> set as \<longrightarrow> heads h' b = heads h b" using t(7) r(7) by auto
    moreover have "obs s' h' = fold (eff h) (passes_list P (q # ps) as) (obs s h)"
      unfolding t(8) r(8) pk pl using fold_eff_freed [OF r(4), of "passes_list P ps as"] dis by (simp add: Int_commute)
    ultimately show ?thesis using t(3,5,6) r(6) unfolding kf by auto
  qed
qed

end

subsection \<open>dispose\_all\_nodes\<close>

text \<open>
  \<open>on_dispose\<close> gets shared references only: it is a function on a state of its own.  (The
  code skips the call for its dummy callback, which does nothing.)
\<close>

definition dispose_step ::
  "('p gc_heap \<Rightarrow> gc_head \<Rightarrow> 'c \<Rightarrow> 'c) \<Rightarrow> addr \<Rightarrow> usize \<times> 'c \<Rightarrow> 'p gc_heap
     \<Rightarrow> ((usize \<times> 'c) \<times> 'p gc_heap) option" where
  "dispose_step on_dispose node st h =
     do { g \<leftarrow> heads h node;
          let c = on_dispose h g (snd st)
          in do { (n, h1) \<leftarrow> dispose node h; Some ((fst st + n, c), h1) } }"

definition in_pass :: "'p gc_heap \<Rightarrow> u8 \<Rightarrow> gc_head \<Rightarrow> bool option" where
  "in_pass h pass g = do { info \<leftarrow> type_info h (dtype g); Some (ti_drop_pass info = pass) }"

definition dispose_all_nodes ::
  "('p gc_heap \<Rightarrow> gc_head \<Rightarrow> 'c \<Rightarrow> 'c) \<Rightarrow> addr option \<Rightarrow> 'c \<Rightarrow> 'p gc_heap \<Rightarrow> (usize \<times> 'c \<times> 'p gc_heap) option" where
  "dispose_all_nodes on_dispose link c h =
     do { (link1, st, h1) \<leftarrow>
            remove_passes (in_pass h) (dispose_step on_dispose) (drop_passes (node_dtypes h)) link (0, c) h;
          Some (fst st, snd st, h1) }"

lemma droppable_keep:
  assumes "droppable h a" "freed_list h xs h'" "a \<notin> set xs"
  shows "droppable h' a"
proof -
  have "map_option detach (heads h' a) = map_option detach (heads h a)" by (rule freed_list_heads [OF assms(2,3)])
  moreover have "node_dtypes h' = node_dtypes h" "payloads h' a = payloads h a"
    using assms(2,3) by (auto simp: freed_list_def restrict_map_def)
  ultimately show ?thesis using assms(1) detach_obs2(3) [of h' a h] unfolding droppable_def by auto
qed

text \<open>What is seen of a disposal without holes: the drop log.\<close>

interpretation disp: remover "dispose_step on_dispose" droppable fst
    "\<lambda>_. drop_log" "\<lambda>h a lg. lg @ drop_entry h a"
  for on_dispose :: "'p gc_heap \<Rightarrow> gc_head \<Rightarrow> 'c \<Rightarrow> 'c"
proof
  fix h :: "'p gc_heap" and a :: addr and s :: "usize \<times> 'c"
  assume ok: "disp_ok h" and dr: "droppable h a"
  then obtain g where g: "heads h a = Some g" by (auto simp: droppable_def)
  from dispose_freed [OF ok dr] obtain h' where h': "dispose a h = Some (node_size h a, h')"
    "freed_list h [a] h'" "disp_ok h'" "arenas h' = arenas h" "heads h' = (heads h)(a := None)" by blast
  from g h' arena_present_cong [OF h'(4)] dispose_effects(3) [OF h'(1)]
  show "\<exists>s' h'. dispose_step on_dispose a s h = Some (s', h') \<and>
      fst s' = fst s + node_size h a \<and> freed_list h [a] h' \<and> disp_ok h' \<and>
      arena_present h' = arena_present h \<and> heads h' = (heads h)(a := None) \<and>
      drop_log h' = drop_log h @ drop_entry h a"
    by (simp add: dispose_step_def)
next
  show "drop_log h' = drop_log h" if "link_frame h h'" for h h' :: "'p gc_heap" by (rule link_frame_obs(11) [OF that])
  show "(\<lambda>lg. lg @ drop_entry h' a) = (\<lambda>lg. lg @ drop_entry h a)"
    if "map_option detach (heads h' a) = map_option detach (heads h a)" "node_dtypes h' = node_dtypes h"
    for h h' :: "'p gc_heap" and a by (simp only: effects_cong(2) [OF that])
qed (rule droppable_keep)

lemma fold_drop_entry: "fold (\<lambda>a lg. lg @ drop_entry h a) xs lg = lg @ filter (needs_drop_fn h) xs"
  by (induction xs arbitrary: lg) (simp_all add: drop_entry_def)

lemma in_pass_detach: "in_pass h q (detach g) = in_pass h q g"
  by (simp add: in_pass_def)

lemma one_pass_pass_is: "one_pass (pass_is h)"
  using pass_is_unique by (auto simp: one_pass_def)

lemma dispose_all_nodes_correct:
  assumes ok: "disp_ok h" and c: "chain (heads h) link as" and dr: "\<And>a. a \<in> set as \<Longrightarrow> droppable h a"
    and ps: "distinct (drop_passes (node_dtypes h))"
      "\<And>a. a \<in> set as \<Longrightarrow> \<exists>q\<in>set (drop_passes (node_dtypes h)). pass_is h q a"
  shows "\<exists>ys c' h'. dispose_all_nodes cb link st h = Some (sum_sizes (node_size h) ys, c', h') \<and>
    set ys = set as \<and> distinct ys \<and> freed_list h ys h' \<and> disp_ok h' \<and> arena_present h' = arena_present h \<and>
    (\<forall>b. b \<notin> set as \<longrightarrow> heads h' b = heads h b) \<and> ys = pass_order h (drop_passes (node_dtypes h)) as \<and>
    drop_log h' = drop_log h @ filter (needs_drop_fn h) ys"
proof -
  let ?ps = "drop_passes (node_dtypes h)"
  have P: "\<exists>g. heads h a = Some g \<and> in_pass h q g = Some (pass_is h q a) \<and> (pass_is h q a \<longrightarrow> droppable h a)"
    if "a \<in> set as" for a q
    using dr [OF that] by (auto simp: droppable_def in_pass_def pass_is_def)
  from disp.remove_passes_correct [where P = "pass_is h" and pr = "in_pass h" and s = "(0, st)" and on_dispose = cb,
      OF ok c ps(1) one_pass_pass_is in_pass_detach P] obtain link' s' h' where
    r: "remove_passes (in_pass h) (dispose_step cb) ?ps link (0, st) h = Some (link', s', h')"
      "fst s' = sum_sizes (node_size h) (passes_list (pass_is h) ?ps as)"
      "freed_list h (passes_list (pass_is h) ?ps as) h'" "disp_ok h'" "arena_present h' = arena_present h"
      "\<forall>b. b \<notin> set as \<longrightarrow> heads h' b = heads h b"
      "drop_log h' = drop_log h @ filter (needs_drop_fn h) (passes_list (pass_is h) ?ps as)"
    by (auto simp: fold_drop_entry)
  have "set (passes_list (pass_is h) ?ps as) = set as" using ps(2) by (auto simp: set_passes_list)
  moreover have "distinct (passes_list (pass_is h) ?ps as)"
    by (rule distinct_passes_list [OF one_pass_pass_is ps(1) chain_distinct [OF c]])
  moreover have "passes_list (pass_is h) ?ps as = pass_order h ?ps as" by (simp add: passes_list_def pass_order_def)
  ultimately show ?thesis using r
    by (intro exI [of _ "passes_list (pass_is h) ?ps as"]) (simp add: dispose_all_nodes_def)
qed

subsection \<open>The one-phase sweep\<close>

definition sweep_step ::
  "u16 \<Rightarrow> ('p gc_heap \<Rightarrow> gc_head \<Rightarrow> 'c \<Rightarrow> 'c) \<Rightarrow> addr \<Rightarrow> usize \<times> hole list \<times> 'c \<Rightarrow> 'p gc_heap
     \<Rightarrow> ((usize \<times> hole list \<times> 'c) \<times> 'p gc_heap) option" where
  "sweep_step pid on_dispose this st h =
     do { g \<leftarrow> heads h this;
          let c = on_dispose h g (snd (snd st))
          in do { info \<leftarrow> type_info h (dtype g);
                  (n, h1) \<leftarrow> dispose this h;
                  if contains_flag g ARENA_ALLOC then
                    do { par \<leftarrow> get_par h1 pid;
                         ar \<leftarrow> arena par;
                         let hr = collect_hole (fst (snd st)) this (l_size (info_layout info)) ar
                         in Some ((fst st + n, fst hr, c), put_par pid (par\<lparr>arena := Some (snd hr)\<rparr>) h1) }
                  else Some ((fst st + n, fst (snd st), c), h1) } }"

definition sweep_pred :: "'p gc_heap \<Rightarrow> u8 \<Rightarrow> gc_head \<Rightarrow> bool option" where
  "sweep_pred h pass g =
     do { info \<leftarrow> type_info h (dtype g);
          if ti_drop_pass info = pass then
            do { c \<leftarrow> color g; Some (c = White \<and> \<not> is_root_or_local g) }
          else Some False }"

definition sweep ::
  "u16 \<Rightarrow> ('p gc_heap \<Rightarrow> gc_head \<Rightarrow> 'c \<Rightarrow> 'c) \<Rightarrow> 'c \<Rightarrow> 'p gc_heap \<Rightarrow> (usize \<times> 'c \<times> 'p gc_heap) option" where
  "sweep pid on_dispose c h =
     (case get_par h pid of
        None \<Rightarrow> Some (0, c, h)
      | Some par \<Rightarrow>
          if \<not> (marking par \<and> gray_list par = []) then Some (0, c, h)
          else
            (let h1 = put_par pid (par\<lparr>marking := False, nodes := None\<rparr>) h in
             (case nodes par of
                None \<Rightarrow> Some (0, c, h1)
              | Some link0 \<Rightarrow>
                  do { (link1, st, h2) \<leftarrow>
                         remove_passes (sweep_pred h1) (sweep_step pid on_dispose)
                           (drop_passes (node_dtypes h1)) (Some link0) (0, [], c) h1;
                       par2 \<leftarrow> get_par h2 pid;
                       let par3 = (case arena par2 of None \<Rightarrow> par2
                                   | Some ar \<Rightarrow> par2\<lparr>arena := Some (snd (finish_sweep (fst (snd st)) ar))\<rparr>);
                           par4 = (if link1 \<noteq> None then par3\<lparr>nodes := link1\<rparr> else par3)
                       in Some (fst st, snd (snd st), put_par pid par4 h2) })))"

definition sweepable :: "u16 \<Rightarrow> 'p gc_heap \<Rightarrow> addr \<Rightarrow> bool" where
  "sweepable pid h a \<longleftrightarrow> droppable h a \<and> (in_arena h a \<longrightarrow> arena_present h (unat pid))"

text \<open>
  What is seen of the one-phase sweep: the holes, arenas and weak slots, and the drop log.
\<close>

lemma sweep_step_effects:
  assumes "sweep_step pid cb a st h = Some (st', t)"
  shows "sweep_view (fst (snd st')) t = sweep_effect (unat pid) h a (sweep_view (fst (snd st)) h)"
    "drop_log t = drop_log h @ drop_entry h a"
proof -
  from assms obtain g info n h1 where g: "heads h a = Some g" "type_info h (dtype g) = Some info"
    and d: "dispose a h = Some (n, h1)"
    and b: "(if contains_flag g ARENA_ALLOC then
        do { par \<leftarrow> get_par h1 pid; ar \<leftarrow> arena par;
             let hr = collect_hole (fst (snd st)) a (l_size (info_layout info)) ar
             in Some ((fst st + n, fst hr, cb h g (snd (snd st))), put_par pid (par\<lparr>arena := Some (snd hr)\<rparr>) h1) }
      else Some ((fst st + n, fst (snd st), cb h g (snd (snd st))), h1)) = Some (st', t)"
    by (auto simp: sweep_step_def bind_eq_Some_conv Let_def cong: if_cong)
  have r: "if contains_flag g ARENA_ALLOC then
      \<exists>par ar. get_par h1 pid = Some par \<and> arena par = Some ar \<and>
        fst (snd st') = fst (collect_hole (fst (snd st)) a (node_size h a) ar) \<and>
        t = put_par pid (par\<lparr>arena := Some (snd (collect_hole (fst (snd st)) a (node_size h a) ar))\<rparr>) h1
    else fst (snd st') = fst (snd st) \<and> t = h1"
    using b by (auto simp: bind_eq_Some_conv Let_def node_size_info [OF g] split: if_splits)
  note e = dispose_effects [OF d]
  have ia: "in_arena h a \<longleftrightarrow> contains_flag g ARENA_ALLOC" using g by (simp add: in_arena_def)
  show "sweep_view (fst (snd st')) t = sweep_effect (unat pid) h a (sweep_view (fst (snd st)) h)"
  proof (cases "in_arena h a")
    case True
    with r ia obtain par ar where p: "get_par h1 pid = Some par" "arena par = Some ar"
      "fst (snd st') = fst (collect_hole (fst (snd st)) a (node_size h a) ar)"
      "t = put_par pid (par\<lparr>arena := Some (snd (collect_hole (fst (snd st)) a (node_size h a) ar))\<rparr>) h1" by auto
    show ?thesis unfolding p(3,4) by (rule hole_effect [OF p(1,2) True e(1,2), symmetric])
  next
    case False
    with r ia no_hole_effect [OF False e(1,2)] show ?thesis by simp
  qed
  show "drop_log t = drop_log h @ drop_entry h a" using r e(3) by (auto split: if_splits)
qed

interpretation swp: remover "sweep_step pid on_dispose" "sweepable pid" fst
    "\<lambda>s h. (sweep_view (fst (snd s)) h, drop_log h)"
    "\<lambda>h a. map_prod (sweep_effect (unat pid) h a) (\<lambda>lg. lg @ drop_entry h a)"
  for pid and on_dispose :: "'p gc_heap \<Rightarrow> gc_head \<Rightarrow> 'c \<Rightarrow> 'c"
proof
  fix h :: "'p gc_heap" and a :: addr and s :: "usize \<times> hole list \<times> 'c"
  assume ok: "disp_ok h" and can: "sweepable pid h a"
  then have dr: "droppable h a" by (simp add: sweepable_def)
  then obtain g info where g: "heads h a = Some g" "type_info h (dtype g) = Some info" by (auto simp: droppable_def)
  from dispose_freed [OF ok dr] obtain h1 where h1: "dispose a h = Some (node_size h a, h1)"
    "freed_list h [a] h1" "disp_ok h1" "arenas h1 = arenas h" "heads h1 = (heads h)(a := None)" by blast
  note ap = arena_present_cong [OF h1(4)]
  have "\<exists>s' h'. sweep_step pid on_dispose a s h = Some (s', h') \<and> fst s' = fst s + node_size h a \<and>
      freed_list h [a] h' \<and> disp_ok h' \<and> arena_present h' = arena_present h \<and> heads h' = (heads h)(a := None)"
  proof (cases "contains_flag g ARENA_ALLOC")
    case False
    with g h1 ap show ?thesis by (simp add: sweep_step_def)
  next
    case True
    with g can have "arena_present h1 (unat pid)" by (simp add: sweepable_def in_arena_def ap)
    then obtain p r where p: "get_par h1 pid = Some p" "arena p = Some r"
      by (auto simp: arena_present_def arenas_def get_par_Some)
    let ?hr = "collect_hole (fst (snd s)) a (l_size (info_layout info)) r"
    have "arena p \<noteq> None" using p(2) by simp
    note pa = put_arena [OF p(1) this, of "snd ?hr"]
    have "freed_list h [a] (put_par pid (p\<lparr>arena := Some (snd ?hr)\<rparr>) h1)" by (rule freed_list_trans0 [OF h1(2) pa(1)])
    with g h1 True p ap pa(2) pa(3) [OF h1(3)] show ?thesis by (simp add: sweep_step_def Let_def)
  qed
  then obtain s' h' where r: "sweep_step pid on_dispose a s h = Some (s', h')" "fst s' = fst s + node_size h a"
    "freed_list h [a] h'" "disp_ok h'" "arena_present h' = arena_present h" "heads h' = (heads h)(a := None)" by blast
  from r sweep_step_effects [OF r(1)] show "\<exists>s' h'. sweep_step pid on_dispose a s h = Some (s', h') \<and>
      fst s' = fst s + node_size h a \<and> freed_list h [a] h' \<and> disp_ok h' \<and>
      arena_present h' = arena_present h \<and> heads h' = (heads h)(a := None) \<and>
      (sweep_view (fst (snd s')) h', drop_log h') = map_prod (sweep_effect (unat pid) h a)
        (\<lambda>lg. lg @ drop_entry h a) (sweep_view (fst (snd s)) h, drop_log h)"
    by (intro exI [of _ s'] exI [of _ h']) simp
next
  fix h h' :: "'p gc_heap" and s :: "usize \<times> hole list \<times> 'c"
  assume "link_frame h h'"
  from link_frame_obs [OF this] show "(sweep_view (fst (snd s)) h', drop_log h') = (sweep_view (fst (snd s)) h, drop_log h)"
    by (simp add: sweep_view_def arenas_def)
next
  fix h h' :: "'p gc_heap" and a
  assume "map_option detach (heads h' a) = map_option detach (heads h a)" "node_dtypes h' = node_dtypes h"
  note e = effects_cong [OF this]
  show "map_prod (sweep_effect (unat pid) h' a) (\<lambda>lg. lg @ drop_entry h' a) =
      map_prod (sweep_effect (unat pid) h a) (\<lambda>lg. lg @ drop_entry h a)" by (simp only: e)
next
  fix h :: "'p gc_heap" and a xs h'
  assume can: "sweepable pid h a" and f: "freed_list h xs h'" "a \<notin> set xs" and ap: "arena_present h' = arena_present h"
  from can droppable_keep [OF _ f] pass_is_freed(2) [OF f] ap show "sweepable pid h' a"
    by (simp add: sweepable_def)
qed

lemma fold_map_prod: "fold (\<lambda>a. map_prod (f a) (g a)) xs (x, y) = (fold f xs x, fold g xs y)"
  by (induction xs arbitrary: x y) simp_all

lemma sweep_pred_detach: "sweep_pred h q (detach g) = sweep_pred h q g"
  by (simp add: sweep_pred_def cong: if_cong)

lemma put_par_frame:
  assumes p: "get_par h pid = Some p" and a: "arena p' \<noteq> None \<longleftrightarrow> arena p \<noteq> None"
  shows "arena_present (put_par pid p' h) = arena_present h" "disp_ok h \<Longrightarrow> disp_ok (put_par pid p' h)"
proof -
  have i: "unat pid < length (partitions h)" "p = partitions h ! unat pid" using p by (simp_all add: get_par_Some)
  show "arena_present (put_par pid p' h) = arena_present h"
    using i a by (auto simp: fun_eq_iff arena_present_def arenas_def nth_list_update split: if_splits)
  show "disp_ok (put_par pid p' h)" if "disp_ok h"
  proof (rule disp_ok_cong [OF that])
    have "weak_ok h" using that by (simp add: disp_ok_def)
    then show "weak_ok (put_par pid p' h)" by (rule weak_ok_heads) simp_all
  qed auto
qed

text \<open>
  The deprecated one-phase sweep meets the specification of the three-step sweep: it frees
  the same nodes and leaves the same counters.
\<close>

lemma sweep_correct:
  assumes inv: "heap_inv h" and i: "unat pid < length (partitions h)"
    and m: "pmarking h (unat pid)" "glist h (unat pid) = []"
  shows "\<exists>n c' t. sweep pid cb c h = Some (n, c', t) \<and> swept h (unat pid) n t \<and> swept_rest h (unat pid) n t \<and>
    drop_log t = drop_log h @ filter (needs_drop_fn h) (sweep_order h (unat pid))"
proof -
  let ?i = "unat pid"
  let ?p = "partitions h ! ?i" and ?xs = "par_list h ?i"
  let ?D = "{a. in_par h ?i a \<and> dead h a}" and ?ps = "drop_passes (node_dtypes h)"
  have ok: "heap_ok h" and pok: "passes_ok h" and aok: "arena_nodes_ok h" and dok: "disp_ok h"
    using inv by (simp_all add: heap_inv_def)
  have xs: "a \<in> set ?xs \<longleftrightarrow> in_par h ?i a" for a by (rule heap_ok_member_iff [OF ok i])
  have gp: "get_par h pid = Some ?p" using i by (simp add: get_par_Some)
  let ?h1 = "put_par pid (?p\<lparr>marking := False, nodes := None\<rparr>) h"
  have ap1: "arena_present ?h1 = arena_present h" and dok1: "disp_ok ?h1"
    using put_par_frame [OF gp, of "?p\<lparr>marking := False, nodes := None\<rparr>"] dok by simp_all
  note obs1 = obs_heads [of ?h1 h]
  show ?thesis
  proof (cases "nodes ?p")
    case None
    then have e: "?xs = []" using heap_ok_chain [OF ok i] chain_None by metis
    have De: "?D = {}" using e xs by auto
    have "sweep pid cb c h = Some (0, c, ?h1)" using gp m None by (simp add: sweep_def)
    moreover have "swept h ?i 0 ?h1"
    proof (rule swept_intro [OF inv i m(2) _ dok1 ap1])
      show "removed h ?D ?h1"
        unfolding removed_def De using i None heap_ok_chain [OF ok]
        by (auto simp: nth_list_update e)
    qed (use e i in \<open>auto simp: nth_list_update\<close>)
    moreover have "swept_rest h ?i 0 ?h1" by (rule swept_rest_empty [OF e De i]) simp_all
    moreover have "drop_log ?h1 = drop_log h @ filter (needs_drop_fn h) (sweep_order h ?i)"
      by (simp add: sweep_order_def e pass_order_def)
    ultimately show ?thesis by blast
  next
    case (Some link0)
    let ?P = "\<lambda>q a. pass_is h q a \<and> dead h a"
    have c1: "chain (heads ?h1) (Some link0) ?xs" using heap_ok_chain [OF ok i] Some by simp
    have dps: "distinct ?ps" using pok by (simp add: passes_ok_def)
    have op: "one_pass ?P" using one_pass_pass_is [of h] by (auto simp: one_pass_def)
    have P: "\<exists>g. heads ?h1 a = Some g \<and> sweep_pred ?h1 q g = Some (?P q a) \<and> (?P q a \<longrightarrow> sweepable pid ?h1 a)"
      if "a \<in> set ?xs" for a q
    proof -
      from heap_ok_node [OF ok i that] obtain g info v cl where g: "heads h a = Some g"
        "type_info h (dtype g) = Some info" "payloads h a = Some v" "color g = Some cl" by (metis not_None_eq)
      have "sweepable pid ?h1 a"
        using g aok xs that by (auto simp: sweepable_def droppable_def in_arena_def ap1 arena_nodes_ok_def)
      with g show ?thesis
        by (auto simp: sweep_pred_def pass_is_def dead_def obs_head [OF g(1)])
    qed
    from swp.remove_passes_correct [where P = ?P and pr = "sweep_pred ?h1" and s = "(0, [], c)" and on_dispose = cb and pid = pid,
        OF dok1 c1 dps op sweep_pred_detach P] obtain link' s' h2 where
      r: "remove_passes (sweep_pred ?h1) (sweep_step pid cb) ?ps (Some link0) (0, [], c) ?h1 = Some (link', s', h2)"
        "fst s' = sum_sizes (node_size ?h1) (passes_list ?P ?ps ?xs)"
        "chain (heads h2) link' (filter (\<lambda>a. \<forall>q\<in>set ?ps. \<not> ?P q a) ?xs)"
        "freed_list ?h1 (passes_list ?P ?ps ?xs) h2" "disp_ok h2" "arena_present h2 = arena_present ?h1"
        "\<forall>b. b \<notin> set ?xs \<longrightarrow> heads h2 b = heads ?h1 b"
        "sweep_view (fst (snd s')) h2 = fold (sweep_effect ?i ?h1) (passes_list ?P ?ps ?xs) (sweep_view [] ?h1)"
        "drop_log h2 = drop_log ?h1 @ filter (needs_drop_fn ?h1) (passes_list ?P ?ps ?xs)"
      by (simp only: fold_map_prod fold_drop_entry fst_conv snd_conv prod.inject add_0_left) blast
    let ?ys = "passes_list ?P ?ps ?xs"
    have pass: "\<exists>q\<in>set ?ps. pass_is h q a" if "a \<in> set ?xs" for a
      using pok dom_in_list [OF ok i that] by (auto simp: passes_ok_def)
    have ys: "set ?ys = ?D" using pass xs by (auto simp: set_passes_list)
    have dys: "distinct ?ys" by (rule distinct_passes_list [OF op dps heap_ok_distinct [OF ok i]])
    have kf: "filter (\<lambda>a. \<forall>q\<in>set ?ps. \<not> ?P q a) ?xs = filter (\<lambda>a. a \<notin> ?D) ?xs"
      by (rule filter_cong) (use pass xs in auto)
    have sz: "node_size ?h1 = node_size h" by (simp add: fun_eq_iff node_size_def cong: option.case_cong)
    have ysf: "set ?ys = set (filter (dead h) ?xs)" using ys xs by auto
    have n: "fst s' = sum_sizes (node_size h) (filter (dead h) ?xs)"
      using r(2) dys heap_ok_distinct [OF ok i] by (simp add: sz sum_sizes_distinct ysf del: set_filter)
    have par: "drop_arena (partitions h2 ! j) = drop_arena ((partitions ?h1 ! j)\<lparr>memory_used :=
        memory_used (partitions h ! j) - (if j = ?i then fst s' else 0)\<rparr>)" if j: "j < length (partitions h)" for j
    proof -
      have "filter (in_par ?h1 j) ?ys = (if j = ?i then ?ys else [])"
        using ys in_par_unique [of h j _ ?i]
        by (auto simp: in_par_def filter_empty_conv intro!: filter_True)
      moreover have "memory_used (partitions ?h1 ! j) = memory_used (partitions h ! j)"
        using i by (simp add: nth_list_update)
      ultimately show ?thesis using r(2,4) j by (auto simp: freed_list_def)
    qed
    have len: "length (partitions h2) = length (partitions h)" using r(4) by (simp add: freed_list_def)
    define p2 where "p2 = partitions h2 ! ?i"
    have gp2: "get_par h2 pid = Some p2" using i len by (simp add: get_par_Some p2_def)
    have p2: "nodes p2 = None" "gray_list p2 = []" "\<not> marking p2" "memory_used p2 = memory_used ?p - fst s'"
      using arg_cong [OF par [OF i], of nodes] arg_cong [OF par [OF i], of gray_list]
        arg_cong [OF par [OF i], of marking] arg_cong [OF par [OF i], of memory_used] i m(2)
      by (simp_all add: drop_arena_def p2_def)
    define p3 where "p3 = (case arena p2 of None \<Rightarrow> p2
        | Some ar \<Rightarrow> p2\<lparr>arena := Some (snd (finish_sweep (fst (snd s')) ar))\<rparr>)"
    define p4 where "p4 = (if link' \<noteq> None then p3\<lparr>nodes := link'\<rparr> else p3)"
    have p4: "nodes p4 = link'" "gray_list p4 = []" "\<not> marking p4" "memory_used p4 = memory_used ?p - fst s'"
      "arena p4 \<noteq> None \<longleftrightarrow> arena p2 \<noteq> None"
      using p2 by (auto simp: p4_def p3_def split: option.splits)
    let ?t = "put_par pid p4 h2"
    have run: "sweep pid cb c h = Some (fst s', snd (snd s'), ?t)"
      using gp m Some r(1) gp2 by (simp add: sweep_def p4_def p3_def)
    have oth: "nodes (partitions h2 ! j) = nodes (partitions h ! j)" "glist h2 j = glist h j"
      "pmarking h2 j = pmarking h j" "memory_used (partitions h2 ! j) = memory_used (partitions h ! j)"
      if "j < length (partitions h)" "j \<noteq> ?i" for j
      using arg_cong [OF par [OF that(1)], of nodes] arg_cong [OF par [OF that(1)], of gray_list]
        arg_cong [OF par [OF that(1)], of marking] arg_cong [OF par [OF that(1)], of memory_used] that
      by (simp_all add: drop_arena_def)
    have "swept h ?i (fst s') ?t"
    proof (rule swept_intro [OF inv i m(2)])
      show "removed h ?D ?t"
        unfolding removed_def
      proof (intro conjI allI impI)
        show "map_option detach (heads ?t a) = (if a \<in> ?D then None else map_option detach (heads h a))" for a
          using r(4) unfolding freed_list_def ys by simp
        show "payloads ?t a = payloads h a" if "a \<notin> ?D" for a
        proof -
          have "payloads h2 = payloads ?h1 |` (- ?D)" using r(4) unfolding freed_list_def ys by blast
          with that show ?thesis by (simp add: restrict_map_def)
        qed
        show "node_dtypes ?t = node_dtypes h" using r(4) by (simp add: freed_list_def)
        show "length (partitions ?t) = length (partitions h)" using len by simp
        fix j assume j: "j < length (partitions h)"
        show "glist ?t j = glist h j" using j p4 oth m(2) len by (cases "j = ?i") simp_all
        show "chain (heads ?t) (nodes (partitions ?t ! j)) (filter (\<lambda>a. a \<notin> ?D) (par_list h j))"
        proof (cases "j = ?i")
          case True
          with r(3) j p4(1) len kf show ?thesis by simp
        next
          case False
          have jx: "a \<notin> set ?xs" if "a \<in> set (par_list h j)" for a
            using that heap_ok_member_iff [OF ok j] xs in_par_unique [of h j a ?i] False by auto
          then have fe: "filter (\<lambda>a. a \<notin> ?D) (par_list h j) = par_list h j"
            using xs by (intro filter_True) auto
          have "chain (heads h2) (nodes (partitions h ! j)) (par_list h j)"
            using chain_outside [OF r(7), of "par_list h j"] jx heap_ok_chain [OF ok j] by auto
          with False oth(1) [OF j] fe len show ?thesis by simp
        qed
      qed
      show "disp_ok ?t" "arena_present ?t = arena_present h"
        using put_par_frame [OF gp2 p4(5)] r(5,6) ap1 by simp_all
      show "fst s' = sum_sizes (node_size h) (filter (dead h) ?xs)" by (rule n)
      show "total_memory_used ?t = total_memory_used h - fst s'"
        using r(2,4) by (simp add: freed_list_def)
      show "memory_used (partitions ?t ! j) = memory_used (partitions h ! j) - (if j = ?i then fst s' else 0)"
        if "j < length (partitions h)" for j using that p4(4) oth(4) len by (cases "j = ?i") simp_all
      show "pmarking ?t j = (j \<noteq> ?i \<and> pmarking h j)" if "j < length (partitions h)" for j
        using that p4(3) oth(3) len by (cases "j = ?i") simp_all
    qed (use r(4) in \<open>simp_all add: freed_list_def\<close>)
    moreover have ord: "?ys = sweep_order h ?i"
    proof -
      have "filter (\<lambda>a. pass_is h q a \<and> dead h a) ?xs = filter (pass_is h q) (filter (dead h) ?xs)" for q
        unfolding filter_filter by (rule filter_cong) auto
      then show ?thesis by (simp add: passes_list_def sweep_order_def pass_order_def)
    qed
    have d1: "map_option detach (heads ?h1 a) = map_option detach (heads h a)" and n1: "node_dtypes ?h1 = node_dtypes h" for a
      by simp_all
    have "swept_rest h ?i (fst s') ?t"
      unfolding swept_rest_def
    proof (intro conjI allI impI)
      have "payloads h2 = payloads ?h1 |` (- ?D)" using r(4) unfolding freed_list_def ys by blast
      then show "payloads ?t = payloads h |` (- ?D)" by simp
      show "opaque ?t = opaque h" using r(4) by (simp add: freed_list_def)
      fix j assume j: "j < length (partitions h)"
      have "drop_arena p4 = drop_arena (p2\<lparr>nodes := link'\<rparr>)"
        using p2(1) by (cases p2) (auto simp: p4_def p3_def drop_arena_def split: option.splits)
      note e4 = this
      show "drop_arena (partitions ?t ! j) = drop_arena ((partitions h ! j)
          \<lparr>nodes := nodes (partitions ?t ! j), marking := (j \<noteq> ?i \<and> pmarking h j),
           memory_used := memory_used (partitions h ! j) - (if j = ?i then fst s' else 0)\<rparr>)"
      proof (cases "j = ?i")
        case True
        with arg_cong [OF par [OF j], of "\<lambda>p. p\<lparr>nodes := link'\<rparr>"] i len e4 show ?thesis
          by (cases "partitions h ! ?i"; cases "partitions h2 ! ?i") (simp add: p4(1) drop_arena_def p2_def)
      next
        case False
        with par [OF j] oth(1) [OF j False] j len show ?thesis
          by (cases "partitions h ! j") (simp add: drop_arena_def)
      qed
    next
      have ne: "?xs \<noteq> []" using c1 by auto
      have "arena p4 = map_option (\<lambda>ar. snd (finish_sweep (fst (snd s')) ar)) (arena p2)"
        by (auto simp: p4_def p3_def split: option.splits)
      then have "(arenas ?t, weak_slots ?t) = sweep_result ?i ?h1 ?ys"
        using r(8) i len by (intro sweep_resultI) (simp_all add: arenas_put_par [OF gp2] p2_def)
      moreover have "sweep_effect ?i ?h1 = sweep_effect ?i h" by (rule ext) (rule effects_cong(3) [OF d1 n1])
      moreover have "sweep_view [] ?h1 = sweep_view [] h"
        by (simp add: sweep_view_def arenas_def map_field_update [where f = arena])
      ultimately have "(arenas ?t, weak_slots ?t) = sweep_result ?i h (sweep_order h ?i)"
        unfolding ord by (simp add: sweep_result_def)
      with ne show "(arenas ?t, weak_slots ?t) =
         (if ?xs = [] then (arenas h, weak_slots h) else sweep_result ?i h (sweep_order h ?i))" by simp
    qed
    moreover have "needs_drop_fn ?h1 = needs_drop_fn h" by (rule ext) (rule needs_drop_fn_cong [OF d1 n1])
    then have "drop_log ?t = drop_log h @ filter (needs_drop_fn h) (sweep_order h ?i)" using r(9) by (simp add: ord)
    ultimately show ?thesis using run by blast
  qed
qed

text \<open>Two heaps a sweep of the same partition can leave differ in nothing but the drop log.\<close>

lemma chain_heads_eq:
  assumes "chain m p xs" "chain m' p' xs" "\<And>a. a \<in> set xs \<Longrightarrow> map_option detach (m a) = map_option detach (m' a)"
  shows "p = p' \<and> (\<forall>a\<in>set xs. m a = m' a)"
  using assms
proof (induction xs arbitrary: p p')
  case Nil
  then show ?case by simp
next
  case (Cons a xs)
  from Cons.prems(1,2) obtain g g' where g: "p = Some a" "p' = Some a" "m a = Some g" "m' a = Some g'"
    "chain m (next_ptr g) xs" "chain m' (next_ptr g') xs" by auto
  from Cons.IH [OF g(5,6)] Cons.prems(3) have ih: "next_ptr g = next_ptr g'" "\<forall>a\<in>set xs. m a = m' a" by auto
  have "detach g = detach g'" using Cons.prems(3) [of a] g(3,4) by simp
  with ih(1) have "g = g'" by (cases g; cases g') (simp add: detach_def)
  with g ih(2) show ?case by simp
qed

lemma swept_unique:
  assumes inv: "heap_inv h" and t: "swept h i n t" "swept_rest h i n t" and u: "swept h i n u" "swept_rest h i n u"
  shows "t = u\<lparr>drop_log := drop_log t\<rparr>"
proof -
  let ?D = "{a. in_par h i a \<and> dead h a}"
  have rt: "removed h ?D t" and ru: "removed h ?D u" and it: "heap_inv t" using t(1) u(1) by (simp_all add: swept_def)
  have len: "length (partitions t) = length (partitions h)" "length (partitions u) = length (partitions h)"
    using rt ru by (simp_all add: removed_def)
  have d: "map_option detach (heads t a) = map_option detach (heads u a)" for a
    using rt ru by (simp add: removed_def)
  have c: "nodes (partitions t ! j) = nodes (partitions u ! j) \<and>
      (\<forall>a\<in>set (filter (\<lambda>a. a \<notin> ?D) (par_list h j)). heads t a = heads u a)" if "j < length (partitions h)" for j
    using rt ru that d by (intro chain_heads_eq) (simp_all add: removed_def)
  have hd: "heads t a = heads u a" for a
  proof (cases "heads t a = None")
    case True
    with d [of a] show ?thesis by (cases "heads u a") auto
  next
    case False
    then have "a \<in> dom (heads t)" by auto
    with it obtain j where j: "j < length (partitions t)" "a \<in> set (par_list t j)"
      by (auto simp: heap_inv_def heap_ok_def)
    with len have jh: "j < length (partitions h)" by simp
    have "par_list t j = filter (\<lambda>a. a \<notin> ?D) (par_list h j)" by (rule removed_par_list [OF rt jh])
    with j(2) c [OF jh] show ?thesis by simp
  qed
  have pa: "partitions t ! j = partitions u ! j" if j: "j < length (partitions h)" for j
  proof -
    have "drop_arena (partitions t ! j) = drop_arena (partitions u ! j)"
      using t(2) u(2) j c [OF j] by (simp add: swept_rest_def)
    moreover have "arenas t = arenas u" using t(2) u(2) by (simp add: swept_rest_def) (metis prod.inject)
    then have "arena (partitions t ! j) = arena (partitions u ! j)" using j len by (metis arenas_def nth_map)
    ultimately show ?thesis by (cases "partitions t ! j"; cases "partitions u ! j") (simp add: drop_arena_def)
  qed
  have "partitions t = partitions u" by (rule nth_equalityI) (simp_all add: len pa)
  moreover have "heads t = heads u" by (rule ext) (rule hd)
  moreover have "weak_slots t = weak_slots u" using t(2) u(2) by (simp add: swept_rest_def) (metis prod.inject)
  moreover have "payloads t = payloads u" "opaque t = opaque u" using t(2) u(2) by (simp_all add: swept_rest_def)
  moreover have "node_dtypes t = node_dtypes u" using rt ru by (simp add: removed_def)
  moreover have "total_memory_used t = total_memory_used u" "scope_stacks t = scope_stacks u"
    "memory_limit t = memory_limit u" "gc_threshold t = gc_threshold u" using t(1) u(1) by (simp_all add: swept_def)
  ultimately show ?thesis by (cases t; cases u) simp
qed

end
