(* ===== verification/Gc_Correct.thy ===== *)
theory Gc_Correct
  imports Gc_Collect
begin

section \<open>What garbage_collect does (src/src/mark_sweep.rs)\<close>

text \<open>
  Marking followed by the sweep, stated on the heap the collection started from: the result
  \<open>collected\<close>, its two instances (a clean start, where exactly the reachable nodes survive, and
  a start in the middle of a marking phase, where at least those do), and the state after it.
\<close>

subsection \<open>Marking keeps the invariant of the heap\<close>

lemma mark_frame_obs:
  assumes fr: "mark_frame h t"
  shows "node_size t a = node_size h a" "pass_is t q a = pass_is h q a" "in_arena t a = in_arena h a"
    "map_option weak_id (heads t a) = map_option weak_id (heads h a)"
  using mark_frame_shape [OF fr, of a]
  by (cases "heads h a"; cases "heads t a";
      auto simp: node_size_def pass_is_def in_arena_def mark_frame_fields [OF fr] dest: shape_eqD)+

lemma mark_frame_arenas:
  assumes "mark_frame h t"
  shows "arenas t = arenas h"
proof -
  have "map (\<lambda>(_, _, a, _, _). a) (map par_shape (partitions t)) =
      map (\<lambda>(_, _, a, _, _). a) (map par_shape (partitions h))"
    using assms by (simp only: mark_frame_def)
  then show ?thesis by (simp add: arenas_def par_shape_def comp_def)
qed

lemma mark_frame_memory_used:
  assumes "mark_frame h t" "j < length (partitions h)"
  shows "memory_used (partitions t ! j) = memory_used (partitions h ! j)"
proof -
  have m: "map par_shape (partitions t) = map par_shape (partitions h)"
    using assms(1) by (simp add: mark_frame_def)
  then have "length (partitions t) = length (partitions h)" by (metis length_map)
  with m assms(2) have "par_shape (partitions t ! j) = par_shape (partitions h ! j)" by (metis nth_map)
  then show ?thesis by (simp add: par_shape_def)
qed

lemma heap_inv_mark_frame:
  assumes inv: "heap_inv h" and fr: "mark_frame h t" and ok: "heap_ok t"
  shows "heap_inv t"
proof -
  note ff = mark_frame_fields [OF fr] and ob = mark_frame_obs [OF fr]
  have d: "disp_ok h" and p: "passes_ok h" and a: "arena_nodes_ok h"
    using inv by (simp_all add: heap_inv_def)
  have "weak_ok t" using d weak_ok_heads [OF _ ff(3) ob(4)] by (simp add: disp_ok_def)
  moreover have "(\<exists>info. type_info t (dtype g) = Some info \<and> unat (ti_layout_size info) < 2 ^ 31) \<and>
      unat (partition_id g) < length (partitions t)" if g: "heads t a = Some g" for a g
  proof -
    from mark_frame_head_rev [OF fr g] obtain g0 where "heads h a = Some g0" "shape g = shape g0" .
    with d shape_eqD(1,5) [OF this(2)] show ?thesis by (simp add: disp_ok_def ff)
  qed
  ultimately have "disp_ok t" by (simp add: disp_ok_def)
  moreover have "passes_ok t" using p by (simp add: passes_ok_def ff ob)
  moreover have "arena_nodes_ok t"
    using a arena_present_cong [OF mark_frame_arenas [OF fr]]
    by (simp add: arena_nodes_ok_def ob in_par_mark_frame [OF fr])
  ultimately show ?thesis using ok by (simp add: heap_inv_def)
qed

subsection \<open>The result of a collection\<close>

text \<open>What identifies a node: everything of its head but the collector's own bits.\<close>

definition ident :: "gc_head \<Rightarrow> u8 \<times> bool \<times> bool \<times> u16 \<times> u32" where
  "ident g = (dtype g, is_root g, is_local g, partition_id g, weak_id g)"

text \<open>
  \<open>collected h i live n t\<close>: the nodes of partition \<open>i\<close> that are not \<open>live\<close> are gone, all other
  nodes are there with their payload, and in their order; \<open>n\<close> is the memory of the freed nodes,
  the counters went down by it; a weak reference upgrades exactly when it did and its node is
  still there; partition \<open>i\<close> is out of its marking phase.
\<close>

definition collected :: "'p gc_heap \<Rightarrow> nat \<Rightarrow> (addr \<Rightarrow> bool) \<Rightarrow> usize \<Rightarrow> 'p gc_heap \<Rightarrow> bool" where
  "collected h i live n t \<longleftrightarrow>
     (\<forall>a. map_option ident (heads t a) =
        (if in_par h i a \<and> \<not> live a then None else map_option ident (heads h a))) \<and>
     (\<forall>a. heads t a \<noteq> None \<longrightarrow> payloads t a = payloads h a) \<and>
     (\<forall>j<length (partitions h). par_list t j = filter (\<lambda>a. j = i \<longrightarrow> live a) (par_list h j)) \<and>
     n = sum_sizes (node_size h) (filter (\<lambda>a. \<not> live a) (par_list h i)) \<and>
     total_memory_used t = total_memory_used h - n \<and>
     (\<forall>j<length (partitions h). memory_used (partitions t ! j) =
        memory_used (partitions h ! j) - (if j = i then n else 0)) \<and>
     (\<forall>w. upgrade w t = Option.bind (upgrade w h) (\<lambda>a. if heads t a = None then None else Some a)) \<and>
     scope_stacks t = scope_stacks h \<and> memory_limit t = memory_limit h \<and>
     gc_threshold t = gc_threshold h \<and> \<not> pmarking t i \<and> glist t i = []"

lemma ident_eqI: "detach g = detach g' \<Longrightarrow> ident g = ident g'" "shape g = shape g' \<Longrightarrow> ident g = ident g'"
  by (auto simp: ident_def is_root_def is_local_def dest: detach_eqD shape_eqD)

lemma upgrade_removed:
  assumes "weak_ok h" "weak_ok t"
    and "\<And>a. heads t a \<noteq> None \<Longrightarrow> map_option weak_id (heads t a) = map_option weak_id (heads h a)"
  shows "upgrade w t = Option.bind (upgrade w h) (\<lambda>a. if heads t a = None then None else Some a)"
proof (cases "upgrade w t")
  case (Some b)
  then have b: "\<not> weak_is_null w" "map_option weak_id (heads t b) = Some w"
    using upgrade_iff [OF assms(2)] by auto
  then have "heads t b \<noteq> None" by auto
  with b assms(3) [OF this] have "upgrade w h = Some b" using upgrade_iff [OF assms(1)] by simp
  with Some \<open>heads t b \<noteq> None\<close> show ?thesis by simp
next
  case None
  have "heads t a = None" if a: "upgrade w h = Some a" for a
  proof (rule ccontr)
    assume "heads t a \<noteq> None"
    then have "upgrade w t = Some a" 
      using a assms(3) [of a] by (simp add: upgrade_iff [OF assms(1)] upgrade_iff [OF assms(2)])
    with None show False by simp
  qed
  with None show ?thesis by (cases "upgrade w h") auto
qed

lemma swept_collected:
  assumes inv: "heap_inv h" and fr: "mark_frame h u" and ok: "heap_ok u"
    and i: "i < length (partitions h)" and gl: "glist u i = []" and sw: "swept u i n t"
    and live: "\<And>a. in_par h i a \<Longrightarrow> dead u a \<longleftrightarrow> \<not> live a"
  shows "collected h i live n t"
proof -
  let ?D = "{a. in_par u i a \<and> dead u a}"
  note ff = mark_frame_fields [OF fr] and ob = mark_frame_obs [OF fr]
  have okh: "heap_ok h" using inv by (simp add: heap_inv_def)
  have rm: "removed u ?D t" and ti: "heap_inv t" using sw by (simp_all add: swept_def)
  have D: "a \<in> ?D \<longleftrightarrow> in_par h i a \<and> \<not> live a" for a
    using live [of a] by (auto simp: in_par_mark_frame [OF fr])
  have pl: "par_list u j = par_list h j" if "j < length (partitions h)" for j
    by (rule par_list_mark_frame [OF fr that heap_ok_chain [OF okh that]])
  have idn: "map_option ident (heads t a) =
      (if in_par h i a \<and> \<not> live a then None else map_option ident (heads h a))" for a
  proof -
    have "map_option detach (heads t a) = (if a \<in> ?D then None else map_option detach (heads u a))"
      using rm unfolding removed_def by blast
    moreover have "map_option shape (heads u a) = map_option shape (heads h a)" by (rule mark_frame_shape [OF fr])
    ultimately show ?thesis
      unfolding D
      by (cases "heads h a"; cases "heads u a"; cases "heads t a")
         (auto dest!: ident_eqI split: if_splits)
  qed
  have wid: "map_option weak_id (heads t a) = map_option weak_id (heads h a)" if "heads t a \<noteq> None" for a
    using idn [of a] that by (cases "heads h a"; cases "heads t a") (auto simp: ident_def split: if_splits)
  have wk: "weak_ok h" "weak_ok t" using inv ti by (simp_all add: heap_inv_def disp_ok_def)
  have n: "n = sum_sizes (node_size h) (filter (\<lambda>a. \<not> live a) (par_list h i))"
  proof -
    have "n = sum_sizes (node_size u) (filter (dead u) (par_list u i))" using sw by (simp add: swept_def)
    also have "filter (dead u) (par_list u i) = filter (\<lambda>a. \<not> live a) (par_list h i)"
      unfolding pl [OF i] by (rule filter_cong) (use live heap_ok_member_iff [OF okh i] in auto)
    also have "node_size u = node_size h" by (simp add: fun_eq_iff ob)
    finally show ?thesis .
  qed
  show ?thesis
    unfolding collected_def
  proof (intro conjI allI impI)
    show "payloads t a = payloads h a" if "heads t a \<noteq> None" for a
    proof -
      have "a \<notin> ?D"
      proof
        assume "a \<in> ?D"
        from removed_gone [OF rm this] that show False by simp
      qed
      from removed_obs(8) [OF rm this] show ?thesis by (simp add: ff)
    qed
    show "par_list t j = filter (\<lambda>a. j = i \<longrightarrow> live a) (par_list h j)" if j: "j < length (partitions h)" for j
    proof -
      have "par_list t j = filter (\<lambda>a. a \<notin> ?D) (par_list h j)"
        using removed_par_list [OF rm] j pl [OF j] ff(10) by simp
      also have "\<dots> = filter (\<lambda>a. j = i \<longrightarrow> live a) (par_list h j)"
      proof (rule filter_cong)
        fix a assume "a \<in> set (par_list h j)"
        then have ip: "in_par h j a" using heap_ok_member_iff [OF okh j] by blast
        then show "a \<notin> ?D \<longleftrightarrow> (j = i \<longrightarrow> live a)"
          unfolding D using in_par_unique [OF ip, of i] by auto
      qed simp
      finally show ?thesis .
    qed
    show "upgrade w t = Option.bind (upgrade w h) (\<lambda>a. if heads t a = None then None else Some a)" for w
      by (rule upgrade_removed [OF wk wid])
    show "glist t i = []" using rm gl i ff(10) by (simp add: removed_def)
    show "memory_used (partitions t ! j) = memory_used (partitions h ! j) - (if j = i then n else 0)"
      if "j < length (partitions h)" for j
      using sw that ff(10) mark_frame_memory_used [OF fr that] by (cases "j = i") (simp_all add: swept_def)
  qed (use sw ff idn n in \<open>simp_all add: swept_def\<close>)
qed

subsection \<open>The two theorems\<close>

text \<open>A collection that starts clean keeps exactly what the roots reach inside the partition.\<close>

lemma garbage_collect_correct:
  assumes inv: "heap_inv h" and p: "get_par h pid = Some p" "\<not> marking p" "gray_list p = []"
    and cl: "\<And>a b. reach_in {unat pid} h a \<Longrightarrow> edge h a b \<Longrightarrow> b \<in> dom (heads h)"
  shows "\<exists>n t. garbage_collect pid h = Some (n, t) \<and> heap_inv t \<and>
    collected h (unat pid) (reach_in {unat pid} h) n t"
proof -
  let ?i = "unat pid" and ?R = "reach_in {unat pid} h"
  have ok: "heap_ok h" using inv by (simp add: heap_inv_def)
  have i: "?i < length (partitions h)" using p(1) by (simp add: get_par_Some)
  from mark_until_done_exact [OF ok p] cl obtain u where u: "mark_until_done pid h = Some u"
    "mark_frame h u" "heap_ok u" "pmarking u ?i" "glist u ?i = []"
    "\<And>a. in_par h ?i a \<Longrightarrow> hcolor u a = Some (if ?R a then Black else White)" by blast
  have iu: "?i < length (partitions u)" using i mark_frame_fields(10) [OF u(2)] by simp
  from collect_white_correct [OF heap_inv_mark_frame [OF inv u(2,3)] iu u(4,5)] obtain n t where
    t: "collect_white pid u = Some (n, t)" "swept u ?i n t" by blast
  have "dead u a \<longleftrightarrow> \<not> ?R a" if "in_par h ?i a" for a
    using u(6) [OF that] that
    by (auto simp: dead_def hroot_mark_frame [OF u(2)] zone_def intro: reach_in.root)
  from swept_collected [OF inv u(2,3) i u(5) t(2) this] have "collected h ?i ?R n t" .
  moreover have "heap_inv t" using t(2) by (simp add: swept_def)
  ultimately show ?thesis using garbage_collect_eq [OF p(1)] u(1) t(1) by simp
qed

text \<open>
  From the middle of a marking phase that kept the invariant, at least that survives; what a
  collection reports freed is never reachable.
\<close>

lemma garbage_collect_ready:
  assumes inv: "heap_inv h" and cl: "refs_closed h" and i: "unat pid < length (partitions h)"
    and rd: "start_ok (unat pid) h"
  shows "\<exists>n t live. garbage_collect pid h = Some (n, t) \<and> heap_inv t \<and>
    collected h (unat pid) live n t \<and> (\<forall>a. reach_in {unat pid} h a \<longrightarrow> live a)"
proof -
  let ?i = "unat pid"
  have ok: "heap_ok h" using inv by (simp add: heap_inv_def)
  from mark_until_done_sound [OF ok cl i rd] obtain u where u: "mark_until_done pid h = Some u"
    "mark_frame h u" "heap_ok u" "pmarking u ?i" "glist u ?i = []" "tri_inv {?i} u" by blast
  have iu: "?i < length (partitions u)" using i mark_frame_fields(10) [OF u(2)] by simp
  from collect_white_correct [OF heap_inv_mark_frame [OF inv u(2,3)] iu u(4,5)] obtain n t where
    t: "collect_white pid u = Some (n, t)" "swept u ?i n t" by blast
  let ?live = "\<lambda>a. \<not> dead u a"
  have "collected h ?i ?live n t" by (rule swept_collected [OF inv u(2,3) i u(5) t(2)]) simp
  moreover have "?live a" if "reach_in {?i} h a" for a
  proof -
    have "reach_in {?i} u a" using that by (simp add: reach_in_mark_frame [OF u(2)])
    from tri_inv_done [OF u(3,6) _ this] u(5) show ?thesis by (simp add: dead_def)
  qed
  moreover have "heap_inv t" using t(2) by (simp add: swept_def)
  moreover have "get_par h pid = Some (partitions h ! ?i)" using i by (simp add: get_par_Some)
  from garbage_collect_eq [OF this] u(1) t(1) have "garbage_collect pid h = Some (n, t)" by simp
  ultimately show ?thesis by blast
qed

end
