(* ===== verification/Gc_Barrier.thy ===== *)
theory Gc_Barrier
  imports Gc_Correct
begin

section \<open>Mutation during marking (src/src/node.rs, src/src/heap.rs)\<close>

text \<open>
  The write barriers \<open>with_write_barrier\<close> and \<open>bind\<close>, and \<open>set_root_node\<close>: each keeps the heap
  well-formed and, over the partitions that are being marked, the tri-colour invariant.
\<close>

subsection \<open>Operations\<close>

definition with_write_barrier ::
  "addr \<Rightarrow> ('p \<Rightarrow> 'r \<times> 'p) \<Rightarrow> 'p gc_heap \<Rightarrow> ('r \<times> 'p gc_heap) option" where
  "with_write_barrier node mutator h =
     do { m \<leftarrow> is_node_partition_marking node h;
          h1 \<leftarrow>
            (if m then
               do { g \<leftarrow> heads h node;
                    c \<leftarrow> color g;
                    if c = Black then heap_add_gray_node node (put_head node (set_color Gray g) h)
                    else Some h }
             else Some h);
          value \<leftarrow> payloads h1 node;
          let (r, value') = mutator value
          in Some (r, h1\<lparr>payloads := (payloads h1)(node \<mapsto> value')\<rparr>) }"

text \<open>The two blocks of \<open>bind\<close>.\<close>

definition bind_barrier :: "addr \<Rightarrow> addr \<Rightarrow> 'p gc_heap \<Rightarrow> 'p gc_heap option" where
  "bind_barrier master slave h =
     do { mg \<leftarrow> heads h master;
          mc \<leftarrow> color mg;
          sg \<leftarrow> heads h slave;
          sc \<leftarrow> color sg;
          if mc = Black \<and> (sc = White \<or> sc = Gray) then
            (let h1 = put_head slave (set_color Gray sg) h in
             (case get_par h1 (partition_id sg) of
                None \<Rightarrow> Some h1
              | Some p \<Rightarrow> if marking p then heap_add_gray_node slave h1 else Some h1))
          else Some h }"

definition bind_cross :: "addr \<Rightarrow> addr \<Rightarrow> 'p gc_heap \<Rightarrow> 'p gc_heap option" where
  "bind_cross master slave h =
     do { mg \<leftarrow> heads h master;
          sg \<leftarrow> heads h slave;
          if partition_id mg \<noteq> partition_id sg then
            do { slave_color \<leftarrow> color sg;
                 if slave_color = White \<or> slave_color = Gray then
                   (case get_par h (partition_id sg) of
                      None \<Rightarrow> Some h
                    | Some slave_par \<Rightarrow>
                        if marking slave_par then
                          (let sg1 = set_color Gray sg in
                           if \<not> is_gray_listed sg1 then
                             Some (put_par (partition_id sg)
                                    (slave_par\<lparr>gray_list := vec_push (gray_list slave_par) slave\<rparr>)
                                    (put_head slave (set_gray_listed True sg1) h))
                           else Some (put_head slave sg1 h))
                        else Some h)
                 else Some h }
          else Some h }"

definition bind :: "addr \<Rightarrow> addr \<Rightarrow> 'p gc_heap \<Rightarrow> 'p gc_heap option" where
  "bind master slave h = Option.bind (bind_barrier master slave h) (bind_cross master slave)"

subsection \<open>Heaps that agree on what well-formedness reads\<close>

definition hview :: "gc_head \<Rightarrow> u8 \<times> u16 \<times> bool \<times> addr option \<times> u32 \<times> bool" where
  "hview g = (dtype g, partition_id g, is_gray_listed g, next_ptr g, weak_id g, contains_flag g ARENA_ALLOC)"

definition same_view :: "'p gc_heap \<Rightarrow> 'p gc_heap \<Rightarrow> bool" where
  "same_view h t \<longleftrightarrow>
     (\<forall>a. map_option hview (heads t a) = map_option hview (heads h a)) \<and>
     (\<forall>a. (payloads t a = None) = (payloads h a = None)) \<and>
     partitions t = partitions h \<and> node_dtypes t = node_dtypes h \<and> weak_slots t = weak_slots h"

lemma same_view_refl [simp]: "same_view h h"
  by (simp add: same_view_def)

lemma same_view_sym: "same_view h t \<Longrightarrow> same_view t h"
  by (simp add: same_view_def)

lemma same_view_put_head:
  "heads h a = Some g \<Longrightarrow> hview g' = hview g \<Longrightarrow> same_view h (put_head a g' h)"
  by (simp add: same_view_def)

lemma same_view_head:
  assumes "same_view h t" "heads t a = Some g'"
  obtains g where "heads h a = Some g" "dtype g' = dtype g" "partition_id g' = partition_id g"
    "is_gray_listed g' = is_gray_listed g" "next_ptr g' = next_ptr g" "weak_id g' = weak_id g"
    "contains_flag g' ARENA_ALLOC = contains_flag g ARENA_ALLOC"
proof -
  have "map_option hview (heads t a) = map_option hview (heads h a)" using assms(1) by (simp add: same_view_def)
  with assms(2) that show thesis by (cases "heads h a") (auto simp: hview_def)
qed

lemma same_view_obs:
  assumes "same_view h t"
  shows "in_par t i a = in_par h i a" "hlisted t a = hlisted h a" "pass_is t q a = pass_is h q a"
    "in_arena t a = in_arena h a" "node_size t a = node_size h a"
    "map_option weak_id (heads t a) = map_option weak_id (heads h a)"
    "map_option next_ptr (heads t a) = map_option next_ptr (heads h a)"
    "a \<in> dom (heads t) \<longleftrightarrow> a \<in> dom (heads h)"
proof -
  have m: "map_option hview (heads t a) = map_option hview (heads h a)"
    and n: "node_dtypes t = node_dtypes h" using assms by (simp_all add: same_view_def)
  show "in_par t i a = in_par h i a" "hlisted t a = hlisted h a" "pass_is t q a = pass_is h q a"
    "in_arena t a = in_arena h a" "node_size t a = node_size h a"
    "map_option weak_id (heads t a) = map_option weak_id (heads h a)"
    "map_option next_ptr (heads t a) = map_option next_ptr (heads h a)"
    "a \<in> dom (heads t) \<longleftrightarrow> a \<in> dom (heads h)"
    using m n by (cases "heads h a"; cases "heads t a";
      auto simp: hview_def in_par_def hlisted_def pass_is_def in_arena_def node_size_def type_info_def)+
qed

lemma same_view_lists:
  assumes "same_view h t" "heap_ok h" "j < length (partitions h)"
  shows "par_list t j = par_list h j"
proof (rule par_list_chain)
  have "partitions t = partitions h" using assms(1) by (simp add: same_view_def)
  moreover have "chain (heads t) p xs = chain (heads h) p xs" for p xs
    by (rule chain_cong) (rule same_view_obs(7) [OF assms(1)])
  ultimately show "chain (heads t) (nodes (partitions t ! j)) (par_list h j)"
    using heap_ok_chain [OF assms(2,3)] by simp
qed

lemma heap_ok_same_view:
  assumes ok: "heap_ok h" and sv: "same_view h t"
    and col: "\<And>a. a \<in> dom (heads h) \<Longrightarrow> hcolor t a \<noteq> None"
  shows "heap_ok t"
proof -
  have p: "partitions t = partitions h" and ti: "type_info t = type_info h"
    using sv by (simp_all add: same_view_def type_info_def fun_eq_iff)
  note ob = same_view_obs [OF sv]
  have "chain (heads t) q xs = chain (heads h) q xs" for q xs
    by (rule chain_cong) (rule ob(7))
  moreover have "node_ok t j a" if j: "j < length (partitions h)" and a: "a \<in> set (par_list h j)" for j a
  proof -
    from heap_ok_node [OF ok j a] obtain g info v where g: "heads h a = Some g"
      "partition_id g = of_nat j" "type_info h (dtype g) = Some info" "payloads h a = Some v" by metis
    then obtain g' where g': "heads t a = Some g'" using ob(8) [of a] by auto
    from same_view_head [OF sv this] g have "partition_id g' = of_nat j" "dtype g' = dtype g" by auto
    moreover have "color g' \<noteq> None" using col [of a] g(1) g' by (auto simp: hcolor_def)
    moreover have "payloads t a \<noteq> None" using sv g(4) by (simp add: same_view_def)
    ultimately show ?thesis using g g' by (simp add: node_ok_def ti)
  qed
  moreover have "gray_ok t j = gray_ok h j" for j by (simp add: gray_ok_def p ob)
  moreover have "dom (heads t) = dom (heads h)" using ob(8) by blast
  ultimately show ?thesis
    using ok same_view_lists [OF sv ok] by (simp add: heap_ok_def p)
qed

lemma heap_inv_same_view:
  assumes inv: "heap_inv h" and sv: "same_view h t"
    and col: "\<And>a. a \<in> dom (heads h) \<Longrightarrow> hcolor t a \<noteq> None"
  shows "heap_inv t"
proof -
  have p: "partitions t = partitions h" "node_dtypes t = node_dtypes h" and ti: "type_info t = type_info h"
    and w: "weak_slots t = weak_slots h"
    using sv by (simp_all add: same_view_def type_info_def fun_eq_iff)
  note ob = same_view_obs [OF sv]
  have d: "disp_ok h" and pk: "passes_ok h" and ak: "arena_nodes_ok h" and ok: "heap_ok h"
    using inv by (simp_all add: heap_inv_def)
  have "weak_ok t" using d weak_ok_heads [OF _ w ob(6)] by (simp add: disp_ok_def)
  moreover have "(\<exists>info. type_info t (dtype g) = Some info \<and> unat (ti_layout_size info) < 2 ^ 31) \<and>
      unat (partition_id g) < length (partitions t)" if g: "heads t a = Some g" for a g
    using d same_view_head [OF sv g] by (metis disp_ok_def p(1) ti)
  ultimately have "disp_ok t" by (simp add: disp_ok_def)
  moreover have "passes_ok t"
    using pk ob(8) by (simp add: passes_ok_def p ob(3) set_eq_iff)
  moreover have "arena_present t = arena_present h"
    by (rule arena_present_cong) (simp add: arenas_def p)
  then have "arena_nodes_ok t" using ak by (simp add: arena_nodes_ok_def ob)
  ultimately show ?thesis using heap_ok_same_view [OF ok sv col] by (simp add: heap_inv_def)
qed

text \<open>\<open>add_gray_node\<close> shades its node.\<close>

lemma set_color_same: "color g = Some c \<Longrightarrow> set_color c g = g"
proof -
  assume c: "color g = Some c"
  have "attrs (set_color c g) = attrs g"
  proof (rule bit_word_eqI)
    fix n assume "n < LENGTH(32)"
    show "bit (attrs (set_color c g)) n = bit (attrs g) n"
      using c by (auto simp: attrs_set_color color_bits split: if_splits)
  qed
  then show ?thesis by (simp add: set_color_def)
qed

lemma set_gray_listed_same: "is_gray_listed g \<Longrightarrow> set_gray_listed True g = g"
proof -
  assume l: "is_gray_listed g"
  have "attrs (set_gray_listed True g) = attrs g"
  proof (rule bit_word_eqI)
    fix n assume "n < LENGTH(32)"
    show "bit (attrs (set_gray_listed True g)) n = bit (attrs g) n"
      using l by (auto simp: attrs_set_gray_listed is_gray_listed_bit)
  qed
  then show ?thesis by (simp add: set_gray_listed_def)
qed

lemma shade_black: "hcolor h a = Some Black \<Longrightarrow> shade h {a} h"
  by (auto simp: shade_def shaded_def)

lemma par_add_gray_shade:
  assumes ok: "heap_ok h" and g: "heads h a = Some g"
  shows "\<exists>t. par_add_gray_node (partition_id g) a h = Some t \<and> shade h {a} t"
proof -
  obtain c where c: "color g = Some c" using heap_ok_color [OF ok g] by blast
  have i: "unat (partition_id g) < length (partitions h)" by (rule heap_ok_in_list [OF ok g])
  define p where "p = partitions h ! unat (partition_id g)"
  have p: "get_par h (partition_id g) = Some p" using i by (simp add: get_par_Some p_def)
  have ip: "in_par h j a \<longleftrightarrow> j = unat (partition_id g)" for j using obs_head(4) [OF g] by auto
  have nn: "hcolor h a \<noteq> None" using obs_head(1) [OF g] c by simp
  have sh0: "shaded h {} h" by (simp add: shaded_def)
  show ?thesis
  proof (cases "c = Black")
    case True
    with c g obs_head(1) [OF g] have "shade h {a} h" by (intro shade_black) simp
    with True c g show ?thesis by (auto simp: par_add_gray_node_def)
  next
    case False
    then have nb: "hcolor h a \<noteq> Some Black" using obs_head(1) [OF g] c by simp
    define g1 where "g1 = set_color Gray g"
    have g1: "(if c = White then set_color Gray g else g) = g1"
      using c False set_color_same [OF c] by (cases c) (simp_all add: g1_def)
    let ?g2 = "set_gray_listed True g1"
    have fr: "mark_frame h (put_head a ?g2 h)" by (rule mark_frame_put_head [OF g]) (simp add: g1_def)
    show ?thesis
    proof (cases "is_gray_listed g1")
      case True
      then have e: "?g2 = g1" by (rule set_gray_listed_same)
      have "shaded h {a} (put_head a ?g2 h)"
        by (rule shaded_insert [OF sh0 g nb _ fr _ nn]) (simp_all add: g1_def)
      moreover have "a \<in> set (glist h j)" if "in_par h j a" for j
        using heap_ok_gray [OF ok i] that ip True obs_head(3) [OF g]
        by (simp add: gray_ok_def g1_def)
      ultimately have "shade h {a} (put_head a g1 h)" unfolding shade_def e by auto
      with True c g False g1 show ?thesis by (simp add: par_add_gray_node_def Let_def)
    next
      case False
      let ?t = "push_gray (partition_id g) a p (put_head a ?g2 h)"
      have q: "get_par (put_head a ?g2 h) (partition_id g) = Some p" using p by simp
      note pg = push_gray_obs [OF q, of a]
      have "shaded h {a} ?t"
        by (rule shaded_insert [OF sh0 g nb _ mark_frame_trans [OF fr pg(1)] _ nn])
           (simp_all add: pg, simp add: g1_def)
      moreover have "set (glist ?t j) = set (glist h j) \<union> {c \<in> {a}. in_par h j c \<and> hcolor h c \<noteq> Some Black}"
        for j using pg(3) [of j] nb ip by auto
      ultimately have "shade h {a} ?t" by (simp add: shade_def)
      moreover have "par_add_gray_node (partition_id g) a h = Some ?t"
        using False c g \<open>c \<noteq> Black\<close> g1 p
        by (simp add: par_add_gray_node_def Let_def update_par_def push_gray_def)
      ultimately show ?thesis by blast
    qed
  qed
qed

lemma heap_add_gray_shade:
  assumes ok: "heap_ok h" and g: "heads h a = Some g"
  shows "\<exists>t. heap_add_gray_node a h = Some t \<and> shade h {a} t"
proof -
  obtain c where c: "color g = Some c" using heap_ok_color [OF ok g] by blast
  have i: "unat (partition_id g) < length (partitions h)" by (rule heap_ok_in_list [OF ok g])
  then have p: "get_par h (partition_id g) = Some (partitions h ! unat (partition_id g))" by (simp add: get_par_Some)
  show ?thesis
  proof (cases "c = Black")
    case True
    with c g show ?thesis using shade_black [of h a] obs_head(1) [OF g]
      by (simp add: heap_add_gray_node_def)
  next
    case False
    with par_add_gray_shade [OF ok g] c g p show ?thesis by (simp add: heap_add_gray_node_def)
  qed
qed

text \<open>
  Shading a set \<open>C\<close> restores the invariant when what it lacked before is about \<open>C\<close> only.
\<close>

lemma tri_inv_shadeI:
  assumes ok: "heap_ok h" and sh: "shade h C t"
    and root: "\<And>a. a \<in> zone S h \<Longrightarrow> hroot h a \<Longrightarrow> hcolor h a = Some White \<Longrightarrow> a \<in> C"
    and edges: "\<And>a b. a \<in> zone S h \<Longrightarrow> b \<in> zone S h \<Longrightarrow> edge h a b \<Longrightarrow> hcolor h a = Some Black \<Longrightarrow>
      hcolor h b = Some White \<Longrightarrow> b \<in> C"
    and gray: "\<And>i a. i \<in> S \<Longrightarrow> in_par h i a \<Longrightarrow> hcolor h a = Some Gray \<Longrightarrow> a \<in> set (glist h i) \<union> C"
  shows "tri_inv S t"
proof -
  have fr: "mark_frame h t" using sh by (simp add: shade_def shaded_def)
  have col: "hcolor t a = (if a \<in> C \<and> hcolor h a = Some White then Some Gray else hcolor h a)" for a
    using sh by (simp add: shade_def shaded_def)
  have gl: "set (glist t j) = set (glist h j) \<union> {c \<in> C. in_par h j c \<and> hcolor h c \<noteq> Some Black}"
    if "in_par h j a" for j a
    using sh in_par_bound [OF ok that] by (simp add: shade_def)
  show ?thesis
    unfolding tri_inv_def tri_inv_upto_def zone_mark_frame [OF fr] hroot_mark_frame [OF fr]
      in_par_mark_frame [OF fr] edge_mark_frame [OF fr]
  proof (intro conjI ballI allI impI)
    fix a assume "a \<in> zone S h" "hroot h a"
    with root show "hcolor t a \<noteq> Some White" by (auto simp: col)
  next
    fix a b assume ab: "a \<in> zone S h" "b \<in> zone S h" "edge h a b" "hcolor t a = Some Black"
    then have "hcolor h a = Some Black" by (simp add: col split: if_splits)
    with ab edges show "hcolor t b \<noteq> Some White" by (auto simp: col)
  next
    fix i a assume ia: "i \<in> S" "in_par h i a" "hcolor t a = Some Gray"
    then have "hcolor h a \<noteq> Some Black" by (auto simp: col split: if_splits)
    moreover have "a \<in> set (glist h i) \<union> C"
      using ia gray [OF ia(1,2)] by (auto simp: col split: if_splits)
    ultimately show "a \<in> set (glist t i) \<union> {}" using ia(2) by (auto simp: gl [OF ia(2)])
  qed
qed

subsection \<open>What every mutation keeps\<close>

text \<open>
  The heap stays well-formed, no marking phase starts or ends, partitions outside a marking
  phase get no gray node, and over partitions in a marking phase the invariant is kept.
\<close>

definition keeps :: "'p gc_heap \<Rightarrow> 'p gc_heap \<Rightarrow> bool" where
  "keeps h t \<longleftrightarrow>
     heap_inv t \<and> length (partitions t) = length (partitions h) \<and>
     (\<forall>j<length (partitions h). pmarking t j = pmarking h j \<and>
        (\<not> pmarking h j \<longrightarrow> (glist t j = [] \<longleftrightarrow> glist h j = []))) \<and>
     (\<forall>S. (\<forall>i\<in>S. i < length (partitions h) \<and> pmarking h i) \<longrightarrow> tri_inv S h \<longrightarrow> tri_inv S t)"

definition all_ready :: "'p gc_heap \<Rightarrow> bool" where
  "all_ready h \<longleftrightarrow> (\<forall>i<length (partitions h). ready i h)"

lemma keeps_refl: "heap_inv h \<Longrightarrow> keeps h h"
  by (simp add: keeps_def)

lemma keeps_trans [trans]: "keeps h t \<Longrightarrow> keeps t u \<Longrightarrow> keeps h u"
  by (simp add: keeps_def)

lemma keeps_ready:
  assumes "keeps h t" "all_ready h"
  shows "all_ready t"
  unfolding all_ready_def
proof (intro allI impI)
  fix i assume "i < length (partitions t)"
  with assms(1) have i: "i < length (partitions h)" by (simp add: keeps_def)
  with assms(2) have "ready i h" by (simp add: all_ready_def)
  with assms(1) i show "ready i t" by (cases "pmarking h i") (simp_all add: keeps_def ready_def)
qed

text \<open>Shading a node of a partition in a marking phase.\<close>

lemma keeps_shade:
  assumes inv: "heap_inv h" and sh: "shade h C t" "C \<subseteq> dom (heads h)"
    and mk: "\<And>j c. c \<in> C \<Longrightarrow> in_par h j c \<Longrightarrow> pmarking h j"
  shows "keeps h t"
proof -
  have ok: "heap_ok h" using inv by (simp add: heap_inv_def)
  have fr: "mark_frame h t" using sh by (simp add: shade_def shaded_def)
  have "heap_inv t" by (rule heap_inv_mark_frame [OF inv fr shade_heap_ok [OF ok sh]])
  moreover have "glist t j = [] \<longleftrightarrow> glist h j = []"
    if j: "j < length (partitions h)" "\<not> pmarking h j" for j
  proof -
    have "set (glist t j) = set (glist h j) \<union> {c \<in> C. in_par h j c \<and> hcolor h c \<noteq> Some Black}"
      using sh(1) j(1) by (simp add: shade_def)
    also have "\<dots> = set (glist h j)" using mk j(2) by auto
    finally show ?thesis by (metis set_empty)
  qed
  moreover have "tri_inv S t" if "tri_inv S h" for S
    using tri_inv_upto_shade [OF ok sh(1)] that by (simp add: tri_inv_def)
  ultimately show ?thesis
    using sh(1) mark_frame_fields(10) [OF fr] by (simp add: keeps_def shade_def shaded_def)
qed

text \<open>
  A change \<open>u\<close> of the heap that leaves colours and lists alone for a moment, followed by the
  shading of \<open>C\<close>, where everything the change broke is about \<open>C\<close>.
\<close>

lemma keeps_change_shade:
  assumes inv: "heap_inv u" and len: "length (partitions u) = length (partitions h)"
    and par: "\<And>j. j < length (partitions h) \<Longrightarrow> pmarking u j = pmarking h j \<and> set (glist u j) = set (glist h j)"
    and sh: "shade u C t" "C \<subseteq> dom (heads u)"
    and mk: "\<And>j c. c \<in> C \<Longrightarrow> in_par u j c \<Longrightarrow> pmarking h j"
    and inv': "\<And>S. (\<forall>i\<in>S. i < length (partitions h) \<and> pmarking h i) \<Longrightarrow> tri_inv S h \<Longrightarrow>
      (\<forall>a\<in>zone S u. hroot u a \<longrightarrow> hcolor u a = Some White \<longrightarrow> a \<in> C) \<and>
      (\<forall>a\<in>zone S u. \<forall>b\<in>zone S u. edge u a b \<longrightarrow> hcolor u a = Some Black \<longrightarrow> hcolor u b = Some White \<longrightarrow> b \<in> C) \<and>
      (\<forall>i\<in>S. \<forall>a. in_par u i a \<longrightarrow> hcolor u a = Some Gray \<longrightarrow> a \<in> set (glist u i) \<union> C)"
  shows "keeps h t"
proof -
  have ok: "heap_ok u" using inv by (simp add: heap_inv_def)
  have k: "keeps u t"
  proof (rule keeps_shade [OF inv sh])
    fix j c assume c: "c \<in> C" "in_par u j c"
    have "j < length (partitions h)" using in_par_bound [OF ok c(2)] len by simp
    from par [OF this] mk [OF c] show "pmarking u j" by simp
  qed
  have "tri_inv S t" if S: "\<forall>i\<in>S. i < length (partitions h) \<and> pmarking h i" "tri_inv S h" for S
    by (rule tri_inv_shadeI [OF ok sh(1)]) (use inv' [OF S] in blast)+
  moreover have "glist t j = [] \<longleftrightarrow> glist h j = []"
    if j: "j < length (partitions h)" "\<not> pmarking h j" for j
  proof -
    have e: "set (glist u j) = set (glist h j)" and n: "\<not> pmarking u j" using par [OF j(1)] j(2) by simp_all
    have "glist t j = [] \<longleftrightarrow> glist u j = []" using k j(1) len n by (simp add: keeps_def)
    also have "\<dots> \<longleftrightarrow> glist h j = []" unfolding set_empty [symmetric] e by (rule refl)
    finally show ?thesis .
  qed
  ultimately show ?thesis using k par len by (simp add: keeps_def)
qed

subsection \<open>The write barrier\<close>

lemma payload_update_obs:
  "same_view h (h\<lparr>payloads := (payloads h)(a \<mapsto> v)\<rparr>) \<longleftrightarrow> payloads h a \<noteq> None"
  "heads (h\<lparr>payloads := (payloads h)(a \<mapsto> v)\<rparr>) = heads h"
  "x \<noteq> a \<Longrightarrow> edge (h\<lparr>payloads := (payloads h)(a \<mapsto> v)\<rparr>) x y = edge h x y"
  by (auto simp: same_view_def edge_def refs_of_def type_info_def)

lemma keeps_payload:
  assumes inv: "heap_inv h" and a: "payloads h a \<noteq> None"
    and nb: "\<And>j. in_par h j a \<Longrightarrow> pmarking h j \<Longrightarrow> hcolor h a \<noteq> Some Black"
  shows "keeps h (h\<lparr>payloads := (payloads h)(a \<mapsto> v)\<rparr>)"
proof -
  let ?t = "h\<lparr>payloads := (payloads h)(a \<mapsto> v)\<rparr>"
  have ok: "heap_ok h" using inv by (simp add: heap_inv_def)
  note ob = obs_heads [OF payload_update_obs(2), of h a v]
  have "heap_inv ?t"
    by (rule heap_inv_same_view [OF inv])
       (use a heap_ok_hcolor_dom [OF ok] in \<open>simp_all add: payload_update_obs ob\<close>)
  moreover have "tri_inv S ?t" if S: "\<forall>i\<in>S. i < length (partitions h) \<and> pmarking h i" and t: "tri_inv S h" for S
  proof -
    have z: "zone S ?t = zone S h" by (simp add: zone_def ob)
    have "x \<noteq> a" if "x \<in> zone S h" "hcolor h x = Some Black" for x
      using that nb S by (auto simp: zone_def)
    with t show ?thesis
      unfolding tri_inv_def tri_inv_upto_def z ob by (auto simp: payload_update_obs(3))
  qed
  ultimately show ?thesis by (simp add: keeps_def)
qed

text \<open>Turning a black node gray and listing it again.\<close>

lemma regray_keeps:
  assumes inv: "heap_inv h" and g: "heads h a = Some g" "color g = Some Black"
    and mk: "pmarking h (unat (partition_id g))"
  shows "\<exists>t. heap_add_gray_node a (put_head a (set_color Gray g) h) = Some t \<and> keeps h t \<and>
    mark_frame h t \<and> hcolor t a = Some Gray"
proof -
  let ?u = "put_head a (set_color Gray g) h"
  have ok: "heap_ok h" using inv by (simp add: heap_inv_def)
  have fr: "mark_frame h ?u" by (rule mark_frame_put_head [OF g(1)]) simp
  have sv: "same_view h ?u" by (rule same_view_put_head [OF g(1)]) (simp add: hview_def)
  have invu: "heap_inv ?u"
    by (rule heap_inv_same_view [OF inv sv]) (use heap_ok_hcolor_dom [OF ok] in auto)
  then have oku: "heap_ok ?u" by (simp add: heap_inv_def)
  have "heads ?u a = Some (set_color Gray g)" by simp
  from heap_add_gray_shade [OF oku this] obtain t where t: "heap_add_gray_node a ?u = Some t" "shade ?u {a} t"
    by blast
  have ga: "hcolor h a = Some Black" using g obs_head(1) [OF g(1)] by simp
  have "keeps h t"
  proof (rule keeps_change_shade [OF invu _ _ t(2)])
    fix S assume "\<forall>i\<in>S. i < length (partitions h) \<and> pmarking h i" and inv: "tri_inv S h"
    then show "(\<forall>b\<in>zone S ?u. hroot ?u b \<longrightarrow> hcolor ?u b = Some White \<longrightarrow> b \<in> {a}) \<and>
      (\<forall>x\<in>zone S ?u. \<forall>b\<in>zone S ?u. edge ?u x b \<longrightarrow> hcolor ?u x = Some Black \<longrightarrow> hcolor ?u b = Some White \<longrightarrow> b \<in> {a}) \<and>
      (\<forall>i\<in>S. \<forall>b. in_par ?u i b \<longrightarrow> hcolor ?u b = Some Gray \<longrightarrow> b \<in> set (glist ?u i) \<union> {a})"
      unfolding zone_mark_frame [OF fr] hroot_mark_frame [OF fr] in_par_mark_frame [OF fr] edge_mark_frame [OF fr]
      by (auto simp: tri_inv_def tri_inv_upto_def)
  qed (use mk obs_head(4) [OF g(1)] in \<open>auto split: if_splits\<close>)
  moreover have "hcolor t a = Some Gray" using t(2) by (simp add: shade_def shaded_def)
  moreover have "mark_frame h t" using t(2) mark_frame_trans [OF fr] by (auto simp: shade_def shaded_def)
  ultimately show ?thesis using t(1) by blast
qed

lemma mark_frame_payload:
  assumes "mark_frame h u"
  shows "mark_frame (h\<lparr>payloads := f\<rparr>) (u\<lparr>payloads := f\<rparr>)"
proof -
  have "u = h\<lparr>heads := heads u, partitions := partitions u\<rparr>" using assms by (simp add: mark_frame_def)
  then have "u\<lparr>payloads := f\<rparr> = h\<lparr>heads := heads u, partitions := partitions u\<rparr>\<lparr>payloads := f\<rparr>" by (rule arg_cong)
  then have e: "u\<lparr>payloads := f\<rparr> = h\<lparr>payloads := f\<rparr>\<lparr>heads := heads u, partitions := partitions u\<rparr>" by simp
  have sh: "\<forall>a. map_option shape (heads (u\<lparr>payloads := f\<rparr>) a) = map_option shape (heads (h\<lparr>payloads := f\<rparr>) a)"
    "map par_shape (partitions (u\<lparr>payloads := f\<rparr>)) = map par_shape (partitions (h\<lparr>payloads := f\<rparr>))"
    using assms by (simp_all add: mark_frame_def)
  have "u\<lparr>payloads := f\<rparr> = h\<lparr>payloads := f\<rparr>\<lparr>heads := heads (u\<lparr>payloads := f\<rparr>),
      partitions := partitions (u\<lparr>payloads := f\<rparr>)\<rparr>"
    by (rule trans [OF e]) simp
  with sh show ?thesis unfolding mark_frame_def by blast
qed

lemma write_barrier_keeps:
  assumes inv: "heap_inv h" and v: "payloads h a = Some v" "a \<in> dom (heads h)"
  shows "\<exists>t. with_write_barrier a f h = Some (fst (f v), t) \<and> keeps h t \<and>
    payloads t = (payloads h)(a \<mapsto> snd (f v)) \<and> mark_frame (h\<lparr>payloads := (payloads h)(a \<mapsto> snd (f v))\<rparr>) t"
proof -
  have ok: "heap_ok h" using inv by (simp add: heap_inv_def)
  from v(2) obtain g where g: "heads h a = Some g" by blast
  obtain c where c: "color g = Some c" using heap_ok_color [OF ok g] by blast
  let ?i = "unat (partition_id g)"
  have i: "?i < length (partitions h)" by (rule heap_ok_in_list [OF ok g])
  have m: "is_node_partition_marking a h = Some (pmarking h ?i)"
    using g i by (simp add: is_node_partition_marking_def is_marking_def get_par_def vec_get_def)
  obtain u where u: "(if pmarking h ?i then do { g \<leftarrow> heads h a; c \<leftarrow> color g;
        if c = Black then heap_add_gray_node a (put_head a (set_color Gray g) h) else Some h }
      else Some h) = Some u" "keeps h u" "mark_frame h u"
    "\<And>j. in_par u j a \<Longrightarrow> pmarking u j \<Longrightarrow> hcolor u a \<noteq> Some Black"
  proof (cases "pmarking h ?i \<and> c = Black")
    case True
    then have "color g = Some Black" "pmarking h ?i" using c by simp_all
    from regray_keeps [OF inv g this] obtain t where
      "heap_add_gray_node a (put_head a (set_color Gray g) h) = Some t" "keeps h t" "mark_frame h t"
      "hcolor t a = Some Gray" by blast
    with True c g show ?thesis by (intro that [of t]) simp_all
  next
    case False
    then show ?thesis
      using that [of h] keeps_refl [OF inv] c g obs_head [OF g] by (auto split: if_splits)
  qed
  have iu: "heap_inv u" using u(2) by (simp add: keeps_def)
  have pl: "payloads u a = Some v" using mark_frame_fields(1) [OF u(3)] v by simp
  let ?t = "u\<lparr>payloads := (payloads u)(a \<mapsto> snd (f v))\<rparr>"
  have "keeps u ?t" by (rule keeps_payload [OF iu _ u(4)]) (simp_all add: pl)
  then have "keeps h ?t" by (rule keeps_trans [OF u(2)])
  moreover have "with_write_barrier a f h = Some (fst (f v), ?t)"
    unfolding with_write_barrier_def m by (simp add: u(1) pl case_prod_beta)
  moreover have "mark_frame (h\<lparr>payloads := (payloads h)(a \<mapsto> snd (f v))\<rparr>) ?t"
    by (simp add: mark_frame_payload [OF u(3)] mark_frame_fields(1) [OF u(3)])
  ultimately show ?thesis
    using mark_frame_fields(1) [OF u(3)] by auto
qed

subsection \<open>Roots and locals\<close>

lemma edge_same_view:
  assumes "same_view h t" "payloads t = payloads h"
  shows "edge t a b = edge h a b"
proof -
  have "map_option hview (heads t a) = map_option hview (heads h a)" "node_dtypes t = node_dtypes h"
    using assms(1) by (simp_all add: same_view_def)
  with assms(2) show ?thesis
    by (cases "heads h a"; cases "heads t a") (auto simp: edge_def refs_of_def type_info_def hview_def)
qed

text \<open>A change of the root and local flags of one node.\<close>

lemma flag_change_obs:
  assumes inv: "heap_inv h" and g: "heads h a = Some g" and g': "hview g' = hview g" "color g' = color g"
  shows "heap_inv (put_head a g' h)" "zone S (put_head a g' h) = zone S h"
    "hcolor (put_head a g' h) = hcolor h" "edge (put_head a g' h) = edge h"
    "in_par (put_head a g' h) = in_par h"
proof -
  let ?u = "put_head a g' h"
  have ok: "heap_ok h" using inv by (simp add: heap_inv_def)
  have sv: "same_view h ?u" by (rule same_view_put_head [OF g g'(1)])
  show "hcolor ?u = hcolor h" using g g'(2) by (auto simp: fun_eq_iff obs_head)
  then show "heap_inv ?u"
    by (intro heap_inv_same_view [OF inv sv]) (use heap_ok_hcolor_dom [OF ok] in auto)
  show "in_par ?u = in_par h" by (simp only: fun_eq_iff same_view_obs(1) [OF sv] simp_thms)
  then show "zone S ?u = zone S h" by (simp add: zone_def)
  show "edge ?u = edge h" using edge_same_view [OF sv] by (simp add: fun_eq_iff)
qed

lemma keeps_flag:
  assumes inv: "heap_inv h" and g: "heads h a = Some g" and g': "hview g' = hview g" "color g' = color g"
    and rt: "pmarking h (unat (partition_id g)) \<Longrightarrow> is_root_or_local g' \<Longrightarrow> is_root_or_local g"
  shows "keeps h (put_head a g' h)"
proof -
  let ?u = "put_head a g' h"
  note ob = flag_change_obs [OF inv g g']
  have "tri_inv S ?u" if S: "\<forall>i\<in>S. i < length (partitions h) \<and> pmarking h i" and t: "tri_inv S h" for S
  proof -
    have "hroot h x" if "x \<in> zone S h" "hroot ?u x" for x
      using that rt S obs_head [OF g] by (auto simp: zone_def split: if_splits)
    with t show ?thesis
      unfolding tri_inv_def tri_inv_upto_def ob by (auto simp del: obs_put_head)
  qed
  with ob(1) show ?thesis by (simp add: keeps_def)
qed

lemma keeps_flag_gray:
  assumes inv: "heap_inv h" and g: "heads h a = Some g" and g': "hview g' = hview g" "color g' = color g"
    and mk: "pmarking h (unat (partition_id g))"
  shows "\<exists>t. par_add_gray_node (partition_id g) a (put_head a g' h) = Some t \<and> keeps h t \<and>
    shade (put_head a g' h) {a} t"
proof -
  let ?u = "put_head a g' h"
  note ob = flag_change_obs [OF inv g g']
  have ok: "heap_ok ?u" using ob(1) by (simp add: heap_inv_def)
  have pid: "partition_id g' = partition_id g" using g'(1) by (simp add: hview_def)
  have "heads ?u a = Some g'" by simp
  from par_add_gray_shade [OF ok this] pid obtain t where
    t: "par_add_gray_node (partition_id g) a ?u = Some t" "shade ?u {a} t" by auto
  have "keeps h t"
  proof (rule keeps_change_shade [OF ob(1) _ _ t(2)])
    fix S assume "\<forall>i\<in>S. i < length (partitions h) \<and> pmarking h i" and inv: "tri_inv S h"
    then show "(\<forall>b\<in>zone S ?u. hroot ?u b \<longrightarrow> hcolor ?u b = Some White \<longrightarrow> b \<in> {a}) \<and>
      (\<forall>x\<in>zone S ?u. \<forall>b\<in>zone S ?u. edge ?u x b \<longrightarrow> hcolor ?u x = Some Black \<longrightarrow> hcolor ?u b = Some White \<longrightarrow> b \<in> {a}) \<and>
      (\<forall>i\<in>S. \<forall>b. in_par ?u i b \<longrightarrow> hcolor ?u b = Some Gray \<longrightarrow> b \<in> set (glist ?u i) \<union> {a})"
      unfolding ob by (auto simp: tri_inv_def tri_inv_upto_def split: if_splits)
  qed (use mk obs_head(4) [OF g] in \<open>auto simp: ob\<close>)
  with t show ?thesis by blast
qed

lemma hview_flags [head_simps, simp]:
  "hview (insert_flag ROOT g) = hview g" "hview (insert_flag LOCAL g) = hview g"
  "hview (remove_flag LOCAL g) = hview g" "hview (set_color c g) = hview g"
  "color (insert_flag ROOT g) = color g" "color (insert_flag LOCAL g) = color g"
  "color (remove_flag LOCAL g) = color g"
  by (simp_all add: hview_def view_of decode_setters)

lemma root_flags [head_simps, simp]:
  "is_root_or_local (insert_flag ROOT g)" "is_root_or_local (insert_flag LOCAL g)"
  "is_root_or_local (remove_flag LOCAL g) = is_root g" "is_root (insert_flag ROOT g)"
  by (simp_all add: is_root_or_local_iff view_of decode_setters)

lemma set_root_keeps:
  assumes inv: "heap_inv h" and g: "heads h a = Some g"
  shows "\<exists>t. set_root_node a h = Some t \<and> keeps h t \<and> hroot t a \<and>
    mark_frame (put_head a (insert_flag ROOT g) h) t"
proof (cases "is_root g")
  case True
  have sh: "shape (insert_flag ROOT g) = shape g"
    using True hview_flags(1) [of g] by (simp add: shape_def hview_def insert_root_view)
  have "mark_frame (put_head a (insert_flag ROOT g) h) h"
    using g sh by (simp add: mark_frame_def put_head_def)
  with True g keeps_refl [OF inv] show ?thesis
    by (auto simp: set_root_node_def obs_head(2) [OF g] is_root_or_local_iff)
next
  case False
  let ?i = "unat (partition_id g)" and ?u = "put_head a (insert_flag ROOT g) h"
  have ok: "heap_ok h" using inv by (simp add: heap_inv_def)
  have i: "?i < length (partitions h)" by (rule heap_ok_in_list [OF ok g])
  have m: "is_marking ?u (partition_id g) = Some (pmarking h ?i)"
    using i by (simp add: is_marking_def get_par_def vec_get_def)
  have pid: "partition_id (insert_flag ROOT g) = partition_id g"
    using hview_flags(1) [of g] by (simp add: hview_def)
  show ?thesis
  proof (cases "pmarking h ?i")
    case True
    from keeps_flag_gray [OF inv g _ _ True, of "insert_flag ROOT g"] obtain t where
      t: "par_add_gray_node (partition_id g) a ?u = Some t" "keeps h t" "shade ?u {a} t" by auto
    have fr: "mark_frame ?u t" using t(3) by (simp add: shade_def shaded_def)
    then have "hroot t a" by (simp add: hroot_mark_frame)
    with fr t m True False g pid show ?thesis by (simp add: set_root_node_def)
  next
    case F: False
    have "keeps h ?u" by (rule keeps_flag [OF inv g]) (use F in simp_all)
    with m F False g pid show ?thesis by (simp add: set_root_node_def)
  qed
qed

subsection \<open>bind\<close>

lemma shade_trans:
  assumes a: "shade h C t" and b: "shade t D u"
  shows "shade h (C \<union> D) u"
proof -
  have fr: "mark_frame h t" using a by (simp add: shade_def shaded_def)
  have l: "length (partitions t) = length (partitions h)" by (rule mark_frame_fields [OF fr])
  have blk: "hcolor t c = Some Black \<longleftrightarrow> hcolor h c = Some Black" for c
    using a by (simp add: shade_def shaded_def)
  have "mark_frame h u" using a b mark_frame_trans by (auto simp: shade_def shaded_def)
  moreover have "hcolor u x = (if x \<in> C \<union> D \<and> hcolor h x = Some White then Some Gray else hcolor h x)" for x
    using a b by (auto simp: shade_def shaded_def)
  moreover have "hlisted u x \<longleftrightarrow> hlisted h x \<or> x \<in> C \<union> D \<and> hcolor h x \<noteq> Some Black" for x
    using a b blk unfolding shade_def shaded_def by blast
  moreover have "set (glist u j) = set (glist h j) \<union> {c \<in> C \<union> D. in_par h j c \<and> hcolor h c \<noteq> Some Black}"
    if "j < length (partitions h)" for j
    using a b that l blk by (auto simp: shade_def in_par_mark_frame [OF fr])
  ultimately show ?thesis using a b l by (simp add: shade_def shaded_def)
qed

lemma shade_empty: "shade h {} h"
  by (simp add: shade_def shaded_def)

lemma shade_regray:
  assumes g: "heads h a = Some g" "color g = Some c" "c \<noteq> Black"
    and sh: "shade (put_head a (set_color Gray g) h) {a} t"
  shows "shade h {a} t"
proof -
  have fr: "mark_frame h (put_head a (set_color Gray g) h)" by (rule mark_frame_put_head [OF g(1)]) simp
  have "hcolor h a = Some White \<or> hcolor h a = Some Gray"
    using g obs_head(1) [OF g(1)] by (cases c) auto
  with sh mark_frame_trans [OF fr] show ?thesis
    unfolding shade_def shaded_def in_par_mark_frame [OF fr]
    by (auto simp: obs_head(3) [OF g(1)] split: if_splits)
qed

lemma bind_barrier_shade:
  assumes ok: "heap_ok h" and m: "heads h m = Some mg" and s: "heads h s = Some sg"
    and mk: "pmarking h (unat (partition_id sg))"
  shows "\<exists>t C. bind_barrier m s h = Some t \<and> shade h C t \<and> C \<subseteq> {s} \<and> (hcolor h m = Some Black \<longrightarrow> C = {s})"
proof -
  obtain mc sc where c: "color mg = Some mc" "color sg = Some sc"
    using heap_ok_color [OF ok m] heap_ok_color [OF ok s] by blast
  have i: "unat (partition_id sg) < length (partitions h)" by (rule heap_ok_in_list [OF ok s])
  let ?u = "put_head s (set_color Gray sg) h"
  show ?thesis
  proof (cases "mc = Black \<and> sc \<noteq> Black")
    case True
    then have sc: "sc = White \<or> sc = Gray" by (cases sc) auto
    have sv: "same_view h ?u" by (rule same_view_put_head [OF s]) simp
    have oku: "heap_ok ?u" by (rule heap_ok_same_view [OF ok sv]) (use heap_ok_hcolor_dom [OF ok] in auto)
    have "heads ?u s = Some (set_color Gray sg)" by simp
    from heap_add_gray_shade [OF oku this] obtain t where t: "heap_add_gray_node s ?u = Some t"
      "shade ?u {s} t" by blast
    have "shade h {s} t" by (rule shade_regray [OF s c(2) _ t(2)]) (use True in simp)
    moreover have "bind_barrier m s h = Some t"
      using m s c True sc t(1) mk i by (simp add: bind_barrier_def Let_def get_par_def vec_get_def)
    ultimately show ?thesis by blast
  next
    case False
    have "bind_barrier m s h = Some h" using m s c False by (cases sc) (auto simp: bind_barrier_def)
    moreover have "shade h {s} h" if "hcolor h m = Some Black"
      using that False c obs_head(1) [OF m] obs_head(1) [OF s] by (intro shade_black) simp
    ultimately show ?thesis using shade_empty [of h] by (cases "hcolor h m = Some Black") auto
  qed
qed

lemma bind_cross_shade:
  assumes ok: "heap_ok h" and m: "heads h m = Some mg" and s: "heads h s = Some sg"
    and mk: "pmarking h (unat (partition_id sg))"
  shows "\<exists>t C. bind_cross m s h = Some t \<and> shade h C t \<and> C \<subseteq> {s}"
proof -
  obtain sc where c: "color sg = Some sc" using heap_ok_color [OF ok s] by blast
  have i: "unat (partition_id sg) < length (partitions h)" by (rule heap_ok_in_list [OF ok s])
  then have p: "get_par h (partition_id sg) = Some (partitions h ! unat (partition_id sg))" by (simp add: get_par_Some)
  show ?thesis
  proof (cases "partition_id mg \<noteq> partition_id sg \<and> sc \<noteq> Black")
    case True
    then have sc: "sc = White \<or> sc = Gray" by (cases sc) auto
    have g1: "(if sc = White then set_color Gray sg else sg) = set_color Gray sg"
      using sc set_color_same [OF c] by auto
    have "bind_cross m s h = par_add_gray_node (partition_id sg) s h"
      using m s c True sc p mk g1
      by (auto simp: bind_cross_def par_add_gray_node_def Let_def update_par_def)
    with par_add_gray_shade [OF ok s] show ?thesis by auto
  next
    case False
    then have "bind_cross m s h = Some h" using m s c by (auto simp: bind_cross_def)
    with shade_empty [of h] show ?thesis by blast
  qed
qed

lemma bind_shade:
  assumes ok: "heap_ok h" and m: "heads h m = Some mg" and s: "heads h s = Some sg"
    and mk: "pmarking h (unat (partition_id sg))"
  shows "\<exists>t C. bind m s h = Some t \<and> shade h C t \<and> C \<subseteq> {s} \<and> (hcolor h m = Some Black \<longrightarrow> C = {s})"
proof -
  from bind_barrier_shade [OF assms] obtain t C where t: "bind_barrier m s h = Some t" "shade h C t"
    "C \<subseteq> {s}" "hcolor h m = Some Black \<longrightarrow> C = {s}" by blast
  have C: "C \<subseteq> dom (heads h)" using t(3) s by blast
  have fr: "mark_frame h t" using t(2) by (simp add: shade_def shaded_def)
  have okt: "heap_ok t" by (rule shade_heap_ok [OF ok t(2) C])
  from mark_frame_head [OF fr m] obtain mg' where m': "heads t m = Some mg'" .
  from mark_frame_head [OF fr s] obtain sg' where s': "heads t s = Some sg'" "shape sg' = shape sg" .
  have i: "unat (partition_id sg) < length (partitions h)" by (rule heap_ok_in_list [OF ok s])
  have "pmarking t (unat (partition_id sg'))"
    using t(2) mk i shape_eqD(5) [OF s'(2)] by (simp add: shade_def shaded_def)
  from bind_cross_shade [OF okt m' s'(1) this] obtain u D where "bind_cross m s t = Some u" "shade t D u" "D \<subseteq> {s}"
    by blast
  with t shade_trans [OF t(2)] show ?thesis
    by (intro exI [of _ u] exI [of _ "C \<union> D"]) (auto simp: bind_def)
qed

text \<open>A slave whose partition is not being marked: at most its colour changes.\<close>

lemma bind_idle:
  assumes ok: "heap_ok h" and m: "heads h m = Some mg" and s: "heads h s = Some sg"
    and mk: "\<not> pmarking h (unat (partition_id sg))"
  shows "bind m s h = Some h \<or> bind m s h = Some (put_head s (set_color Gray sg) h)"
proof -
  obtain mc sc where c: "color mg = Some mc" "color sg = Some sc"
    using heap_ok_color [OF ok m] heap_ok_color [OF ok s] by blast
  have i: "unat (partition_id sg) < length (partitions h)" by (rule heap_ok_in_list [OF ok s])
  then have p: "get_par h (partition_id sg) = Some (partitions h ! unat (partition_id sg))" by (simp add: get_par_Some)
  let ?u = "put_head s (set_color Gray sg) h"
  have b: "bind_barrier m s h = Some h \<or> bind_barrier m s h = Some ?u"
    using m s c p mk by (auto simp: bind_barrier_def Let_def)
  have "bind_cross m s h = Some h" using m s c p mk by (auto simp: bind_cross_def)
  moreover have "bind_cross m s ?u = Some ?u"
  proof (cases "m = s")
    case True
    then show ?thesis by (simp add: bind_cross_def)
  next
    case False
    then show ?thesis using m s c p mk by (auto simp: bind_cross_def)
  qed
  ultimately show ?thesis using b by (auto simp: bind_def)
qed

lemma bind_store_keeps:
  assumes inv: "heap_inv h" and m: "payloads h m = Some v" "heads h m = Some mg"
    and s: "heads h s = Some sg" and info: "type_info h (dtype mg) = Some info"
    and refs: "set (ti_trace_fn info w) \<subseteq> set (ti_trace_fn info v) \<union> {s}"
  shows "\<exists>t. bind m s (h\<lparr>payloads := (payloads h)(m \<mapsto> w)\<rparr>) = Some t \<and> keeps h t \<and>
    mark_frame (h\<lparr>payloads := (payloads h)(m \<mapsto> w)\<rparr>) t"
proof -
  let ?u = "h\<lparr>payloads := (payloads h)(m \<mapsto> w)\<rparr>"
  have ok: "heap_ok h" using inv by (simp add: heap_inv_def)
  have sv: "same_view h ?u" using m(1) by (simp add: payload_update_obs)
  note ob = obs_heads [OF payload_update_obs(2), of h m w]
  have invu: "heap_inv ?u"
    by (rule heap_inv_same_view [OF inv sv]) (use heap_ok_hcolor_dom [OF ok] in \<open>simp add: ob\<close>)
  then have oku: "heap_ok ?u" by (simp add: heap_inv_def)
  have hd: "heads ?u m = Some mg" "heads ?u s = Some sg" using m(2) s by simp_all
  have z: "zone S ?u = zone S h" for S by (simp add: zone_def ob)
  have e: "edge h a b \<or> a = m \<and> b = s" if "edge ?u a b" for a b
  proof (cases "a = m")
    case True
    with that m info have "b \<in> set (ti_trace_fn info w)"
      by (auto simp: edge_def refs_of_def type_info_def)
    with refs have "b \<in> set (ti_trace_fn info v) \<or> b = s" by blast
    with True m info show ?thesis by (auto simp: edge_def refs_of_def)
  next
    case False
    with that show ?thesis by (simp add: payload_update_obs(3))
  qed
  show ?thesis
  proof (cases "pmarking h (unat (partition_id sg))")
    case True
    then have mk: "pmarking ?u (unat (partition_id sg))" by simp
    from bind_shade [OF oku hd mk] obtain t C where t: "bind m s ?u = Some t" "shade ?u C t" "C \<subseteq> {s}"
      "hcolor ?u m = Some Black \<longrightarrow> C = {s}" by blast
    have "keeps h t"
    proof (rule keeps_change_shade [OF invu _ _ t(2)])
      show "C \<subseteq> dom (heads ?u)" using t(3) hd(2) by blast
      show "pmarking h j" if "c \<in> C" "in_par ?u j c" for j c
        using that t(3) True obs_head(4) [OF s] by (auto simp: ob)
      fix S assume "tri_inv S h"
      then show "(\<forall>b\<in>zone S ?u. hroot ?u b \<longrightarrow> hcolor ?u b = Some White \<longrightarrow> b \<in> C) \<and>
        (\<forall>x\<in>zone S ?u. \<forall>b\<in>zone S ?u. edge ?u x b \<longrightarrow> hcolor ?u x = Some Black \<longrightarrow> hcolor ?u b = Some White \<longrightarrow> b \<in> C) \<and>
        (\<forall>i\<in>S. \<forall>b. in_par ?u i b \<longrightarrow> hcolor ?u b = Some Gray \<longrightarrow> b \<in> set (glist ?u i) \<union> C)"
        using t(4) unfolding z ob tri_inv_def tri_inv_upto_def by (auto simp: ob dest!: e)
    qed simp_all
    moreover have "mark_frame ?u t" using t(2) by (simp add: shade_def shaded_def)
    ultimately show ?thesis using t(1) by blast
  next
    case False
    have "\<not> pmarking ?u (unat (partition_id sg))" using False by simp
    from bind_idle [OF oku hd this] obtain t where t: "bind m s ?u = Some t"
      "t = ?u \<or> t = put_head s (set_color Gray sg) ?u" by blast
    have col: "hcolor t a = (if a = s \<and> t \<noteq> ?u then Some Gray else hcolor h a)" for a
      using t(2) hd(2) obs_head(1) [OF s] by (auto simp: ob obs_head)
    have svt: "same_view ?u t"
      using t(2) by (elim disjE) (simp, simp only:, rule same_view_put_head [OF hd(2)], simp)
    have invt: "heap_inv t"
      by (rule heap_inv_same_view [OF invu svt]) (use heap_ok_hcolor_dom [OF ok] in \<open>auto simp: col\<close>)
    have pt: "partitions t = partitions h" using t(2) by auto
    have hr: "hroot t = hroot h" using t(2) hd(2) obs_head(2) [OF s] by (auto simp: ob fun_eq_iff split: if_splits)
    have ip: "in_par t = in_par h" using same_view_obs(1) [OF svt] by (simp add: fun_eq_iff ob)
    have et: "edge t = edge ?u" using edge_same_view [OF svt] t(2) by (auto simp: fun_eq_iff)
    have "tri_inv S t" if S: "\<forall>i\<in>S. i < length (partitions h) \<and> pmarking h i" and tri: "tri_inv S h" for S
    proof -
      have zt: "zone S t = zone S h" by (simp add: zone_def ip)
      have ns: "s \<notin> zone S h" using False S obs_head(4) [OF s] by (auto simp: zone_def)
      then have "hcolor t a = hcolor h a" if "a \<in> zone S h" for a using that by (auto simp: col)
      moreover have "a \<in> zone S h" if "i \<in> S" "in_par h i a" for i a using that by (auto simp: zone_def)
      moreover have "edge h a b" if "edge t a b" "b \<in> zone S h" for a b using that e ns by (auto simp: et)
      ultimately show ?thesis
        using tri unfolding tri_inv_def tri_inv_upto_def zt hr ip pt by auto
    qed
    with invt pt have "keeps h t" by (simp add: keeps_def)
    moreover have "mark_frame ?u t"
      using t(2) mark_frame_put_head [OF hd(2), of "set_color Gray sg"] by auto
    ultimately show ?thesis using t(1) by blast
  qed
qed

end
