(* ===== verification/Gc_Alloc.thy ===== *)
theory Gc_Alloc
  imports Gc_Barrier
begin

section \<open>Allocation (src/src/mem.rs)\<close>

text \<open>
  What \<open>alloc_raw\<close> and \<open>alloc_root_raw\<close> do: every error branch hands the payload back and
  leaves the nodes alone, a success adds one node, keeps the heap well-formed and the marking
  phases intact, and stays below the memory limit.
\<close>

subsection \<open>Adding a node\<close>

definition node_added ::
  "'p gc_heap \<Rightarrow> nat \<Rightarrow> addr \<Rightarrow> gc_head \<Rightarrow> 'p \<Rightarrow> usize \<Rightarrow> 'p gc_heap \<Rightarrow> bool" where
  "node_added h i a g v sz t \<longleftrightarrow>
     heads h a = None \<and>
     heads t = (heads h)(a \<mapsto> g\<lparr>next_ptr := nodes (partitions h ! i)\<rparr>) \<and>
     payloads t = (payloads h)(a \<mapsto> v) \<and>
     length (partitions t) = length (partitions h) \<and>
     (\<forall>j<length (partitions h). drop_arena (partitions t ! j) =
        drop_arena (if j = i then (partitions h ! i)\<lparr>nodes := Some a,
            memory_used := memory_used (partitions h ! i) + sz\<rparr> else partitions h ! j)) \<and>
     arena_present t = arena_present h \<and>
     total_memory_used t = total_memory_used h + sz \<and>
     node_dtypes t = node_dtypes h \<and> weak_slots t = weak_slots h \<and> scope_stacks t = scope_stacks h \<and>
     memory_limit t = memory_limit h \<and> gc_threshold t = gc_threshold h"

lemma drop_arena_eqD:
  assumes "drop_arena p = drop_arena q"
  shows "nodes p = nodes q" "gray_list p = gray_list q" "marking p = marking q" "memory_used p = memory_used q"
  using arg_cong [OF assms, of nodes] arg_cong [OF assms, of gray_list] arg_cong [OF assms, of marking]
    arg_cong [OF assms, of memory_used]
  by (simp_all add: drop_arena_def)

lemma node_added_par:
  assumes "node_added h i a g v sz t" "j < length (partitions h)"
  shows "nodes (partitions t ! j) = (if j = i then Some a else nodes (partitions h ! j))"
    "glist t j = glist h j" "pmarking t j = pmarking h j"
proof -
  have "drop_arena (partitions t ! j) = drop_arena (if j = i then (partitions h ! i)\<lparr>nodes := Some a,
            memory_used := memory_used (partitions h ! i) + sz\<rparr> else partitions h ! j)"
    using assms by (simp add: node_added_def)
  from drop_arena_eqD [OF this]
  show "nodes (partitions t ! j) = (if j = i then Some a else nodes (partitions h ! j))"
    "glist t j = glist h j" "pmarking t j = pmarking h j" by (auto split: if_splits)
qed

lemma node_added_obs:
  assumes "node_added h i a g v sz t"
  shows "hcolor t b = (if b = a then color g else hcolor h b)"
    "hroot t b = (if b = a then is_root_or_local g else hroot h b)"
    "hlisted t b = (if b = a then is_gray_listed g else hlisted h b)"
    "in_par t j b = (if b = a then unat (partition_id g) = j else in_par h j b)"
    "b \<noteq> a \<Longrightarrow> edge t b c = edge h b c"
proof -
  have h: "heads t = (heads h)(a \<mapsto> g\<lparr>next_ptr := nodes (partitions h ! i)\<rparr>)"
    "payloads t = (payloads h)(a \<mapsto> v)" "node_dtypes t = node_dtypes h"
    using assms by (simp_all add: node_added_def)
  have f: "color (g\<lparr>next_ptr := n\<rparr>) = color g" "is_gray_listed (g\<lparr>next_ptr := n\<rparr>) = is_gray_listed g"
    "partition_id (g\<lparr>next_ptr := n\<rparr>) = partition_id g" for n
    by (simp_all add: color_def is_gray_listed_def partition_id_def)
  show "hcolor t b = (if b = a then color g else hcolor h b)"
    "hroot t b = (if b = a then is_root_or_local g else hroot h b)"
    "hlisted t b = (if b = a then is_gray_listed g else hlisted h b)"
    "in_par t j b = (if b = a then unat (partition_id g) = j else in_par h j b)"
    by (simp_all add: hcolor_def hroot_def hlisted_def in_par_def h f)
  show "edge t b c = edge h b c" if "b \<noteq> a"
    using that by (simp add: edge_def refs_of_def h type_info_def)
qed

definition new_node_ok :: "'p gc_heap \<Rightarrow> nat \<Rightarrow> gc_head \<Rightarrow> bool" where
  "new_node_ok h i g \<longleftrightarrow>
     i < length (partitions h) \<and> partition_id g = of_nat i \<and> color g = Some White \<and>
     \<not> is_gray_listed g \<and> weak_id g = 0 \<and>
     (\<exists>info. type_info h (dtype g) = Some info \<and> unat (ti_layout_size info) < 2 ^ 31 \<and>
        ti_drop_pass info \<in> set (drop_passes (node_dtypes h))) \<and>
     (contains_flag g ARENA_ALLOC \<longrightarrow> arena_present h i)"

lemma node_added_lists:
  assumes ok: "heap_ok h" and ad: "node_added h i a g v sz t" and j: "j < length (partitions h)"
  shows "par_list t j = (if j = i then a # par_list h j else par_list h j)"
    and "chain (heads t) (nodes (partitions t ! j)) (par_list t j)"
proof -
  have na: "heads h a = None" and hd: "heads t = (heads h)(a \<mapsto> g\<lparr>next_ptr := nodes (partitions h ! i)\<rparr>)"
    using ad by (simp_all add: node_added_def)
  have "a \<notin> set (par_list h j)" using na dom_in_list [OF ok j] by auto
  then have "chain (heads t) (nodes (partitions h ! j)) (par_list h j) =
      chain (heads h) (nodes (partitions h ! j)) (par_list h j)"
    by (intro chain_cong) (auto simp: hd)
  then have "chain (heads t) (nodes (partitions h ! j)) (par_list h j)"
    using heap_ok_chain [OF ok j] by simp
  then have c: "chain (heads t) (nodes (partitions t ! j)) (if j = i then a # par_list h j else par_list h j)"
    using node_added_par(1) [OF ad j] by (cases "j = i") (simp_all add: hd)
  show l: "par_list t j = (if j = i then a # par_list h j else par_list h j)"
    by (rule par_list_chain [OF c])
  show "chain (heads t) (nodes (partitions t ! j)) (par_list t j)" unfolding l by (rule c)
qed

lemma node_added_heap_ok:
  assumes ok: "heap_ok h" and ad: "node_added h i a g v sz t" and g: "new_node_ok h i g"
  shows "heap_ok t"
proof -
  have len: "length (partitions t) = length (partitions h)" and i: "i < length (partitions h)"
    and hd: "heads t = (heads h)(a \<mapsto> g\<lparr>next_ptr := nodes (partitions h ! i)\<rparr>)"
    and na: "heads h a = None" and pl: "payloads t = (payloads h)(a \<mapsto> v)"
    and ti: "type_info t = type_info h"
    using ad g by (simp_all add: node_added_def new_node_ok_def type_info_def fun_eq_iff)
  have f: "color (g\<lparr>next_ptr := n\<rparr>) = color g" "dtype (g\<lparr>next_ptr := n\<rparr>) = dtype g"
    "partition_id (g\<lparr>next_ptr := n\<rparr>) = partition_id g" for n
    by (simp_all add: color_def dtype_def partition_id_def)
  note ls = node_added_lists [OF ok ad] and np = node_added_par [OF ad] and ob = node_added_obs [OF ad]
  have u: "unat (partition_id g) = i"
    using g unat_of_nat_u16 [OF heap_ok_len [OF ok i]] by (simp add: new_node_ok_def)
  have "node_ok t j b" if j: "j < length (partitions h)" and b: "b \<in> set (par_list t j)" for j b
  proof (cases "b = a")
    case True
    have "j = i"
    proof (rule ccontr)
      assume "j \<noteq> i"
      then have "a \<in> set (par_list h j)" using b True ls(1) [OF j] by simp
      then show False using dom_in_list [OF ok j] na by auto
    qed
    with True g show ?thesis by (auto simp: node_ok_def hd pl ti f new_node_ok_def)
  next
    case False
    with b ls(1) [OF j] have "b \<in> set (par_list h j)" by (auto split: if_splits)
    then have "node_ok h j b" using ok j by (simp add: heap_ok_def)
    with False show ?thesis by (simp add: node_ok_def hd pl ti)
  qed
  moreover have "gray_ok t j" if j: "j < length (partitions h)" for j
  proof -
    have "a \<notin> set (glist h j)" using heap_ok_gray [OF ok j] na by (auto simp: gray_ok_def in_par_def)
    with heap_ok_gray [OF ok j] np(2) [OF j] g show ?thesis
      by (auto simp: gray_ok_def ob new_node_ok_def)
  qed
  moreover have "dom (heads t) \<subseteq> (\<Union>j<length (partitions h). set (par_list t j))"
  proof
    fix b assume "b \<in> dom (heads t)"
    then consider "b = a" | "b \<in> dom (heads h)" by (auto simp: hd split: if_splits)
    then show "b \<in> (\<Union>j<length (partitions h). set (par_list t j))"
    proof cases
      case 1
      then show ?thesis using i ls(1) [OF i] by (intro UN_I [of i]) auto
    next
      case 2
      then obtain j where j: "j < length (partitions h)" "b \<in> set (par_list h j)"
        using ok by (auto simp: heap_ok_def)
      then show ?thesis using ls(1) [OF j(1)] by (intro UN_I [of j]) auto
    qed
  qed
  ultimately show ?thesis using ok ls(2) by (simp add: heap_ok_def len)
qed

lemma node_added_heap_inv:
  assumes inv: "heap_inv h" and ad: "node_added h i a g v sz t" and g: "new_node_ok h i g"
  shows "heap_inv t"
proof -
  have ok: "heap_ok h" and d: "disp_ok h" and pk: "passes_ok h" and ak: "arena_nodes_ok h"
    using inv by (simp_all add: heap_inv_def)
  have len: "length (partitions t) = length (partitions h)" and i: "i < length (partitions h)"
    and hd: "heads t = (heads h)(a \<mapsto> g\<lparr>next_ptr := nodes (partitions h ! i)\<rparr>)"
    and na: "heads h a = None" and nd: "node_dtypes t = node_dtypes h"
    and ti: "type_info t = type_info h" and ws: "weak_slots t = weak_slots h"
    and ap: "arena_present t = arena_present h"
    using ad g by (simp_all add: node_added_def new_node_ok_def type_info_def fun_eq_iff)
  have f: "dtype (g\<lparr>next_ptr := n\<rparr>) = dtype g" "partition_id (g\<lparr>next_ptr := n\<rparr>) = partition_id g"
    "contains_flag (g\<lparr>next_ptr := n\<rparr>) fl = contains_flag g fl" for n fl
    by (simp_all add: dtype_def partition_id_def contains_flag_def)
  have u: "unat (partition_id g) = i"
    using g unat_of_nat_u16 [OF heap_ok_len [OF ok i]] by (simp add: new_node_ok_def)
  from g obtain info where info: "type_info h (dtype g) = Some info" "unat (ti_layout_size info) < 2 ^ 31"
    "ti_drop_pass info \<in> set (drop_passes (node_dtypes h))" by (auto simp: new_node_ok_def)
  have "weak_ok h" using d by (simp add: disp_ok_def)
  moreover have "snd (weak_slots h ! k) \<noteq> Some a" if "k < length (weak_slots h)" for k
    using that \<open>weak_ok h\<close> na by (auto simp: weak_ok_def)
  moreover have "weak_is_null (weak_id g)" using g by (simp add: new_node_ok_def weak_is_null_def weak_version_def)
  ultimately have "weak_ok t"
    unfolding weak_ok_def ws hd by (auto simp: fun_upd_def split: if_splits)
  moreover have "(\<exists>info. type_info t (dtype g') = Some info \<and> unat (ti_layout_size info) < 2 ^ 31) \<and>
      unat (partition_id g') < length (partitions t)" if "heads t b = Some g'" for b g'
    using that d info u i by (auto simp: hd disp_ok_def ti len f split: if_splits)
  ultimately have "disp_ok t" by (simp add: disp_ok_def)
  moreover have "passes_ok t"
  proof -
    have "pass_is t (ti_drop_pass info) a" using info by (simp add: pass_is_def hd ti f)
    moreover have "pass_is t q b = pass_is h q b" if "b \<noteq> a" for q b
      using that by (simp add: pass_is_def hd ti)
    ultimately have "\<exists>q\<in>set (drop_passes (node_dtypes h)). pass_is t q b" if "b \<in> dom (heads t)" for b
      using that pk info(3) by (cases "b = a") (auto simp: passes_ok_def hd)
    with pk show ?thesis by (simp add: passes_ok_def nd)
  qed
  moreover have "arena_nodes_ok t"
  proof -
    have "in_arena t b = (if b = a then contains_flag g ARENA_ALLOC else in_arena h b)" for b
      by (simp add: in_arena_def hd f)
    with ak g u show ?thesis
      by (auto simp: arena_nodes_ok_def ap node_added_obs [OF ad] new_node_ok_def)
  qed
  ultimately show ?thesis using node_added_heap_ok [OF ok ad g] by (simp add: heap_inv_def)
qed

text \<open>The new node is white and nothing refers to it: the invariant of the marking phases stays.\<close>

lemma node_added_tri:
  assumes inv: "heap_inv h" and cl: "refs_closed h" and ad: "node_added h i a g v sz t"
    and g: "new_node_ok h i g" and tri: "tri_inv S h"
    and S: "\<forall>i\<in>S. i < length (partitions h)"
  shows "(\<forall>b\<in>zone S t. hroot t b \<longrightarrow> hcolor t b = Some White \<longrightarrow> b = a \<and> is_root_or_local g)"
    "(\<forall>b\<in>zone S t. \<forall>c\<in>zone S t. edge t b c \<longrightarrow> hcolor t b = Some Black \<longrightarrow> hcolor t c \<noteq> Some White)"
    "(\<forall>i\<in>S. \<forall>b. in_par t i b \<longrightarrow> hcolor t b = Some Gray \<longrightarrow> b \<in> set (glist t i))"
proof -
  note ob = node_added_obs [OF ad]
  have w: "color g = Some White" using g by (simp add: new_node_ok_def)
  have na: "heads h a = None" using ad by (simp add: node_added_def)
  have z: "b \<in> zone S h" if "b \<in> zone S t" "b \<noteq> a" for b
    using that by (auto simp: zone_def ob)
  show "\<forall>b\<in>zone S t. hroot t b \<longrightarrow> hcolor t b = Some White \<longrightarrow> b = a \<and> is_root_or_local g"
    using tri z unfolding tri_inv_def tri_inv_upto_def by (auto simp: ob split: if_splits)
  show "\<forall>b\<in>zone S t. \<forall>c\<in>zone S t. edge t b c \<longrightarrow> hcolor t b = Some Black \<longrightarrow> hcolor t c \<noteq> Some White"
  proof (intro ballI impI)
    fix b c assume bc: "b \<in> zone S t" "c \<in> zone S t" "edge t b c" "hcolor t b = Some Black"
    then have b: "b \<noteq> a" using w by (auto simp: ob)
    with bc have e: "edge h b c" "hcolor h b = Some Black" by (simp_all add: ob)
    then have "c \<in> dom (heads h)" using cl by (auto simp: refs_closed_def)
    then have c: "c \<noteq> a" using na by auto
    have "hcolor h c \<noteq> Some White"
      using tri e z [OF bc(1) b] z [OF bc(2) c] unfolding tri_inv_def tri_inv_upto_def by blast
    with c show "hcolor t c \<noteq> Some White" by (simp add: ob)
  qed
  show "\<forall>i\<in>S. \<forall>b. in_par t i b \<longrightarrow> hcolor t b = Some Gray \<longrightarrow> b \<in> set (glist t i)"
    using tri S w node_added_par(2) [OF ad]
    unfolding tri_inv_def tri_inv_upto_def by (auto simp: ob split: if_splits)
qed

lemma node_added_keeps:
  assumes inv: "heap_inv h" and cl: "refs_closed h" and ad: "node_added h i a g v sz t"
    and g: "new_node_ok h i g" and rt: "\<not> is_root_or_local g \<or> \<not> pmarking h i"
  shows "keeps h t"
proof -
  have len: "length (partitions t) = length (partitions h)" using ad by (simp add: node_added_def)
  have ok: "heap_ok h" using inv by (simp add: heap_inv_def)
  have u: "unat (partition_id g) = i"
    using g unat_of_nat_u16 heap_ok_len [OF ok] by (simp add: new_node_ok_def)
  have "tri_inv S t" if S: "\<forall>i\<in>S. i < length (partitions h) \<and> pmarking h i" and tri: "tri_inv S h" for S
  proof -
    have Sb: "\<forall>i\<in>S. i < length (partitions h)" using S by blast
    note nt = node_added_tri [OF inv cl ad g tri Sb]
    have "\<not> is_root_or_local g" if "a \<in> zone S t"
      using that rt S u by (auto simp: zone_def node_added_obs [OF ad])
    with nt show ?thesis unfolding tri_inv_def tri_inv_upto_def by blast
  qed
  with node_added_heap_inv [OF inv ad g] node_added_par [OF ad] show ?thesis
    by (simp add: keeps_def len)
qed

lemma node_added_gray_keeps:
  assumes inv: "heap_inv h" and cl: "refs_closed h" and ad: "node_added h i a g v sz t"
    and g: "new_node_ok h i g" and mk: "pmarking h i"
  shows "\<exists>u. par_add_gray_node (of_nat i) a t = Some u \<and> keeps h u \<and> shade t {a} u"
proof -
  have ok: "heap_ok h" using inv by (simp add: heap_inv_def)
  have it: "heap_inv t" by (rule node_added_heap_inv [OF inv ad g])
  then have okt: "heap_ok t" by (simp add: heap_inv_def)
  have len: "length (partitions t) = length (partitions h)" using ad by (simp add: node_added_def)
  have u: "unat (partition_id g) = i"
    using g unat_of_nat_u16 heap_ok_len [OF ok] by (simp add: new_node_ok_def)
  have ha: "heads t a = Some (g\<lparr>next_ptr := nodes (partitions h ! i)\<rparr>)" using ad by (simp add: node_added_def)
  have pid: "partition_id (g\<lparr>next_ptr := n\<rparr>) = of_nat i" for n
    using g by (simp add: new_node_ok_def partition_id_def)
  from par_add_gray_shade [OF okt ha] obtain u' where
    s: "par_add_gray_node (of_nat i) a t = Some u'" "shade t {a} u'" unfolding pid by blast
  have "keeps h u'"
  proof (rule keeps_change_shade [OF it len _ s(2)])
    show "pmarking t j = pmarking h j \<and> set (glist t j) = set (glist h j)" if "j < length (partitions h)" for j
      using node_added_par [OF ad that] by simp
    show "{a} \<subseteq> dom (heads t)" using ha by auto
    show "pmarking h j" if "c \<in> {a}" "in_par t j c" for j c
      using that mk u by (simp add: node_added_obs [OF ad])
    fix S assume S: "\<forall>i\<in>S. i < length (partitions h) \<and> pmarking h i" "tri_inv S h"
    then have "\<forall>i\<in>S. i < length (partitions h)" by blast
    note nt = node_added_tri [OF inv cl ad g S(2) this]
    then show "(\<forall>b\<in>zone S t. hroot t b \<longrightarrow> hcolor t b = Some White \<longrightarrow> b \<in> {a}) \<and>
      (\<forall>x\<in>zone S t. \<forall>b\<in>zone S t. edge t x b \<longrightarrow> hcolor t x = Some Black \<longrightarrow> hcolor t b = Some White \<longrightarrow> b \<in> {a}) \<and>
      (\<forall>i\<in>S. \<forall>b. in_par t i b \<longrightarrow> hcolor t b = Some Gray \<longrightarrow> b \<in> set (glist t i) \<union> {a})"
      by blast
  qed
  with s show ?thesis by blast
qed

subsection \<open>The state before the node is attached\<close>

text \<open>What a client sees of an allocation, whatever marking does to the colours meanwhile.\<close>

definition node_born :: "'p gc_heap \<Rightarrow> u16 \<Rightarrow> u8 \<Rightarrow> addr \<Rightarrow> 'p \<Rightarrow> 'p gc_heap \<Rightarrow> bool" where
  "node_born h pid gt a v t \<longleftrightarrow>
     heads h a = None \<and> payloads t = (payloads h)(a \<mapsto> v) \<and> node_dtypes t = node_dtypes h \<and>
     map_option (\<lambda>g. (dtype g, partition_id g)) \<circ> heads t =
       (map_option (\<lambda>g. (dtype g, partition_id g)) \<circ> heads h)(a \<mapsto> (gt, pid))"

lemma node_born_head:
  assumes "node_born h pid gt a v t"
  shows "map_option (\<lambda>g. (dtype g, partition_id g)) (heads t b) =
    (if b = a then Some (gt, pid) else map_option (\<lambda>g. (dtype g, partition_id g)) (heads h b))"
proof -
  have "(map_option (\<lambda>g. (dtype g, partition_id g)) \<circ> heads t) b =
    ((map_option (\<lambda>g. (dtype g, partition_id g)) \<circ> heads h)(a \<mapsto> (gt, pid))) b"
    using assms by (simp only: node_born_def)
  then show ?thesis by (simp only: comp_apply fun_upd_apply)
qed

lemma node_born_obs:
  assumes b: "node_born h pid gt a v t"
  shows "in_par t i b \<longleftrightarrow> in_par h i b \<or> b = a \<and> i = unat pid"
    "dom (heads t) = insert a (dom (heads h))" "b \<noteq> a \<Longrightarrow> edge t b c = edge h b c"
    "edge t a c \<Longrightarrow> type_info h gt = Some info \<Longrightarrow> c \<in> set (ti_trace_fn info v)"
proof -
  note nb = node_born_head [OF b]
  have f: "heads h a = None" "payloads t = (payloads h)(a \<mapsto> v)" "type_info t = type_info h"
    using b by (simp_all add: node_born_def type_info_def fun_eq_iff)
  have hd: "x = a \<Longrightarrow> \<exists>g. heads t x = Some g \<and> dtype g = gt \<and> partition_id g = pid" for x
    using nb [of x] by auto
  have oth: "x \<noteq> a \<Longrightarrow> (heads t x = None) = (heads h x = None)" for x
    using nb [of x] by (cases "heads t x"; cases "heads h x") auto
  show "in_par t i b \<longleftrightarrow> in_par h i b \<or> b = a \<and> i = unat pid"
    using nb [of b] f(1) by (cases "heads t b"; cases "heads h b") (auto simp: in_par_def split: if_splits)
  show "dom (heads t) = insert a (dom (heads h))"
  proof (rule set_eqI)
    fix x show "x \<in> dom (heads t) \<longleftrightarrow> x \<in> insert a (dom (heads h))"
      using oth [of x] hd [of x] by (cases "x = a") (auto simp: domIff)
  qed
  show "edge t b c = edge h b c" if "b \<noteq> a"
    using nb [of b] that
    by (cases "heads t b"; cases "heads h b") (auto simp: edge_def refs_of_def f)
  show "c \<in> set (ti_trace_fn info v)" if "edge t a c" "type_info h gt = Some info"
    using that hd [OF refl] by (auto simp: edge_def refs_of_def f)
qed

lemma node_added_born:
  assumes "node_added h (unat pid) a g v sz t" "new_node_ok h (unat pid) g"
  shows "node_born h pid (dtype g) a v t"
proof -
  have "partition_id g = pid" using assms(2) by (simp add: new_node_ok_def)
  then show ?thesis
    using assms(1) by (auto simp: node_added_def node_born_def fun_eq_iff next_update_view)
qed

lemma node_born_mark_frame:
  assumes b: "node_born h pid gt a v t" and fr: "mark_frame t u"
  shows "node_born h pid gt a v u"
proof -
  have "map_option (\<lambda>g. (dtype g, partition_id g)) (heads u x) = map_option (\<lambda>g. (dtype g, partition_id g)) (heads t x)" for x
    using mark_frame_shape [OF fr, of x]
    by (cases "heads u x"; cases "heads t x") (auto simp: shape_def)
  with b show ?thesis by (simp add: node_born_def mark_frame_fields [OF fr] fun_eq_iff)
qed

definition node_written ::
  "'p gc_heap \<Rightarrow> nat \<Rightarrow> addr \<Rightarrow> gc_head \<Rightarrow> 'p \<Rightarrow> usize \<Rightarrow> 'p gc_heap \<Rightarrow> bool" where
  "node_written h i a g v sz t \<longleftrightarrow>
     heads h a = None \<and> heads t = (heads h)(a \<mapsto> g) \<and> payloads t = (payloads h)(a \<mapsto> v) \<and>
     length (partitions t) = length (partitions h) \<and>
     (\<forall>j<length (partitions h). drop_arena (partitions t ! j) =
        drop_arena (if j = i then (partitions h ! i)\<lparr>
            memory_used := memory_used (partitions h ! i) + sz\<rparr> else partitions h ! j)) \<and>
     arena_present t = arena_present h \<and>
     total_memory_used t = total_memory_used h + sz \<and>
     node_dtypes t = node_dtypes h \<and> weak_slots t = weak_slots h \<and> scope_stacks t = scope_stacks h \<and>
     memory_limit t = memory_limit h \<and> gc_threshold t = gc_threshold h"

lemma node_written_flag:
  assumes "node_written h i a g v sz t"
  shows "\<exists>u. update_head f a t = Some u \<and> node_written h i a (f g) v sz u"
proof -
  have "heads t a = Some g" using assms by (simp add: node_written_def)
  then have "update_head f a t = Some (put_head a (f g) t)" by (simp add: update_head_def)
  moreover have "arena_present (put_head a (f g) t) = arena_present t"
    by (rule arena_present_cong) (simp add: arenas_def)
  then have "node_written h i a (f g) v sz (put_head a (f g) t)" using assms by (simp add: node_written_def)
  ultimately show ?thesis by blast
qed

lemma attach_written:
  assumes w: "node_written h i a g v sz t" and i: "unat pid = i" "i < length (partitions h)"
  shows "\<exists>u. attach_node pid a t = Some u \<and> node_added h i a g v sz u"
proof -
  let ?p = "partitions t ! i"
  have hd: "heads t a = Some g" and len: "length (partitions t) = length (partitions h)"
    using w by (simp_all add: node_written_def)
  have par: "drop_arena (partitions t ! j) = drop_arena (if j = i then (partitions h ! i)\<lparr>
            memory_used := memory_used (partitions h ! i) + sz\<rparr> else partitions h ! j)"
    if "j < length (partitions h)" for j using w that by (simp add: node_written_def)
  have n: "nodes ?p = nodes (partitions h ! i)" using drop_arena_eqD(1) [OF par [OF i(2)]] by simp
  have gp: "get_par t pid = Some ?p" using i len by (simp add: get_par_Some)
  let ?u = "put_par pid (?p\<lparr>nodes := Some a\<rparr>) (put_head a (g\<lparr>next_ptr := nodes ?p\<rparr>) t)"
  have "attach_node pid a t = Some ?u"
    using hd gp by (simp add: attach_node_def link_prepend_def update_head_def)
  moreover have "arena_present ?u = arena_present t"
    by (rule arena_present_cong) (use i len in \<open>simp add: arenas_def map_field_update [where f = arena]\<close>)
  moreover have com: "drop_arena (p\<lparr>nodes := x\<rparr>) = (drop_arena p)\<lparr>nodes := x\<rparr>"
    "drop_arena (p\<lparr>memory_used := y\<rparr>) = (drop_arena p)\<lparr>memory_used := y\<rparr>" for p x y
    by (cases p, simp add: drop_arena_def)+
  have "drop_arena (partitions ?u ! j) = drop_arena (if j = i then (partitions h ! i)\<lparr>nodes := Some a,
            memory_used := memory_used (partitions h ! i) + sz\<rparr> else partitions h ! j)"
    if "j < length (partitions h)" for j
    using par [OF that] i len that by (cases "j = i") (simp_all add: com)
  ultimately show ?thesis using w n by (simp add: node_added_def node_written_def)
qed

text \<open>
  What allocation relies on: the memory the system allocator or the arena returns is not a node
  of the heap.
\<close>

definition fresh_memory :: "u16 \<Rightarrow> layout \<Rightarrow> addr option \<Rightarrow> 'p gc_heap \<Rightarrow> bool" where
  "fresh_memory pid l sys h \<longleftrightarrow>
     (\<forall>p. sys = Some p \<longrightarrow> heads h p = None) \<and>
     (\<forall>par ar. get_par h pid = Some par \<longrightarrow> arena par = Some ar \<longrightarrow>
        (\<exists>r ar'. arena_alloc l ar = Some (r, ar') \<and> (\<forall>p. r = Some p \<longrightarrow> heads h p = None)))"

definition arena_frame :: "'p gc_heap \<Rightarrow> 'p gc_heap \<Rightarrow> bool" where
  "arena_frame h t \<longleftrightarrow>
     t = h\<lparr>partitions := partitions t\<rparr> \<and> map drop_arena (partitions t) = map drop_arena (partitions h) \<and>
     arena_present t = arena_present h"

lemma try_arena_correct:
  assumes p: "get_par h pid = Some par" and fr: "fresh_memory pid l sys h"
  shows "\<exists>r t. try_arena pid skip l h = Some (r, t) \<and> arena_frame h t \<and>
    (\<forall>a. r = Some a \<longrightarrow> heads h a = None \<and> arena_present h (unat pid)) \<and> (skip \<longrightarrow> r = None)"
proof -
  have i: "unat pid < length (partitions h)" "par = partitions h ! unat pid" using p by (simp_all add: get_par_Some)
  have refl: "arena_frame h h" by (simp add: arena_frame_def)
  show ?thesis
  proof (cases "\<not> skip \<and> l_size l \<le> arena_max_alloc par \<and> arena par \<noteq> None")
    case False
    with p refl show ?thesis by (auto simp: try_arena_def)
  next
    case True
    then obtain ar where ar: "arena par = Some ar" by blast
    with fr p obtain r ar' where al: "arena_alloc l ar = Some (r, ar')" "\<forall>a. r = Some a \<longrightarrow> heads h a = None"
      unfolding fresh_memory_def by blast
    let ?t = "put_par pid (par\<lparr>arena := Some ar'\<rparr>) h"
    have "map drop_arena (partitions ?t) = map drop_arena (partitions h)"
      using i by (simp add: map_field_update [where f = drop_arena] drop_arena_update)
    moreover have "arena_present ?t = arena_present h" using put_arena(2) [OF p] ar by simp
    ultimately have "arena_frame h ?t" by (simp add: arena_frame_def put_par_def)
    moreover have "arena_present h (unat pid)" using ar i by (simp add: arena_present_par)
    ultimately show ?thesis using True p ar al by (auto simp: try_arena_def)
  qed
qed

lemma write_node_correct:
  assumes fr: "arena_frame h h1" and a: "heads h a = None" and i: "unat pid < length (partitions h)"
    and sz: "unat sz < 2 ^ 31"
  shows "\<exists>t. write_node pid ats v sz a h1 = Some t \<and> node_written h (unat pid) a
    \<lparr>attrs = ats, partition_word = ucast pid, weak_id = 0, next_ptr = None\<rparr> v sz t"
proof -
  let ?g = "\<lparr>attrs = ats, partition_word = ucast pid, weak_id = 0, next_ptr = None\<rparr>"
  let ?h2 = "put_head a ?g (h1\<lparr>payloads := (payloads h1)(a \<mapsto> v)\<rparr>)" and ?i = "unat pid"
  have da: "map drop_arena (partitions h1) = map drop_arena (partitions h)"
    and ap: "arena_present h1 = arena_present h"
    and e: "h1 = h\<lparr>partitions := partitions h1\<rparr>" using fr by (simp_all add: arena_frame_def)
  have f: "heads h1 = heads h" "payloads h1 = payloads h" "total_memory_used h1 = total_memory_used h"
    "node_dtypes h1 = node_dtypes h" "weak_slots h1 = weak_slots h" "scope_stacks h1 = scope_stacks h"
    "memory_limit h1 = memory_limit h" "gc_threshold h1 = gc_threshold h"
    by (subst e, simp)+
  have len: "length (partitions h1) = length (partitions h)" using da by (metis length_map)
  have dj: "drop_arena (partitions h1 ! j) = drop_arena (partitions h ! j)" if "j < length (partitions h)" for j
    using arg_cong [OF da, of "\<lambda>l. l ! j"] that len by simp
  let ?p = "partitions h1 ! ?i"
  have gp: "get_par ?h2 pid = Some ?p" using i len by (simp add: get_par_def vec_get_def)
  let ?t = "put_par pid (?p\<lparr>memory_used := memory_used ?p + sz\<rparr>)
            (?h2\<lparr>total_memory_used := total_memory_used ?h2 + sz\<rparr>)"
  have "write_node pid ats v sz a h1 = Some ?t"
    unfolding write_node_def Let_def update_mem_use_add [OF sz gp] by simp
  moreover have "arena_present ?t = arena_present h1"
    by (rule arena_present_cong) (use i len in \<open>simp add: arenas_def map_field_update [where f = arena]\<close>)
  moreover have "drop_arena (partitions ?t ! j) = drop_arena (if j = ?i then (partitions h ! ?i)\<lparr>
            memory_used := memory_used (partitions h ! ?i) + sz\<rparr> else partitions h ! j)"
    if j: "j < length (partitions h)" for j
  proof (cases "j = ?i")
    case True
    have "memory_used ?p = memory_used (partitions h ! ?i)" using drop_arena_eqD(4) [OF dj [OF i]] .
    moreover have "drop_arena (p\<lparr>memory_used := x\<rparr>) = (drop_arena p)\<lparr>memory_used := x\<rparr>" for p x
      by (cases p) (simp add: drop_arena_def)
    ultimately show ?thesis using True dj [OF i] i len by simp
  next
    case False
    with dj [OF j] len i show ?thesis by simp
  qed
  ultimately show ?thesis using a f ap len by (auto simp: node_written_def)
qed

subsection \<open>The operations\<close>

definition fresh_head :: "u32 \<Rightarrow> u16 \<Rightarrow> gc_head" where
  "fresh_head ats pid = \<lparr>attrs = ats, partition_word = ucast pid, weak_id = 0, next_ptr = None\<rparr>"

lemma fresh_head_view:
  assumes "ats = fresh_attrs ty \<or> ats = fresh_attrs ty OR ucast ARENA_ALLOC"
  shows "color (fresh_head ats pid) = Some White" "\<not> is_gray_listed (fresh_head ats pid)"
    "\<not> is_root_or_local (fresh_head ats pid)" "dtype (fresh_head ats pid) = ty"
    "partition_id (fresh_head ats pid) = pid" "weak_id (fresh_head ats pid) = 0"
    "contains_flag (fresh_head ats pid) ARENA_ALLOC \<longleftrightarrow> ats \<noteq> fresh_attrs ty"
proof -
  let ?g = "fresh_head (fresh_attrs ty) pid"
  have a: "attrs ?g = fresh_attrs ty" by (simp add: fresh_head_def)
  note v = fresh_view [OF a] dtype_fresh [OF a]
  have ins: "fresh_head (fresh_attrs ty OR ucast ARENA_ALLOC) pid = insert_flag ARENA_ALLOC ?g"
    by (simp add: fresh_head_def insert_flag_def)
  have d: "decode (insert_flag ARENA_ALLOC ?g) = (decode ?g)\<lparr>v_arena := True\<rparr>" by (rule decode_insert_flag)
  have ne: "fresh_attrs ty OR ucast ARENA_ALLOC \<noteq> fresh_attrs ty"
  proof
    assume "fresh_attrs ty OR ucast ARENA_ALLOC = fresh_attrs ty"
    then have "bit (fresh_attrs ty OR ucast ARENA_ALLOC) 2 = bit (fresh_attrs ty) 2" by simp
    then show False by (simp add: bit_or_iff bit_flag_u32 bit_fresh_attrs)
  qed
  show "color (fresh_head ats pid) = Some White" "\<not> is_gray_listed (fresh_head ats pid)"
    "\<not> is_root_or_local (fresh_head ats pid)" "dtype (fresh_head ats pid) = ty"
    "contains_flag (fresh_head ats pid) ARENA_ALLOC \<longleftrightarrow> ats \<noteq> fresh_attrs ty"
    using assms v ne unfolding is_root_or_local_iff
    by (auto simp: ins view_of d)
  show "weak_id (fresh_head ats pid) = 0" by (simp add: fresh_head_def)
  show "partition_id (fresh_head ats pid) = pid"
  proof (rule bit_word_eqI)
    fix n assume "n < LENGTH(16)"
    have ff: "(0x0000FFFF :: u32) = mask 16" by (simp add: mask_eq_exp_minus_1)
    show "bit (partition_id (fresh_head ats pid)) n = bit pid n"
      using \<open>n < LENGTH(16)\<close> unfolding partition_id_def fresh_head_def gc_head.simps ff
      by (auto simp: bit_simps)
  qed
qed

text \<open>What the registry has to know of an allocated type, and the limit check.\<close>

definition type_known :: "'p gc_heap \<Rightarrow> 'p rust_type \<Rightarrow> u8 \<Rightarrow> bool" where
  "type_known h ty gt \<longleftrightarrow>
     (\<exists>info. type_info h gt = Some info \<and> ti_layout_size info = layout_size_of ty \<and>
        unat (layout_size_of ty) < 2 ^ 31 \<and> ti_drop_pass info \<in> set (drop_passes (node_dtypes h)))"

definition over_limit :: "'p gc_heap \<Rightarrow> usize \<Rightarrow> bool" where
  "over_limit h sz \<longleftrightarrow> memory_limit h > 0 \<and> total_memory_used h + sz > memory_limit h"

lemma alloc_node_mem_correct:
  assumes p: "get_par h pid = Some par" and ty: "type_known h ty gt"
    and l: "layout_from_size_align (layout_size_of ty) (layout_align_of ty) = Some l"
    and lim: "\<not> over_limit h (layout_size_of ty)" and fr: "fresh_memory pid l sys h"
  shows "\<exists>r t. alloc_node_mem ty gt pid v skip sys h = Some (r, t) \<and>
    (case r of
       Inl (e, w) \<Rightarrow> e = AllocationFailed \<and> w = v \<and> sys = None \<and> arena_frame h t
     | Inr (a, sz) \<Rightarrow> sz = layout_size_of ty \<and>
         (\<exists>ats. (ats = fresh_attrs gt \<or> \<not> skip \<and> ats = fresh_attrs gt OR ucast ARENA_ALLOC) \<and>
            new_node_ok h (unat pid) (fresh_head ats pid) \<and>
            node_written h (unat pid) a (fresh_head ats pid) v sz t))"
proof -
  let ?sz = "layout_size_of ty" and ?i = "unat pid"
  have i: "?i < length (partitions h)" using p by (simp add: get_par_Some)
  have lsz: "l_size l = ?sz" using l by (auto simp: layout_from_size_align_def split: if_splits)
  from ty obtain info where info: "type_info h gt = Some info" "ti_layout_size info = ?sz"
    "unat ?sz < 2 ^ 31" "ti_drop_pass info \<in> set (drop_passes (node_dtypes h))"
    by (auto simp: type_known_def)
  have nlim: "\<not> (memory_limit h > 0 \<and> total_memory_used h + ?sz > memory_limit h)"
    using lim by (simp add: over_limit_def)
  from try_arena_correct [OF p fr, of skip] obtain r h1 where
    r: "try_arena pid skip l h = Some (r, h1)" "arena_frame h h1"
      "\<forall>a. r = Some a \<longrightarrow> heads h a = None \<and> arena_present h ?i" "skip \<longrightarrow> r = None" by blast
  have nn: "new_node_ok h ?i (fresh_head ats pid)"
    if "ats = fresh_attrs gt \<or> ats = fresh_attrs gt OR ucast ARENA_ALLOC" "ats \<noteq> fresh_attrs gt \<longrightarrow> arena_present h ?i"
    for ats
    using fresh_head_view [OF that(1), of pid] that(2) info i by (simp add: new_node_ok_def)
  show ?thesis
  proof (cases r)
    case (Some a)
    with r have a: "heads h a = None" "arena_present h ?i" "\<not> skip" by auto
    let ?ats = "fresh_attrs gt OR ucast ARENA_ALLOC"
    from write_node_correct [OF r(2) a(1) i info(3), of ?ats v] obtain t where
      t: "write_node pid ?ats v ?sz a h1 = Some t" "node_written h ?i a (fresh_head ?ats pid) v ?sz t"
      unfolding fresh_head_def [symmetric] by blast
    have "alloc_node_mem ty gt pid v skip sys h = Some (Inr (a, ?sz), t)"
      using p l nlim r(1) Some t(1) lsz by (auto simp: alloc_node_mem_def Let_def)
    with t(2) a nn [of ?ats] show ?thesis by auto
  next
    case None
    show ?thesis
    proof (cases sys)
      case None': None
      then have "alloc_node_mem ty gt pid v skip sys h = Some (Inl (AllocationFailed, v), h1)"
        using p l nlim r(1) None lsz by (auto simp: alloc_node_mem_def Let_def)
      with None' r(2) show ?thesis by auto
    next
      case (Some a)
      have a: "heads h a = None" using fr Some by (simp add: fresh_memory_def)
      from write_node_correct [OF r(2) a i info(3), of "fresh_attrs gt" v] obtain t where
        t: "write_node pid (fresh_attrs gt) v ?sz a h1 = Some t"
          "node_written h ?i a (fresh_head (fresh_attrs gt) pid) v ?sz t"
        unfolding fresh_head_def [symmetric] by blast
      have "alloc_node_mem ty gt pid v skip sys h = Some (Inr (a, ?sz), t)"
        using p l nlim r(1) None Some t(1) lsz by (auto simp: alloc_node_mem_def Let_def)
      with t(2) nn [of "fresh_attrs gt"] show ?thesis by auto
    qed
  qed
qed

lemma alloc_errors:
  "get_par h pid = None \<Longrightarrow>
     alloc_raw ty gt pid v sys h = Some (Inl (PartitionNotFound, v), h) \<and>
     alloc_root_raw ty gt pid v sys h = Some (Inl (PartitionNotFound, v), h)"
  "get_par h pid \<noteq> None \<Longrightarrow> layout_from_size_align (layout_size_of ty) (layout_align_of ty) = None \<Longrightarrow>
     alloc_raw ty gt pid v sys h = Some (Inl (AllocationFailed, v), h) \<and>
     alloc_root_raw ty gt pid v sys h = Some (Inl (AllocationFailed, v), h)"
  "get_par h pid \<noteq> None \<Longrightarrow> layout_from_size_align (layout_size_of ty) (layout_align_of ty) \<noteq> None \<Longrightarrow>
     over_limit h (layout_size_of ty) \<Longrightarrow>
     alloc_raw ty gt pid v sys h = Some (Inl (PartitionFull, v), h) \<and>
     alloc_root_raw ty gt pid v sys h = Some (Inl (PartitionFull, v), h)"
  by (auto simp: alloc_raw_def alloc_root_raw_def alloc_node_mem_def over_limit_def
      layout_from_size_align_def Let_def split: if_splits)

lemma alloc_raw_correct:
  assumes inv: "heap_inv h" and cl: "refs_closed h" and p: "get_par h pid = Some par"
    and ty: "type_known h ty gt"
    and l: "layout_from_size_align (layout_size_of ty) (layout_align_of ty) = Some l"
    and lim: "\<not> over_limit h (layout_size_of ty)" and fr: "fresh_memory pid l sys h"
  shows "\<exists>r t. alloc_raw ty gt pid v sys h = Some (r, t) \<and>
    (case r of
       Inl (e, w) \<Rightarrow> e = AllocationFailed \<and> w = v \<and> sys = None \<and> arena_frame h t
     | Inr a \<Rightarrow> keeps h t \<and>
         (\<exists>g. node_added h (unat pid) a g v (layout_size_of ty) t \<and> new_node_ok h (unat pid) g \<and>
            \<not> is_root_or_local g \<and> dtype g = gt))"
proof -
  from alloc_node_mem_correct [OF p ty l lim fr, of v False] obtain r t where
    r: "alloc_node_mem ty gt pid v False sys h = Some (r, t)"
    "case r of
       Inl (e, w) \<Rightarrow> e = AllocationFailed \<and> w = v \<and> sys = None \<and> arena_frame h t
     | Inr (a, sz) \<Rightarrow> sz = layout_size_of ty \<and>
         (\<exists>ats. (ats = fresh_attrs gt \<or> \<not> False \<and> ats = fresh_attrs gt OR ucast ARENA_ALLOC) \<and>
            new_node_ok h (unat pid) (fresh_head ats pid) \<and>
            node_written h (unat pid) a (fresh_head ats pid) v sz t)" by blast
  have i: "unat pid < length (partitions h)" using p by (simp add: get_par_Some)
  show ?thesis
  proof (cases r)
    case (Inl e)
    with r show ?thesis by (auto simp: alloc_raw_def)
  next
    case (Inr q)
    with r(2) obtain a ats where q: "q = (a, layout_size_of ty)" and
      ats: "ats = fresh_attrs gt \<or> ats = fresh_attrs gt OR ucast ARENA_ALLOC" and
      w: "new_node_ok h (unat pid) (fresh_head ats pid)"
      "node_written h (unat pid) a (fresh_head ats pid) v (layout_size_of ty) t" by (cases q) auto
    from attach_written [OF w(2) refl i] obtain u where
      u: "attach_node pid a t = Some u" "node_added h (unat pid) a (fresh_head ats pid) v (layout_size_of ty) u"
      by blast
    note fv = fresh_head_view [OF ats, of pid]
    have "keeps h u" by (rule node_added_keeps [OF inv cl u(2) w(1)]) (simp add: fv)
    with r(1) Inr q u w(1) fv show ?thesis by (auto simp: alloc_raw_def)
  qed
qed

lemma alloc_root_raw_correct:
  assumes inv: "heap_inv h" and cl: "refs_closed h" and p: "get_par h pid = Some par"
    and ty: "type_known h ty gt"
    and l: "layout_from_size_align (layout_size_of ty) (layout_align_of ty) = Some l"
    and lim: "\<not> over_limit h (layout_size_of ty)" and fr: "fresh_memory pid l sys h"
  shows "\<exists>r t. alloc_root_raw ty gt pid v sys h = Some (r, t) \<and>
    (case r of
       Inl (e, w) \<Rightarrow> e = AllocationFailed \<and> w = v \<and> sys = None \<and> arena_frame h t
     | Inr a \<Rightarrow> keeps h t \<and> hroot t a \<and> heads h a = None \<and>
         total_memory_used t = total_memory_used h + layout_size_of ty \<and>
         node_born h pid gt a v t \<and> scope_stacks t = scope_stacks h \<and>
         (\<forall>b. b \<noteq> a \<longrightarrow> map_option is_local (heads t b) = map_option is_local (heads h b)) \<and>
         (\<forall>g. heads t a = Some g \<longrightarrow> \<not> is_local g))"
proof -
  let ?i = "unat pid" and ?sz = "layout_size_of ty"
  from alloc_node_mem_correct [OF p ty l lim fr, of v True] obtain r t where
    r: "alloc_node_mem ty gt pid v True sys h = Some (r, t)"
    "case r of
       Inl (e, w) \<Rightarrow> e = AllocationFailed \<and> w = v \<and> sys = None \<and> arena_frame h t
     | Inr (a, sz) \<Rightarrow> sz = ?sz \<and>
         (\<exists>ats. (ats = fresh_attrs gt \<or> \<not> True \<and> ats = fresh_attrs gt OR ucast ARENA_ALLOC) \<and>
            new_node_ok h ?i (fresh_head ats pid) \<and>
            node_written h ?i a (fresh_head ats pid) v sz t)" by blast
  have i: "?i < length (partitions h)" using p by (simp add: get_par_Some)
  have ok: "heap_ok h" using inv by (simp add: heap_inv_def)
  show ?thesis
  proof (cases r)
    case (Inl e)
    with r show ?thesis by (auto simp: alloc_root_raw_def)
  next
    case (Inr q)
    let ?g = "fresh_head (fresh_attrs gt) pid"
    let ?g' = "insert_flag ROOT ?g"
    from Inr r(2) obtain a where q: "q = (a, ?sz)" and w: "new_node_ok h ?i ?g" "node_written h ?i a ?g v ?sz t"
      by (cases q) auto
    from node_written_flag [OF w(2)] obtain t1 where t1: "update_head (insert_flag ROOT) a t = Some t1"
      "node_written h ?i a ?g' v ?sz t1" by blast
    from attach_written [OF t1(2) refl i] obtain u where
      u: "attach_node pid a t1 = Some u" "node_added h ?i a ?g' v ?sz u" by blast
    have g': "new_node_ok h ?i ?g'" using w(1) hview_flags(1) [of ?g] by (simp add: new_node_ok_def hview_def)
    have mk: "is_marking u pid = Some (pmarking h ?i)"
      using i node_added_par(3) [OF u(2) i] u(2) by (simp add: is_marking_def get_par_def vec_get_def node_added_def)
    have dt: "dtype ?g' = gt" "\<not> is_local ?g'"
      using fresh_head_view [of "fresh_attrs gt" gt pid] by (simp_all add: insert_root_view is_root_or_local_iff)
    have facts: "hroot u a" "heads h a = None" "total_memory_used u = total_memory_used h + ?sz"
      "scope_stacks u = scope_stacks h"
      using u(2) by (auto simp: node_added_obs [OF u(2)] node_added_def)
    have born: "node_born h pid gt a v u" using node_added_born [OF u(2) g'] dt(1) by simp
    have loc: "map_option is_local (heads u b) = (if b = a then Some False else map_option is_local (heads h b))" for b
      using u(2) dt(2) by (simp add: node_added_def next_update_view)
    have pid: "(of_nat ?i :: u16) = pid" by simp
    show ?thesis
    proof (cases "pmarking h ?i")
      case True
      from node_added_gray_keeps [OF inv cl u(2) g' True] obtain u' where
        u': "par_add_gray_node pid a u = Some u'" "keeps h u'" "shade u {a} u'" unfolding pid by blast
      have fr: "mark_frame u u'" using u'(3) by (simp add: shade_def shaded_def)
      note ff = mark_frame_fields [OF fr]
      have "alloc_root_raw ty gt pid v sys h = Some (Inr a, u')"
        using r(1) Inr q t1(1) u(1) mk True u'(1) by (simp add: alloc_root_raw_def)
      moreover have "map_option is_local (heads u' b) = map_option is_local (heads u b)" for b
        using mark_frame_shape [OF fr, of b] by (cases "heads u' b"; cases "heads u b") (auto simp: shape_def)
      then have "map_option is_local (heads u' b) = (if b = a then Some False else map_option is_local (heads h b))" for b
        by (simp only: loc)
      then have "(\<forall>b. b \<noteq> a \<longrightarrow> map_option is_local (heads u' b) = map_option is_local (heads h b)) \<and>
        (\<forall>g. heads u' a = Some g \<longrightarrow> \<not> is_local g)"
        by (metis (no_types, lifting) option.map(2) option.inject)
      ultimately show ?thesis
        using u'(2) facts ff node_born_mark_frame [OF born fr]
        by (intro exI [of _ "Inr a"] exI [of _ u']) (auto simp: hroot_mark_frame [OF fr] split: if_splits)
    next
      case False
      have "keeps h u" by (rule node_added_keeps [OF inv cl u(2) g']) (simp add: False)
      moreover have "alloc_root_raw ty gt pid v sys h = Some (Inr a, u)"
        using r(1) Inr q t1(1) u(1) mk False by (simp add: alloc_root_raw_def)
      moreover have "(\<forall>b. b \<noteq> a \<longrightarrow> map_option is_local (heads u b) = map_option is_local (heads h b)) \<and>
        (\<forall>g. heads u a = Some g \<longrightarrow> \<not> is_local g)"
        using loc by (metis (no_types, lifting) option.map(2) option.inject)
      ultimately show ?thesis using facts born
        by (intro exI [of _ "Inr a"] exI [of _ u]) auto
    qed
  qed
qed

text \<open>A failed attempt to allocate may have walked the free list of the arena.\<close>

lemma arena_frame_keeps:
  assumes inv: "heap_inv h" and fr: "arena_frame h t"
  shows "keeps h t" "heads t = heads h" "payloads t = payloads h" "node_dtypes t = node_dtypes h"
    "scope_stacks t = scope_stacks h"
proof -
  have t: "t = h\<lparr>partitions := partitions t\<rparr>" "map drop_arena (partitions t) = map drop_arena (partitions h)"
    "arena_present t = arena_present h" using fr by (simp_all add: arena_frame_def)
  show f: "heads t = heads h" "payloads t = payloads h" "node_dtypes t = node_dtypes h"
    "scope_stacks t = scope_stacks h" by (subst t(1), simp)+
  have ws: "weak_slots t = weak_slots h" by (subst t(1), simp)
  have l: "length (partitions t) = length (partitions h)" using t(2) by (metis length_map)
  have p: "nodes (partitions t ! j) = nodes (partitions h ! j)" "glist t j = glist h j" "pmarking t j = pmarking h j"
    if "j < length (partitions h)" for j
  proof -
    have "drop_arena (partitions t ! j) = drop_arena (partitions h ! j)" using t(2) that l by (metis nth_map)
    from drop_arena_eqD [OF this] show "nodes (partitions t ! j) = nodes (partitions h ! j)"
      "glist t j = glist h j" "pmarking t j = pmarking h j" by simp_all
  qed
  note ob = obs_heads [OF f(1)]
  have ti: "type_info t = type_info h" by (simp add: type_info_def f fun_eq_iff)
  have ed: "edge t = edge h" by (simp add: edge_def refs_of_def f ti fun_eq_iff)
  have pl: "par_list t j = par_list h j" if "j < length (partitions h)" for j
    using that by (simp add: par_list_def f p)
  have ok: "heap_ok h" using inv by (simp add: heap_inv_def)
  have "heap_ok t"
    using ok unfolding heap_ok_def l f node_ok_def gray_ok_def ob ti by (auto simp: pl p)
  moreover have "disp_ok t" using inv by (simp add: heap_inv_def disp_ok_def weak_ok_def f ws ti l)
  moreover have "passes_ok t" using inv by (simp add: heap_inv_def passes_ok_def pass_is_def f ti)
  moreover have "arena_nodes_ok t" using inv t(3) by (simp add: heap_inv_def arena_nodes_ok_def in_arena_def f ob)
  ultimately have it: "heap_inv t" by (simp add: heap_inv_def)
  have "tri_inv S t" if S: "\<forall>i\<in>S. i < length (partitions h) \<and> pmarking h i" and tr: "tri_inv S h" for S
    using tr S unfolding tri_inv_def tri_inv_upto_def zone_def ob ed by (auto simp: p)
  with it l p show "keeps h t" by (simp add: keeps_def)
qed

end
