(* ===== verification/Gc_Scope.thy ===== *)
theory Gc_Scope
  imports Gc_Alloc Gc_Correct
begin

section \<open>Scopes (src/src/scope.rs, protect\_node of src/src/heap.rs)\<close>

text \<open>
  Scope stacks and the local nodes their scopes protect.  A \<open>&GcScopeState\<close> is the pair of
  a stack id and an index into that stack; a \<open>GcScope\<close> handle is the same pair.  The
  invariant \<open>scope_ok\<close> ties the \<open>LOCAL\<close> flags to the caches: a node is local exactly when it
  is in the cache of one scope, once.
\<close>

subsection \<open>Access\<close>

definition get_stack :: "'p gc_heap \<Rightarrow> u16 \<Rightarrow> scope_stack option" where
  "get_stack h sid = vec_get (scope_stacks h) (unat sid)"

definition put_stack :: "u16 \<Rightarrow> scope_stack \<Rightarrow> 'p gc_heap \<Rightarrow> 'p gc_heap" where
  "put_stack sid st h = h\<lparr>scope_stacks := (scope_stacks h)[unat sid := st]\<rparr>"

definition get_scope :: "'p gc_heap \<Rightarrow> u16 \<Rightarrow> nat \<Rightarrow> gc_scope_state option" where
  "get_scope h sid k = do { st \<leftarrow> get_stack h sid; vec_get (ss_list st) k }"

definition put_cache :: "u16 \<Rightarrow> nat \<Rightarrow> addr list option \<Rightarrow> 'p gc_heap \<Rightarrow> 'p gc_heap option" where
  "put_cache sid k c h =
     do { st \<leftarrow> get_stack h sid;
          s \<leftarrow> vec_get (ss_list st) k;
          Some (put_stack sid (st\<lparr>ss_list := (ss_list st)[k := s\<lparr>sc_cache := c\<rparr>]\<rparr>) h) }"

subsection \<open>Stacks of scopes\<close>

definition scope_max_depth :: "u16 \<Rightarrow> 'p gc_heap \<Rightarrow> u32 option" where
  "scope_max_depth sid h = do { st \<leftarrow> get_stack h sid; Some (of_nat (length (ss_list st))) }"

definition scope_state_new :: "u16 \<Rightarrow> u16 \<Rightarrow> 'p gc_heap \<Rightarrow> gc_scope_state option" where
  "scope_state_new stack_id pid h =
     do { d \<leftarrow> scope_max_depth stack_id h;
          let depth = d + 1
          in if depth = 0 then None
             else Some \<lparr>sc_partition_id = pid, sc_stack_id = stack_id, sc_depth = depth,
                        sc_cache = None\<rparr> }"

definition scope_count :: "gc_scope_state \<Rightarrow> nat" where
  "scope_count s = (case sc_cache s of None \<Rightarrow> 0 | Some c \<Rightarrow> length c)"

definition scope_parent :: "'p gc_heap \<Rightarrow> gc_scope_state \<Rightarrow> (gc_scope_state \<times> u32) option option" where
  "scope_parent h s =
     (let d = sc_depth s in
      if d > 1 then
        (let parent_index = d - 2 in
         do { st \<leftarrow> get_stack h (sc_stack_id s);
              Some (map_option (\<lambda>s. (s, d - 1)) (vec_get (ss_list st) (unat parent_index))) })
      else Some None)"

text \<open>The loop of \<open>acquire_scope_stack\<close>: the first stack no partition uses.\<close>

fun idle_stack :: "scope_stack list \<Rightarrow> nat \<Rightarrow> nat option" where
  "idle_stack [] i = None"
| "idle_stack (st # sts) i = (if ss_partition st = None then Some i else idle_stack sts (i + 1))"

definition acquire_scope_stack :: "u16 \<Rightarrow> 'p gc_heap \<Rightarrow> (u16 \<times> 'p gc_heap) option" where
  "acquire_scope_stack par h =
     (case idle_stack (scope_stacks h) 0 of
        Some i \<Rightarrow>
          Some (of_nat i,
            h\<lparr>scope_stacks := (scope_stacks h)[i := (scope_stacks h ! i)\<lparr>ss_partition := Some par\<rparr>]\<rparr>)
      | None \<Rightarrow>
          if length (scope_stacks h) < 2 ^ 16 then
            Some (of_nat (length (scope_stacks h)),
              h\<lparr>scope_stacks := vec_push (scope_stacks h) (scope_stack_new (Some par))\<rparr>)
          else None)"

definition release_scope_stack :: "u16 \<Rightarrow> 'p gc_heap \<Rightarrow> 'p gc_heap option" where
  "release_scope_stack sid h =
     do { st \<leftarrow> get_stack h sid; Some (put_stack sid (st\<lparr>ss_partition := None\<rparr>) h) }"

text \<open>\<open>GcHeap::scope\<close>: the depth counts from 1.\<close>

definition scope_at :: "u16 \<Rightarrow> u32 \<Rightarrow> 'p gc_heap \<Rightarrow> gc_scope_state option option" where
  "scope_at sid depth h =
     (if depth > 0 then
        do { st \<leftarrow> get_stack h sid; Some (vec_get (ss_list st) (unat depth - 1)) }
      else Some None)"

definition scope_unchecked :: "u16 \<Rightarrow> u32 \<Rightarrow> 'p gc_heap \<Rightarrow> gc_scope_state option" where
  "scope_unchecked sid index h = get_scope h sid (unat index)"

definition pop_scope :: "u16 \<Rightarrow> 'p gc_heap \<Rightarrow> (gc_scope_state option \<times> 'p gc_heap) option" where
  "pop_scope sid h =
     do { st \<leftarrow> get_stack h sid;
          (case vec_pop (ss_list st) of
             None \<Rightarrow> Some (None, h)
           | Some (s, rest) \<Rightarrow> Some (Some s, put_stack sid (st\<lparr>ss_list := rest\<rparr>) h)) }"

text \<open>The handle \<open>new_scope\<close> returns is the index of the pushed scope.\<close>

definition new_scope :: "u16 \<Rightarrow> 'p gc_heap \<Rightarrow> (u32 \<times> 'p gc_heap) option" where
  "new_scope sid h =
     do { st \<leftarrow> get_stack h sid;
          let list_len = length (ss_list st)
          in if list_len \<ge> 2 ^ 32 - 1 then None
             else
               do { p \<leftarrow> ss_partition st;
                    let depth = of_nat list_len + 1;
                        state = \<lparr>sc_partition_id = p, sc_stack_id = sid, sc_depth = depth, sc_cache = None\<rparr>
                    in Some (depth - 1, put_stack sid (st\<lparr>ss_list := vec_push (ss_list st) state\<rparr>) h) } }"

definition current_index :: "u16 \<Rightarrow> 'p gc_heap \<Rightarrow> nat option option" where
  "current_index sid h =
     do { st \<leftarrow> get_stack h sid;
          Some (if ss_list st = [] then None else Some (length (ss_list st) - 1)) }"

definition current_scope :: "u16 \<Rightarrow> 'p gc_heap \<Rightarrow> gc_scope_state option option" where
  "current_scope sid h =
     do { st \<leftarrow> get_stack h sid; Some (if ss_list st = [] then None else Some (last (ss_list st))) }"

subsection \<open>The cache of a scope\<close>

definition add_node :: "u16 \<Rightarrow> nat \<Rightarrow> addr \<Rightarrow> 'p gc_heap \<Rightarrow> 'p gc_heap option" where
  "add_node sid k node h =
     do { s \<leftarrow> get_scope h sid k;
          h1 \<leftarrow> update_head (insert_flag LOCAL) node h;
          h2 \<leftarrow> (case get_par h1 (sc_partition_id s) of
                   None \<Rightarrow> Some h1
                 | Some par \<Rightarrow> if marking par then par_add_gray_node (sc_partition_id s) node h1 else Some h1);
          put_cache sid k (Some (vec_push (case sc_cache s of None \<Rightarrow> [] | Some c \<Rightarrow> c) node)) h2 }"

definition add_non_local :: "u16 \<Rightarrow> nat \<Rightarrow> addr \<Rightarrow> 'p gc_heap \<Rightarrow> (bool \<times> 'p gc_heap) option" where
  "add_non_local sid k node h =
     do { g \<leftarrow> heads h node;
          if is_root_or_local g then Some (False, h)
          else do { h1 \<leftarrow> add_node sid k node h; Some (True, h1) } }"

text \<open>\<open>alloc_local\<close>: the error of \<open>alloc_raw\<close> is handed on.\<close>

definition alloc_local ::
  "'p rust_type \<Rightarrow> u8 \<Rightarrow> u16 \<Rightarrow> nat \<Rightarrow> 'p \<Rightarrow> addr option \<Rightarrow> 'p gc_heap
     \<Rightarrow> (((gc_error \<times> 'p) + addr) \<times> 'p gc_heap) option" where
  "alloc_local ty gt sid k payload sys h =
     do { s \<leftarrow> get_scope h sid k;
          (r, h1) \<leftarrow> alloc_raw ty gt (sc_partition_id s) payload sys h;
          (case r of
             Inl e \<Rightarrow> Some (Inl e, h1)
           | Inr a \<Rightarrow> do { h2 \<leftarrow> add_node sid k a h1; Some (Inr a, h2) }) }"

text \<open>\<open>Iterator::position\<close> and \<open>Vec::swap_remove\<close>.\<close>

fun position :: "'a \<Rightarrow> 'a list \<Rightarrow> nat option" where
  "position x [] = None"
| "position x (y # ys) = (if y = x then Some 0 else map_option Suc (position x ys))"

definition swap_remove :: "nat \<Rightarrow> 'a list \<Rightarrow> 'a list" where
  "swap_remove i xs = butlast (xs[i := last xs])"

definition remove_node :: "u16 \<Rightarrow> nat \<Rightarrow> addr \<Rightarrow> 'p gc_heap \<Rightarrow> (bool \<times> 'p gc_heap) option" where
  "remove_node sid k node h =
     do { s \<leftarrow> get_scope h sid k;
          (case sc_cache s of
             None \<Rightarrow> Some (False, h)
           | Some cache \<Rightarrow>
               (case position node cache of
                  None \<Rightarrow> Some (False, h)
                | Some pos \<Rightarrow>
                    do { h1 \<leftarrow> put_cache sid k (Some (swap_remove pos cache)) h;
                         h2 \<leftarrow> update_head (remove_flag LOCAL) node h1;
                         Some (True, h2) })) }"

definition scope_contains :: "gc_scope_state \<Rightarrow> addr \<Rightarrow> bool" where
  "scope_contains s node = (case sc_cache s of None \<Rightarrow> False | Some c \<Rightarrow> node \<in> set c)"

definition promote_node_to ::
  "u16 \<Rightarrow> nat \<Rightarrow> addr \<Rightarrow> u16 \<Rightarrow> nat \<Rightarrow> 'p gc_heap \<Rightarrow> (bool \<times> 'p gc_heap) option" where
  "promote_node_to sid k node tsid tk h =
     do { s \<leftarrow> get_scope h sid k;
          (case sc_cache s of
             None \<Rightarrow> Some (False, h)
           | Some cache \<Rightarrow>
               (case position node cache of
                  None \<Rightarrow> Some (False, h)
                | Some pos \<Rightarrow>
                    do { h1 \<leftarrow> put_cache sid k (Some (swap_remove pos cache)) h;
                         target \<leftarrow> get_scope h1 tsid tk;
                         h2 \<leftarrow> put_cache tsid tk
                                (Some (vec_push (case sc_cache target of None \<Rightarrow> [] | Some c \<Rightarrow> c) node)) h1;
                         Some (True, h2) })) }"

text \<open>
  \<open>clear\<close> of a state no stack holds any more (a popped one), and of one in a stack.
\<close>

definition unprotect :: "addr list option \<Rightarrow> 'p gc_heap \<Rightarrow> 'p gc_heap option" where
  "unprotect cache h =
     (case cache of None \<Rightarrow> Some h | Some lst \<Rightarrow> fold_opt (update_head (remove_flag LOCAL)) lst h)"

definition scope_clear :: "u16 \<Rightarrow> nat \<Rightarrow> 'p gc_heap \<Rightarrow> 'p gc_heap option" where
  "scope_clear sid k h =
     do { s \<leftarrow> get_scope h sid k; h1 \<leftarrow> put_cache sid k None h; unprotect (sc_cache s) h1 }"

text \<open>
  \<open>Drop for GcScope\<close>: the popped state is dropped at once, which clears it.  The order
  check on the index of the handle is a \<open>debug_assert!\<close>; the index is not used otherwise.
\<close>

definition scope_drop :: "u16 \<Rightarrow> u32 \<Rightarrow> 'p gc_heap \<Rightarrow> 'p gc_heap option" where
  "scope_drop sid index h =
     do { (s, h1) \<leftarrow> pop_scope sid h;
          (case s of None \<Rightarrow> Some h1 | Some s \<Rightarrow> unprotect (sc_cache s) h1) }"

text \<open>
  Closures get the heap; a panic of the closure is a value \<open>Inl\<close>.  \<open>with_new_scope\<close> moves the handle
  into the closure, so it is the closure that drops it: where it likes, or at its end, where the
  compiler puts the drop of a parameter that was not moved on, on return and on unwinding alike.
  \<open>keeping_scope\<close> is a closure of the second kind with the given body.
\<close>

definition with_new_scope ::
  "u16 \<Rightarrow> (u32 \<Rightarrow> 'p gc_heap \<Rightarrow> (('e + 'r) \<times> 'p gc_heap) option) \<Rightarrow> 'p gc_heap
     \<Rightarrow> (('e + 'r) \<times> 'p gc_heap) option" where
  "with_new_scope sid f h =
     do { (index, h1) \<leftarrow> new_scope sid h; f index h1 }"

definition keeping_scope ::
  "u16 \<Rightarrow> (u32 \<Rightarrow> 'p gc_heap \<Rightarrow> (('e + 'r) \<times> 'p gc_heap) option) \<Rightarrow> u32 \<Rightarrow> 'p gc_heap
     \<Rightarrow> (('e + 'r) \<times> 'p gc_heap) option" where
  "keeping_scope sid body index h =
     do { (result, h1) \<leftarrow> body index h;
          h2 \<leftarrow> scope_drop sid index h1;
          Some (result, h2) }"

definition with_current_scope_of ::
  "u16 \<Rightarrow> (nat \<Rightarrow> 'p gc_heap \<Rightarrow> ('r \<times> 'p gc_heap) option) \<Rightarrow> 'p gc_heap
     \<Rightarrow> ('r option \<times> 'p gc_heap) option" where
  "with_current_scope_of sid f h =
     do { c \<leftarrow> current_index sid h;
          (case c of
             None \<Rightarrow> Some (None, h)
           | Some k \<Rightarrow> do { (r, h1) \<leftarrow> f k h; Some (Some r, h1) }) }"

subsection \<open>Protecting nodes (heap.rs)\<close>

definition protect_node :: "u16 \<Rightarrow> addr \<Rightarrow> 'p gc_heap \<Rightarrow> (bool \<times> 'p gc_heap) option" where
  "protect_node sid node h =
     do { c \<leftarrow> current_index sid h;
          (case c of None \<Rightarrow> Some (False, h) | Some k \<Rightarrow> add_non_local sid k node h) }"

definition protect_nodes :: "u16 \<Rightarrow> addr list \<Rightarrow> 'p gc_heap \<Rightarrow> 'p gc_heap option" where
  "protect_nodes sid nds h =
     do { c \<leftarrow> current_index sid h;
          (case c of
             None \<Rightarrow> Some h
           | Some k \<Rightarrow> fold_opt (\<lambda>n h. map_option snd (add_non_local sid k n h)) nds h) }"

subsection \<open>The local nodes\<close>

definition cache_list :: "gc_scope_state \<Rightarrow> addr list" where
  "cache_list s = (case sc_cache s of None \<Rightarrow> [] | Some c \<Rightarrow> c)"

definition stack_nodes :: "scope_stack \<Rightarrow> addr list" where
  "stack_nodes st = concat (map cache_list (ss_list st))"

definition local_nodes :: "'p gc_heap \<Rightarrow> addr list" where
  "local_nodes h = concat (map stack_nodes (scope_stacks h))"

definition hlocal :: "'p gc_heap \<Rightarrow> addr \<Rightarrow> bool" where
  "hlocal h a \<longleftrightarrow> (\<exists>g. heads h a = Some g \<and> is_local g)"

text \<open>
  The pairs of a node and the partition of a scope that holds it; \<open>scopes_own\<close>: scopes hold
  nodes of their own partition only.
\<close>

definition held :: "'p gc_heap \<Rightarrow> (u16 \<times> addr) set" where
  "held h = {(p, a). \<exists>sid k s. get_scope h sid k = Some s \<and> sc_partition_id s = p \<and> a \<in> set (cache_list s)}"

definition scopes_own :: "'p gc_heap \<Rightarrow> bool" where
  "scopes_own h \<longleftrightarrow> (\<forall>(p, a)\<in>held h. in_par h (unat p) a)"

text \<open>
  \<open>stack_ok\<close>: the scopes of a stack know their place; the depth fits.
\<close>

definition stack_ok :: "u16 \<Rightarrow> scope_stack \<Rightarrow> bool" where
  "stack_ok sid st \<longleftrightarrow>
     length (ss_list st) < 2 ^ 32 \<and>
     (\<forall>k<length (ss_list st).
        sc_stack_id (ss_list st ! k) = sid \<and> sc_depth (ss_list st ! k) = of_nat k + 1 \<and>
        Some (sc_partition_id (ss_list st ! k)) = ss_partition st)"

definition scope_ok :: "'p gc_heap \<Rightarrow> bool" where
  "scope_ok h \<longleftrightarrow>
     length (scope_stacks h) \<le> 2 ^ 16 \<and>
     (\<forall>i<length (scope_stacks h). stack_ok (of_nat i) (scope_stacks h ! i)) \<and>
     distinct (local_nodes h) \<and> (\<forall>a. hlocal h a \<longleftrightarrow> a \<in> set (local_nodes h))"

end
