(* ===== verification/Gc_Scope_Safe.thy ===== *)
theory Gc_Scope_Safe
  imports Gc_Scope "HOL-Library.Multiset"
begin

section \<open>The local nodes of the scopes (src/src/scope.rs)\<close>

text \<open>
  Every scope operation keeps \<open>scope_ok\<close> and \<open>heap_inv\<close>, and moves the multiset of protected
  nodes the way its name says; a collection never frees a protected node.
\<close>

subsection \<open>Lists\<close>

lemma mset_concat_update:
  "k < length xs \<Longrightarrow>
     mset (concat (map f (xs[k := y]))) + mset (f (xs ! k)) = mset (concat (map f xs)) + mset (f y)"
  by (induction xs arbitrary: k) (auto split: nat.splits simp: ac_simps)

lemma position_Some: "position x xs = Some i \<Longrightarrow> i < length xs \<and> xs ! i = x"
  by (induction xs arbitrary: i) (auto split: if_splits)

lemma position_None: "position x xs = None \<longleftrightarrow> x \<notin> set xs"
  by (induction xs) auto

lemma mset_swap_remove:
  assumes "i < length xs"
  shows "mset xs = add_mset (xs ! i) (mset (swap_remove i xs))"
proof -
  obtain ys z where xs: "xs = ys @ [z]" using assms by (cases xs rule: rev_cases) auto
  show ?thesis
  proof (cases "i = length ys")
    case True
    then show ?thesis by (simp add: xs swap_remove_def)
  next
    case False
    with assms xs have i: "i < length ys" by auto
    then show ?thesis
      using mset_update [OF i, of z] nth_mem [OF i]
      by (simp add: xs swap_remove_def nth_append list_update_append)
  qed
qed

lemma mset_exchange:
  fixes L :: "'a multiset"
  assumes "L + S = N + S'" "S' + c = S + C"
  shows "L + c = N + C"
proof -
  have "(L + c) + S = (L + S) + c" by (simp only: ac_simps)
  also have "\<dots> = N + (S' + c)" by (simp only: assms(1) add.assoc)
  also have "\<dots> = (N + C) + S" by (simp only: assms(2) ac_simps)
  finally show ?thesis by simp
qed

subsection \<open>A heap with other scope stacks\<close>

lemma scope_stacks_obs [simp]:
  "heads (h\<lparr>scope_stacks := x\<rparr>) = heads h"
  "get_par (h\<lparr>scope_stacks := x\<rparr>) = get_par h"
  "hlocal (h\<lparr>scope_stacks := x\<rparr>) = hlocal h"
  "hcolor (h\<lparr>scope_stacks := x\<rparr>) = hcolor h"
  "hroot (h\<lparr>scope_stacks := x\<rparr>) = hroot h"
  "in_par (h\<lparr>scope_stacks := x\<rparr>) = in_par h"
  "edge (h\<lparr>scope_stacks := x\<rparr>) = edge h"
  "same_view h (h\<lparr>scope_stacks := x\<rparr>)"
  by (auto simp: fun_eq_iff get_par_def hlocal_def hcolor_def hroot_def in_par_def edge_def refs_of_def
      type_info_def same_view_def)

lemma keeps_scope_stacks:
  assumes "heap_inv h"
  shows "keeps h (h\<lparr>scope_stacks := x\<rparr>)"
proof -
  let ?t = "h\<lparr>scope_stacks := x\<rparr>"
  have ok: "heap_ok h" using assms by (simp add: heap_inv_def)
  have "heap_inv ?t"
    by (rule heap_inv_same_view [OF assms]) (use heap_ok_hcolor_dom [OF ok] in simp_all)
  moreover have "zone S ?t = zone S h" for S by (simp add: zone_def)
  ultimately show ?thesis by (simp add: keeps_def tri_inv_def tri_inv_upto_def)
qed

lemma keeps_inv: "keeps h t \<Longrightarrow> heap_inv t"
  by (simp add: keeps_def)

subsection \<open>Changing one cache\<close>

definition stacks_ok :: "'p gc_heap \<Rightarrow> bool" where
  "stacks_ok h \<longleftrightarrow>
     length (scope_stacks h) \<le> 2 ^ 16 \<and>
     (\<forall>i<length (scope_stacks h). stack_ok (of_nat i) (scope_stacks h ! i))"

lemma scope_ok_alt:
  "scope_ok h \<longleftrightarrow> stacks_ok h \<and> distinct (local_nodes h) \<and> (\<forall>a. hlocal h a \<longleftrightarrow> a \<in># mset (local_nodes h))"
  by (simp add: scope_ok_def stacks_ok_def)

lemma distinct_mset: "mset xs = mset ys \<Longrightarrow> distinct xs = distinct ys"
  by (metis distinct_count_atmost_1 mset_eq_setD)

lemma get_scope_Some:
  "get_scope h sid k = Some s \<longleftrightarrow>
     unat sid < length (scope_stacks h) \<and> k < length (ss_list (scope_stacks h ! unat sid)) \<and>
     ss_list (scope_stacks h ! unat sid) ! k = s"
  by (auto simp: get_scope_def get_stack_def bind_eq_Some_conv vec_get_Some)

lemma cache_list_upd [simp]:
  "cache_list (s\<lparr>sc_cache := c\<rparr>) = (case c of None \<Rightarrow> [] | Some c \<Rightarrow> c)"
  by (simp add: cache_list_def)

lemma mset_stack_update:
  "i < length (scope_stacks h) \<Longrightarrow>
     mset (local_nodes (h\<lparr>scope_stacks := (scope_stacks h)[i := st]\<rparr>)) + mset (stack_nodes (scope_stacks h ! i)) =
     mset (local_nodes h) + mset (stack_nodes st)"
  unfolding local_nodes_def by (simp add: mset_concat_update)

text \<open>\<open>put_cache\<close> replaces one cache: the protected nodes lose the old and gain the new ones.\<close>

definition cache_set ::
  "'p gc_heap \<Rightarrow> u16 \<Rightarrow> nat \<Rightarrow> gc_scope_state \<Rightarrow> addr list option \<Rightarrow> 'p gc_heap \<Rightarrow> bool" where
  "cache_set h sid k s c t \<longleftrightarrow>
     t = h\<lparr>scope_stacks := scope_stacks t\<rparr> \<and>
     mset (local_nodes t) + mset (cache_list s) =
       mset (local_nodes h) + mset (case c of None \<Rightarrow> [] | Some c \<Rightarrow> c) \<and>
     get_scope t sid k = Some (s\<lparr>sc_cache := c\<rparr>) \<and>
     (\<forall>sid' k'. (sid', k') \<noteq> (sid, k) \<longrightarrow> get_scope t sid' k' = get_scope h sid' k') \<and>
     (stacks_ok h \<longrightarrow> stacks_ok t) \<and>
     (\<forall>sid'. map_option (\<lambda>st. (length (ss_list st), ss_partition st)) (get_stack t sid') =
             map_option (\<lambda>st. (length (ss_list st), ss_partition st)) (get_stack h sid'))"

lemma put_cache_correct:
  assumes s: "get_scope h sid k = Some s"
  shows "\<exists>t. put_cache sid k c h = Some t \<and> cache_set h sid k s c t"
proof -
  let ?i = "unat sid"
  let ?st = "scope_stacks h ! ?i"
  let ?st' = "?st\<lparr>ss_list := (ss_list ?st)[k := s\<lparr>sc_cache := c\<rparr>]\<rparr>"
  let ?t = "put_stack sid ?st' h"
  have i: "?i < length (scope_stacks h)" "k < length (ss_list ?st)" "ss_list ?st ! k = s"
    using s by (simp_all add: get_scope_Some)
  have gs: "get_stack h sid = Some ?st" using i by (simp add: get_stack_def vec_get_def)
  have 1: "put_cache sid k c h = Some ?t" using i gs by (simp add: put_cache_def vec_get_def)
  have 2: "mset (local_nodes ?t) + mset (stack_nodes ?st) = mset (local_nodes h) + mset (stack_nodes ?st')"
    unfolding put_stack_def by (rule mset_stack_update [OF i(1)])
  have 3: "mset (stack_nodes ?st') + mset (cache_list s) =
      mset (stack_nodes ?st) + mset (case c of None \<Rightarrow> [] | Some c \<Rightarrow> c)"
    unfolding stack_nodes_def using mset_concat_update [OF i(2), of cache_list "s\<lparr>sc_cache := c\<rparr>"] i(3) by simp
  have 4: "mset (local_nodes ?t) + mset (cache_list s) =
      mset (local_nodes h) + mset (case c of None \<Rightarrow> [] | Some c \<Rightarrow> c)"
    by (rule mset_exchange [OF 2 3])
  have 5: "get_scope ?t sid' k' = (if (sid', k') = (sid, k) then Some (s\<lparr>sc_cache := c\<rparr>) else get_scope h sid' k')"
    for sid' k'
  proof -
    have "get_stack ?t sid' = (if sid' = sid then Some ?st' else get_stack h sid')"
      unfolding get_stack_def put_stack_def using i(1) by (auto simp: word_unat_eq_iff)
    then show ?thesis using i gs by (auto simp: get_scope_def vec_get_def nth_list_update)
  qed
  have 6: "stacks_ok ?t" if "stacks_ok h"
    using that i by (auto simp: stacks_ok_def put_stack_def nth_list_update stack_ok_def)
  have 7: "map_option (\<lambda>st. (length (ss_list st), ss_partition st)) (get_stack ?t sid') =
      map_option (\<lambda>st. (length (ss_list st), ss_partition st)) (get_stack h sid')" for sid'
    using i by (auto simp: get_stack_def put_stack_def vec_get_def nth_list_update)
  have 8: "?t = h\<lparr>scope_stacks := scope_stacks ?t\<rparr>" by (simp add: put_stack_def)
  show ?thesis
    unfolding cache_set_def using 1 4 5 6 7 8 by (intro exI [of _ ?t]) simp
qed

lemma cache_setD:
  assumes "cache_set h sid k s c t"
  shows "t = h\<lparr>scope_stacks := scope_stacks t\<rparr>"
    "mset (local_nodes t) + mset (cache_list s) = mset (local_nodes h) + mset (case c of None \<Rightarrow> [] | Some c \<Rightarrow> c)"
    "get_scope t sid k = Some (s\<lparr>sc_cache := c\<rparr>)"
    "(sid', k') \<noteq> (sid, k) \<Longrightarrow> get_scope t sid' k' = get_scope h sid' k'"
    "stacks_ok h \<Longrightarrow> stacks_ok t"
    "map_option (\<lambda>st. (length (ss_list st), ss_partition st)) (get_stack t sid') =
       map_option (\<lambda>st. (length (ss_list st), ss_partition st)) (get_stack h sid')"
  using assms unfolding cache_set_def by (blast, blast, blast, blast, blast, blast)

lemma cache_set_obs:
  assumes "cache_set h sid k s c t"
  shows "heads t = heads h" "hlocal t = hlocal h" "hroot t = hroot h" "payloads t = payloads h" "node_dtypes t = node_dtypes h"
    "heap_inv h \<Longrightarrow> keeps h t"
  by (subst cache_setD(1) [OF assms], simp add: keeps_scope_stacks)+

text \<open>What the scopes hold.\<close>

lemma heldI: "get_scope h sid k = Some s \<Longrightarrow> a \<in> set (cache_list s) \<Longrightarrow> (sc_partition_id s, a) \<in> held h"
  unfolding held_def by blast

lemma scopes_ownD:
  "scopes_own h \<Longrightarrow> get_scope h sid k = Some s \<Longrightarrow> a \<in> set (cache_list s) \<Longrightarrow>
     in_par h (unat (sc_partition_id s)) a"
  unfolding scopes_own_def by (drule bspec, erule heldI) auto

lemma held_cong: "scope_stacks t = scope_stacks h \<Longrightarrow> held t = held h"
  by (simp add: held_def get_scope_def get_stack_def)

lemma cache_set_held:
  assumes s: "get_scope h sid k = Some s" and c: "cache_set h sid k s c t"
  shows "held t \<subseteq> held h \<union> Pair (sc_partition_id s) ` set (case c of None \<Rightarrow> [] | Some c \<Rightarrow> c)"
proof
  fix x assume "x \<in> held t"
  then obtain sid' k' s' a where x: "x = (sc_partition_id s', a)" "get_scope t sid' k' = Some s'" "a \<in> set (cache_list s')"
    unfolding held_def by blast
  show "x \<in> held h \<union> Pair (sc_partition_id s) ` set (case c of None \<Rightarrow> [] | Some c \<Rightarrow> c)"
  proof (cases "(sid', k') = (sid, k)")
    case True
    with x cache_setD(3) [OF c] have "s' = s\<lparr>sc_cache := c\<rparr>" by simp
    with x show ?thesis by simp
  next
    case False
    with x(2) cache_setD(4) [OF c] have "get_scope h sid' k' = Some s'" by metis
    from heldI [OF this x(3)] x(1) show ?thesis by simp
  qed
qed

lemma cache_set_held_sub:
  assumes "get_scope h sid k = Some s" "cache_set h sid k s c t"
    and "set (case c of None \<Rightarrow> [] | Some c \<Rightarrow> c) \<subseteq> set (cache_list s)"
  shows "held t \<subseteq> held h"
  using cache_set_held [OF assms(1,2)] heldI [OF assms(1)] assms(3) by blast

subsection \<open>The LOCAL flag\<close>

lemma local_flag [head_simps, simp]:
  "is_local (insert_flag LOCAL g)" "\<not> is_local (remove_flag LOCAL g)" "is_local (set_color c g) = is_local g"
  "is_root (remove_flag LOCAL g) = is_root g" "is_root (insert_flag LOCAL g) = is_root g"
  by (simp_all add: view_of decode_setters)

lemma hlocal_mark_frame: "mark_frame h t \<Longrightarrow> hlocal t a = hlocal h a"
  using mark_frame_shape [of h t a]
  by (cases "heads h a"; cases "heads t a") (auto simp: hlocal_def dest: shape_eqD)

lemma get_scope_cong: "scope_stacks t = scope_stacks h \<Longrightarrow> get_scope t = get_scope h"
  by (simp add: get_scope_def get_stack_def fun_eq_iff)

lemma local_nodes_cong:
  "scope_stacks t = scope_stacks h \<Longrightarrow> local_nodes t = local_nodes h"
  "scope_stacks t = scope_stacks h \<Longrightarrow> stacks_ok t = stacks_ok h"
  "scope_stacks t = scope_stacks h \<Longrightarrow> get_stack t = get_stack h"
  by (simp_all add: local_nodes_def stacks_ok_def get_stack_def fun_eq_iff)

lemma scope_ok_cong:
  assumes "scope_stacks t = scope_stacks h" "hlocal t = hlocal h"
  shows "scope_ok t = scope_ok h"
  using assms(2) by (simp add: scope_ok_alt local_nodes_cong [OF assms(1)])

subsection \<open>Adding a node to a scope\<close>

text \<open>What a scope sees of a change that only touches the collector's bits and the scopes.\<close>

definition stays :: "'p gc_heap \<Rightarrow> 'p gc_heap \<Rightarrow> bool" where
  "stays h t \<longleftrightarrow> payloads t = payloads h \<and> node_dtypes t = node_dtypes h \<and> dom (heads t) = dom (heads h) \<and>
     (\<forall>a g g'. heads h a = Some g \<longrightarrow> heads t a = Some g' \<longrightarrow>
        is_root g' = is_root g \<and> partition_id g' = partition_id g \<and> dtype g' = dtype g \<and> weak_id g' = weak_id g)"

lemma stays_trans: "stays h t \<Longrightarrow> stays t u \<Longrightarrow> stays h u"
  unfolding stays_def by (metis domD domI)

lemma stays_mark_frame: "mark_frame h t \<Longrightarrow> stays h t"
  using mark_frame_fields(1,2,11) [of h t] mark_frame_head [of h t]
  unfolding stays_def by (metis option.inject shape_eqD)

lemma add_node_flag:
  assumes inv: "heap_inv h" and s: "get_scope h sid k = Some s" and g: "heads h a = Some g"
    and own: "sc_partition_id s = partition_id g"
  shows "\<exists>u. add_node sid k a h = put_cache sid k (Some (vec_push (cache_list s) a)) u \<and> keeps h u \<and> stays h u \<and>
    scope_stacks u = scope_stacks h \<and> (\<forall>b. hlocal u b \<longleftrightarrow> b = a \<or> hlocal h b)"
proof -
  let ?u = "put_head a (insert_flag LOCAL g) h"
  have ok: "heap_ok h" using inv by (simp add: heap_inv_def)
  let ?i = "unat (partition_id g)"
  have i: "?i < length (partitions h)" by (rule heap_ok_in_list [OF ok g])
  have gp: "get_par h (partition_id g) = Some (partitions h ! ?i)" using i by (simp add: get_par_Some)
  have pid: "partition_id (insert_flag LOCAL g) = partition_id g" "dtype (insert_flag LOCAL g) = dtype g"
    "weak_id (insert_flag LOCAL g) = weak_id g"
    using hview_flags(2) [of g] by (simp_all add: hview_def)
  have lu: "hlocal ?u b \<longleftrightarrow> b = a \<or> hlocal h b" for b by (simp add: hlocal_def)
  have sa: "stays h ?u" using g by (auto simp: stays_def pid)
  have cl: "(case sc_cache s of None \<Rightarrow> [] | Some c \<Rightarrow> c) = cache_list s" by (simp add: cache_list_def)
  show ?thesis
  proof (cases "pmarking h ?i")
    case True
    from keeps_flag_gray [OF inv g _ _ True, of "insert_flag LOCAL g"] obtain t where
      t: "par_add_gray_node (partition_id g) a ?u = Some t" "keeps h t" "shade ?u {a} t" by auto
    have fr: "mark_frame ?u t" using t(3) by (simp add: shade_def shaded_def)
    have "stays h t" by (rule stays_trans [OF sa stays_mark_frame [OF fr]])
    moreover have "scope_stacks t = scope_stacks h" using mark_frame_fields(4) [OF fr] by simp
    moreover have "add_node sid k a h = put_cache sid k (Some (vec_push (cache_list s) a)) t"
      using t(1) True g by (simp add: add_node_def s update_head_def own gp cl)
    ultimately show ?thesis using t(2) lu hlocal_mark_frame [OF fr] by blast
  next
    case False
    have "keeps h ?u" by (rule keeps_flag [OF inv g]) (use False in simp_all)
    moreover have "add_node sid k a h = put_cache sid k (Some (vec_push (cache_list s) a)) ?u"
      using False g by (simp add: add_node_def s update_head_def own gp cl)
    ultimately show ?thesis using sa lu by (intro exI [of _ ?u]) simp
  qed
qed

lemma stays_scope_stacks [simp]: "stays h (h\<lparr>scope_stacks := x\<rparr>)"
  by (simp add: stays_def)

lemma add_node_correct:
  assumes inv: "heap_inv h" "scope_ok h" and s: "get_scope h sid k = Some s" and g: "heads h a = Some g"
    and own: "sc_partition_id s = partition_id g" and new: "\<not> is_local g"
  shows "\<exists>t. add_node sid k a h = Some t \<and> keeps h t \<and> stays h t \<and> scope_ok t \<and>
    get_scope t sid k = Some (s\<lparr>sc_cache := Some (cache_list s @ [a])\<rparr>) \<and>
    (\<forall>b. hlocal t b \<longleftrightarrow> b = a \<or> hlocal h b) \<and> held t \<subseteq> insert (sc_partition_id s, a) (held h) \<and>
    (\<forall>sid'. map_option (\<lambda>st. (length (ss_list st), ss_partition st)) (get_stack t sid') =
            map_option (\<lambda>st. (length (ss_list st), ss_partition st)) (get_stack h sid'))"
proof -
  from add_node_flag [OF inv(1) s g own] obtain u where
    u: "add_node sid k a h = put_cache sid k (Some (vec_push (cache_list s) a)) u" "keeps h u" "stays h u"
      "scope_stacks u = scope_stacks h" "\<And>b. hlocal u b \<longleftrightarrow> b = a \<or> hlocal h b" by blast
  have su: "get_scope u sid k = Some s" using s by (simp add: get_scope_cong [OF u(4)])
  from put_cache_correct [OF su, of "Some (vec_push (cache_list s) a)"] obtain t where
    t: "put_cache sid k (Some (vec_push (cache_list s) a)) u = Some t"
      "cache_set u sid k s (Some (vec_push (cache_list s) a)) t" by blast
  note cs = cache_setD [OF t(2)] and co = cache_set_obs [OF t(2)]
  have ms: "mset (local_nodes t) = add_mset a (mset (local_nodes h))"
    using cs(2) by (simp add: local_nodes_cong(1) [OF u(4)] vec_push_def)
  have hl: "hlocal t b \<longleftrightarrow> b = a \<or> hlocal h b" for b by (simp add: co u(5))
  have ok: "stacks_ok h" "distinct (local_nodes h)" "\<And>b. hlocal h b \<longleftrightarrow> b \<in> set (local_nodes h)"
    using inv(2) by (simp_all add: scope_ok_alt)
  have "\<not> hlocal h a" using g new by (simp add: hlocal_def)
  then have "distinct (a # local_nodes h)" using ok by simp
  then have "distinct (local_nodes t)" using ms by (metis distinct_mset mset.simps(2))
  moreover have "b \<in> set (local_nodes t) \<longleftrightarrow> b = a \<or> b \<in> set (local_nodes h)" for b
    using arg_cong [OF ms, of set_mset] by auto
  moreover have "stacks_ok t" using cs(5) ok(1) local_nodes_cong(2) [OF u(4)] by simp
  ultimately have "scope_ok t" using ok(3) hl by (simp add: scope_ok_alt)
  moreover have "keeps h t" by (rule keeps_trans [OF u(2) co(6) [OF keeps_inv [OF u(2)]]])
  moreover have "stays h t" using u(3) co by (simp add: stays_def)
  moreover have "held t \<subseteq> insert (sc_partition_id s, a) (held h)"
    using cache_set_held [OF su t(2)] heldI [OF s] by (auto simp: held_cong [OF u(4)] vec_push_def)
  ultimately show ?thesis using u(1) t(1) cs(3,6) hl local_nodes_cong(3) [OF u(4)] by (simp add: vec_push_def)
qed

subsection \<open>Taking the flag away\<close>

lemma clear_flag:
  assumes inv: "heap_inv h" and g: "heads h a = Some g"
  shows "keeps h (put_head a (remove_flag LOCAL g) h)" "stays h (put_head a (remove_flag LOCAL g) h)"
    "hlocal (put_head a (remove_flag LOCAL g) h) b \<longleftrightarrow> b \<noteq> a \<and> hlocal h b"
proof -
  show "keeps h (put_head a (remove_flag LOCAL g) h)"
    by (rule keeps_flag [OF inv g]) (simp_all add: is_root_or_local_iff)
  have "partition_id (remove_flag LOCAL g) = partition_id g" "dtype (remove_flag LOCAL g) = dtype g"
    "weak_id (remove_flag LOCAL g) = weak_id g"
    using hview_flags(3) [of g] by (simp_all add: hview_def)
  then show "stays h (put_head a (remove_flag LOCAL g) h)" using g by (auto simp: stays_def)
  show "hlocal (put_head a (remove_flag LOCAL g) h) b \<longleftrightarrow> b \<noteq> a \<and> hlocal h b"
    by (simp add: hlocal_def)
qed

text \<open>Only heads of \<open>D\<close> and scope stacks change.\<close>

definition flag_frame :: "'p gc_heap \<Rightarrow> addr set \<Rightarrow> 'p gc_heap \<Rightarrow> bool" where
  "flag_frame h D t \<longleftrightarrow> (\<forall>b. b \<notin> D \<longrightarrow> heads t b = heads h b) \<and>
     (\<forall>b. map_option next_ptr (heads t b) = map_option next_ptr (heads h b)) \<and> partitions t = partitions h \<and>
     payloads t = payloads h \<and> weak_slots t = weak_slots h \<and> total_memory_used t = total_memory_used h \<and>
     node_dtypes t = node_dtypes h \<and> memory_limit t = memory_limit h \<and> gc_threshold t = gc_threshold h \<and>
     drop_log t = drop_log h"

lemma flag_frame_refl [simp]: "flag_frame h D h"
  by (simp add: flag_frame_def)

lemma flag_frame_trans: "flag_frame h D t \<Longrightarrow> flag_frame t E u \<Longrightarrow> flag_frame h (D \<union> E) u"
  by (simp add: flag_frame_def)

lemma flag_frame_put_head:
  "heads h a = Some g \<Longrightarrow> next_ptr g' = next_ptr g \<Longrightarrow> flag_frame h {a} (put_head a g' h)"
  by (simp add: flag_frame_def)

lemma flag_frame_cache_set: "cache_set h sid k s c t \<Longrightarrow> flag_frame h {} t"
  by (frule cache_setD(1), erule ssubst) (simp add: flag_frame_def)

definition unlocal :: "'p gc_heap \<Rightarrow> addr set \<Rightarrow> 'p gc_heap \<Rightarrow> bool" where
  "unlocal h D t \<longleftrightarrow> keeps h t \<and> stays h t \<and> flag_frame h D t \<and> scope_stacks t = scope_stacks h \<and>
     (\<forall>b. hlocal t b \<longleftrightarrow> hlocal h b \<and> b \<notin> D)"

lemma unprotect_correct:
  assumes inv: "heap_inv h" and c: "set (case c of None \<Rightarrow> [] | Some l \<Rightarrow> l) \<subseteq> dom (heads h)"
  shows "\<exists>t. unprotect c h = Some t \<and> unlocal h (set (case c of None \<Rightarrow> [] | Some l \<Rightarrow> l)) t"
proof (cases c)
  case None
  then show ?thesis using keeps_refl [OF inv] by (simp add: unprotect_def unlocal_def stays_def)
next
  case (Some l)
  have "\<exists>t. fold_opt (update_head (remove_flag LOCAL)) l h = Some t \<and> unlocal h (set l) t"
  proof (rule fold_opt_prefix_rule [where P = "\<lambda>ys. unlocal h (set ys)"])
    show "unlocal h (set []) h" using keeps_refl [OF inv] by (simp add: unlocal_def stays_def)
  next
    fix ys x zs t assume l: "l = ys @ x # zs" and u: "unlocal h (set ys) t"
    have "x \<in> dom (heads t)" using c Some l u by (auto simp: unlocal_def stays_def)
    then obtain g where g: "heads t x = Some g" by blast
    have ti: "heap_inv t" using u keeps_inv by (auto simp: unlocal_def)
    have "flag_frame h (set ys \<union> {x}) (put_head x (remove_flag LOCAL g) t)"
      using u flag_frame_trans [OF _ flag_frame_put_head [OF g]] by (auto simp: unlocal_def remove_flag_def)
    with u clear_flag [OF ti g] have "unlocal h (set (ys @ [x])) (put_head x (remove_flag LOCAL g) t)"
      unfolding unlocal_def using keeps_trans stays_trans by (auto simp: insert_commute)
    then show "\<exists>t'. update_head (remove_flag LOCAL) x t = Some t' \<and> unlocal h (set (ys @ [x])) t'"
      by (simp add: update_head_Some g)
  qed
  then show ?thesis by (simp add: unprotect_def Some)
qed

lemma scope_ok_live:
  assumes "scope_ok h" "a \<in> set (local_nodes h)"
  shows "a \<in> dom (heads h)" "hlocal h a"
  using assms by (auto simp: scope_ok_def hlocal_def)

lemma cache_in_locals:
  assumes "get_scope h sid k = Some s"
  shows "mset (cache_list s) \<subseteq># mset (local_nodes h)"
proof -
  from put_cache_correct [OF assms, of None] obtain t where "cache_set h sid k s None t" by blast
  from cache_setD(2) [OF this] have "mset (local_nodes t) + mset (cache_list s) = mset (local_nodes h)" by simp
  then show ?thesis by (metis mset_subset_eq_add_right)
qed

lemma cache_live:
  assumes "scope_ok h" "get_scope h sid k = Some s" "a \<in> set (cache_list s)"
  shows "a \<in> dom (heads h)" "hlocal h a" "a \<in> set (local_nodes h)"
proof -
  have "a \<in># mset (local_nodes h)"
    using mset_subset_eqD [OF cache_in_locals [OF assms(2)]] assms(3) by simp
  then show a: "a \<in> set (local_nodes h)" by simp
  show "a \<in> dom (heads h)" "hlocal h a" using scope_ok_live [OF assms(1) a] by simp_all
qed

text \<open>The accounting all removals share.\<close>

lemma scope_ok_remove:
  assumes ok: "scope_ok h" and ms: "mset (local_nodes t) + M = mset (local_nodes h)"
    and st: "stacks_ok t" and hl: "\<And>b. hlocal t b \<longleftrightarrow> hlocal h b \<and> b \<notin># M"
  shows "scope_ok t"
proof -
  have d: "distinct (local_nodes h)" "\<And>b. hlocal h b \<longleftrightarrow> b \<in># mset (local_nodes h)"
    using ok by (simp_all add: scope_ok_alt)
  have c: "count (mset (local_nodes t)) b + count M b = (if b \<in># mset (local_nodes h) then 1 else 0)" for b
  proof -
    have "count (mset (local_nodes t)) b + count M b = count (mset (local_nodes h)) b"
      by (metis ms count_union)
    also have "\<dots> = (if b \<in># mset (local_nodes h) then 1 else 0)"
      using d(1) by (simp add: distinct_count_atmost_1)
    finally show ?thesis .
  qed
  have mem: "b \<in># mset (local_nodes t) \<longleftrightarrow> hlocal h b \<and> b \<notin># M" for b
  proof -
    have "x + y = (if P then 1 else 0) \<Longrightarrow> 0 < x \<longleftrightarrow> P \<and> \<not> 0 < y" for x y :: nat and P by (auto split: if_splits)
    from this [OF c [of b]] d(2) [of b] show ?thesis by simp
  qed
  have "count (mset (local_nodes t)) b = (if b \<in> set (local_nodes t) then 1 else 0)" for b
  proof (cases "b \<in> set (local_nodes t)")
    case True
    then have "0 < count (mset (local_nodes t)) b" by (simp add: count_greater_zero_iff)
    moreover have "count (mset (local_nodes t)) b \<le> 1"
      by (rule le_trans [OF le_add1 [of _ "count M b"]]) (simp only: c split: if_split, simp)
    ultimately have "count (mset (local_nodes t)) b = 1" by linarith
    with True show ?thesis by simp
  next
    case False
    then show ?thesis by (simp add: count_eq_zero_iff)
  qed
  then have "distinct (local_nodes t)" by (simp add: distinct_count_atmost_1)
  with st hl mem show ?thesis by (simp add: scope_ok_alt)
qed

lemma scope_clear_correct:
  assumes inv: "heap_inv h" "scope_ok h" and s: "get_scope h sid k = Some s"
  shows "\<exists>t. scope_clear sid k h = Some t \<and> keeps h t \<and> stays h t \<and> scope_ok t \<and>
    get_scope t sid k = Some (s\<lparr>sc_cache := None\<rparr>) \<and>
    (\<forall>b. hlocal t b \<longleftrightarrow> hlocal h b \<and> b \<notin> set (cache_list s)) \<and> flag_frame h (set (cache_list s)) t \<and>
    (\<forall>sid' k'. (sid', k') \<noteq> (sid, k) \<longrightarrow> get_scope t sid' k' = get_scope h sid' k') \<and>
    (\<forall>sid'. map_option (\<lambda>st. (length (ss_list st), ss_partition st)) (get_stack t sid') =
            map_option (\<lambda>st. (length (ss_list st), ss_partition st)) (get_stack h sid')) \<and> held t \<subseteq> held h"
proof -
  from put_cache_correct [OF s, of None] obtain u where
    u: "put_cache sid k None h = Some u" "cache_set h sid k s None u" by blast
  note cs = cache_setD [OF u(2)] and co = cache_set_obs [OF u(2)]
  have ku: "keeps h u" by (rule co(6) [OF inv(1)])
  have su: "stays h u" using co by (simp add: stays_def)
  have "set (cache_list s) \<subseteq> dom (heads u)" using cache_live(1) [OF inv(2) s] by (auto simp: co)
  then obtain t where t: "unprotect (sc_cache s) u = Some t" "unlocal u (set (cache_list s)) t"
    using unprotect_correct [OF keeps_inv [OF ku], of "sc_cache s"] by (auto simp: cache_list_def)
  have st: "scope_stacks t = scope_stacks u" using t(2) by (simp add: unlocal_def)
  have hl: "hlocal t b \<longleftrightarrow> hlocal h b \<and> b \<notin> set (cache_list s)" for b
    using t(2) by (simp add: unlocal_def co)
  have "scope_ok t"
    by (rule scope_ok_remove [OF inv(2), of _ "mset (cache_list s)"])
       (use cs(2,5) inv(2) hl in \<open>simp_all add: local_nodes_cong [OF st] scope_ok_alt\<close>)
  moreover have "keeps h t" "stays h t"
    using t(2) keeps_trans [OF ku] stays_trans [OF su] by (auto simp: unlocal_def)
  moreover have "flag_frame h (set (cache_list s)) t"
    using flag_frame_trans [OF flag_frame_cache_set [OF u(2)]] t(2) by (auto simp: unlocal_def)
  moreover have "scope_clear sid k h = Some t" using u(1) t(1) by (simp add: scope_clear_def s)
  moreover have "held t \<subseteq> held h" using cache_set_held_sub [OF s u(2)] by (simp add: held_cong [OF st])
  ultimately show ?thesis
    using cs(3,4,6) hl by (simp add: get_scope_cong [OF st] local_nodes_cong(3) [OF st])
qed

subsection \<open>Removing and promoting a node\<close>

lemma remove_node_correct:
  assumes inv: "heap_inv h" "scope_ok h" and s: "get_scope h sid k = Some s" and a: "a \<in> set (cache_list s)"
  shows "\<exists>t. remove_node sid k a h = Some (True, t) \<and> keeps h t \<and> stays h t \<and> scope_ok t \<and>
    (\<forall>b. hlocal t b \<longleftrightarrow> hlocal h b \<and> b \<noteq> a) \<and> held t \<subseteq> held h"
proof -
  from a obtain cache where c: "sc_cache s = Some cache" "cache_list s = cache"
    by (cases "sc_cache s") (auto simp: cache_list_def)
  with a obtain pos where pos: "position a cache = Some pos" using position_None by fastforce
  note ps = position_Some [OF pos]
  have ms: "mset cache = add_mset a (mset (swap_remove pos cache))" using mset_swap_remove ps by metis
  from put_cache_correct [OF s, of "Some (swap_remove pos cache)"] obtain u where
    u: "put_cache sid k (Some (swap_remove pos cache)) h = Some u"
      "cache_set h sid k s (Some (swap_remove pos cache)) u" by blast
  note cs = cache_setD [OF u(2)] and co = cache_set_obs [OF u(2)]
  have ku: "keeps h u" by (rule co(6) [OF inv(1)])
  have su: "stays h u" using co by (simp add: stays_def)
  from cache_live(1) [OF inv(2) s a] obtain g where g: "heads u a = Some g" by (auto simp: co)
  let ?t = "put_head a (remove_flag LOCAL g) u"
  note cf = clear_flag [OF keeps_inv [OF ku] g]
  have hl: "hlocal ?t b \<longleftrightarrow> hlocal h b \<and> b \<noteq> a" for b using cf(3) by (auto simp: co)
  have st: "scope_stacks ?t = scope_stacks u" by simp
  have "scope_ok ?t"
    by (rule scope_ok_remove [OF inv(2), of _ "{#a#}"])
       (use cs(2,5) inv(2) hl c ms in \<open>auto simp: local_nodes_cong [OF st] scope_ok_alt\<close>)
  moreover have "set cache = insert a (set (swap_remove pos cache))" using arg_cong [OF ms, of set_mset] by simp
  then have "held ?t \<subseteq> held h" using cache_set_held_sub [OF s u(2)] c(2) by (auto simp: held_cong [OF st])
  moreover have "remove_node sid k a h = Some (True, ?t)"
    using u(1) g by (simp add: remove_node_def s c pos update_head_def)
  ultimately show ?thesis
    using keeps_trans [OF ku cf(1)] stays_trans [OF su cf(2)] hl by blast
qed

lemma remove_node_missing:
  "get_scope h sid k = Some s \<Longrightarrow> a \<notin> set (cache_list s) \<Longrightarrow> remove_node sid k a h = Some (False, h)"
  "get_scope h sid k = Some s \<Longrightarrow> a \<notin> set (cache_list s) \<Longrightarrow> promote_node_to sid k a tsid tk h = Some (False, h)"
  by (auto simp: remove_node_def promote_node_to_def cache_list_def position_None [THEN iffD2] split: option.split)

lemma promote_correct:
  assumes inv: "heap_inv h" "scope_ok h" and s: "get_scope h sid k = Some s" and a: "a \<in> set (cache_list s)"
    and tg: "get_scope h tsid tk = Some tgt" and ne: "(tsid, tk) \<noteq> (sid, k)"
  shows "\<exists>t. promote_node_to sid k a tsid tk h = Some (True, t) \<and> keeps h t \<and> stays h t \<and> scope_ok t \<and>
    hlocal t = hlocal h \<and>
    (\<exists>s'. get_scope t sid k = Some s' \<and> mset (cache_list s) = add_mset a (mset (cache_list s'))) \<and>
    get_scope t tsid tk = Some (tgt\<lparr>sc_cache := Some (cache_list tgt @ [a])\<rparr>) \<and>
    (\<forall>sid'. map_option (\<lambda>st. (length (ss_list st), ss_partition st)) (get_stack t sid') =
            map_option (\<lambda>st. (length (ss_list st), ss_partition st)) (get_stack h sid')) \<and>
    held t \<subseteq> insert (sc_partition_id tgt, a) (held h)"
proof -
  from a obtain cache where c: "sc_cache s = Some cache" "cache_list s = cache"
    by (cases "sc_cache s") (auto simp: cache_list_def)
  with a obtain pos where pos: "position a cache = Some pos" using position_None by fastforce
  note ps = position_Some [OF pos]
  have ms: "mset cache = add_mset a (mset (swap_remove pos cache))" using mset_swap_remove ps by metis
  from put_cache_correct [OF s, of "Some (swap_remove pos cache)"] obtain u where
    u: "put_cache sid k (Some (swap_remove pos cache)) h = Some u"
      "cache_set h sid k s (Some (swap_remove pos cache)) u" by blast
  note cs = cache_setD [OF u(2)] and co = cache_set_obs [OF u(2)]
  have tu: "get_scope u tsid tk = Some tgt" using cs(4) [OF ne] tg by simp
  have cl: "(case sc_cache tgt of None \<Rightarrow> [] | Some c \<Rightarrow> c) = cache_list tgt" by (simp add: cache_list_def)
  from put_cache_correct [OF tu, of "Some (vec_push (cache_list tgt) a)"] obtain t where
    t: "put_cache tsid tk (Some (vec_push (cache_list tgt) a)) u = Some t"
      "cache_set u tsid tk tgt (Some (vec_push (cache_list tgt) a)) t" by blast
  note cs' = cache_setD [OF t(2)] and co' = cache_set_obs [OF t(2)]
  have "mset (local_nodes t) = add_mset a (mset (local_nodes u))" using cs'(2) by (simp add: vec_push_def)
  moreover have "add_mset a (mset (local_nodes u)) = mset (local_nodes h)" using cs(2) c ms by simp
  ultimately have m: "mset (local_nodes t) = mset (local_nodes h)" by simp
  have "scope_ok t"
    by (rule scope_ok_remove [OF inv(2), of _ "{#}"])
       (use m inv(2) cs(5) cs'(5) in \<open>simp_all add: co co' scope_ok_alt\<close>)
  moreover have "keeps h t" using keeps_trans [OF co(6) [OF inv(1)]] co'(6) keeps_inv [OF co(6) [OF inv(1)]] by blast
  moreover have "stays h t" using co co' by (simp add: stays_def)
  moreover have "hlocal t = hlocal h" by (simp add: co co')
  moreover have "set cache = insert a (set (swap_remove pos cache))" using arg_cong [OF ms, of set_mset] by simp
  then have "held u \<subseteq> held h" using cache_set_held_sub [OF s u(2)] c(2) by auto
  then have "held t \<subseteq> insert (sc_partition_id tgt, a) (held h)"
    using cache_set_held [OF tu t(2)] heldI [OF tu] by (auto simp: vec_push_def)
  moreover have "promote_node_to sid k a tsid tk h = Some (True, t)"
    using u(1) t(1) by (simp add: promote_node_to_def s c pos tu cl)
  moreover have "get_scope t sid k = Some (s\<lparr>sc_cache := Some (swap_remove pos cache)\<rparr>)"
    using cs'(4) [of sid k] ne cs(3) by auto
  ultimately show ?thesis using cs'(3,6) cs(6) ms c by (auto simp: vec_push_def)
qed

subsection \<open>Pushing and popping scopes\<close>

lemma get_stack_put:
  "unat sid < length (scope_stacks h) \<Longrightarrow>
     get_stack (put_stack sid st h) sid' = (if sid' = sid then Some st else get_stack h sid')"
  unfolding get_stack_def put_stack_def by (auto simp: word_unat_eq_iff)

lemma put_stack_obs:
  assumes i: "get_stack h sid = Some st"
  shows "mset (local_nodes (put_stack sid st' h)) + mset (stack_nodes st) = mset (local_nodes h) + mset (stack_nodes st')"
    "stacks_ok h \<Longrightarrow> stack_ok sid st' \<Longrightarrow> stacks_ok (put_stack sid st' h)"
    "heads (put_stack sid st' h) = heads h" "hlocal (put_stack sid st' h) = hlocal h"
    "heap_inv h \<Longrightarrow> keeps h (put_stack sid st' h)" "stays h (put_stack sid st' h)"
proof -
  have l: "unat sid < length (scope_stacks h)" "scope_stacks h ! unat sid = st"
    using i by (simp_all add: get_stack_def vec_get_Some)
  show "mset (local_nodes (put_stack sid st' h)) + mset (stack_nodes st) = mset (local_nodes h) + mset (stack_nodes st')"
    using mset_stack_update [OF l(1), of st'] l(2) by (simp add: put_stack_def)
  show "stacks_ok (put_stack sid st' h)" if "stacks_ok h" "stack_ok sid st'"
    using that l by (auto simp: stacks_ok_def put_stack_def nth_list_update)
qed (simp_all add: put_stack_def keeps_scope_stacks)

lemma get_scope_stack: "get_scope h sid k = Option.bind (get_stack h sid) (\<lambda>st. vec_get (ss_list st) k)"
  by (simp add: get_scope_def)

lemma put_stack_held:
  assumes i: "get_stack h sid = Some st"
    and sub: "\<And>s. s \<in> set (ss_list st') \<Longrightarrow> s \<in> set (ss_list st) \<or> sc_cache s = None"
  shows "held (put_stack sid st' h) \<subseteq> held h"
proof
  fix x assume "x \<in> held (put_stack sid st' h)"
  then obtain sid' k s a where x: "x = (sc_partition_id s, a)" "get_scope (put_stack sid st' h) sid' k = Some s"
    "a \<in> set (cache_list s)" unfolding held_def by blast
  have l: "unat sid < length (scope_stacks h)" using i by (simp add: get_stack_def vec_get_Some)
  have "\<exists>sid k. get_scope h sid k = Some s"
  proof (cases "sid' = sid")
    case True
    then have "s \<in> set (ss_list st')"
      using x(2) by (simp add: get_scope_stack get_stack_put [OF l] vec_get_Some) auto
    moreover have "sc_cache s \<noteq> None" using x(3) by (cases "sc_cache s") (simp_all add: cache_list_def)
    ultimately have "s \<in> set (ss_list st)" using sub [of s] by auto
    then obtain j where "j < length (ss_list st)" "ss_list st ! j = s" by (auto simp: in_set_conv_nth)
    then have "get_scope h sid j = Some s" using i by (simp add: get_scope_stack vec_get_def)
    then show ?thesis by blast
  next
    case False
    then show ?thesis using x(2) by (auto simp: get_scope_stack get_stack_put [OF l])
  qed
  with x(1,3) show "x \<in> held h" unfolding held_def by blast
qed

lemma stacks_ok_stack:
  assumes "stacks_ok h" "get_stack h sid = Some st"
  shows "stack_ok sid st"
proof -
  have "stack_ok (of_nat (unat sid)) (scope_stacks h ! unat sid)"
    using assms unfolding stacks_ok_def get_stack_def vec_get_Some by blast
  then show ?thesis using assms(2) by (simp add: get_stack_def vec_get_Some)
qed

lemma new_scope_correct:
  assumes inv: "heap_inv h" "scope_ok h" and st: "get_stack h sid = Some st" "ss_partition st = Some p"
    and len: "length (ss_list st) < 2 ^ 32 - 1"
  shows "\<exists>t s. new_scope sid h = Some (of_nat (length (ss_list st)), t) \<and> keeps h t \<and> scope_ok t \<and>
    get_stack t sid = Some (st\<lparr>ss_list := ss_list st @ [s]\<rparr>) \<and> sc_cache s = None \<and> sc_partition_id s = p \<and>
    hlocal t = hlocal h \<and> heads t = heads h \<and> stays h t \<and> held t \<subseteq> held h"
proof -
  let ?s = "\<lparr>sc_partition_id = p, sc_stack_id = sid, sc_depth = of_nat (length (ss_list st)) + 1, sc_cache = None\<rparr>"
  let ?st = "st\<lparr>ss_list := ss_list st @ [?s]\<rparr>"
  let ?t = "put_stack sid ?st h"
  note po = put_stack_obs [OF st(1)]
  have i: "unat sid < length (scope_stacks h)" using st(1) by (simp add: get_stack_def vec_get_Some)
  have sok: "stacks_ok h" using inv(2) by (simp add: scope_ok_alt)
  have "stack_ok sid st" by (rule stacks_ok_stack [OF sok st(1)])
  then have "stack_ok sid ?st" using len st(2) by (auto simp: stack_ok_def nth_append less_Suc_eq)
  then have "stacks_ok ?t" using po(2) sok by blast
  moreover have "mset (local_nodes ?t) = mset (local_nodes h)"
    using po(1) [of ?st] by (simp add: stack_nodes_def cache_list_def)
  ultimately have "scope_ok ?t"
    by (intro scope_ok_remove [OF inv(2), of _ "{#}"]) (simp_all add: po(4))
  moreover have "new_scope sid h = Some (of_nat (length (ss_list st)), ?t)"
    using len by (simp add: new_scope_def st Let_def vec_push_def)
  moreover have "held ?t \<subseteq> held h" by (rule put_stack_held [OF st(1)]) auto
  ultimately show ?thesis
    using po(3-6) inv(1) get_stack_put [OF i, of ?st sid] by (intro exI [of _ ?t] exI [of _ ?s]) simp
qed

lemma scope_drop_correct:
  assumes inv: "heap_inv h" "scope_ok h" and st: "get_stack h sid = Some st" "ss_list st = ss @ [s]"
  shows "\<exists>t. scope_drop sid index h = Some t \<and> keeps h t \<and> stays h t \<and> scope_ok t \<and>
    get_stack t sid = Some (st\<lparr>ss_list := ss\<rparr>) \<and>
    (\<forall>b. hlocal t b \<longleftrightarrow> hlocal h b \<and> b \<notin> set (cache_list s)) \<and> held t \<subseteq> held h"
proof -
  let ?st = "st\<lparr>ss_list := ss\<rparr>"
  let ?u = "put_stack sid ?st h"
  note po = put_stack_obs [OF st(1)]
  have i: "unat sid < length (scope_stacks h)" using st(1) by (simp add: get_stack_def vec_get_Some)
  have sok: "stacks_ok h" using inv(2) by (simp add: scope_ok_alt)
  have "stack_ok sid st" by (rule stacks_ok_stack [OF sok st(1)])
  then have "stack_ok sid ?st" using st(2) by (auto simp: stack_ok_def nth_append split: if_splits)
  then have su: "stacks_ok ?u" using po(2) sok by blast
  have m: "mset (local_nodes ?u) + mset (cache_list s) = mset (local_nodes h)"
    using po(1) [of ?st] st(2) by (simp add: stack_nodes_def)
  have gs: "get_scope h sid (length ss) = Some s" using st by (simp add: get_scope_def vec_get_def)
  have ku: "keeps h ?u" by (rule po(5) [OF inv(1)])
  have "set (cache_list s) \<subseteq> dom (heads ?u)" using cache_live(1) [OF inv(2) gs] by (auto simp: po(3))
  then obtain t where t: "unprotect (sc_cache s) ?u = Some t" "unlocal ?u (set (cache_list s)) t"
    using unprotect_correct [OF keeps_inv [OF ku], of "sc_cache s"] by (auto simp: cache_list_def)
  have sc: "scope_stacks t = scope_stacks ?u" using t(2) by (simp add: unlocal_def)
  have hl: "hlocal t b \<longleftrightarrow> hlocal h b \<and> b \<notin> set (cache_list s)" for b
    using t(2) by (simp add: unlocal_def po(4))
  have "scope_ok t"
    by (rule scope_ok_remove [OF inv(2), of _ "mset (cache_list s)"])
       (use m su hl in \<open>simp_all add: local_nodes_cong [OF sc]\<close>)
  moreover have "keeps h t" "stays h t"
    using t(2) keeps_trans [OF ku] stays_trans [OF po(6)] by (auto simp: unlocal_def)
  moreover have "scope_drop sid index h = Some t"
    using t(1) by (simp add: scope_drop_def pop_scope_def st)
  moreover have "get_stack t sid = Some ?st"
    using get_stack_put [OF i, of ?st sid] by (simp add: local_nodes_cong(3) [OF sc])
  moreover have "held ?u \<subseteq> held h" by (rule put_stack_held [OF st(1)]) (use st(2) in auto)
  then have "held t \<subseteq> held h" by (simp add: held_cong [OF sc])
  ultimately show ?thesis using hl by blast
qed

end
