(* ===== verification/Gc_Scope_Ops.thy ===== *)
theory Gc_Scope_Ops
  imports Gc_Scope_Safe
begin

section \<open>Scopes, allocation and collection together (src/src/scope.rs, src/src/heap.rs)\<close>

text \<open>
  The operations that combine a scope with the heap: protecting nodes, allocating a local node,
  running a closure in a scope, acquiring a stack; and a collection in the presence of scopes.
\<close>

subsection \<open>Protecting\<close>

lemma stays_head:
  assumes "stays h t" "heads h a = Some g"
  shows "\<exists>g'. heads t a = Some g' \<and> is_root g' = is_root g \<and> partition_id g' = partition_id g"
proof -
  have "a \<in> dom (heads t)" using assms by (auto simp: stays_def)
  then obtain g' where "heads t a = Some g'" by blast
  with assms show ?thesis unfolding stays_def by blast
qed

lemma stays_in_par: "stays h t \<Longrightarrow> in_par t = in_par h"
proof (intro ext)
  fix i a assume st: "stays h t"
  show "in_par t i a = in_par h i a"
  proof (cases "heads h a")
    case None
    then have "a \<notin> dom (heads t)" using st by (simp add: stays_def domIff)
    then have "heads t a = None" by (simp add: domIff)
    with None show ?thesis by (simp add: in_par_def)
  next
    case (Some g)
    from stays_head [OF st this] Some show ?thesis by (auto simp: in_par_def)
  qed
qed

lemma hroot_iff: "hroot h a \<longleftrightarrow> (\<exists>g. heads h a = Some g \<and> is_root g) \<or> hlocal h a"
  by (auto simp: hroot_def hlocal_def is_root_or_local_iff)

lemma stays_root:
  assumes "stays h t" "hlocal h a \<Longrightarrow> hlocal t a" "hroot h a"
  shows "hroot t a"
proof (cases "hlocal h a")
  case True
  with assms(2) show ?thesis by (simp add: hroot_iff)
next
  case False
  with assms(3) obtain g where g: "heads h a = Some g" "is_root g" by (auto simp: hroot_iff)
  with stays_head [OF assms(1) g(1)] show ?thesis by (auto simp: hroot_iff)
qed

lemma add_non_local_correct:
  assumes inv: "heap_inv h" "scope_ok h" and s: "get_scope h sid k = Some s" and g: "heads h a = Some g"
    and own: "sc_partition_id s = partition_id g"
  shows "\<exists>t. add_non_local sid k a h = Some (\<not> hroot h a, t) \<and> keeps h t \<and> stays h t \<and> scope_ok t \<and>
    (\<exists>s'. get_scope t sid k = Some s' \<and> sc_partition_id s' = sc_partition_id s) \<and>
    (\<forall>b. hroot t b \<longleftrightarrow> b = a \<or> hroot h b) \<and> held t \<subseteq> insert (sc_partition_id s, a) (held h) \<and>
    (if hroot h a then t = h
     else get_scope t sid k = Some (s\<lparr>sc_cache := Some (cache_list s @ [a])\<rparr>) \<and>
       (\<forall>b. hlocal t b \<longleftrightarrow> b = a \<or> hlocal h b))"
proof (cases "is_root_or_local g")
  case True
  then show ?thesis
    using g s keeps_refl [OF inv(1)] inv(2)
    by (auto simp: add_non_local_def obs_head(2) [OF g] stays_def)
next
  case False
  then have nr: "\<not> hroot h a" "\<not> is_local g" by (simp_all add: obs_head(2) [OF g] is_root_or_local_iff)
  from add_node_correct [OF inv s g own nr(2)] obtain t where
    t: "add_node sid k a h = Some t" "keeps h t" "stays h t" "scope_ok t"
      "get_scope t sid k = Some (s\<lparr>sc_cache := Some (cache_list s @ [a])\<rparr>)"
      "\<And>b. hlocal t b \<longleftrightarrow> b = a \<or> hlocal h b" "held t \<subseteq> insert (sc_partition_id s, a) (held h)" by blast
  have "hroot t b \<longleftrightarrow> b = a \<or> hroot h b" for b
  proof
    assume r: "hroot t b"
    show "b = a \<or> hroot h b"
    proof (cases "hlocal t b")
      case True
      then show ?thesis by (auto simp: t(6) hroot_iff)
    next
      case False
      with r obtain g' where g': "heads t b = Some g'" "is_root g'" by (auto simp: hroot_iff)
      with t(3) obtain g0 where "heads h b = Some g0" unfolding stays_def by blast
      with t(3) g' show ?thesis by (auto simp: hroot_iff stays_def)
    qed
  next
    assume "b = a \<or> hroot h b"
    then show "hroot t b"
      using stays_root [OF t(3)] t(6) by (auto simp: hroot_iff)
  qed
  with t nr g False show ?thesis by (auto simp: add_non_local_def)
qed

lemma current_index_top:
  "get_stack h sid = Some st \<Longrightarrow> ss_list st = ss @ [s] \<Longrightarrow>
     current_index sid h = Some (Some (length ss)) \<and> get_scope h sid (length ss) = Some s"
  by (simp add: current_index_def get_scope_def vec_get_def)

lemma protect_node_correct:
  assumes inv: "heap_inv h" "scope_ok h" and st: "get_stack h sid = Some st" "ss_list st = ss @ [s]"
    and g: "heads h a = Some g" and own: "sc_partition_id s = partition_id g"
  shows "\<exists>t. protect_node sid a h = Some (\<not> hroot h a, t) \<and> keeps h t \<and> stays h t \<and> scope_ok t \<and>
    (\<forall>b. hroot t b \<longleftrightarrow> b = a \<or> hroot h b) \<and> held t \<subseteq> insert (sc_partition_id s, a) (held h) \<and>
    (if hroot h a then t = h
     else get_scope t sid (length ss) = Some (s\<lparr>sc_cache := Some (cache_list s @ [a])\<rparr>) \<and>
       (\<forall>b. hlocal t b \<longleftrightarrow> b = a \<or> hlocal h b))"
  using add_non_local_correct [OF inv _ g own, of sid "length ss"] current_index_top [OF st]
  by (auto simp: protect_node_def)

lemma protect_nodes_correct:
  assumes inv: "heap_inv h" "scope_ok h" and st: "get_stack h sid = Some st" "ss_list st = ss @ [s]"
    and own: "\<And>a. a \<in> set as \<Longrightarrow> \<exists>g. heads h a = Some g \<and> partition_id g = sc_partition_id s"
  shows "\<exists>t. protect_nodes sid as h = Some t \<and> keeps h t \<and> stays h t \<and> scope_ok t \<and>
    (\<forall>b. hroot t b \<longleftrightarrow> b \<in> set as \<or> hroot h b)"
proof -
  let ?k = "length ss"
  define P where "P ys t \<longleftrightarrow> keeps h t \<and> stays h t \<and> scope_ok t \<and>
    (\<exists>s'. get_scope t sid ?k = Some s' \<and> sc_partition_id s' = sc_partition_id s) \<and>
    (\<forall>b. hroot t b \<longleftrightarrow> b \<in> set ys \<or> hroot h b)" for ys t
  have "\<exists>t. fold_opt (\<lambda>n h. map_option snd (add_non_local sid ?k n h)) as h = Some t \<and> P as t"
  proof (rule fold_opt_prefix_rule)
    show "P [] h"
      using keeps_refl [OF inv(1)] inv(2) current_index_top [OF st] by (simp add: P_def stays_def)
  next
    fix ys x zs t assume as: "as = ys @ x # zs" and p: "P ys t"
    from p obtain s' where s': "get_scope t sid ?k = Some s'" "sc_partition_id s' = sc_partition_id s"
      by (auto simp: P_def)
    from own [of x] as obtain g where g: "heads h x = Some g" "partition_id g = sc_partition_id s" by auto
    from p have sy: "stays h t" by (simp add: P_def)
    from stays_head [OF this g(1)] obtain g' where g': "heads t x = Some g'" "partition_id g' = partition_id g"
      by blast
    with g s'(2) have own': "sc_partition_id s' = partition_id g'" by simp
    have i: "heap_inv t" "scope_ok t" using p keeps_inv by (auto simp: P_def)
    from add_non_local_correct [OF i s'(1) g'(1) own'] obtain t' where
      t': "add_non_local sid ?k x t = Some (\<not> hroot t x, t')" "keeps t t'" "stays t t'" "scope_ok t'"
        "\<exists>s'. get_scope t' sid ?k = Some s' \<and> sc_partition_id s' = sc_partition_id s"
        "\<And>b. hroot t' b \<longleftrightarrow> b = x \<or> hroot t b" using s'(2) by auto
    have "P (ys @ [x]) t'"
      using p t' keeps_trans [OF _ t'(2)] stays_trans [OF _ t'(3)] by (auto simp: P_def)
    with t'(1) show "\<exists>t'. map_option snd (add_non_local sid ?k x t) = Some t' \<and> P (ys @ [x]) t'" by simp
  qed
  then show ?thesis using current_index_top [OF st] by (auto simp: protect_nodes_def P_def)
qed

subsection \<open>A local node\<close>

lemma node_born_stays:
  assumes b: "node_born h pid gt a v t" and st: "stays t u"
  shows "node_born h pid gt a v u"
proof -
  have "map_option (\<lambda>g. (dtype g, partition_id g)) (heads u x) = map_option (\<lambda>g. (dtype g, partition_id g)) (heads t x)" for x
  proof (cases "heads t x")
    case None
    then have "x \<notin> dom (heads u)" using st by (simp add: stays_def domIff)
    with None show ?thesis by (simp add: domIff)
  next
    case (Some g)
    then have "x \<in> dom (heads u)" using st by (auto simp: stays_def)
    then obtain g' where "heads u x = Some g'" by blast
    with Some st show ?thesis unfolding stays_def by simp
  qed
  with b st show ?thesis by (simp add: node_born_def stays_def fun_eq_iff)
qed

lemma alloc_local_correct:
  assumes inv: "heap_inv h" "scope_ok h" and cl: "refs_closed h" and s: "get_scope h sid k = Some s"
    and p: "get_par h (sc_partition_id s) = Some par" and ty: "type_known h ty gt"
    and l: "layout_from_size_align (layout_size_of ty) (layout_align_of ty) = Some l"
    and lim: "\<not> over_limit h (layout_size_of ty)" and fr: "fresh_memory (sc_partition_id s) l sys h"
  shows "\<exists>r t. alloc_local ty gt sid k v sys h = Some (r, t) \<and>
    (case r of
       Inl (e, w) \<Rightarrow> e = AllocationFailed \<and> w = v \<and> sys = None \<and> arena_frame h t
     | Inr a \<Rightarrow> keeps h t \<and> scope_ok t \<and> heads h a = None \<and>
         (\<forall>b. hlocal t b \<longleftrightarrow> b = a \<or> hlocal h b) \<and>
         get_scope t sid k = Some (s\<lparr>sc_cache := Some (cache_list s @ [a])\<rparr>) \<and>
         held t \<subseteq> insert (sc_partition_id s, a) (held h) \<and>
         node_born h (sc_partition_id s) gt a v t)"
proof -
  from alloc_raw_correct [OF inv(1) cl p ty l lim fr] obtain r u where
    u: "alloc_raw ty gt (sc_partition_id s) v sys h = Some (r, u)"
      "case r of Inl (e, w) \<Rightarrow> e = AllocationFailed \<and> w = v \<and> sys = None \<and> arena_frame h u
       | Inr a \<Rightarrow> keeps h u \<and> (\<exists>g. node_added h (unat (sc_partition_id s)) a g v (layout_size_of ty) u \<and>
            new_node_ok h (unat (sc_partition_id s)) g \<and> \<not> is_root_or_local g \<and> dtype g = gt)" by blast
  show ?thesis
  proof (cases r)
    case (Inl e)
    with u s show ?thesis by (auto simp: alloc_local_def split: prod.splits)
  next
    case (Inr a)
    with u(2) obtain g where g: "keeps h u" "node_added h (unat (sc_partition_id s)) a g v (layout_size_of ty) u"
      "new_node_ok h (unat (sc_partition_id s)) g" "\<not> is_root_or_local g" "dtype g = gt" by auto
    let ?g = "g\<lparr>next_ptr := nodes (partitions h ! unat (sc_partition_id s))\<rparr>"
    have hu: "heads u = (heads h)(a \<mapsto> ?g)" "heads h a = None" "scope_stacks u = scope_stacks h"
      "payloads u = (payloads h)(a \<mapsto> v)" "node_dtypes u = node_dtypes h"
      using g(2) by (simp_all add: node_added_def)
    have nl: "\<not> is_local ?g" using g(4) by (simp add: is_root_or_local_iff next_update_view)
    have hl: "hlocal u = hlocal h" using nl hu(1,2) by (auto simp: hlocal_def fun_eq_iff)
    have su: "scope_ok u" using inv(2) scope_ok_cong [OF hu(3) hl] by simp
    have "partition_id ?g = sc_partition_id s"
      using g(3) by (simp add: new_node_ok_def next_update_view)
    then have own: "sc_partition_id s = partition_id ?g" by simp
    have gs: "get_scope u sid k = Some s" using s by (simp add: get_scope_cong [OF hu(3)])
    have hua: "heads u a = Some ?g" by (simp add: hu)
    from add_node_correct [OF keeps_inv [OF g(1)] su gs hua own nl] obtain t where
      t: "add_node sid k a u = Some t" "keeps u t" "stays u t" "scope_ok t"
        "get_scope t sid k = Some (s\<lparr>sc_cache := Some (cache_list s @ [a])\<rparr>)"
        "\<And>b. hlocal t b \<longleftrightarrow> b = a \<or> hlocal u b" "held t \<subseteq> insert (sc_partition_id s, a) (held u)" by blast
    have "alloc_local ty gt sid k v sys h = Some (Inr a, t)"
      using s u(1) Inr t(1) by (simp add: alloc_local_def)
    moreover have "held t \<subseteq> insert (sc_partition_id s, a) (held h)" using t(7) by (simp add: held_cong [OF hu(3)])
    moreover have "node_born h (sc_partition_id s) gt a v t"
      using node_born_stays [OF node_added_born [OF g(2,3)] t(3)] g(5) by simp
    ultimately show ?thesis
      using keeps_trans [OF g(1) t(2)] t(4-6) hu(2) hl by (intro exI [of _ "Inr a"] exI [of _ t]) simp
  qed
qed

subsection \<open>A collection in the presence of scopes\<close>

lemma stays_edge: "stays h t \<Longrightarrow> edge t a b = edge h a b"
proof -
  assume st: "stays h t"
  then have nd: "node_dtypes t = node_dtypes h" "payloads t = payloads h" by (simp_all add: stays_def)
  show ?thesis
  proof (cases "heads h a")
    case None
    then have "a \<notin> dom (heads t)" using st by (auto simp: stays_def)
    then have "heads t a = None" by (simp add: domIff)
    with None show ?thesis by (simp add: edge_def refs_of_def)
  next
    case (Some g)
    then have "a \<in> dom (heads t)" using st by (auto simp: stays_def)
    then obtain g' where g': "heads t a = Some g'" by blast
    with st Some have "dtype g' = dtype g" unfolding stays_def by blast
    with Some g' nd show ?thesis by (simp add: edge_def refs_of_def type_info_def)
  qed
qed

lemma stays_closed: "stays h t \<Longrightarrow> refs_closed h \<Longrightarrow> refs_closed t"
  unfolding refs_closed_def by (simp add: stays_edge) (simp add: stays_def)

lemma collected_head:
  assumes "collected h i live n t" "heads t a = Some g'"
  shows "\<exists>g. heads h a = Some g \<and> ident g' = ident g"
proof -
  have "map_option ident (heads t a) =
      (if in_par h i a \<and> \<not> live a then None else map_option ident (heads h a))"
    using assms(1) by (simp add: collected_def)
  with assms(2) show ?thesis by (cases "heads h a") (auto split: if_splits)
qed

lemma collected_live:
  assumes "collected h i live n t" "heads h a = Some g" "in_par h i a \<Longrightarrow> live a"
  shows "\<exists>g'. heads t a = Some g' \<and> ident g' = ident g"
proof -
  have "map_option ident (heads t a) =
      (if in_par h i a \<and> \<not> live a then None else map_option ident (heads h a))"
    using assms(1) by (simp add: collected_def)
  with assms(2,3) show ?thesis by (auto split: if_splits)
qed

text \<open>Collections free no local node, so the scopes stay in order.\<close>

lemma collected_scopes:
  assumes ok: "scope_ok h" and c: "collected h i live n t"
    and root: "\<And>a. in_par h i a \<Longrightarrow> hroot h a \<Longrightarrow> live a"
  shows "scope_ok t" "hlocal t = hlocal h"
proof -
  show hl: "hlocal t = hlocal h"
  proof (rule ext)
    fix a
    show "hlocal t a = hlocal h a"
    proof
      assume "hlocal t a"
      then obtain g' where g': "heads t a = Some g'" "is_local g'" by (auto simp: hlocal_def)
      with collected_head [OF c g'(1)] show "hlocal h a" by (auto simp: hlocal_def ident_def)
    next
      assume l: "hlocal h a"
      then obtain g where g: "heads h a = Some g" "is_local g" by (auto simp: hlocal_def)
      have "in_par h i a \<Longrightarrow> live a" using root l by (auto simp: hroot_iff)
      from collected_live [OF c g(1) this] g(2) show "hlocal t a" by (auto simp: hlocal_def ident_def)
    qed
  qed
  have "scope_stacks t = scope_stacks h" using c by (simp add: collected_def)
  from scope_ok_cong [OF this hl] ok show "scope_ok t" by simp
qed

lemma collect_scopes:
  assumes inv: "heap_inv h" "scope_ok h" and cl: "refs_closed h" and i: "unat pid < length (partitions h)"
    and rd: "ready (unat pid) h"
  shows "\<exists>n t live. garbage_collect pid h = Some (n, t) \<and> heap_inv t \<and> scope_ok t \<and> hlocal t = hlocal h \<and>
    collected h (unat pid) live n t \<and> (\<forall>a. reach_in {unat pid} h a \<longrightarrow> live a)"
proof -
  from garbage_collect_ready [OF inv(1) cl i ready_start [OF rd]] obtain n t live where
    t: "garbage_collect pid h = Some (n, t)" "heap_inv t" "collected h (unat pid) live n t"
      "\<And>a. reach_in {unat pid} h a \<Longrightarrow> live a" by blast
  have "live a" if "in_par h (unat pid) a" "hroot h a" for a
    using that by (intro t(4) reach_in.root) (auto simp: zone_def)
  from collected_scopes [OF inv(2) t(3) this] t show ?thesis by blast
qed

subsection \<open>Running a closure in a scope\<close>

text \<open>
  Whatever the closure does inside its scope, as long as it hands the stack back with its own
  scope on top, the outer scopes are as they were and only its own locals are released.
\<close>

lemma with_new_scope_correct:
  assumes inv: "heap_inv h" "scope_ok h" and st: "get_stack h sid = Some st" "ss_partition st = Some p"
    and len: "length (ss_list st) < 2 ^ 32 - 1"
    and f: "\<And>h1 s1. new_scope sid h = Some (of_nat (length (ss_list st)), h1) \<Longrightarrow> heap_inv h1 \<Longrightarrow> scope_ok h1 \<Longrightarrow>
        keeps h h1 \<Longrightarrow> get_stack h1 sid = Some (st\<lparr>ss_list := ss_list st @ [s1]\<rparr>) \<Longrightarrow>
        \<exists>r h2 s2. f (of_nat (length (ss_list st))) h1 = Some (r, h2) \<and> heap_inv h2 \<and> scope_ok h2 \<and>
          get_stack h2 sid = Some (st\<lparr>ss_list := ss_list st @ [s2]\<rparr>)"
  shows "\<exists>h1 s1 r h2 s2 t. new_scope sid h = Some (of_nat (length (ss_list st)), h1) \<and>
    get_stack h1 sid = Some (st\<lparr>ss_list := ss_list st @ [s1]\<rparr>) \<and> sc_cache s1 = None \<and> sc_partition_id s1 = p \<and>
    heads h1 = heads h \<and> f (of_nat (length (ss_list st))) h1 = Some (r, h2) \<and>
    get_stack h2 sid = Some (st\<lparr>ss_list := ss_list st @ [s2]\<rparr>) \<and>
    with_new_scope sid (keeping_scope sid f) h = Some (r, t) \<and> keeps h2 t \<and> scope_ok t \<and>
    get_stack t sid = Some st \<and> (\<forall>b. hlocal t b \<longleftrightarrow> hlocal h2 b \<and> b \<notin> set (cache_list s2))"
proof -
  from new_scope_correct [OF inv st len] obtain h1 s1 where
    h1: "new_scope sid h = Some (of_nat (length (ss_list st)), h1)" "keeps h h1" "scope_ok h1"
      "get_stack h1 sid = Some (st\<lparr>ss_list := ss_list st @ [s1]\<rparr>)" "sc_cache s1 = None" "sc_partition_id s1 = p"
      "heads h1 = heads h" by blast
  from f [OF h1(1) keeps_inv [OF h1(2)] h1(3,2,4)] obtain r h2 s2 where
    h2: "f (of_nat (length (ss_list st))) h1 = Some (r, h2)" "heap_inv h2" "scope_ok h2"
      "get_stack h2 sid = Some (st\<lparr>ss_list := ss_list st @ [s2]\<rparr>)" by blast
  from scope_drop_correct [OF h2(2,3,4), of "ss_list st" s2 "of_nat (length (ss_list st))"] obtain t where
    t: "scope_drop sid (of_nat (length (ss_list st))) h2 = Some t" "keeps h2 t" "scope_ok t"
      "get_stack t sid = Some st" "\<forall>b. hlocal t b \<longleftrightarrow> hlocal h2 b \<and> b \<notin> set (cache_list s2)" by auto
  have "with_new_scope sid (keeping_scope sid f) h = Some (r, t)"
    using h1(1) h2(1) t(1) by (simp add: with_new_scope_def keeping_scope_def)
  with h1 h2(1,4) t(2-5) show ?thesis by blast
qed

subsection \<open>Acquiring and releasing a stack\<close>

lemma idle_stack_Some:
  "idle_stack sts i = Some j \<Longrightarrow>
     i \<le> j \<and> j - i < length sts \<and> ss_partition (sts ! (j - i)) = None \<and>
     (\<forall>k<j - i. ss_partition (sts ! k) \<noteq> None)"
proof (induction sts arbitrary: i)
  case Nil
  then show ?case by simp
next
  case (Cons st sts)
  show ?case
  proof (cases "ss_partition st = None")
    case True
    with Cons.prems show ?thesis by simp
  next
    case False
    with Cons.prems Cons.IH [of "i + 1"] have ih: "i + 1 \<le> j" "j - (i + 1) < length sts"
      "ss_partition (sts ! (j - (i + 1))) = None" "\<forall>k<j - (i + 1). ss_partition (sts ! k) \<noteq> None" by auto
    have e: "j - i = Suc (j - (i + 1))" using ih(1) by simp
    show ?thesis unfolding e using ih False by (auto simp: less_Suc_eq_0_disj)
  qed
qed

lemma idle_stack_None: "idle_stack sts i = None \<longleftrightarrow> (\<forall>st\<in>set sts. ss_partition st \<noteq> None)"
  by (induction sts arbitrary: i) auto

lemma acquire_correct:
  assumes inv: "heap_inv h" "scope_ok h"
    and room: "length (scope_stacks h) < 2 ^ 16 \<or> (\<exists>st\<in>set (scope_stacks h). ss_partition st = None)"
  shows "\<exists>sid t. acquire_scope_stack p h = Some (sid, t) \<and> keeps h t \<and> stays h t \<and> scope_ok t \<and>
    get_stack t sid = Some \<lparr>ss_list = [], ss_partition = Some p\<rparr> \<and>
    (get_stack h sid = None \<or> get_stack h sid = Some \<lparr>ss_list = [], ss_partition = None\<rparr>) \<and>
    (\<forall>sid'. sid' \<noteq> sid \<longrightarrow> get_stack t sid' = get_stack h sid') \<and> hlocal t = hlocal h \<and> held t \<subseteq> held h"
proof (cases "idle_stack (scope_stacks h) 0")
  case None
  then have len: "length (scope_stacks h) < 2 ^ 16" using room by (auto simp: idle_stack_None)
  let ?n = "length (scope_stacks h)"
  let ?t = "h\<lparr>scope_stacks := scope_stacks h @ [scope_stack_new (Some p)]\<rparr>"
  have un: "unat (of_nat ?n :: u16) = ?n" by (rule unat_of_nat_u16 [OF len])
  have l: "local_nodes ?t = local_nodes h" by (simp add: local_nodes_def stack_nodes_def scope_stack_new_def)
  have "stacks_ok ?t"
    using inv(2) len by (auto simp: scope_ok_alt stacks_ok_def nth_append stack_ok_def scope_stack_new_def less_Suc_eq)
  then have "scope_ok ?t" using inv(2) by (simp add: scope_ok_alt l)
  moreover have "get_stack ?t sid' = (if sid' = of_nat ?n then Some \<lparr>ss_list = [], ss_partition = Some p\<rparr>
      else get_stack h sid')" for sid'
  proof -
    have "unat sid' = ?n \<longleftrightarrow> sid' = of_nat ?n" using un by (metis word_unat_eq_iff)
    then show ?thesis
      by (auto simp: get_stack_def vec_get_def nth_append scope_stack_new_def less_Suc_eq)
  qed
  moreover have "get_stack h (of_nat ?n) = None" by (simp add: get_stack_def vec_get_def un)
  moreover have "held ?t \<subseteq> held h"
  proof
    fix x assume "x \<in> held ?t"
    then obtain sid k s b where x: "x = (sc_partition_id s, b)" "get_scope ?t sid k = Some s" "b \<in> set (cache_list s)"
      unfolding held_def by blast
    have "get_scope h sid k = Some s"
      using x(2) by (auto simp: get_scope_Some nth_append scope_stack_new_def split: if_splits)
    from heldI [OF this x(3)] x(1) show "x \<in> held h" by simp
  qed
  moreover have "acquire_scope_stack p h = Some (of_nat ?n, ?t)"
    using None len by (simp add: acquire_scope_stack_def vec_push_def)
  ultimately show ?thesis
    using keeps_scope_stacks [OF inv(1)] by (intro exI [of _ "of_nat ?n"] exI [of _ ?t]) simp
next
  case (Some i)
  from idle_stack_Some [OF this] have i: "i < length (scope_stacks h)" "ss_partition (scope_stacks h ! i) = None"
    by simp_all
  have sok: "stacks_ok h" using inv(2) by (simp add: scope_ok_alt)
  then have i16: "i < 2 ^ 16" using i(1) by (simp add: stacks_ok_def)
  have un: "unat (of_nat i :: u16) = i" by (rule unat_of_nat_u16 [OF i16])
  have gs: "get_stack h (of_nat i) = Some (scope_stacks h ! i)" using i(1) by (simp add: get_stack_def vec_get_def un)
  have "stack_ok (of_nat i) (scope_stacks h ! i)" by (rule stacks_ok_stack [OF sok gs])
  with i(2) have e: "ss_list (scope_stacks h ! i) = []"
    by (metis length_greater_0_conv option.distinct(1) stack_ok_def)
  have st: "scope_stacks h ! i = \<lparr>ss_list = [], ss_partition = None\<rparr>"
    using e i(2) by (metis (full_types) scope_stack.surjective old.unit.exhaust)
  let ?st = "\<lparr>ss_list = [], ss_partition = Some p\<rparr>"
  let ?t = "put_stack (of_nat i) ?st h"
  note po = put_stack_obs [OF gs]
  have iu: "unat (of_nat i :: u16) < length (scope_stacks h)" using i(1) un by simp
  have "stacks_ok ?t" by (rule po(2) [OF sok]) (simp add: stack_ok_def)
  moreover have "mset (local_nodes ?t) = mset (local_nodes h)"
    using po(1) [of ?st] st by (simp add: stack_nodes_def)
  ultimately have "scope_ok ?t"
    by (intro scope_ok_remove [OF inv(2), of _ "{#}"]) (simp_all add: po(4))
  moreover have "held ?t \<subseteq> held h" by (rule put_stack_held [OF gs]) simp
  moreover have "acquire_scope_stack p h = Some (of_nat i, ?t)"
    using Some st by (simp add: acquire_scope_stack_def put_stack_def un)
  ultimately show ?thesis
    using po(4-6) inv(1) get_stack_put [OF iu, of ?st] gs st
    by (intro exI [of _ "of_nat i"] exI [of _ ?t]) simp
qed

text \<open>Releasing an emptied stack undoes the acquisition.\<close>

lemma release_acquired:
  assumes "get_stack h sid = Some \<lparr>ss_list = [], ss_partition = Some p\<rparr>"
  shows "\<exists>t. release_scope_stack sid h = Some t \<and> get_stack t sid = Some \<lparr>ss_list = [], ss_partition = None\<rparr> \<and>
    (\<forall>sid'. sid' \<noteq> sid \<longrightarrow> get_stack t sid' = get_stack h sid') \<and> heads t = heads h"
proof -
  have "unat sid < length (scope_stacks h)" using assms by (simp add: get_stack_def vec_get_Some)
  from get_stack_put [OF this] show ?thesis
    using assms put_stack_obs(3) [OF assms] by (simp add: release_scope_stack_def)
qed

end
