(* ===== verification/Gc_Teardown.thy ===== *)
theory Gc_Teardown
  imports Gc_Remove Gc_Scope_Ops
begin

section \<open>Removing a partition (src/src/partition.rs)\<close>

text \<open>
  The two phases of a teardown: \<open>finalize_partition\<close> clears the partition's scopes and weak
  slots and drops the payloads pass by pass; \<open>dealloc_partition\<close> frees the nodes and resets the
  partition.
\<close>

subsection \<open>Operations\<close>

definition clear_stack :: "u16 \<Rightarrow> nat \<Rightarrow> 'p gc_heap \<Rightarrow> 'p gc_heap option" where
  "clear_stack pid i h =
     do { st \<leftarrow> vec_get (scope_stacks h) i;
          if ss_partition st = Some pid then
            fold_opt (scope_clear (of_nat i)) [0..<length (ss_list st)] h
          else Some h }"

definition clear_node_slot :: "addr \<Rightarrow> 'p gc_heap \<Rightarrow> 'p gc_heap option" where
  "clear_node_slot node h = do { hd \<leftarrow> heads h node; clear_weak_slot hd h }"

definition finalize_partition_prepare ::
  "u16 \<Rightarrow> 'p gc_heap \<Rightarrow> (addr option option \<times> 'p gc_heap) option" where
  "finalize_partition_prepare pid h =
     (case get_par h pid of
        None \<Rightarrow> Some (None, h)
      | Some _ \<Rightarrow>
          do { h1 \<leftarrow> fold_opt (clear_stack pid) [0..<length (scope_stacks h)] h;
               par \<leftarrow> get_par h1 pid;
               let link = nodes par
               in do { h2 \<leftarrow> for_nodes clear_node_slot link h1; Some (Some link, h2) } })"

definition drop_in_pass :: "u8 \<Rightarrow> addr \<Rightarrow> 'p gc_heap \<Rightarrow> 'p gc_heap option" where
  "drop_in_pass pass node h =
     do { g \<leftarrow> heads h node;
          info \<leftarrow> type_info h (dtype g);
          if ti_drop_pass info = pass then drop_node_payload_without_dealloc node h else Some h }"

definition finalize_partition ::
  "u16 \<Rightarrow> 'p gc_heap \<Rightarrow> (addr option option \<times> 'p gc_heap) option" where
  "finalize_partition pid h =
     do { (r, h1) \<leftarrow> finalize_partition_prepare pid h;
          (case r of
             None \<Rightarrow> Some (None, h1)
           | Some link \<Rightarrow>
               do { h2 \<leftarrow> fold_opt (\<lambda>pass. for_nodes (drop_in_pass pass) link) (drop_passes (node_dtypes h1)) h1;
                    Some (Some link, h2) }) }"

text \<open>Arena memory is given back with the arena, other memory node by node.\<close>

definition dealloc_node :: "addr \<Rightarrow> 'p gc_heap \<Rightarrow> (usize \<times> 'p gc_heap) option" where
  "dealloc_node node h =
     do { g \<leftarrow> heads h node;
          h1 \<leftarrow> clear_weak_slot g h;
          info \<leftarrow> type_info h1 (dtype g);
          Some (l_size (info_layout info), mem_dealloc node h1) }"

partial_function (option) dealloc_loop ::
  "addr option \<Rightarrow> usize \<Rightarrow> 'p gc_heap \<Rightarrow> (usize \<times> 'p gc_heap) option" where
  "dealloc_loop cur freed_bytes h =
     (case cur of
        None \<Rightarrow> Some (freed_bytes, h)
      | Some node \<Rightarrow>
          do { g \<leftarrow> heads h node;
               r \<leftarrow> dealloc_node node h;
               dealloc_loop (next_ptr g) (freed_bytes + fst r) (snd r) })"

declare dealloc_loop.simps [code]

definition dealloc_partition ::
  "u16 \<Rightarrow> addr option \<Rightarrow> addr option \<Rightarrow> 'p gc_heap \<Rightarrow> (usize \<times> 'p gc_heap) option" where
  "dealloc_partition pid link sys h =
     do { par \<leftarrow> get_par h pid;
          let partition_mem = memory_used par
          in do { (freed_bytes, h1) \<leftarrow> dealloc_loop link 0 h;
                  let h2 = h1\<lparr>total_memory_used := total_memory_used h1 - partition_mem\<rparr>
                  in do { par1 \<leftarrow> get_par h2 pid;
                          par2 \<leftarrow> reset_arena sys par1;
                          Some (freed_bytes,
                            put_par pid (par2\<lparr>memory_used := 0, nodes := None, gray_list := [], marking := False\<rparr>) h2) } } }"

definition remove_partition :: "u16 \<Rightarrow> addr option \<Rightarrow> 'p gc_heap \<Rightarrow> (usize \<times> 'p gc_heap) option" where
  "remove_partition pid sys h =
     do { (r, h1) \<leftarrow> finalize_partition pid h;
          (case r of None \<Rightarrow> Some (0, h1) | Some link \<Rightarrow> dealloc_partition pid link sys h1) }"

subsection \<open>Clearing the scopes of a partition\<close>

lemma fold_opt_upt:
  assumes "P 0 s" "\<And>i t. i < n \<Longrightarrow> P i t \<Longrightarrow> \<exists>t'. f i t = Some t' \<and> P (Suc i) t'"
  shows "\<exists>t. fold_opt f [0..<n] s = Some t \<and> P n t"
  using assms(2)
proof (induction n)
  case 0
  with assms(1) show ?case by simp
next
  case (Suc n)
  then obtain t where t: "fold_opt f [0..<n] s = Some t" "P n t" by (metis less_SucI)
  with Suc.prems [of n t] show ?case by (auto simp: fold_opt_append)
qed

text \<open>The scopes \<open>X\<close> have been cleared.\<close>

definition caches_of :: "'p gc_heap \<Rightarrow> (u16 \<times> nat) set \<Rightarrow> addr set" where
  "caches_of h X = {a. \<exists>sid k s. (sid, k) \<in> X \<and> get_scope h sid k = Some s \<and> a \<in> set (cache_list s)}"

definition clr :: "'p gc_heap \<Rightarrow> (u16 \<times> nat) set \<Rightarrow> 'p gc_heap \<Rightarrow> bool" where
  "clr h X t \<longleftrightarrow> keeps h t \<and> stays h t \<and> scope_ok t \<and> flag_frame h (caches_of h X) t \<and>
     (\<forall>b. hlocal t b \<longleftrightarrow> hlocal h b \<and> b \<notin> caches_of h X) \<and>
     (\<forall>sid k s. get_scope h sid k = Some s \<longrightarrow>
        get_scope t sid k = Some (if (sid, k) \<in> X then s\<lparr>sc_cache := None\<rparr> else s)) \<and>
     (\<forall>sid. map_option (\<lambda>st. (length (ss_list st), ss_partition st)) (get_stack t sid) =
            map_option (\<lambda>st. (length (ss_list st), ss_partition st)) (get_stack h sid)) \<and> held t \<subseteq> held h"

lemma clr_refl: "heap_inv h \<Longrightarrow> scope_ok h \<Longrightarrow> clr h {} h"
  by (simp add: clr_def caches_of_def keeps_refl stays_def)

lemma clr_step:
  assumes c: "clr h X t" and s: "get_scope h sid k = Some s" and new: "(sid, k) \<notin> X"
  shows "\<exists>u. scope_clear sid k t = Some u \<and> clr h (insert (sid, k) X) u"
proof -
  have i: "heap_inv t" "scope_ok t" and gs: "get_scope t sid k = Some s"
    using c s new by (auto simp: clr_def keeps_inv)
  from scope_clear_correct [OF i gs] obtain u where
    u: "scope_clear sid k t = Some u" "keeps t u" "stays t u" "scope_ok u"
      "get_scope u sid k = Some (s\<lparr>sc_cache := None\<rparr>)" "\<And>b. hlocal u b \<longleftrightarrow> hlocal t b \<and> b \<notin> set (cache_list s)"
      "flag_frame t (set (cache_list s)) u"
      "\<And>sid' k'. (sid', k') \<noteq> (sid, k) \<Longrightarrow> get_scope u sid' k' = get_scope t sid' k'"
      "\<And>sid'. map_option (\<lambda>st. (length (ss_list st), ss_partition st)) (get_stack u sid') =
            map_option (\<lambda>st. (length (ss_list st), ss_partition st)) (get_stack t sid')" "held u \<subseteq> held t" by blast
  have cs: "caches_of h (insert (sid, k) X) = caches_of h X \<union> set (cache_list s)"
    using s by (auto simp: caches_of_def)
  have "get_scope u sid' k' = Some (if (sid', k') \<in> insert (sid, k) X then s'\<lparr>sc_cache := None\<rparr> else s')"
    if "get_scope h sid' k' = Some s'" for sid' k' s'
    using that c u(5,8) s by (cases "(sid', k') = (sid, k)") (auto simp: clr_def)
  moreover have "keeps h u" "stays h u" "flag_frame h (caches_of h X \<union> set (cache_list s)) u"
    using c u(2,3,7) keeps_trans stays_trans flag_frame_trans by (auto simp: clr_def)
  ultimately have "clr h (insert (sid, k) X) u"
    using c u(4,6,9,10) unfolding clr_def cs by auto
  with u(1) show ?thesis by blast
qed

definition scopes_of :: "'p gc_heap \<Rightarrow> u16 \<Rightarrow> (u16 \<times> nat) set" where
  "scopes_of h pid = {(sid, k). \<exists>st. get_stack h sid = Some st \<and> ss_partition st = Some pid \<and> k < length (ss_list st)}"

lemma clear_stack_correct:
  assumes c: "clr h X t" and i: "i < length (scope_stacks h)" "i < 2 ^ 16"
    and new: "\<And>k. (of_nat i, k) \<notin> X"
  shows "\<exists>u. clear_stack pid i t = Some u \<and> clr h (X \<union> {(sid, k) \<in> scopes_of h pid. sid = of_nat i}) u"
proof -
  let ?sid = "of_nat i :: u16"
  have un: "unat ?sid = i" by (rule unat_of_nat_u16 [OF i(2)])
  obtain st where st: "get_stack h ?sid = Some st" using i(1) by (simp add: get_stack_def vec_get_def un)
  from c have "map_option (\<lambda>st. (length (ss_list st), ss_partition st)) (get_stack t ?sid) =
      map_option (\<lambda>st. (length (ss_list st), ss_partition st)) (get_stack h ?sid)" unfolding clr_def by blast
  with st obtain st' where st': "get_stack t ?sid = Some st'" "length (ss_list st') = length (ss_list st)"
    "ss_partition st' = ss_partition st" by auto
  then have vg: "vec_get (scope_stacks t) i = Some st'" by (simp add: get_stack_def un)
  show ?thesis
  proof (cases "ss_partition st = Some pid")
    case False
    then have e: "X \<union> {(sid, k) \<in> scopes_of h pid. sid = ?sid} = X" using st by (auto simp: scopes_of_def)
    show ?thesis unfolding e using c False vg st'(3) by (simp add: clear_stack_def)
  next
    case True
    have "\<exists>u. fold_opt (scope_clear ?sid) [0..<length (ss_list st)] t = Some u \<and>
        clr h (X \<union> {?sid} \<times> {0..<length (ss_list st)}) u"
    proof (rule fold_opt_upt [where P = "\<lambda>m. clr h (X \<union> {?sid} \<times> {0..<m})"])
      show "clr h (X \<union> {?sid} \<times> {0..<0}) t" using c by simp
    next
      fix m u assume m: "m < length (ss_list st)" and u: "clr h (X \<union> {?sid} \<times> {0..<m}) u"
      have gs: "get_scope h ?sid m = Some (ss_list st ! m)" using st m by (simp add: get_scope_def vec_get_def)
      have "insert (?sid, m) (X \<union> {?sid} \<times> {0..<m}) = X \<union> {?sid} \<times> {0..<Suc m}" by (auto simp: less_Suc_eq)
      with clr_step [OF u gs] new show "\<exists>t'. scope_clear ?sid m u = Some t' \<and> clr h (X \<union> {?sid} \<times> {0..<Suc m}) t'"
        by auto
    qed
    moreover have "{(sid, k) \<in> scopes_of h pid. sid = ?sid} = {?sid} \<times> {0..<length (ss_list st)}"
      using st True by (auto simp: scopes_of_def)
    ultimately show ?thesis using vg st' True by (simp add: clear_stack_def)
  qed
qed

lemma clear_stacks_correct:
  assumes inv: "heap_inv h" "scope_ok h"
  shows "\<exists>t. fold_opt (clear_stack pid) [0..<length (scope_stacks h)] h = Some t \<and> clr h (scopes_of h pid) t"
proof -
  let ?n = "length (scope_stacks h)"
  have n: "?n \<le> 2 ^ 16" using inv(2) by (simp add: scope_ok_def)
  let ?X = "\<lambda>m. {(sid, k) \<in> scopes_of h pid. unat sid < m}"
  have "\<exists>t. fold_opt (clear_stack pid) [0..<?n] h = Some t \<and> clr h (?X ?n) t"
  proof (rule fold_opt_upt [where P = "\<lambda>m. clr h (?X m)"])
    show "clr h (?X 0) h" using clr_refl [OF inv] by simp
  next
    fix m t assume m: "m < ?n" and c: "clr h (?X m) t"
    have m16: "m < 2 ^ 16" using m n by simp
    have un: "unat (of_nat m :: u16) = m" by (rule unat_of_nat_u16 [OF m16])
    have "?X (Suc m) = ?X m \<union> {(sid, k) \<in> scopes_of h pid. sid = of_nat m}"
      using un by (auto simp: less_Suc_eq word_unat_eq_iff)
    with clear_stack_correct [OF c m m16] un show "\<exists>t'. clear_stack pid m t = Some t' \<and> clr h (?X (Suc m)) t'"
      by simp
  qed
  moreover have "?X ?n = scopes_of h pid" by (auto simp: scopes_of_def get_stack_def vec_get_Some)
  ultimately show ?thesis by simp
qed

subsection \<open>Clearing the weak slots\<close>

definition slot_clear :: "'p gc_heap \<Rightarrow> gc_head \<Rightarrow> bool" where
  "slot_clear h g \<longleftrightarrow> weak_is_null (weak_id g) \<or>
     unat (weak_index (weak_id g)) < length (weak_slots h) \<and> snd (weak_slots h ! unat (weak_index (weak_id g))) = None"

lemma clear_weak_slot_idle: "slot_clear h g \<Longrightarrow> clear_weak_slot g h = Some h"
  by (auto simp: slot_clear_def clear_weak_slot_def Let_def list_update_same_conv prod_eq_iff)

lemma clear_weak_slot_heads:
  "clear_weak_slot g (h\<lparr>heads := m\<rparr>) = map_option (\<lambda>t. t\<lparr>heads := m\<rparr>) (clear_weak_slot g h)"
  by (simp add: clear_weak_slot_def Let_def)

lemma clear_weak_slot_slots:
  assumes "clear_weak_slot g h = Some t"
  shows "t = h\<lparr>weak_slots := weak_slots t\<rparr>" "slot_clear t g" "slot_clear h g' \<Longrightarrow> slot_clear t g'"
  using assms by (auto simp: clear_weak_slot_def slot_clear_def Let_def nth_list_update split: if_splits)

text \<open>Clearing the slots of the nodes \<open>xs\<close> leaves a table that is consistent without them.\<close>

lemma clear_slots_correct:
  assumes ok: "weak_ok h" and dom: "set xs \<subseteq> dom (heads h)" and dist: "distinct xs"
  shows "\<exists>t. fold_opt clear_node_slot xs h = Some t \<and> t = h\<lparr>weak_slots := weak_slots t\<rparr> \<and>
    weak_ok (t\<lparr>heads := heads h |` (- set xs)\<rparr>) \<and> (\<forall>a\<in>set xs. \<forall>g. heads h a = Some g \<longrightarrow> slot_clear t g)"
proof -
  define P where "P ys t \<longleftrightarrow> t = h\<lparr>weak_slots := weak_slots t\<rparr> \<and> weak_ok (t\<lparr>heads := heads h |` (- set ys)\<rparr>) \<and>
    (\<forall>a\<in>set ys. \<forall>g. heads h a = Some g \<longrightarrow> slot_clear t g)" for ys t
  have "\<exists>t. fold_opt clear_node_slot xs h = Some t \<and> P xs t"
  proof (rule fold_opt_prefix_rule)
    show "P [] h" using ok by (simp add: P_def restrict_map_def)
  next
    fix ys x zs t assume xs: "xs = ys @ x # zs" and p: "P ys t"
    then obtain g where g: "heads h x = Some g" using dom by auto
    have te: "t = h\<lparr>weak_slots := weak_slots t\<rparr>" using p by (simp add: P_def)
    then have ht: "heads t = heads h" by (metis gc_heap.select_convs(9) gc_heap.surjective gc_heap.update_convs(6))
    let ?m = "heads h |` (- set ys)"
    have "heads (t\<lparr>heads := ?m\<rparr>) x = Some g" using g xs dist by simp
    moreover have "weak_ok (t\<lparr>heads := ?m\<rparr>)" using p by (simp add: P_def)
    ultimately obtain u' where u': "clear_weak_slot g (t\<lparr>heads := ?m\<rparr>) = Some u'"
      "weak_ok (u'\<lparr>heads := (heads u')(x := None)\<rparr>)" using clear_weak_slot_ok by blast
    then obtain u where u: "clear_weak_slot g t = Some u" "u' = u\<lparr>heads := ?m\<rparr>"
      by (auto simp: clear_weak_slot_heads)
    note us = clear_weak_slot_slots [OF u(1)]
    have "?m(x := None) = heads h |` (- set (ys @ [x]))" by (auto simp: restrict_map_def fun_eq_iff)
    then have w: "weak_ok (u\<lparr>heads := heads h |` (- set (ys @ [x]))\<rparr>)" using u'(2) u(2) by simp
    have ue: "u = h\<lparr>weak_slots := weak_slots u\<rparr>" by (subst us(1), subst te) simp
    have cl: "slot_clear u g'" if "a \<in> set (ys @ [x])" "heads h a = Some g'" for a g'
      using that p us(2,3) g by (auto simp: P_def)
    have "P (ys @ [x]) u" unfolding P_def using ue w cl by blast
    moreover have "clear_node_slot x t = Some u" using g u(1) by (simp add: clear_node_slot_def ht)
    ultimately show "\<exists>t'. clear_node_slot x t = Some t' \<and> P (ys @ [x]) t'" by blast
  qed
  then show ?thesis unfolding P_def .
qed

subsection \<open>Dropping the payloads\<close>

definition dropped_in :: "'p gc_heap \<Rightarrow> addr list \<Rightarrow> 'p gc_heap" where
  "dropped_in h ys =
     h\<lparr>payloads := (\<lambda>a. if a \<in> set ys \<and> needs_drop_fn h a then None else payloads h a),
       drop_log := drop_log h @ filter (needs_drop_fn h) ys\<rparr>"

lemma dropped_in_fields [simp]:
  "heads (dropped_in h ys) = heads h" "type_info (dropped_in h ys) = type_info h" "dropped_in h [] = h"
  by (simp_all add: dropped_in_def type_info_def fun_eq_iff)

lemma drop_payload_in:
  assumes "droppable h a" "a \<notin> set ys"
  shows "drop_node_payload_without_dealloc a (dropped_in h ys) = Some (dropped_in h (ys @ [a]))"
proof -
  from assms(1) obtain g info where g: "heads h a = Some g" "type_info h (dtype g) = Some info"
    "ti_drop_fn info \<Longrightarrow> \<exists>v. payloads h a = Some v" by (auto simp: droppable_def)
  have n: "needs_drop_fn h a \<longleftrightarrow> ti_drop_fn info" using g by (simp add: needs_drop_fn_def)
  show ?thesis
  proof (cases "ti_drop_fn info")
    case True
    then obtain v where "payloads h a = Some v" using g(3) by blast
    then have "payloads (dropped_in h ys) a = Some v" using assms(2) by (simp add: dropped_in_def)
    moreover have "(payloads (dropped_in h ys))(a := None) =
        (\<lambda>b. if b \<in> set (ys @ [a]) \<and> needs_drop_fn h b then None else payloads h b)"
      using n True by (auto simp: dropped_in_def fun_eq_iff)
    ultimately show ?thesis
      using g True n by (simp add: drop_node_payload_without_dealloc_def call_drop_fn_def) (simp add: dropped_in_def vec_push_def)
  next
    case False
    have "(\<lambda>b. if b \<in> set (ys @ [a]) \<and> needs_drop_fn h b then None else payloads h b) =
        (\<lambda>b. if b \<in> set ys \<and> needs_drop_fn h b then None else payloads h b)"
      using n False by (auto simp: fun_eq_iff)
    with g False n show ?thesis
      by (simp add: drop_node_payload_without_dealloc_def call_drop_fn_def) (simp add: dropped_in_def)
  qed
qed

lemma drop_pass_correct:
  assumes c: "chain (heads h) link xs" and dr: "\<And>a. a \<in> set xs \<Longrightarrow> droppable h a"
    and new: "\<And>a. a \<in> set xs \<Longrightarrow> pass_is h q a \<Longrightarrow> a \<notin> set zs"
  shows "for_nodes (drop_in_pass q) link (dropped_in h zs) = Some (dropped_in h (zs @ filter (pass_is h q) xs))"
proof -
  have hd: "heads u' = heads u" if "drop_in_pass q a u = Some u'" for a u u'
    using that by (auto simp: drop_in_pass_def drop_node_payload_without_dealloc_def call_drop_fn_def
        bind_eq_Some_conv split: if_splits)
  have "for_nodes (drop_in_pass q) link (dropped_in h zs) = fold_opt (drop_in_pass q) xs (dropped_in h zs)"
    by (rule for_nodes_fold) (use c in simp, simp add: hd)
  also have "\<exists>t. fold_opt (drop_in_pass q) xs (dropped_in h zs) = Some t \<and>
      t = dropped_in h (zs @ filter (pass_is h q) xs)"
  proof (rule fold_opt_prefix_rule [where P = "\<lambda>ys t. t = dropped_in h (zs @ filter (pass_is h q) ys)"])
    fix ys x ys' t assume xs: "xs = ys @ x # ys'" and t: "t = dropped_in h (zs @ filter (pass_is h q) ys)"
    have x: "droppable h x" "x \<notin> set ys" using dr chain_distinct [OF c] xs by auto
    from x(1) obtain g info where g: "heads h x = Some g" "type_info h (dtype g) = Some info"
      by (auto simp: droppable_def)
    have ps: "pass_is h q x \<longleftrightarrow> ti_drop_pass info = q" using g by (simp add: pass_is_def)
    show "\<exists>t'. drop_in_pass q x t = Some t' \<and> t' = dropped_in h (zs @ filter (pass_is h q) (ys @ [x]))"
    proof (cases "pass_is h q x")
      case True
      then have "x \<notin> set (zs @ filter (pass_is h q) ys)" using new [of x] x xs by auto
      from drop_payload_in [OF x(1) this] g True ps show ?thesis by (simp add: drop_in_pass_def t)
    qed (use g ps in \<open>simp add: drop_in_pass_def t\<close>)
  qed simp
  finally show ?thesis by auto
qed

lemma drop_passes_correct:
  assumes c: "chain (heads h) link xs" and dr: "\<And>a. a \<in> set xs \<Longrightarrow> droppable h a" and "distinct ps"
    and new: "\<And>q a. q \<in> set ps \<Longrightarrow> a \<in> set xs \<Longrightarrow> pass_is h q a \<Longrightarrow> a \<notin> set zs"
  shows "fold_opt (\<lambda>pass. for_nodes (drop_in_pass pass) link) ps (dropped_in h zs) =
    Some (dropped_in h (zs @ pass_order h ps xs))"
  using assms(3) new
proof (induction ps arbitrary: zs)
  case Nil
  then show ?case by (simp add: pass_order_def)
next
  case (Cons q ps)
  let ?zs = "zs @ filter (pass_is h q) xs"
  have "for_nodes (drop_in_pass q) link (dropped_in h zs) = Some (dropped_in h ?zs)"
    by (rule drop_pass_correct [OF c dr]) (use Cons.prems(2) in auto)
  moreover have "fold_opt (\<lambda>pass. for_nodes (drop_in_pass pass) link) ps (dropped_in h ?zs) =
      Some (dropped_in h (?zs @ pass_order h ps xs))"
  proof (rule Cons.IH)
    show "distinct ps" using Cons.prems(1) by simp
    fix r a assume r: "r \<in> set ps" "a \<in> set xs" "pass_is h r a"
    then have "\<not> pass_is h q a" using Cons.prems(1) pass_is_unique [of h r a q] by auto
    with Cons.prems(2) [of r a] r show "a \<notin> set ?zs" by simp
  qed
  ultimately show ?case by (simp add: pass_order_def)
qed

subsection \<open>Freeing the nodes\<close>

lemma dealloc_loop_correct:
  assumes "chain (heads h) cur xs"
    and "\<And>a. a \<in> set xs \<Longrightarrow> \<exists>g info. heads h a = Some g \<and> type_info h (dtype g) = Some info \<and> slot_clear h g"
  shows "dealloc_loop cur n h = Some (n + sum_sizes (node_size h) xs,
    h\<lparr>heads := heads h |` (- set xs), payloads := payloads h |` (- set xs)\<rparr>)"
  using assms
proof (induction xs arbitrary: cur n h)
  case Nil
  then show ?case by (simp add: dealloc_loop.simps restrict_map_def)
next
  case (Cons a xs)
  from Cons.prems obtain g info where g: "cur = Some a" "heads h a = Some g" "chain (heads h) (next_ptr g) xs"
    "type_info h (dtype g) = Some info" "slot_clear h g" by fastforce
  have d: "a \<notin> set xs" using chain_distinct [OF Cons.prems(1)] by simp
  let ?h = "mem_dealloc a h"
  have run: "dealloc_node a h = Some (node_size h a, ?h)"
    using g by (simp add: dealloc_node_def clear_weak_slot_idle node_size_info)
  have same: "heads ?h b = heads h b" if "b \<noteq> a" for b using that by (simp add: mem_dealloc_def)
  have ti: "type_info ?h = type_info h" by (simp add: type_info_def mem_dealloc_def fun_eq_iff)
  have c: "chain (heads ?h) (next_ptr g) xs"
    by (rule chain_cong [THEN iffD2, OF _ g(3)], subst same) (use d in auto)
  have P: "\<exists>g info. heads ?h b = Some g \<and> type_info ?h (dtype g) = Some info \<and> slot_clear ?h g" if "b \<in> set xs" for b
  proof -
    from that d have "b \<noteq> a" by auto
    with Cons.prems(2) [of b] that show ?thesis by (simp add: ti same slot_clear_def) (simp add: mem_dealloc_def)
  qed
  have sz: "sum_sizes (node_size ?h) xs = sum_sizes (node_size h) xs"
  proof (rule sum_sizes_cong)
    fix b assume "b \<in> set xs"
    with d have "b \<noteq> a" by auto
    then show "node_size ?h b = node_size h b" unfolding node_size_def ti same [OF \<open>b \<noteq> a\<close>] by simp
  qed
  have e: "(heads ?h) |` (- set xs) = heads h |` (- set (a # xs))" "(payloads ?h) |` (- set xs) = payloads h |` (- set (a # xs))"
    by (auto simp: mem_dealloc_def restrict_map_def fun_eq_iff)
  have r: "?h\<lparr>heads := X, payloads := Y\<rparr> = h\<lparr>heads := X, payloads := Y\<rparr>" for X Y
    by (simp add: mem_dealloc_def)
  note IH = Cons.IH [OF c P, of "n + node_size h a", unfolded e sz r]
  show ?case by (subst dealloc_loop.simps) (simp add: g run IH add.assoc)
qed

subsection \<open>Removing a partition\<close>

definition fresh_partition :: "gc_partition \<Rightarrow> gc_partition \<Rightarrow> bool" where
  "fresh_partition p q \<longleftrightarrow> nodes q = None \<and> gray_list q = [] \<and> \<not> marking q \<and> memory_used q = 0 \<and>
     arena_capacity q = arena_capacity p \<and> arena_max_alloc q = arena_max_alloc p"

text \<open>The nodes of a partition, drop pass by drop pass and in list order within a pass.\<close>

definition partition_passes :: "'p gc_heap \<Rightarrow> nat \<Rightarrow> addr list" where
  "partition_passes h i = pass_order h (drop_passes (node_dtypes h)) (par_list h i)"

definition partition_removed :: "'p gc_heap \<Rightarrow> nat \<Rightarrow> usize \<Rightarrow> 'p gc_heap \<Rightarrow> bool" where
  "partition_removed h i n t \<longleftrightarrow>
     heads t = heads h |` {a. \<not> in_par h i a} \<and> payloads t = payloads h |` {a. \<not> in_par h i a} \<and>
     length (partitions t) = length (partitions h) \<and>
     (\<forall>j<length (partitions h). j \<noteq> i \<longrightarrow> partitions t ! j = partitions h ! j) \<and>
     fresh_partition (partitions h ! i) (partitions t ! i) \<and>
     n = sum_sizes (node_size h) (par_list h i) \<and>
     total_memory_used t = total_memory_used h - memory_used (partitions h ! i) \<and>
     (\<forall>w. upgrade w t = Option.bind (upgrade w h) (\<lambda>a. if in_par h i a then None else Some a)) \<and>
     node_dtypes t = node_dtypes h \<and> held t \<subseteq> held h \<and>
     drop_log t = drop_log h @ filter (needs_drop_fn h) (partition_passes h i)"

lemma heap_inv_restrict:
  assumes inv: "heap_inv h" and i: "i < length (partitions h)"
    and hd: "heads t = heads h |` {a. \<not> in_par h i a}" and pl: "\<And>a. \<not> in_par h i a \<Longrightarrow> payloads t a = payloads h a"
    and len: "length (partitions t) = length (partitions h)"
    and oth: "\<And>j. j < length (partitions h) \<Longrightarrow> j \<noteq> i \<Longrightarrow> partitions t ! j = partitions h ! j"
    and fr: "nodes (partitions t ! i) = None" "glist t i = []" and wk: "weak_ok t" and nd: "node_dtypes t = node_dtypes h"
  shows "heap_inv t"
proof -
  have ok: "heap_ok h" using inv by (simp add: heap_inv_def)
  have ti: "type_info t = type_info h" using nd by (simp add: type_info_def fun_eq_iff)
  have h: "heads t a = heads h a" if "in_par h j a" "j \<noteq> i" for a j
    using that in_par_unique [of h j a i] by (auto simp: hd restrict_map_def)
  have ip: "in_par t j a \<longleftrightarrow> in_par h j a \<and> j \<noteq> i" for j a
    using in_par_unique [of h j a i] by (auto simp: hd in_par_def restrict_map_def)
  have li: "par_list t i = []" using fr(1) by (simp add: par_list_def node_iter.simps)
  have ch: "chain (heads t) (nodes (partitions t ! j)) (par_list h j)"
    if j: "j < length (partitions h)" "j \<noteq> i" for j
  proof -
    have "heads t a = heads h a" if "a \<in> set (par_list h j)" for a
      using that heap_ok_member_iff [OF ok j(1)] j(2) h by blast
    then show ?thesis using heap_ok_chain [OF ok j(1)] oth [OF j] by (subst chain_cong [where m = "heads h"]) auto
  qed
  have lj: "par_list t j = par_list h j" if "j < length (partitions h)" "j \<noteq> i" for j
    using par_list_chain [OF ch [OF that]] .
  have "heap_ok t"
    unfolding heap_ok_def
  proof (intro conjI allI impI ballI)
    show "length (partitions t) \<le> 2 ^ 16" using ok len by (simp add: heap_ok_def)
    fix j assume j: "j < length (partitions t)"
    show "chain (heads t) (nodes (partitions t ! j)) (par_list t j)"
      using j len li fr(1) ch lj by (cases "j = i") auto
    show "gray_ok t j"
    proof (cases "j = i")
      case True
      then show ?thesis using fr(2) by (simp add: gray_ok_def ip)
    next
      case False
      with j len have g: "gray_ok h j" "glist t j = glist h j" using heap_ok_gray [OF ok] oth by auto
      have "hlisted t a = hlisted h a" if "in_par h j a" for a using h [OF that False] by (simp add: hlisted_def)
      with g False show ?thesis by (auto simp: gray_ok_def ip)
    qed
    fix a assume a: "a \<in> set (par_list t j)"
    show "node_ok t j a"
    proof (cases "j = i")
      case True
      with a li show ?thesis by simp
    next
      case False
      have jl: "j < length (partitions h)" using j len by simp
      have ah: "a \<in> set (par_list h j)" using a lj [OF jl False] by simp
      then have ia: "in_par h j a" using heap_ok_member_iff [OF ok jl] by blast
      have "node_ok h j a" using ok jl ah by (simp add: heap_ok_def)
      moreover have "\<not> in_par h i a" using in_par_unique [OF ia, of i] False by auto
      ultimately show ?thesis using h [OF ia False] pl by (simp add: node_ok_def ti)
    qed
  next
    show "dom (heads t) \<subseteq> (\<Union>j<length (partitions t). set (par_list t j))"
    proof
      fix a assume "a \<in> dom (heads t)"
      then have a: "a \<in> dom (heads h)" "\<not> in_par h i a" by (auto simp: hd)
      then obtain j where j: "j < length (partitions h)" "a \<in> set (par_list h j)" using ok by (auto simp: heap_ok_def)
      then have "j \<noteq> i" using a(2) heap_ok_member_iff [OF ok j(1)] by blast
      with j lj [OF j(1)] have "a \<in> set (par_list t j)" by simp
      with j(1) len show "a \<in> (\<Union>j<length (partitions t). set (par_list t j))" by auto
    qed
  qed
  moreover have "disp_ok t"
    by (rule disp_ok_cong [OF _ wk]) (use inv hd nd len in \<open>auto simp: heap_inv_def restrict_map_def split: if_splits\<close>)
  moreover have "passes_ok t"
    unfolding passes_ok_def nd
  proof (intro conjI ballI)
    show "distinct (drop_passes (node_dtypes h))" using inv by (simp add: heap_inv_def passes_ok_def)
    fix a assume "a \<in> dom (heads t)"
    then have a: "a \<in> dom (heads h)" "heads t a = heads h a" by (auto simp: hd restrict_map_def split: if_splits)
    then have "pass_is t q a = pass_is h q a" for q by (simp add: pass_is_def ti)
    with a(1) inv show "\<exists>q\<in>set (drop_passes (node_dtypes h)). pass_is t q a"
      by (simp add: heap_inv_def passes_ok_def)
  qed
  moreover have "arena_nodes_ok t"
  proof -
    have "arena_present t j = arena_present h j" if "j \<noteq> i" for j
      using oth [of j] that len by (cases "j < length (partitions h)") (auto simp: arena_present_def arenas_def)
    moreover have "arena_nodes_ok h" using inv by (simp add: heap_inv_def)
    ultimately show ?thesis
      using hd by (auto simp: arena_nodes_ok_def ip in_arena_def restrict_map_def split: if_splits)
  qed
  ultimately show ?thesis by (simp add: heap_inv_def)
qed

lemma upgrade_restrict:
  assumes "weak_ok h" "weak_ok t" "heads t = heads h |` S"
  shows "upgrade w t = Option.bind (upgrade w h) (\<lambda>a. if a \<notin> S then None else Some a)"
proof -
  have "upgrade w t = Option.bind (upgrade w h) (\<lambda>a. if heads t a = None then None else Some a)"
    by (rule upgrade_removed [OF assms(1,2)]) (auto simp: assms(3) restrict_map_def split: if_splits)
  also have "\<dots> = Option.bind (upgrade w h) (\<lambda>a. if a \<notin> S then None else Some a)"
  proof (cases "upgrade w h")
    case (Some a)
    then have "heads h a \<noteq> None" using upgrade_live [OF assms(1)] by fastforce
    then show ?thesis unfolding Some by (auto simp: assms(3) restrict_map_def)
  qed simp
  finally show ?thesis .
qed

text \<open>Phase 1: the state between \<open>finalize_partition\<close> and \<open>dealloc_partition\<close>.\<close>

definition finalized :: "'p gc_heap \<Rightarrow> u16 \<Rightarrow> 'p gc_heap \<Rightarrow> 'p gc_heap \<Rightarrow> bool" where
  "finalized h pid u t \<longleftrightarrow> clr h (scopes_of h pid) u \<and>
     t = u\<lparr>weak_slots := weak_slots t, payloads := payloads t, drop_log := drop_log t\<rparr> \<and>
     drop_log t = drop_log h @ filter (needs_drop_fn h) (partition_passes h (unat pid)) \<and>
     payloads t = (\<lambda>a. if in_par h (unat pid) a \<and> needs_drop_fn u a then None else payloads h a) \<and>
     weak_ok (t\<lparr>heads := heads u |` {a. \<not> in_par h (unat pid) a}\<rparr>) \<and>
     (\<forall>a g. in_par h (unat pid) a \<longrightarrow> heads u a = Some g \<longrightarrow> slot_clear t g)"

lemma clr_obs:
  assumes "clr h X t"
  shows "heap_inv t" "scope_ok t" "partitions t = partitions h" "payloads t = payloads h"
    "node_dtypes t = node_dtypes h" "weak_slots t = weak_slots h" "in_par t = in_par h" "dom (heads t) = dom (heads h)"
    "total_memory_used t = total_memory_used h" "drop_log t = drop_log h"
proof -
  show "heap_inv t" "scope_ok t" using assms keeps_inv by (auto simp: clr_def)
  show "partitions t = partitions h" "payloads t = payloads h" "node_dtypes t = node_dtypes h"
    "weak_slots t = weak_slots h" "total_memory_used t = total_memory_used h" "drop_log t = drop_log h"
    using assms by (simp_all add: clr_def flag_frame_def)
  have st: "stays h t" using assms by (simp add: clr_def)
  then show d: "dom (heads t) = dom (heads h)" by (simp add: stays_def)
  have "in_par t j a = in_par h j a" for j a
  proof (cases "heads h a")
    case None
    then have "a \<notin> dom (heads t)" unfolding d by auto
    with None show ?thesis by (auto simp: in_par_def)
  next
    case (Some g)
    with stays_head [OF st this] show ?thesis by (auto simp: in_par_def)
  qed
  then show "in_par t = in_par h" by (simp add: fun_eq_iff)
qed

lemma flag_frame_passes:
  assumes f: "flag_frame h D t" and st: "stays h t" and ok: "heap_ok h" and i: "i < length (partitions h)"
  shows "par_list t i = par_list h i" "needs_drop_fn t = needs_drop_fn h" "pass_is t = pass_is h"
    "partition_passes t i = partition_passes h i"
proof -
  have ff: "partitions t = partitions h" "node_dtypes t = node_dtypes h" "dom (heads t) = dom (heads h)"
    using f st by (simp_all add: flag_frame_def stays_def)
  have "chain (heads t) (nodes (partitions h ! i)) (par_list h i)"
    using heap_ok_chain [OF ok i] f
    by (subst chain_cong [where m = "heads h"]) (simp_all add: flag_frame_def)
  then show l: "par_list t i = par_list h i" using par_list_chain [of t i] by (simp add: ff)
  have "map_option dtype (heads t a) = map_option dtype (heads h a)" for a
  proof (cases "heads h a")
    case None
    then have "a \<notin> dom (heads t)" unfolding ff by auto
    with None show ?thesis by auto
  next
    case (Some g)
    then obtain g' where "heads t a = Some g'" using ff(3) by (metis domD domI)
    with Some st show ?thesis by (auto simp: stays_def)
  qed
  note d = this
  have k: "(\<exists>g info. heads t a = Some g \<and> type_info t (dtype g) = Some info \<and> Q info) \<longleftrightarrow>
      (\<exists>g info. heads h a = Some g \<and> type_info h (dtype g) = Some info \<and> Q info)" for a Q
    using d [of a] by (cases "heads h a"; cases "heads t a") (auto simp: type_info_def ff)
  show "needs_drop_fn t = needs_drop_fn h" by (rule ext) (simp only: needs_drop_fn_def k)
  show ps: "pass_is t = pass_is h" by (intro ext) (simp only: pass_is_def k)
  show "partition_passes t i = partition_passes h i" by (simp add: partition_passes_def pass_order_def l ff ps)
qed

lemma clr_passes:
  assumes c: "clr h X t" and ok: "heap_ok h" and i: "i < length (partitions h)"
  shows "par_list t i = par_list h i" "needs_drop_fn t = needs_drop_fn h" "partition_passes t i = partition_passes h i"
proof -
  have f: "flag_frame h (caches_of h X) t" and s: "stays h t" using c by (simp_all add: clr_def)
  show "par_list t i = par_list h i" "needs_drop_fn t = needs_drop_fn h" "partition_passes t i = partition_passes h i"
    by (rule flag_frame_passes [OF f s ok i])+
qed

lemma finalize_partition_correct:
  assumes inv: "heap_inv h" "scope_ok h" and i: "unat pid < length (partitions h)"
  shows "\<exists>u t. finalize_partition pid h = Some (Some (nodes (partitions h ! unat pid)), t) \<and> finalized h pid u t"
proof -
  let ?i = "unat pid"
  from clear_stacks_correct [OF inv, of pid] obtain u where
    u: "fold_opt (clear_stack pid) [0..<length (scope_stacks h)] h = Some u" "clr h (scopes_of h pid) u" by blast
  note uo = clr_obs [OF u(2)]
  have uk: "heap_ok u" "weak_ok u" "passes_ok u" using uo(1) by (simp_all add: heap_inv_def disp_ok_def)
  have iu: "?i < length (partitions u)" using i uo(3) by simp
  let ?link = "nodes (partitions h ! ?i)" and ?xs = "par_list u ?i"
  have link: "nodes (partitions u ! ?i) = ?link" by (simp add: uo(3))
  have c: "chain (heads u) ?link ?xs" using heap_ok_chain [OF uk(1) iu] link by simp
  have xs: "a \<in> set ?xs \<longleftrightarrow> in_par h ?i a" for a using heap_ok_member_iff [OF uk(1) iu] by (simp add: uo(7))
  from clear_slots_correct [OF uk(2) chain_dom [OF c] chain_distinct [OF c]] obtain v where
    v: "fold_opt clear_node_slot ?xs u = Some v" "v = u\<lparr>weak_slots := weak_slots v\<rparr>"
      "weak_ok (v\<lparr>heads := heads u |` (- set ?xs)\<rparr>)" "\<forall>a\<in>set ?xs. \<forall>g. heads u a = Some g \<longrightarrow> slot_clear v g" by blast
  have hd: "heads w' = heads w" if "clear_node_slot a w = Some w'" for a w w'
    using that by (auto simp: clear_node_slot_def clear_weak_slot_def Let_def bind_eq_Some_conv split: if_splits)
  have fn: "for_nodes clear_node_slot ?link u = Some v"
    unfolding v(1) [symmetric] by (rule for_nodes_fold [OF c]) (simp add: hd)
  have vf: "heads v = heads u" "payloads v = payloads u" "node_dtypes v = node_dtypes u" "type_info v = type_info u"
    by (subst v(2), simp add: type_info_def fun_eq_iff)+
  have dr: "droppable v a" if a: "a \<in> set ?xs" for a
  proof -
    from heap_ok_node [OF uk(1) iu a] obtain g info x where "heads u a = Some g" "type_info u (dtype g) = Some info"
      "payloads u a = Some x" by metis
    then show ?thesis by (simp add: droppable_def vf)
  qed
  have dp: "distinct (drop_passes (node_dtypes v))" using uk(3) by (simp add: passes_ok_def vf)
  let ?ys = "pass_order v (drop_passes (node_dtypes v)) ?xs"
  from drop_passes_correct [OF c [folded vf(1)] dr dp, of "[]"] have
    dpe: "fold_opt (\<lambda>pass. for_nodes (drop_in_pass pass) ?link) (drop_passes (node_dtypes v)) v =
      Some (dropped_in v ?ys)" by simp
  have ys: "a \<in> set ?ys \<longleftrightarrow> in_par h ?i a" for a
    using uk(3) dom_in_list [OF uk(1) iu] xs by (auto simp: set_pass_order passes_ok_def vf pass_is_def)
  have hk: "heap_ok h" using inv(1) by (simp add: heap_inv_def)
  note cp = clr_passes [OF u(2) hk i]
  have "pass_is v = pass_is u" by (simp add: fun_eq_iff pass_is_def vf)
  then have yp: "?ys = partition_passes h ?i"
    unfolding cp(3) [symmetric] by (simp add: partition_passes_def pass_order_def vf)
  let ?t = "dropped_in v ?ys"
  have "finalize_partition pid h = Some (Some ?link, ?t)"
    using i iu u(1) fn dpe link by (simp add: finalize_partition_def finalize_partition_prepare_def get_par_def vec_get_def)
  moreover have "finalized h pid u ?t"
    unfolding finalized_def
  proof (intro conjI allI impI)
    show "clr h (scopes_of h pid) u" by (rule u(2))
    have "needs_drop_fn v = needs_drop_fn u" by (simp add: fun_eq_iff needs_drop_fn_def vf)
    note nd = this
    show "payloads ?t = (\<lambda>a. if in_par h ?i a \<and> needs_drop_fn u a then None else payloads h a)"
      by (simp add: dropped_in_def ys nd vf(2) uo(4) cong: if_cong)
    have "drop_log v = drop_log h" by (subst v(2)) (simp add: uo(10))
    then show "drop_log ?t = drop_log h @ filter (needs_drop_fn h) (partition_passes h ?i)"
      unfolding dropped_in_def by (simp add: yp nd cp(2))
    have "?t = v\<lparr>payloads := payloads ?t, drop_log := drop_log ?t\<rparr>" by (simp add: dropped_in_def)
    also have "\<dots> = u\<lparr>weak_slots := weak_slots ?t, payloads := payloads ?t, drop_log := drop_log ?t\<rparr>"
      by (subst v(2)) (simp add: dropped_in_def)
    finally show "?t = u\<lparr>weak_slots := weak_slots ?t, payloads := payloads ?t, drop_log := drop_log ?t\<rparr>" .
    have "- set ?xs = {a. \<not> in_par h ?i a}" using xs by auto
    with v(3) have "weak_ok (v\<lparr>heads := heads u |` {a. \<not> in_par h ?i a}\<rparr>)" by simp
    then show "weak_ok (?t\<lparr>heads := heads u |` {a. \<not> in_par h ?i a}\<rparr>)"
      by (rule weak_ok_heads) (simp_all add: dropped_in_def)
    show "slot_clear ?t g" if "in_par h ?i a" "heads u a = Some g" for a g
      using v(4) that xs by (auto simp: slot_clear_def dropped_in_def)
  qed
  ultimately show ?thesis by blast
qed

text \<open>Phase 2.\<close>

lemma dealloc_partition_correct:
  assumes inv: "heap_inv h" "scope_ok h" and own: "scopes_own h" and i: "unat pid < length (partitions h)"
    and ar: "arena_capacity (partitions h ! unat pid) > 0 \<Longrightarrow>
      arena_new (arena_capacity (partitions h ! unat pid)) sys \<noteq> None"
    and f: "finalized h pid u v"
  shows "\<exists>n t. dealloc_partition pid (nodes (partitions h ! unat pid)) sys v = Some (n, t) \<and>
    heap_inv t \<and> scope_ok t \<and> partition_removed h (unat pid) n t"
proof -
  let ?i = "unat pid"
  let ?p = "partitions h ! ?i" and ?S = "{a. \<not> in_par h ?i a}"
  have cl: "clr h (scopes_of h pid) u" and ve: "v = u\<lparr>weak_slots := weak_slots v, payloads := payloads v, drop_log := drop_log v\<rparr>"
    and vd: "drop_log v = drop_log h @ filter (needs_drop_fn h) (partition_passes h ?i)"
    and vp: "payloads v = (\<lambda>a. if in_par h ?i a \<and> needs_drop_fn u a then None else payloads h a)"
    and vw: "weak_ok (v\<lparr>heads := heads u |` ?S\<rparr>)"
    and vs: "\<And>a g. in_par h ?i a \<Longrightarrow> heads u a = Some g \<Longrightarrow> slot_clear v g"
    using f unfolding finalized_def by blast+
  note uo = clr_obs [OF cl]
  have vf: "heads v = heads u" "partitions v = partitions h" "node_dtypes v = node_dtypes h"
    "total_memory_used v = total_memory_used h" "scope_stacks v = scope_stacks u" "type_info v = type_info u"
    by (subst ve, simp add: uo type_info_def fun_eq_iff)+
  have uk: "heap_ok u" "disp_ok u" using uo(1) by (simp_all add: heap_inv_def)
  have hk: "heap_ok h" using inv(1) by (simp add: heap_inv_def)
  have iu: "?i < length (partitions u)" using i uo(3) by simp
  let ?xs = "par_list u ?i"
  have c: "chain (heads v) (nodes ?p) ?xs" using heap_ok_chain [OF uk(1) iu] by (simp add: uo(3) vf)
  have xs: "a \<in> set ?xs \<longleftrightarrow> in_par h ?i a" for a using heap_ok_member_iff [OF uk(1) iu] by (simp add: uo(7))
  have Sx: "- set ?xs = ?S" using xs by auto
  have P: "\<exists>g info. heads v a = Some g \<and> type_info v (dtype g) = Some info \<and> slot_clear v g" if a: "a \<in> set ?xs" for a
  proof -
    from heap_ok_node [OF uk(1) iu a] obtain g info where "heads u a = Some g" "type_info u (dtype g) = Some info" by metis
    with vs a xs show ?thesis by (auto simp: vf)
  qed
  let ?w = "v\<lparr>heads := heads u |` ?S, payloads := payloads v |` ?S\<rparr>"
  let ?n = "sum_sizes (node_size v) ?xs"
  have dl: "dealloc_loop (nodes ?p) 0 v = Some (?n, ?w)"
    using dealloc_loop_correct [OF c P, of 0] by (simp add: Sx vf)
  let ?w2 = "?w\<lparr>total_memory_used := total_memory_used ?w - memory_used ?p\<rparr>"
  obtain p2 where p2: "reset_arena sys ?p = Some p2" "arena_capacity p2 = arena_capacity ?p"
    "arena_max_alloc p2 = arena_max_alloc ?p"
    using ar by (cases "arena_capacity ?p > 0") (auto simp: reset_arena_def)
  let ?p3 = "p2\<lparr>memory_used := 0, nodes := None, gray_list := [], marking := False\<rparr>"
  let ?t = "put_par pid ?p3 ?w2"
  have run: "dealloc_partition pid (nodes ?p) sys v = Some (?n, ?t)"
    using i dl p2(1) by (simp add: dealloc_partition_def get_par_def vec_get_def vf)
  have hu: "heads u a = heads h a" if "\<not> in_par h ?i a" for a
  proof -
    have "a \<notin> caches_of h (scopes_of h pid)"
    proof
      assume "a \<in> caches_of h (scopes_of h pid)"
      then obtain sid k s st where s: "get_scope h sid k = Some s" "a \<in> set (cache_list s)"
        "get_stack h sid = Some st" "ss_partition st = Some pid" "k < length (ss_list st)"
        by (auto simp: caches_of_def scopes_of_def)
      have "stack_ok sid st" using inv(2) s(3) stacks_ok_stack by (auto simp: scope_ok_alt)
      moreover have "s = ss_list st ! k" using s by (simp add: get_scope_def vec_get_def)
      ultimately have "sc_partition_id s = pid" using s(4,5) by (auto simp: stack_ok_def)
      with own s(1,2) have "in_par h ?i a" using scopes_ownD by blast
      with that show False by simp
    qed
    with cl show ?thesis by (simp add: clr_def flag_frame_def)
  qed
  have ht: "heads ?t = heads h |` ?S" using hu by (auto simp: restrict_map_def fun_eq_iff)
  have pt: "payloads ?t = payloads h |` ?S" by (auto simp: restrict_map_def fun_eq_iff vp)
  have wt: "weak_ok ?t" by (rule weak_ok_heads [OF vw]) simp_all
  have it: "heap_inv ?t"
    by (rule heap_inv_restrict [OF inv(1) i ht _ _ _ _ _ wt])
       (use i pt in \<open>simp_all add: vf restrict_map_def\<close>)
  have nl: "\<not> in_par h ?i a" if "hlocal u a" for a
  proof
    assume ia: "in_par h ?i a"
    from that cl have l: "hlocal h a" "a \<notin> caches_of h (scopes_of h pid)" by (simp_all add: clr_def)
    then have "a \<in> set (local_nodes h)" using inv(2) by (simp add: scope_ok_def)
    then obtain st s where st: "st \<in> set (scope_stacks h)" "s \<in> set (ss_list st)" "a \<in> set (cache_list s)"
      by (auto simp: local_nodes_def stack_nodes_def)
    then obtain m k where m: "m < length (scope_stacks h)" "scope_stacks h ! m = st" "k < length (ss_list st)" "ss_list st ! k = s"
      by (meson in_set_conv_nth)
    have "m < 2 ^ 16" using m(1) inv(2) by (simp add: scope_ok_def)
    then have un: "unat (of_nat m :: u16) = m" by (rule unat_of_nat_u16)
    have gs: "get_stack h (of_nat m) = Some st" using m by (simp add: get_stack_def vec_get_def un)
    have sc: "get_scope h (of_nat m) k = Some s" using gs m by (simp add: get_scope_def vec_get_def)
    have "stack_ok (of_nat m) st" using inv(2) gs stacks_ok_stack by (auto simp: scope_ok_alt)
    then have sp: "ss_partition st = Some (sc_partition_id s)" using m by (auto simp: stack_ok_def)
    from own sc st(3) have "in_par h (unat (sc_partition_id s)) a" using scopes_ownD by blast
    with ia have "sc_partition_id s = pid" using in_par_unique word_unat_eq_iff by blast
    with sp gs m sc st(3) have "a \<in> caches_of h (scopes_of h pid)" by (auto simp: caches_of_def scopes_of_def)
    with l(2) show False by simp
  qed
  have hl: "hlocal ?t = hlocal u"
  proof (rule ext)
    fix a
    show "hlocal ?t a = hlocal u a"
    proof (cases "in_par h ?i a")
      case True
      with nl [of a] show ?thesis by (auto simp: hlocal_def restrict_map_def)
    next
      case False
      with hu show ?thesis by (simp add: hlocal_def restrict_map_def)
    qed
  qed
  have "scope_ok ?t" using scope_ok_cong [of ?t u] hl uo(2) by (simp add: vf)
  moreover have "partition_removed h ?i ?n ?t"
    unfolding partition_removed_def
  proof (intro conjI)
    show "heads ?t = heads h |` ?S" "payloads ?t = payloads h |` ?S" by (rule ht, rule pt)
    have "scope_stacks ?t = scope_stacks u" by (simp add: vf)
    from held_cong [OF this] show "held ?t \<subseteq> held h" using cl by (simp add: clr_def)
    show "fresh_partition ?p (partitions ?t ! ?i)" using i p2 by (simp add: fresh_partition_def vf)
    have "weak_ok h" using inv(1) by (simp add: heap_inv_def disp_ok_def)
    from upgrade_restrict [OF this wt ht]
    show "\<forall>w. upgrade w ?t = Option.bind (upgrade w h) (\<lambda>a. if in_par h ?i a then None else Some a)" by simp
    note pl = clr_passes(1) [OF cl hk i]
    have "node_size v a = node_size h a" if "a \<in> set ?xs" for a
    proof -
      from that dom_in_list [OF hk i] pl obtain g where g: "heads h a = Some g" by auto
      have "stays h u" using cl by (simp add: clr_def)
      moreover have "a \<in> dom (heads u)" using g by (auto simp: uo(8))
      ultimately obtain g' where "heads u a = Some g'" "dtype g' = dtype g"
        using g unfolding stays_def by blast
      with g show ?thesis by (simp add: node_size_def vf type_info_def uo(5))
    qed
    then show "?n = sum_sizes (node_size h) (par_list h ?i)"
      unfolding pl by (rule sum_sizes_cong) (simp add: pl)
    show "drop_log ?t = drop_log h @ filter (needs_drop_fn h) (partition_passes h ?i)" by (simp add: vd)
  qed (use i in \<open>simp_all add: vf\<close>)
  ultimately show ?thesis using run it by blast
qed

lemma remove_partition_correct:
  assumes inv: "heap_inv h" "scope_ok h" and own: "scopes_own h" and i: "unat pid < length (partitions h)"
    and ar: "arena_capacity (partitions h ! unat pid) > 0 \<Longrightarrow>
      arena_new (arena_capacity (partitions h ! unat pid)) sys \<noteq> None"
  shows "\<exists>n t. remove_partition pid sys h = Some (n, t) \<and>
    heap_inv t \<and> scope_ok t \<and> partition_removed h (unat pid) n t"
proof -
  from finalize_partition_correct [OF inv i] obtain u v where
    f: "finalize_partition pid h = Some (Some (nodes (partitions h ! unat pid)), v)" "finalized h pid u v" by blast
  from dealloc_partition_correct [OF inv own i ar f(2)] f(1) show ?thesis by (simp add: remove_partition_def)
qed

lemma remove_partition_missing: "get_par h pid = None \<Longrightarrow> remove_partition pid sys h = Some (0, h)"
  by (simp add: remove_partition_def finalize_partition_def finalize_partition_prepare_def)

end
