(* ===== verification/Gc_Drop.thy ===== *)
theory Gc_Drop
  imports Gc_Teardown
begin

section \<open>Dropping the heap (src/src/heap.rs)\<close>

text \<open>
  \<open>Drop for GcHeap\<close>: the scopes are drained and cleared, the chains of all partitions are
  taken out, and every node is disposed of.
\<close>

definition heap_drop :: "'p gc_heap \<Rightarrow> 'p gc_heap option" where
  "heap_drop h =
     do { h1 \<leftarrow> fold_opt (\<lambda>stack. fold_opt (\<lambda>s. unprotect (sc_cache s)) (ss_list stack)) (scope_stacks h) h;
          let h2 = h1\<lparr>scope_stacks := map (\<lambda>stack. stack\<lparr>ss_list := []\<rparr>) (scope_stacks h1)\<rparr>;
              all_nodes = map nodes (partitions h2);
              h3 = h2\<lparr>partitions := map (\<lambda>par. par\<lparr>nodes := None\<rparr>) (partitions h2)\<rparr>
          in fold_opt (\<lambda>link h. map_option (snd \<circ> snd) (dispose_all_nodes (\<lambda>_ _ c. c) link () h)) all_nodes h3 }"

lemma fold_opt_nested:
  "fold_opt (\<lambda>x. fold_opt g (f x)) xs s = fold_opt g (concat (map f xs)) s"
proof (induction xs arbitrary: s)
  case (Cons x xs)
  have "fold_opt (\<lambda>x. fold_opt g (f x)) xs = fold_opt g (concat (map f xs))" by (rule ext, rule Cons.IH)
  then show ?case by (simp add: fold_opt_append)
qed simp

lemma fold_opt_map: "fold_opt g (map f xs) s = fold_opt (\<lambda>x. g (f x)) xs s"
proof (induction xs arbitrary: s)
  case (Cons x xs)
  have "fold_opt g (map f xs) = fold_opt (\<lambda>x. g (f x)) xs" by (rule ext, rule Cons.IH)
  then show ?case by simp
qed simp

text \<open>Clearing all scopes takes the flag from every local node.\<close>

lemma unprotect_all:
  assumes inv: "heap_inv h" and d: "\<And>s. s \<in> set ss \<Longrightarrow> set (cache_list s) \<subseteq> dom (heads h)"
  shows "\<exists>t. fold_opt (\<lambda>s. unprotect (sc_cache s)) ss h = Some t \<and> unlocal h (set (concat (map cache_list ss))) t"
proof (rule fold_opt_prefix_rule [where P = "\<lambda>ys. unlocal h (set (concat (map cache_list ys)))"])
  show "unlocal h (set (concat (map cache_list []))) h"
    using keeps_refl [OF inv] by (simp add: unlocal_def stays_def)
next
  fix ys s zs t assume ss: "ss = ys @ s # zs" and u: "unlocal h (set (concat (map cache_list ys))) t"
  have ti: "heap_inv t" using u keeps_inv by (auto simp: unlocal_def)
  have "set (cache_list s) \<subseteq> dom (heads t)" using d [of s] ss u by (simp add: unlocal_def stays_def)
  then obtain t' where t': "unprotect (sc_cache s) t = Some t'" "unlocal t (set (cache_list s)) t'"
    using unprotect_correct [OF ti, of "sc_cache s"] by (auto simp: cache_list_def)
  have "unlocal h (set (concat (map cache_list (ys @ [s])))) t'"
    using u t'(2) keeps_trans stays_trans flag_frame_trans by (auto simp: unlocal_def)
  with t'(1) show "\<exists>t'. unprotect (sc_cache s) t = Some t' \<and> unlocal h (set (concat (map cache_list (ys @ [s])))) t'"
    by blast
qed

text \<open>All nodes, in the order in which dropping the heap disposes of them.\<close>

definition heap_passes :: "'p gc_heap \<Rightarrow> addr list" where
  "heap_passes h = concat (map (partition_passes h) [0..<length (partitions h)])"

lemma heap_drop_correct:
  assumes inv: "heap_inv h" "scope_ok h"
  shows "\<exists>t. heap_drop h = Some t \<and> heads t = Map.empty \<and> payloads t = payloads h |` (- dom (heads h)) \<and>
    (\<forall>k<length (weak_slots t). snd (weak_slots t ! k) = None) \<and> (\<forall>w. upgrade w t = None) \<and>
    set (heap_passes h) = dom (heads h) \<and> distinct (heap_passes h) \<and>
    total_memory_used t = total_memory_used h - sum_sizes (node_size h) (heap_passes h) \<and>
    drop_log t = drop_log h @ filter (needs_drop_fn h) (heap_passes h)"
proof -
  let ?ss = "concat (map ss_list (scope_stacks h))"
  have "set (cache_list s) \<subseteq> dom (heads h)" if s: "s \<in> set ?ss" for s
  proof
    fix a assume "a \<in> set (cache_list s)"
    with s have "a \<in> set (local_nodes h)" by (auto simp: local_nodes_def stack_nodes_def)
    then show "a \<in> dom (heads h)" by (rule scope_ok_live(1) [OF inv(2)])
  qed
  from unprotect_all [OF inv(1) this] obtain u L where
    u: "fold_opt (\<lambda>stack. fold_opt (\<lambda>s. unprotect (sc_cache s)) (ss_list stack)) (scope_stacks h) h = Some u"
      "unlocal h L u" unfolding fold_opt_nested by blast
  have uf: "keeps h u" "stays h u" "flag_frame h L u" using u(2) by (simp_all add: unlocal_def)
  have uk: "heap_ok u" "disp_ok u" "passes_ok u" using keeps_inv [OF uf(1)] by (simp_all add: heap_inv_def)
  let ?n = "length (partitions h)"
  have up: "partitions u = partitions h" "payloads u = payloads h" "total_memory_used u = total_memory_used h"
    "node_dtypes u = node_dtypes h" "drop_log u = drop_log h" using uf(3) by (simp_all add: flag_frame_def)
  have hk: "heap_ok h" using inv(1) by (simp add: heap_inv_def)
  note fp = flag_frame_passes [OF uf(3,2) hk]
  define v where "v = u\<lparr>scope_stacks := map (\<lambda>stack. stack\<lparr>ss_list := []\<rparr>) (scope_stacks u),
      partitions := map (\<lambda>par. par\<lparr>nodes := None\<rparr>) (partitions u)\<rparr>"
  have vf: "heads v = heads u" "payloads v = payloads u" "node_dtypes v = node_dtypes u" "type_info v = type_info u"
    "length (partitions v) = ?n" "total_memory_used v = total_memory_used h" "drop_log v = drop_log h"
    by (simp_all add: v_def type_info_def fun_eq_iff up)
  have "weak_ok u" using uk(2) by (simp add: disp_ok_def)
  then have "weak_ok v" by (rule weak_ok_heads) (simp_all add: v_def)
  then have vd: "disp_ok v" by (rule disp_ok_cong [OF uk(2)]) (auto simp: vf up)
  define f where "f i h = map_option (snd \<circ> snd) (dispose_all_nodes (\<lambda>_ _ c. c) (nodes (partitions u ! i)) () h)" for i and h :: "'a gc_heap"
  define Q where "Q m t \<longleftrightarrow> disp_ok t \<and> (\<exists>ys. freed_list v ys t \<and> distinct ys \<and> set ys = (\<Union>j<m. set (par_list u j)) \<and>
        ys = concat (map (partition_passes h) [0..<m]) \<and> drop_log t = drop_log h @ filter (needs_drop_fn h) ys)
      \<and> (\<forall>b. b \<notin> (\<Union>j<m. set (par_list u j)) \<longrightarrow> heads t b = heads v b)" for m t
  have "\<exists>t. fold_opt f [0..<?n] v = Some t \<and> Q ?n t"
  proof (rule fold_opt_upt)
    show "Q 0 v" using vd by (simp add: Q_def freed_list_Nil vf)
  next
    fix i t assume i: "i < ?n" and q: "Q i t"
    then obtain ys where ys: "freed_list v ys t" "distinct ys" "set ys = (\<Union>j<i. set (par_list u j))"
        "ys = concat (map (partition_passes h) [0..<i])" "drop_log t = drop_log h @ filter (needs_drop_fn h) ys"
      and td: "disp_ok t"
      and th: "\<And>b. b \<notin> set ys \<Longrightarrow> heads t b = heads v b" by (auto simp: Q_def)
    have iu: "i < length (partitions u)" using i by (simp add: up)
    have new: "a \<notin> set ys" if a: "a \<in> set (par_list u i)" for a
    proof
      assume "a \<in> set ys"
      then obtain j where j: "j < i" "a \<in> set (par_list u j)" using ys(3) by auto
      have "in_par u i a" "in_par u j a"
        using a j heap_ok_member_iff [OF uk(1)] iu by (metis order_less_trans)+
      with in_par_unique j(1) show False by blast
    qed
    have hu: "heads t a = heads u a" if "a \<in> set (par_list u i)" for a using th [OF new [OF that]] by (simp add: vf)
    have c: "chain (heads t) (nodes (partitions u ! i)) (par_list u i)"
      using heap_ok_chain [OF uk(1) iu] hu by (subst chain_cong [where m = "heads u"]) auto
    have ti: "type_info t = type_info u" "node_dtypes t = node_dtypes u"
      using ys(1) by (simp_all add: freed_list_def vf type_info_def fun_eq_iff)
    have dr: "droppable t a" if a: "a \<in> set (par_list u i)" for a
    proof -
      from heap_ok_node [OF uk(1) iu a] obtain g info x where g: "heads u a = Some g" "type_info u (dtype g) = Some info"
        "payloads u a = Some x" by metis
      have "payloads t a = payloads u a" using ys(1) new [OF a] by (simp add: freed_list_def vf)
      with g hu [OF a] show ?thesis by (simp add: droppable_def ti)
    qed
    have ps: "distinct (drop_passes (node_dtypes t))"
      "\<exists>q\<in>set (drop_passes (node_dtypes t)). pass_is t q a" if "a \<in> set (par_list u i)" for a
      using uk(3) dom_in_list [OF uk(1) iu that] hu [OF that] by (auto simp: passes_ok_def ti pass_is_def)
    have dps: "distinct (drop_passes (node_dtypes t))" using uk(3) by (simp add: passes_ok_def ti)
    from dispose_all_nodes_correct [OF td c dr dps ps(2), where cb = "\<lambda>_ _ c. c" and st = "()"] obtain zs h' where
      z: "dispose_all_nodes (\<lambda>_ _ c. c) (nodes (partitions u ! i)) () t = Some (sum_sizes (node_size t) zs, (), h')"
        "set zs = set (par_list u i)" "distinct zs" "freed_list t zs h'" "disp_ok h'"
        "\<forall>b. b \<notin> set (par_list u i) \<longrightarrow> heads h' b = heads t b"
        "zs = pass_order t (drop_passes (node_dtypes t)) (par_list u i)"
        "drop_log h' = drop_log t @ filter (needs_drop_fn t) zs" by auto
    have iv: "pass_is t q a = pass_is h q a" "needs_drop_fn t a = needs_drop_fn h a" if "a \<in> set (par_list u i)" for q a
      using hu [OF that] fp(2,3) [OF i, symmetric] by (simp_all add: pass_is_def needs_drop_fn_def ti)
    have "filter (pass_is t q) (par_list u i) = filter (pass_is h q) (par_list u i)" for q
      by (rule filter_cong) (simp_all add: iv)
    then have zp: "zs = partition_passes h i"
      by (simp add: z(7) partition_passes_def pass_order_def ti up fp(1) [OF i])
    have zd: "drop_log h' = drop_log t @ filter (needs_drop_fn h) zs"
      unfolding z(8) by (simp, rule filter_cong) (use z(2) iv(2) in auto)
    have dis: "set ys \<inter> set zs = {}" using new z(2) by auto
    have "freed_list v (ys @ zs) h'" by (rule freed_list_append [OF ys(1) z(4) dis])
    moreover have "distinct (ys @ zs)" "set (ys @ zs) = (\<Union>j<Suc i. set (par_list u j))"
      using ys z dis by (auto simp: less_Suc_eq)
    moreover have "ys @ zs = concat (map (partition_passes h) [0..<Suc i])"
      "drop_log h' = drop_log h @ filter (needs_drop_fn h) (ys @ zs)"
      using ys(4,5) zp zd by simp_all
    moreover have "heads h' b = heads v b" if "b \<notin> (\<Union>j<Suc i. set (par_list u j))" for b
      using that z(6) th [of b] ys(3) by (auto simp: lessThan_Suc)
    ultimately have "Q (Suc i) h'" unfolding Q_def using z(5) by blast
    with z(1) show "\<exists>t'. f i t = Some t' \<and> Q (Suc i) t'" by (simp add: f_def)
  qed
  then obtain t ys where t: "fold_opt f [0..<?n] v = Some t" "disp_ok t" "freed_list v ys t" "distinct ys"
    "set ys = (\<Union>j<?n. set (par_list u j))" "ys = heap_passes h"
    "drop_log t = drop_log h @ filter (needs_drop_fn h) ys" by (auto simp: Q_def heap_passes_def)
  have m: "map nodes (partitions u) = map (\<lambda>i. nodes (partitions u ! i)) [0..<?n]"
    by (rule nth_equalityI) (simp_all add: up)
  have al: "fold_opt (\<lambda>link h. map_option (snd \<circ> snd) (dispose_all_nodes (\<lambda>_ _ c. c) link () h))
      (map nodes (partitions u)) v = Some t"
    unfolding m fold_opt_map using t(1) by (simp only: f_def [abs_def])
  have run: "heap_drop h = Some t"
    using u(1) al by (simp add: heap_drop_def Let_def v_def [symmetric])
  have du: "dom (heads u) = dom (heads h)" using uf(2) by (simp add: stays_def)
  have "dom (heads u) = set ys"
    using uk(1) dom_in_list [OF uk(1)] unfolding t(5) by (auto simp: heap_ok_def up)
  then have sy: "set ys = dom (heads h)" using du by simp
  have e: "heads t a = None" for a
  proof (cases "a \<in> set ys")
    case True
    then show ?thesis by (rule freed_list_gone [OF t(3)])
  next
    case False
    then have "heads v a = None" using \<open>dom (heads u) = set ys\<close> by (auto simp: vf)
    with freed_list_heads [OF t(3) False] show ?thesis by simp
  qed
  then have he: "heads t = Map.empty" by auto
  have wt: "weak_ok t" using t(2) by (simp add: disp_ok_def)
  have sl: "snd (weak_slots t ! k) = None" if "k < length (weak_slots t)" for k
    using wt that e by (cases "snd (weak_slots t ! k)") (fastforce simp: weak_ok_def)+
  have "upgrade w t = None" for w
    using upgrade_live [OF wt, of w] e by (cases "upgrade w t") auto
  moreover have "node_size v a = node_size h a" if "a \<in> set ys" for a
  proof -
    from that sy obtain g where g: "heads h a = Some g" by auto
    from that sy du obtain g' where g': "heads u a = Some g'" by auto
    have "dtype g' = dtype g" using uf(2) g g' unfolding stays_def by blast
    with g g' show ?thesis by (simp add: node_size_def vf type_info_def up)
  qed
  then have "sum_sizes (node_size v) ys = sum_sizes (node_size h) ys" by (rule sum_sizes_cong)
  then have "total_memory_used t = total_memory_used h - sum_sizes (node_size h) ys"
    using t(3) by (simp add: freed_list_def vf)
  moreover have "payloads t = payloads h |` (- dom (heads h))"
    using t(3) by (simp add: freed_list_def vf up sy)
  ultimately show ?thesis using run he sl sy t(4,7) unfolding t(6) by blast
qed

end
