(* ===== verification/Gc_World.thy ===== *)
theory Gc_World
  imports Gc_Drop
begin

text \<open>
  The invariant of a running program and the contracts of the operations a client calls: what
  holds of a heap between any two calls, how far each operation may change it, and that every
  operation of the library keeps it.
\<close>

section \<open>The invariant of a running program\<close>

text \<open>
  The heap and its scopes are well-formed, scopes hold nodes of their own partition, references
  stay inside a partition, and every partition is idle or in the middle of a sound marking
  cycle.  A client reaches a node through roots, locals and references, in whatever partition.
\<close>

definition part_closed :: "'p gc_heap \<Rightarrow> bool" where
  "part_closed h \<longleftrightarrow> (\<forall>a b. edge h a b \<longrightarrow> (\<exists>i. in_par h i a \<and> in_par h i b))"

definition world_ok :: "'p gc_heap \<Rightarrow> bool" where
  "world_ok h \<longleftrightarrow> heap_inv h \<and> scope_ok h \<and> scopes_own h \<and> part_closed h \<and> all_ready h"

inductive ref_reach :: "'p gc_heap \<Rightarrow> addr \<Rightarrow> bool" for h :: "'p gc_heap" where
  root: "hroot h a \<Longrightarrow> ref_reach h a"
| step: "ref_reach h a \<Longrightarrow> edge h a b \<Longrightarrow> ref_reach h b"

inductive_cases ref_reachE: "ref_reach h a"

lemma world_okD:
  assumes "world_ok h"
  shows "heap_inv h" "heap_ok h" "scope_ok h" "scopes_own h" "part_closed h" "all_ready h"
  using assms by (simp_all add: world_ok_def heap_inv_def)

lemma in_par_dom: "in_par h i a \<Longrightarrow> a \<in> dom (heads h)"
  by (auto simp: in_par_def)

lemma dom_in_par: "a \<in> dom (heads h) \<Longrightarrow> \<exists>i. in_par h i a"
  by (auto simp: in_par_def)

lemma part_closed_refs: "part_closed h \<Longrightarrow> refs_closed h"
  unfolding part_closed_def refs_closed_def using in_par_dom by blast

lemma part_closed_edge: "part_closed h \<Longrightarrow> edge h a b \<Longrightarrow> in_par h i a \<Longrightarrow> in_par h i b"
  unfolding part_closed_def using in_par_unique by blast

lemma ref_reach_live: "part_closed h \<Longrightarrow> ref_reach h a \<Longrightarrow> a \<in> dom (heads h)"
  by (erule ref_reachE) (auto simp: hroot_def dest: part_closed_refs [unfolded refs_closed_def, rule_format])

text \<open>Reachability stays inside the partition.\<close>

lemma ref_reach_in:
  assumes pc: "part_closed h" and "ref_reach h a" "in_par h i a"
  shows "reach_in {i} h a"
  using assms(2,3)
proof induction
  case (root a)
  then show ?case by (intro reach_in.root) (simp_all add: zone_def)
next
  case (step a b)
  from ref_reach_live [OF pc step(1)] obtain j where j: "in_par h j a" using dom_in_par by blast
  from part_closed_edge [OF pc step(2) this] step.prems have "j = i" by (rule in_par_unique)
  with step.IH j have "reach_in {i} h a" by simp
  then show ?case by (rule reach_in.step) (use step in \<open>simp_all add: zone_def\<close>)
qed

subsection \<open>What a client sees of a node\<close>

text \<open>\<open>grows\<close>: no node goes away, moves to another partition or changes its type.\<close>

definition kind :: "'p gc_heap \<Rightarrow> addr \<Rightarrow> (u8 \<times> u16) option" where
  "kind h a = map_option (\<lambda>g. (dtype g, partition_id g)) (heads h a)"

definition grows :: "'p gc_heap \<Rightarrow> 'p gc_heap \<Rightarrow> bool" where
  "grows h t \<longleftrightarrow> node_dtypes t = node_dtypes h \<and> (\<forall>a\<in>dom (heads h). kind t a = kind h a)"

lemma kind_dom: "kind h a \<noteq> None \<longleftrightarrow> a \<in> dom (heads h)"
  by (auto simp: kind_def)

lemma in_par_kind: "in_par h i a \<longleftrightarrow> (\<exists>ty p. kind h a = Some (ty, p) \<and> unat p = i)"
  by (auto simp: in_par_def kind_def)

lemma grows_in_par: "grows h t \<Longrightarrow> in_par h i a \<Longrightarrow> in_par t i a"
  using in_par_dom unfolding grows_def in_par_kind by (metis kind_dom option.distinct(1))

lemma stays_kind: "stays h t \<Longrightarrow> kind t a = kind h a"
proof -
  assume s: "stays h t"
  then have "a \<in> dom (heads t) \<longleftrightarrow> a \<in> dom (heads h)" by (simp add: stays_def)
  with s show ?thesis by (cases "heads h a"; cases "heads t a") (auto simp: stays_def kind_def)
qed

lemma stays_grows: "stays h t \<Longrightarrow> grows h t"
  by (simp add: grows_def stays_kind) (simp add: stays_def)

lemma mark_frame_grows: "mark_frame h t \<Longrightarrow> grows h t"
  by (rule stays_grows [OF stays_mark_frame])

lemma stays_part_closed: "stays h t \<Longrightarrow> part_closed h \<Longrightarrow> part_closed t"
  by (simp add: part_closed_def stays_edge stays_in_par)

lemma scopes_own_grows:
  assumes own: "scopes_own h" and g: "grows h t" and held: "held t \<subseteq> insert (p, a) (held h)"
    and a: "in_par t (unat p) a"
  shows "scopes_own t"
  unfolding scopes_own_def
proof (rule ballI, clarify)
  fix q b assume "(q, b) \<in> held t"
  with held consider "(q, b) = (p, a)" | "(q, b) \<in> held h" by blast
  then show "in_par t (unat q) b"
  proof cases
    case 2
    with own have "in_par h (unat q) b" unfolding scopes_own_def by blast
    with g show ?thesis by (rule grows_in_par)
  qed (use a in simp)
qed

lemma scopes_own_sub:
  assumes own: "scopes_own h" and g: "grows h t" and held: "held t \<subseteq> held h"
  shows "scopes_own t"
  unfolding scopes_own_def
proof (rule ballI, clarify)
  fix q b assume "(q, b) \<in> held t"
  with held own have "in_par h (unat q) b" unfolding scopes_own_def by blast
  with g show "in_par t (unat q) b" by (rule grows_in_par)
qed

subsection \<open>Contracts\<close>

text \<open>
  What every operation of the library promises: it does not fault, keeps the invariant, and a
  node the client reaches keeps its memory, its type and its partition, unless the operation
  says that it takes it away.
\<close>

locale heap_op =
  fixes op :: "'p gc_heap \<Rightarrow> 'p gc_heap option"
    and pre :: "'p gc_heap \<Rightarrow> bool"
    and gone :: "'p gc_heap \<Rightarrow> addr set"
  assumes op_safe: "world_ok h \<Longrightarrow> pre h \<Longrightarrow>
      \<exists>t. op h = Some t \<and> world_ok t \<and> node_dtypes t = node_dtypes h \<and>
        (\<forall>a. ref_reach h a \<longrightarrow> a \<notin> gone h \<longrightarrow> kind t a = kind h a)"
begin

lemma op_result:
  assumes "world_ok h" "pre h" "op h = Some t"
  shows "world_ok t" "node_dtypes t = node_dtypes h" "ref_reach h a \<Longrightarrow> a \<notin> gone h \<Longrightarrow> kind t a = kind h a"
  using op_safe [OF assms(1,2)] assms(3) by auto

lemma op_returns:
  assumes "world_ok h" "pre h"
  shows "\<exists>t. op h = Some t"
  using op_safe [OF assms] by blast

end

text \<open>An operation that frees nothing and respects marking.\<close>

definition mutated :: "'p gc_heap \<Rightarrow> 'p gc_heap \<Rightarrow> bool" where
  "mutated h t \<longleftrightarrow> keeps h t \<and> grows h t \<and> scope_ok t \<and> scopes_own t \<and> part_closed t"

lemma mutated_world:
  assumes w: "world_ok h" and m: "mutated h t"
  shows "world_ok t" "node_dtypes t = node_dtypes h" "ref_reach h a \<Longrightarrow> kind t a = kind h a"
proof -
  show "world_ok t"
    using m keeps_inv keeps_ready world_okD(6) [OF w] by (auto simp: world_ok_def mutated_def)
  show "node_dtypes t = node_dtypes h" using m by (simp add: mutated_def grows_def)
  show "kind t a = kind h a" if "ref_reach h a"
    using m ref_reach_live [OF world_okD(5) [OF w] that] by (simp add: mutated_def grows_def)
qed

locale mutator =
  fixes op :: "'p gc_heap \<Rightarrow> 'p gc_heap option"
    and pre :: "'p gc_heap \<Rightarrow> bool"
  assumes op_mutates: "world_ok h \<Longrightarrow> pre h \<Longrightarrow> \<exists>t. op h = Some t \<and> mutated h t"

sublocale mutator \<subseteq> heap_op op pre "\<lambda>_. {}"
proof
  fix h assume w: "world_ok h" and p: "pre h"
  from op_mutates [OF w p] obtain t where t: "op h = Some t" "mutated h t" by blast
  note mutated_world [OF w t(2)]
  then have "world_ok t \<and> node_dtypes t = node_dtypes h \<and> (\<forall>a. ref_reach h a \<longrightarrow> a \<notin> {} \<longrightarrow> kind t a = kind h a)"
    by simp
  with t(1) show "\<exists>t. op h = Some t \<and> world_ok t \<and> node_dtypes t = node_dtypes h \<and>
      (\<forall>a. ref_reach h a \<longrightarrow> a \<notin> {} \<longrightarrow> kind t a = kind h a)" by (rule exI [of _ t, OF conjI])
qed

text \<open>An operation of the marking phase: only colours, gray flags and gray lists change.\<close>

definition remarked :: "'p gc_heap \<Rightarrow> 'p gc_heap \<Rightarrow> bool" where
  "remarked h t \<longleftrightarrow> mark_frame h t \<and> heap_ok t \<and> all_ready t"

lemma remarked_world:
  assumes w: "world_ok h" and m: "remarked h t"
  shows "world_ok t" "node_dtypes t = node_dtypes h" "kind t a = kind h a"
proof -
  have fr: "mark_frame h t" and ok: "heap_ok t" "all_ready t" using m by (simp_all add: remarked_def)
  have ss: "scope_stacks t = scope_stacks h" using mark_frame_fields(4) [OF fr] .
  have hl: "hlocal t = hlocal h" using hlocal_mark_frame [OF fr] by blast
  have "scope_ok t" using world_okD(3) [OF w] scope_ok_cong [OF ss hl] by simp
  moreover have "scopes_own t"
    by (rule scopes_own_sub [OF world_okD(4) [OF w] mark_frame_grows [OF fr]]) (simp add: held_cong [OF ss])
  ultimately show "world_ok t"
    using heap_inv_mark_frame [OF world_okD(1) [OF w] fr ok(1)] ok(2)
      stays_part_closed [OF stays_mark_frame [OF fr] world_okD(5) [OF w]] by (simp add: world_ok_def)
  show "node_dtypes t = node_dtypes h" by (rule mark_frame_fields(2) [OF fr])
  show "kind t a = kind h a" by (rule stays_kind [OF stays_mark_frame [OF fr]])
qed

locale marker =
  fixes op :: "'p gc_heap \<Rightarrow> 'p gc_heap option"
    and pre :: "'p gc_heap \<Rightarrow> bool"
  assumes op_marks: "world_ok h \<Longrightarrow> pre h \<Longrightarrow> \<exists>t. op h = Some t \<and> remarked h t"

sublocale marker \<subseteq> heap_op op pre "\<lambda>_. {}"
proof
  fix h assume w: "world_ok h" and p: "pre h"
  from op_marks [OF w p] obtain t where t: "op h = Some t" "remarked h t" by blast
  note remarked_world [OF w t(2)]
  then have "world_ok t \<and> node_dtypes t = node_dtypes h \<and> (\<forall>a. ref_reach h a \<longrightarrow> a \<notin> {} \<longrightarrow> kind t a = kind h a)"
    by simp
  with t(1) show "\<exists>t. op h = Some t \<and> world_ok t \<and> node_dtypes t = node_dtypes h \<and>
      (\<forall>a. ref_reach h a \<longrightarrow> a \<notin> {} \<longrightarrow> kind t a = kind h a)" by (rule exI [of _ t, OF conjI])
qed

end
