(* ===== verification/Gc_Mutators.thy ===== *)
theory Gc_Mutators
  imports Gc_World
begin

text \<open>
  Every operation of a client that frees nothing keeps the invariant of a running program: the
  contract \<open>mutator\<close> is interpreted on the write barrier, \<open>bind\<close>, the root and scope operations,
  the weak references and the limits.
\<close>

section \<open>Criteria\<close>

lemma edge_kind:
  "edge h a b \<longleftrightarrow> (\<exists>ty p info v. kind h a = Some (ty, p) \<and> type_info h ty = Some info \<and> payloads h a = Some v \<and>
     b \<in> set (ti_trace_fn info v))"
  by (auto simp: edge_def refs_of_def kind_def split: Option.bind_splits)

lemma type_info_cong: "node_dtypes t = node_dtypes h \<Longrightarrow> type_info t = type_info h"
  by (simp add: type_info_def fun_eq_iff)

lemma part_closed_store:
  assumes pc: "part_closed h" and k: "\<And>x. kind t x = kind h x" and nd: "node_dtypes t = node_dtypes h"
    and p: "\<And>x. x \<noteq> a \<Longrightarrow> payloads t x = payloads h x"
    and w: "\<And>b. edge t a b \<Longrightarrow> \<exists>i. in_par h i a \<and> in_par h i b"
  shows "part_closed t"
  unfolding part_closed_def
proof (intro allI impI)
  fix x b assume e: "edge t x b"
  have ip: "in_par t = in_par h" by (simp add: fun_eq_iff in_par_kind k)
  show "\<exists>i. in_par t i x \<and> in_par t i b"
  proof (cases "x = a")
    case True
    with w e show ?thesis by (simp add: ip)
  next
    case False
    with e have "edge h x b" by (simp add: edge_kind k p type_info_cong [OF nd])
    with pc show ?thesis by (simp add: part_closed_def ip)
  qed
qed

lemma mutated_frame:
  assumes w: "world_ok h" and t: "keeps h t" "\<And>x. kind t x = kind h x" "node_dtypes t = node_dtypes h"
    "scope_stacks t = scope_stacks h" "\<And>x. hlocal t x = hlocal h x" "part_closed t"
  shows "mutated h t"
proof -
  have g: "grows h t" using t(2,3) by (simp add: grows_def)
  have "hlocal t = hlocal h" using t(5) by blast
  with world_okD(3) [OF w] scope_ok_cong [OF t(4)] have "scope_ok t" by simp
  moreover have "scopes_own t"
    by (rule scopes_own_sub [OF world_okD(4) [OF w] g]) (simp add: held_cong [OF t(4)])
  ultimately show ?thesis using t(1,6) g by (simp add: mutated_def)
qed

lemma mutated_stays:
  assumes w: "world_ok h" and t: "keeps h t" "stays h t" "scope_ok t" "held t \<subseteq> held h"
  shows "mutated h t"
proof -
  have g: "grows h t" by (rule stays_grows [OF t(2)])
  from scopes_own_sub [OF world_okD(4) [OF w] g t(4)] g t(1,3) stays_part_closed [OF t(2) world_okD(5) [OF w]]
  show ?thesis by (simp add: mutated_def)
qed

lemma mutated_holds:
  assumes w: "world_ok h" and t: "keeps h t" "stays h t" "scope_ok t" "held t \<subseteq> insert (p, a) (held h)"
    and a: "in_par h (unat p) a"
  shows "mutated h t"
proof -
  have g: "grows h t" by (rule stays_grows [OF t(2)])
  have "in_par t (unat p) a" using a by (simp add: stays_in_par [OF t(2)])
  from scopes_own_grows [OF world_okD(4) [OF w] g t(4) this] g t(1,3)
    stays_part_closed [OF t(2) world_okD(5) [OF w]]
  show ?thesis by (simp add: mutated_def)
qed

lemma mutated_refl:
  assumes "world_ok h"
  shows "mutated h h"
  by (rule mutated_stays [OF assms keeps_refl])
    (use world_okD [OF assms] in \<open>simp_all add: stays_mark_frame\<close>)

lemma mark_frame_kind: "mark_frame h t \<Longrightarrow> kind t a = kind h a"
  by (rule stays_kind [OF stays_mark_frame])

section \<open>The write barrier, bind and roots\<close>

text \<open>References a client stores lead to live nodes of the partition of the node.\<close>

definition refs_inside :: "'p gc_heap \<Rightarrow> u8 \<Rightarrow> u16 \<Rightarrow> 'p \<Rightarrow> bool" where
  "refs_inside h ty p v \<longleftrightarrow>
     (\<forall>info. type_info h ty = Some info \<longrightarrow> (\<forall>b\<in>set (ti_trace_fn info v). in_par h (unat p) b))"

definition may_store :: "'p gc_heap \<Rightarrow> addr \<Rightarrow> 'p \<Rightarrow> bool" where
  "may_store h a v \<longleftrightarrow> (\<exists>ty p. kind h a = Some (ty, p) \<and> refs_inside h ty p v)"

lemma stored_closed:
  assumes w: "world_ok h" and t: "mark_frame (h\<lparr>payloads := (payloads h)(a \<mapsto> v)\<rparr>) t" and v: "may_store h a v"
  shows "part_closed t" "kind t x = kind h x" "hlocal t x = hlocal h x" "scope_stacks t = scope_stacks h"
    "node_dtypes t = node_dtypes h"
proof -
  note ff = mark_frame_fields [OF t, simplified]
  have k: "kind t x = kind h x" for x using mark_frame_kind [OF t, of x] by (simp add: kind_def)
  then show "kind t x = kind h x" .
  show "hlocal t x = hlocal h x" using hlocal_mark_frame [OF t, of x] by (simp add: hlocal_def)
  show "scope_stacks t = scope_stacks h" and nd: "node_dtypes t = node_dtypes h" by (simp_all only: ff)
  show "part_closed t"
  proof (rule part_closed_store [OF world_okD(5) [OF w] k nd])
    show "payloads t x = payloads h x" if "x \<noteq> a" for x using that by (simp add: ff)
    fix b assume "edge t a b"
    then obtain ty p info where e: "kind h a = Some (ty, p)" "type_info h ty = Some info" "b \<in> set (ti_trace_fn info v)"
      by (auto simp: edge_kind k type_info_cong [OF nd] ff)
    with v have "in_par h (unat p) b" by (auto simp: may_store_def refs_inside_def)
    with e(1) show "\<exists>i. in_par h i a \<and> in_par h i b" by (auto simp: in_par_kind)
  qed
qed

lemma kind_payload:
  assumes "heap_ok h" "kind h a = Some (ty, p)"
  shows "\<exists>g v info. heads h a = Some g \<and> dtype g = ty \<and> partition_id g = p \<and> payloads h a = Some v \<and>
    type_info h ty = Some info"
proof -
  from assms(2) obtain g where g: "heads h a = Some g" "dtype g = ty" "partition_id g = p" by (auto simp: kind_def)
  with heap_ok_live [OF assms(1) g(1)] show ?thesis by metis
qed

interpretation write_op: mutator "\<lambda>h. map_option snd (with_write_barrier a (\<lambda>v. ((), f v)) h)"
  "\<lambda>h. \<exists>v. payloads h a = Some v \<and> may_store h a (f v)" for a and f :: "'p \<Rightarrow> 'p"
proof
  fix h :: "'p gc_heap"
  assume w: "world_ok h" and "\<exists>v. payloads h a = Some v \<and> may_store h a (f v)"
  then obtain v where v: "payloads h a = Some v" "may_store h a (f v)" by blast
  then have "a \<in> dom (heads h)" by (auto simp: may_store_def kind_def)
  from write_barrier_keeps [OF world_okD(1) [OF w] v(1) this, of "\<lambda>v. ((), f v)"] obtain t where
    t: "with_write_barrier a (\<lambda>v. ((), f v)) h = Some ((), t)" "keeps h t"
      "mark_frame (h\<lparr>payloads := (payloads h)(a \<mapsto> f v)\<rparr>) t" by auto
  note s = stored_closed [OF w t(3) v(2)]
  have "mutated h t" by (rule mutated_frame [OF w t(2) s(2,5,4,3,1)])
  with t(1) show "\<exists>t. map_option snd (with_write_barrier a (\<lambda>v. ((), f v)) h) = Some t \<and> mutated h t" by simp
qed

text \<open>\<open>bind\<close> after a store that adds at most the reference to the slave.\<close>

definition may_bind :: "addr \<Rightarrow> addr \<Rightarrow> 'p \<Rightarrow> 'p gc_heap \<Rightarrow> bool" where
  "may_bind m s w h \<longleftrightarrow>
     (\<exists>ty p. kind h m = Some (ty, p) \<and> in_par h (unat p) s \<and>
        (\<forall>v info. payloads h m = Some v \<longrightarrow> type_info h ty = Some info \<longrightarrow>
           set (ti_trace_fn info w) \<subseteq> set (ti_trace_fn info v) \<union> {s}))"

interpretation bind_op: mutator "\<lambda>h. bind m s (h\<lparr>payloads := (payloads h)(m \<mapsto> w)\<rparr>)" "may_bind m s w"
  for m s and w :: 'p
proof
  fix h :: "'p gc_heap"
  assume wd: "world_ok h" and mb: "may_bind m s w h"
  from mb obtain ty p where k: "kind h m = Some (ty, p)" and s: "in_par h (unat p) s"
    and sub: "\<forall>v info. payloads h m = Some v \<longrightarrow> type_info h ty = Some info \<longrightarrow>
      set (ti_trace_fn info w) \<subseteq> set (ti_trace_fn info v) \<union> {s}" unfolding may_bind_def by blast
  from kind_payload [OF world_okD(2) [OF wd] k] obtain g v info where
    g: "heads h m = Some g" "dtype g = ty" "partition_id g = p" "payloads h m = Some v" "type_info h ty = Some info" by blast
  obtain sg where sg: "heads h s = Some sg" using s by (auto simp: in_par_def)
  have rs: "set (ti_trace_fn info w) \<subseteq> set (ti_trace_fn info v) \<union> {s}" using sub g(4,5) by blast
  have "in_par h (unat p) b" if "b \<in> set (ti_trace_fn info w)" for b
  proof (cases "b = s")
    case False
    with that rs have "edge h m b" using k g(4,5) by (auto simp: edge_kind)
    moreover have "in_par h (unat p) m" using k by (simp add: in_par_kind)
    ultimately show ?thesis by (rule part_closed_edge [OF world_okD(5) [OF wd]])
  qed (use s in simp)
  then have ms: "may_store h m w" using k g(5) by (simp add: may_store_def refs_inside_def)
  have gi: "type_info h (dtype g) = Some info" using g(2,5) by simp
  from bind_store_keeps [OF world_okD(1) [OF wd] g(4,1) sg gi rs] obtain t where
    t: "bind m s (h\<lparr>payloads := (payloads h)(m \<mapsto> w)\<rparr>) = Some t" "keeps h t"
      "mark_frame (h\<lparr>payloads := (payloads h)(m \<mapsto> w)\<rparr>) t" by blast
  note st = stored_closed [OF wd t(3) ms]
  have "mutated h t" by (rule mutated_frame [OF wd t(2) st(2,5,4,3,1)])
  with t(1) show "\<exists>t. bind m s (h\<lparr>payloads := (payloads h)(m \<mapsto> w)\<rparr>) = Some t \<and> mutated h t" by blast
qed

lemma part_closed_same:
  assumes "part_closed h" "\<And>x. kind t x = kind h x" "payloads t = payloads h" "node_dtypes t = node_dtypes h"
  shows "part_closed t"
  using assms(1) unfolding part_closed_def edge_kind in_par_kind
  by (simp only: assms(2,3) type_info_cong [OF assms(4)])

interpretation set_root_op: mutator "set_root_node a" "\<lambda>h. a \<in> dom (heads h)" for a
proof
  fix h :: "'p gc_heap" assume w: "world_ok h" and "a \<in> dom (heads h)"
  then obtain g where g: "heads h a = Some g" by blast
  from set_root_keeps [OF world_okD(1) [OF w] g] obtain t where
    t: "set_root_node a h = Some t" "keeps h t" "mark_frame (put_head a (insert_flag ROOT g) h) t" by blast
  note ff = mark_frame_fields [OF t(3), simplified]
  have k: "kind t x = kind h x" for x
    using mark_frame_kind [OF t(3), of x] g hview_flags(1) [of g] by (auto simp: kind_def hview_def split: if_splits)
  have l: "hlocal t x = hlocal h x" for x
    using hlocal_mark_frame [OF t(3), of x] g
    by (auto simp: hlocal_def insert_root_view split: if_splits)
  have "mutated h t"
    by (rule mutated_frame [OF w t(2) k ff(2,4) l part_closed_same [OF world_okD(5) [OF w] k ff(1,2)]])
  with t(1) show "\<exists>t. set_root_node a h = Some t \<and> mutated h t" by blast
qed

section \<open>Scopes\<close>

lemma world_inv: "world_ok h \<Longrightarrow> heap_inv h" "world_ok h \<Longrightarrow> scope_ok h"
  by (simp_all add: world_ok_def)

interpretation new_scope_op: mutator "\<lambda>h. map_option snd (new_scope sid h)"
  "\<lambda>h. \<exists>st. get_stack h sid = Some st \<and> ss_partition st \<noteq> None \<and> length (ss_list st) < 2 ^ 32 - 1" for sid
proof
  fix h :: "'p gc_heap"
  assume w: "world_ok h"
    and "\<exists>st. get_stack h sid = Some st \<and> ss_partition st \<noteq> None \<and> length (ss_list st) < 2 ^ 32 - 1"
  then obtain st p where st: "get_stack h sid = Some st" "ss_partition st = Some p" "length (ss_list st) < 2 ^ 32 - 1" by blast
  from new_scope_correct [OF world_inv [OF w] st] obtain t where
    t: "new_scope sid h = Some (of_nat (length (ss_list st)), t)" "keeps h t" "scope_ok t" "stays h t" "held t \<subseteq> held h"
    by blast
  have "mutated h t" by (rule mutated_stays [OF w t(2,4,3,5)])
  with t(1) show "\<exists>t. map_option snd (new_scope sid h) = Some t \<and> mutated h t" by simp
qed

interpretation drop_scope_op: mutator "scope_drop sid index" "\<lambda>h. get_stack h sid \<noteq> None" for sid index
proof
  fix h :: "'p gc_heap" assume w: "world_ok h" and "get_stack h sid \<noteq> None"
  then obtain st where st: "get_stack h sid = Some st" by blast
  show "\<exists>t. scope_drop sid index h = Some t \<and> mutated h t"
  proof (cases "ss_list st" rule: rev_cases)
    case Nil
    with st have "scope_drop sid index h = Some h" by (simp add: scope_drop_def pop_scope_def vec_pop_def)
    with mutated_refl [OF w] show ?thesis by blast
  next
    case (snoc ss s)
    from scope_drop_correct [OF world_inv [OF w] st snoc] obtain t where
      t: "scope_drop sid index h = Some t" "keeps h t" "stays h t" "scope_ok t" "held t \<subseteq> held h" by blast
    have "mutated h t" by (rule mutated_stays [OF w t(2-5)])
    with t(1) show ?thesis by blast
  qed
qed

interpretation clear_scope_op: mutator "scope_clear sid k" "\<lambda>h. get_scope h sid k \<noteq> None" for sid k
proof
  fix h :: "'p gc_heap" assume w: "world_ok h" and "get_scope h sid k \<noteq> None"
  then obtain s where s: "get_scope h sid k = Some s" by blast
  from scope_clear_correct [OF world_inv [OF w] s] obtain t where
    t: "scope_clear sid k h = Some t" "keeps h t" "stays h t" "scope_ok t" "held t \<subseteq> held h" by blast
  have "mutated h t" by (rule mutated_stays [OF w t(2-5)])
  with t(1) show "\<exists>t. scope_clear sid k h = Some t \<and> mutated h t" by blast
qed

text \<open>A scope protects nodes of its own partition.\<close>

definition may_hold :: "'p gc_heap \<Rightarrow> gc_scope_state \<Rightarrow> addr \<Rightarrow> bool" where
  "may_hold h s a \<longleftrightarrow> (\<exists>ty. kind h a = Some (ty, sc_partition_id s))"

lemma may_holdD:
  assumes "may_hold h s a"
  obtains g where "heads h a = Some g" "sc_partition_id s = partition_id g" "in_par h (unat (sc_partition_id s)) a"
  using assms by (auto simp: may_hold_def kind_def in_par_def)

interpretation protect_op: mutator "\<lambda>h. map_option snd (protect_node sid a h)"
  "\<lambda>h. \<exists>st. get_stack h sid = Some st \<and> (ss_list st \<noteq> [] \<longrightarrow> may_hold h (last (ss_list st)) a)" for sid a
proof
  fix h :: "'p gc_heap"
  assume w: "world_ok h"
    and "\<exists>st. get_stack h sid = Some st \<and> (ss_list st \<noteq> [] \<longrightarrow> may_hold h (last (ss_list st)) a)"
  then obtain st where st: "get_stack h sid = Some st" "ss_list st \<noteq> [] \<longrightarrow> may_hold h (last (ss_list st)) a" by blast
  show "\<exists>t. map_option snd (protect_node sid a h) = Some t \<and> mutated h t"
  proof (cases "ss_list st" rule: rev_cases)
    case Nil
    with st have "protect_node sid a h = Some (False, h)" by (simp add: protect_node_def current_index_def)
    with mutated_refl [OF w] show ?thesis by simp
  next
    case (snoc ss s)
    with st(2) have "may_hold h s a" by simp
    then obtain g where g: "heads h a = Some g" "sc_partition_id s = partition_id g"
      "in_par h (unat (sc_partition_id s)) a" by (rule may_holdD)
    from protect_node_correct [OF world_inv [OF w] st(1) snoc g(1,2)] obtain t where
      t: "protect_node sid a h = Some (\<not> hroot h a, t)" "keeps h t" "stays h t" "scope_ok t"
        "held t \<subseteq> insert (sc_partition_id s, a) (held h)" by blast
    have "mutated h t" by (rule mutated_holds [OF w t(2-5) g(3)])
    with t(1) show ?thesis by simp
  qed
qed

interpretation remove_node_op: mutator "\<lambda>h. map_option snd (remove_node sid k a h)" "\<lambda>h. get_scope h sid k \<noteq> None"
  for sid k a
proof
  fix h :: "'p gc_heap" assume w: "world_ok h" and "get_scope h sid k \<noteq> None"
  then obtain s where s: "get_scope h sid k = Some s" by blast
  show "\<exists>t. map_option snd (remove_node sid k a h) = Some t \<and> mutated h t"
  proof (cases "a \<in> set (cache_list s)")
    case False
    with remove_node_missing(1) [OF s] mutated_refl [OF w] show ?thesis by simp
  next
    case True
    from remove_node_correct [OF world_inv [OF w] s True] obtain t where
      t: "remove_node sid k a h = Some (True, t)" "keeps h t" "stays h t" "scope_ok t" "held t \<subseteq> held h" by blast
    have "mutated h t" by (rule mutated_stays [OF w t(2-5)])
    with t(1) show ?thesis by simp
  qed
qed

interpretation promote_op: mutator "\<lambda>h. map_option snd (promote_node_to sid k a tsid tk h)"
  "\<lambda>h. \<exists>s tgt. get_scope h sid k = Some s \<and> get_scope h tsid tk = Some tgt \<and> (tsid, tk) \<noteq> (sid, k) \<and>
     sc_partition_id tgt = sc_partition_id s" for sid k a tsid tk
proof
  fix h :: "'p gc_heap"
  assume w: "world_ok h" and "\<exists>s tgt. get_scope h sid k = Some s \<and> get_scope h tsid tk = Some tgt \<and>
    (tsid, tk) \<noteq> (sid, k) \<and> sc_partition_id tgt = sc_partition_id s"
  then obtain s tgt where s: "get_scope h sid k = Some s" and tg: "get_scope h tsid tk = Some tgt" "(tsid, tk) \<noteq> (sid, k)"
    and p: "sc_partition_id tgt = sc_partition_id s" by blast
  show "\<exists>t. map_option snd (promote_node_to sid k a tsid tk h) = Some t \<and> mutated h t"
  proof (cases "a \<in> set (cache_list s)")
    case False
    with remove_node_missing(2) [OF s] mutated_refl [OF w] show ?thesis by simp
  next
    case True
    from promote_correct [OF world_inv [OF w] s True tg] obtain t where
      t: "promote_node_to sid k a tsid tk h = Some (True, t)" "keeps h t" "stays h t" "scope_ok t"
        "held t \<subseteq> insert (sc_partition_id tgt, a) (held h)" by blast
    have a: "in_par h (unat (sc_partition_id tgt)) a" using scopes_ownD [OF world_okD(4) [OF w] s True] p by simp
    have "mutated h t" by (rule mutated_holds [OF w t(2-5) a])
    with t(1) show ?thesis by simp
  qed
qed

interpretation acquire_op: mutator "\<lambda>h. map_option snd (acquire_scope_stack p h)"
  "\<lambda>h. length (scope_stacks h) < 2 ^ 16 \<or> (\<exists>st\<in>set (scope_stacks h). ss_partition st = None)" for p
proof
  fix h :: "'p gc_heap"
  assume w: "world_ok h" and r: "length (scope_stacks h) < 2 ^ 16 \<or> (\<exists>st\<in>set (scope_stacks h). ss_partition st = None)"
  from acquire_correct [OF world_inv [OF w] r, of p] obtain sid t where
    t: "acquire_scope_stack p h = Some (sid, t)" "keeps h t" "stays h t" "scope_ok t" "held t \<subseteq> held h" by blast
  have "mutated h t" by (rule mutated_stays [OF w t(2-5)])
  with t(1) show "\<exists>t. map_option snd (acquire_scope_stack p h) = Some t \<and> mutated h t" by simp
qed

text \<open>A stack goes back to the pool when its last scope has been dropped.\<close>

interpretation release_op: mutator "release_scope_stack sid"
  "\<lambda>h. \<exists>st. get_stack h sid = Some st \<and> ss_list st = []" for sid
proof
  fix h :: "'p gc_heap" assume w: "world_ok h" and "\<exists>st. get_stack h sid = Some st \<and> ss_list st = []"
  then obtain st where st: "get_stack h sid = Some st" "ss_list st = []" by blast
  let ?st = "st\<lparr>ss_partition := None\<rparr>"
  let ?t = "put_stack sid ?st h"
  note ob = put_stack_obs [OF st(1), of ?st]
  have "stacks_ok ?t"
    using ob(2) world_okD(3) [OF w] st(2) by (simp add: scope_ok_alt stack_ok_def)
  moreover have "mset (local_nodes ?t) = mset (local_nodes h)" using ob(1) by (simp add: stack_nodes_def)
  ultimately have "scope_ok ?t"
    using world_okD(3) [OF w] ob(4) distinct_mset by (metis scope_ok_alt)
  moreover have "held ?t \<subseteq> held h" by (rule put_stack_held [OF st(1)]) simp
  ultimately have "mutated h ?t"
    using ob(5) [OF world_okD(1) [OF w]] ob(6) by (intro mutated_stays [OF w])
  with st(1) show "\<exists>t. release_scope_stack sid h = Some t \<and> mutated h t" by (simp add: release_scope_stack_def)
qed

section \<open>Limits\<close>

lemma mutated_fields:
  assumes w: "world_ok h"
    and f: "heads t = heads h" "payloads t = payloads h" "partitions t = partitions h" "node_dtypes t = node_dtypes h"
      "weak_slots t = weak_slots h" "scope_stacks t = scope_stacks h"
  shows "mutated h t"
proof (rule mutated_frame [OF w])
  note ob = obs_heads [OF f(1)]
  show k: "kind t x = kind h x" for x by (simp add: kind_def f)
  have e: "edge t = edge h" by (simp add: fun_eq_iff edge_kind k f type_info_cong [OF f(4)])
  have sv: "same_view h t" by (simp add: same_view_def f)
  have "heap_inv t"
    by (rule heap_inv_same_view [OF world_okD(1) [OF w] sv]) (use heap_ok_hcolor_dom [OF world_okD(2) [OF w]] ob in simp)
  then show "keeps h t" by (simp add: keeps_def f tri_inv_def tri_inv_upto_def zone_def ob e)
  show "hlocal t x = hlocal h x" for x by (simp add: hlocal_def f)
  show "part_closed t" using world_okD(5) [OF w] by (simp add: part_closed_def e ob)
qed (simp_all add: f)

lemma mutated_limits:
  assumes w: "world_ok h" and t: "t = h\<lparr>memory_limit := l, gc_threshold := g\<rparr>"
  shows "mutated h t"
  by (rule mutated_fields [OF w]) (simp_all add: t)

interpretation set_opaque_op: mutator "\<lambda>h. Some (set_opaque p h)" "\<lambda>_. True" for p
proof
  fix h :: "'p gc_heap" assume w: "world_ok h"
  have "mutated h (set_opaque p h)" by (rule mutated_fields [OF w]) (simp_all add: set_opaque_def)
  then show "\<exists>t. Some (set_opaque p h) = Some t \<and> mutated h t" by blast
qed

interpretation memory_limit_op: mutator "\<lambda>h. Some (snd (set_memory_limit l h))" "\<lambda>_. True" for l
proof
  fix h :: "'p gc_heap" assume w: "world_ok h"
  have "snd (set_memory_limit l h) = h\<lparr>memory_limit := memory_limit (snd (set_memory_limit l h)),
      gc_threshold := gc_threshold (snd (set_memory_limit l h))\<rparr>"
    by (simp add: set_memory_limit_def Let_def)
  from mutated_limits [OF w this]
  show "\<exists>t. Some (snd (set_memory_limit l h)) = Some t \<and> mutated h t" by blast
qed

interpretation gc_threshold_op: mutator "\<lambda>h. Some (snd (set_gc_threshold l h))" "\<lambda>_. True" for l
proof
  fix h :: "'p gc_heap" assume w: "world_ok h"
  have "snd (set_gc_threshold l h) = h\<lparr>memory_limit := memory_limit (snd (set_gc_threshold l h)),
      gc_threshold := gc_threshold (snd (set_gc_threshold l h))\<rparr>"
    by (simp add: set_gc_threshold_def Let_def)
  from mutated_limits [OF w this]
  show "\<exists>t. Some (snd (set_gc_threshold l h)) = Some t \<and> mutated h t" by blast
qed

section \<open>Weak references\<close>

lemma slot_change_keeps:
  assumes inv: "heap_inv h" and g: "heads h a = Some g"
    and t: "t = put_head a (g\<lparr>weak_id := w\<rparr>) (h\<lparr>weak_slots := ws\<rparr>)" and wk: "weak_ok t"
  shows "keeps h t"
proof -
  let ?g = "g\<lparr>weak_id := w\<rparr>"
  have gv: "color ?g = color g" "dtype ?g = dtype g" "partition_id ?g = partition_id g" "next_ptr ?g = next_ptr g"
    "is_gray_listed ?g = is_gray_listed g" "is_root_or_local ?g = is_root_or_local g" "contains_flag ?g ARENA_ALLOC = contains_flag g ARENA_ALLOC"
    by (simp_all add: color_def dtype_def partition_id_def is_gray_listed_def is_root_or_local_def flags_def contains_flag_def)
  have f: "partitions t = partitions h" "payloads t = payloads h" "node_dtypes t = node_dtypes h" "heads t = (heads h)(a \<mapsto> ?g)"
    by (simp_all add: t)
  have ti: "type_info t = type_info h" by (rule type_info_cong [OF f(3)])
  have ob: "hcolor t = hcolor h" "hroot t = hroot h" "hlisted t = hlisted h" "in_par t = in_par h" "in_arena t = in_arena h"
    using g gv by (auto simp: fun_eq_iff hcolor_def hroot_def hlisted_def in_par_def in_arena_def f)
  have k: "kind t x = kind h x" for x using g gv by (simp add: kind_def f)
  have e: "edge t = edge h" by (simp add: fun_eq_iff edge_kind k f ti)
  have ch: "chain (heads t) p xs = chain (heads h) p xs" for p xs
    by (rule chain_cong) (use g gv in \<open>simp add: f\<close>)
  have ok: "heap_ok h" "disp_ok h" "passes_ok h" "arena_nodes_ok h" using inv by (simp_all add: heap_inv_def)
  have pl: "par_list t j = par_list h j" if "j < length (partitions h)" for j
    by (rule par_list_chain) (simp only: ch f(1) heap_ok_chain [OF ok(1) that])
  have nk: "node_ok t j x = node_ok h j x" for j x using g gv by (auto simp: node_ok_def f ti)
  have dm: "dom (heads t) = dom (heads h)" using g by (auto simp: f)
  have gk: "gray_ok t j = gray_ok h j" for j by (simp add: gray_ok_def ob f(1))
  have "heap_ok t" using ok(1) unfolding heap_ok_def f(1) dm ch nk gk by (simp add: pl)
  moreover have "disp_ok t"
    using ok(2) wk g gv by (auto simp: disp_ok_def f ti split: if_splits)
  moreover have "pass_is t q x = pass_is h q x" for q x using g gv by (auto simp: pass_is_def f ti)
  then have "passes_ok t" using ok(3) unfolding passes_ok_def dm f(3) by simp
  moreover have "arena_present t = arena_present h" by (rule arena_present_cong) (simp add: arenas_def f)
  then have "arena_nodes_ok t" using ok(4) by (simp add: arena_nodes_ok_def ob)
  ultimately have "heap_inv t" by (simp add: heap_inv_def)
  then show ?thesis by (simp add: keeps_def f tri_inv_def tri_inv_upto_def zone_def ob e)
qed

lemma downgrade_result:
  assumes "downgrade a h = Some (w, t)" "heads h a = Some g" "weak_is_null (weak_id g)"
  shows "t = put_head a (g\<lparr>weak_id := w\<rparr>) (h\<lparr>weak_slots := weak_slots t\<rparr>)"
  using assms by (auto simp: downgrade_def Let_def split: option.splits if_splits)

interpretation downgrade_op: mutator "\<lambda>h. map_option snd (downgrade a h)"
  "\<lambda>h. a \<in> dom (heads h) \<and> length (weak_slots h) < 2 ^ 24 - 1" for a
proof
  fix h :: "'p gc_heap" assume w: "world_ok h" and "a \<in> dom (heads h) \<and> length (weak_slots h) < 2 ^ 24 - 1"
  then obtain g where g: "heads h a = Some g" and room: "length (weak_slots h) < 2 ^ 24 - 1" by blast
  show "\<exists>t. map_option snd (downgrade a h) = Some t \<and> mutated h t"
  proof (cases "weak_is_null (weak_id g)")
    case False
    with g have "downgrade a h = Some (weak_id g, h)" by (simp add: downgrade_def)
    with mutated_refl [OF w] show ?thesis by simp
  next
    case True
    have "weak_ok h" using world_okD(1) [OF w] by (simp add: heap_inv_def disp_ok_def)
    from downgrade_fresh [OF this g True room] obtain wr t where d: "downgrade a h = Some (wr, t)" "weak_ok t" by blast
    let ?ws = "weak_slots t"
    from downgrade_result [OF d(1) g True] have t: "t = put_head a (g\<lparr>weak_id := wr\<rparr>) (h\<lparr>weak_slots := ?ws\<rparr>)" .
    have f: "heads t = (heads h)(a \<mapsto> g\<lparr>weak_id := wr\<rparr>)" "payloads t = payloads h" "node_dtypes t = node_dtypes h"
      "scope_stacks t = scope_stacks h" by (subst t, simp)+
    have k: "kind t x = kind h x" for x using g by (simp add: kind_def f dtype_def partition_id_def)
    have l: "hlocal t x = hlocal h x" for x using g by (simp add: hlocal_def f is_local_def contains_flag_def flags_def)
    have "mutated h t"
      by (rule mutated_frame [OF w slot_change_keeps [OF world_okD(1) [OF w] g t d(2)] k f(3,4) l
            part_closed_same [OF world_okD(5) [OF w] k f(2,3)]])
    with d(1) show ?thesis by simp
  qed
qed

section \<open>Allocation\<close>

definition may_alloc :: "'p rust_type \<Rightarrow> u8 \<Rightarrow> u16 \<Rightarrow> 'p \<Rightarrow> addr option \<Rightarrow> 'p gc_heap \<Rightarrow> bool" where
  "may_alloc ty gt pid v sys h \<longleftrightarrow>
     type_known h ty gt \<and> refs_inside h gt pid v \<and>
     (\<forall>l. layout_from_size_align (layout_size_of ty) (layout_align_of ty) = Some l \<longrightarrow> fresh_memory pid l sys h)"

lemma born_grows:
  assumes "node_born h pid gt a v t"
  shows "grows h t"
proof -
  have "kind t x = kind h x" if "x \<in> dom (heads h)" for x
    using node_born_head [OF assms, of x] that assms by (auto simp: kind_def node_born_def)
  then show ?thesis using assms by (simp add: grows_def node_born_def)
qed

lemma born_closed:
  assumes w: "world_ok h" and b: "node_born h pid gt a v t" and r: "refs_inside h gt pid v"
  shows "part_closed t"
  unfolding part_closed_def
proof (intro allI impI)
  fix x y assume e: "edge t x y"
  note ob = node_born_obs [OF b]
  show "\<exists>i. in_par t i x \<and> in_par t i y"
  proof (cases "x = a")
    case False
    with e ob(3) have "edge h x y" by simp
    with world_okD(5) [OF w] obtain i where "in_par h i x" "in_par h i y" by (auto simp: part_closed_def)
    then show ?thesis using ob(1) by blast
  next
    case True
    from e True obtain ty p info where k: "kind t a = Some (ty, p)" "type_info t ty = Some info" by (auto simp: edge_kind)
    have "ty = gt" using k(1) node_born_head [OF b, of a] by (simp add: kind_def)
    moreover have "type_info t = type_info h" using b by (intro type_info_cong) (simp add: node_born_def)
    ultimately have i: "type_info h gt = Some info" using k(2) by simp
    from ob(4) [OF _ i] e True have "y \<in> set (ti_trace_fn info v)" by blast
    with r i have "in_par h (unat pid) y" by (auto simp: refs_inside_def)
    with True ob(1) show ?thesis by blast
  qed
qed

lemma arena_frame_mutated:
  assumes w: "world_ok h" and fr: "arena_frame h t"
  shows "mutated h t"
proof -
  note f = arena_frame_keeps [OF world_okD(1) [OF w] fr]
  have k: "kind t x = kind h x" for x by (simp add: kind_def f)
  have l: "hlocal t x = hlocal h x" for x by (simp add: hlocal_def f)
  show ?thesis
    by (rule mutated_frame [OF w f(1) k f(4,5) l part_closed_same [OF world_okD(5) [OF w] k f(3,4)]])
qed

text \<open>The three cases in which nothing is allocated because the request is rejected.\<close>

definition rejects :: "'p rust_type \<Rightarrow> u16 \<Rightarrow> 'p gc_heap \<Rightarrow> bool" where
  "rejects ty pid h \<longleftrightarrow> get_par h pid = None \<or>
     layout_from_size_align (layout_size_of ty) (layout_align_of ty) = None \<or> over_limit h (layout_size_of ty)"

lemma rejected:
  assumes "rejects ty pid h"
  shows "\<exists>e. alloc_raw ty gt pid v sys h = Some (Inl (e, v), h)"
    "\<exists>e. alloc_root_raw ty gt pid v sys h = Some (Inl (e, v), h)"
  using assms alloc_errors [of h pid ty gt v sys] unfolding rejects_def by blast+

lemma not_rejected:
  assumes "\<not> rejects ty pid h"
  obtains par l where "get_par h pid = Some par"
    "layout_from_size_align (layout_size_of ty) (layout_align_of ty) = Some l" "\<not> over_limit h (layout_size_of ty)"
  using assms by (auto simp: rejects_def)

interpretation alloc_op: mutator "\<lambda>h. map_option snd (alloc_raw ty gt pid v sys h)" "may_alloc ty gt pid v sys"
  for ty gt pid and v :: 'p and sys
proof
  fix h :: "'p gc_heap" assume w: "world_ok h" and m: "may_alloc ty gt pid v sys h"
  show "\<exists>t. map_option snd (alloc_raw ty gt pid v sys h) = Some t \<and> mutated h t"
  proof (cases "rejects ty pid h")
    case True
    then obtain e where "alloc_raw ty gt pid v sys h = Some (Inl (e, v), h)" using rejected(1) [OF True, of gt v sys] by blast
    with mutated_refl [OF w] show ?thesis by simp
  next
    case False
    then obtain par l where p: "get_par h pid = Some par"
      and l: "layout_from_size_align (layout_size_of ty) (layout_align_of ty) = Some l"
      and lim: "\<not> over_limit h (layout_size_of ty)" by (rule not_rejected)
    have ma: "type_known h ty gt" "refs_inside h gt pid v" "fresh_memory pid l sys h"
      using m l by (simp_all add: may_alloc_def)
    from alloc_raw_correct [OF world_okD(1) [OF w] part_closed_refs [OF world_okD(5) [OF w]] p ma(1) l lim ma(3), of v]
    obtain r t where r: "alloc_raw ty gt pid v sys h = Some (r, t)"
      "case r of Inl (e, w) \<Rightarrow> e = AllocationFailed \<and> w = v \<and> sys = None \<and> arena_frame h t
       | Inr a \<Rightarrow> keeps h t \<and> (\<exists>g. node_added h (unat pid) a g v (layout_size_of ty) t \<and> new_node_ok h (unat pid) g \<and>
            \<not> is_root_or_local g \<and> dtype g = gt)" by blast
    have "mutated h t"
    proof (cases r)
      case (Inl e)
      with r(2) have "arena_frame h t" by (cases e) simp
      with w show ?thesis by (rule arena_frame_mutated)
    next
      case (Inr a)
      with r(2) obtain g where k: "keeps h t" and g: "node_added h (unat pid) a g v (layout_size_of ty) t"
        "new_node_ok h (unat pid) g" "\<not> is_root_or_local g" "dtype g = gt" by auto
      from node_added_born [OF g(1,2)] g(4) have b: "node_born h pid gt a v t" by simp
      have ss: "scope_stacks t = scope_stacks h" and hd: "heads h a = None"
        "heads t = (heads h)(a \<mapsto> g\<lparr>next_ptr := nodes (partitions h ! unat pid)\<rparr>)" using g(1) by (simp_all add: node_added_def)
      have "\<not> is_local g" using g(3) by (simp add: is_root_or_local_iff)
      then have "hlocal t x = hlocal h x" for x using hd by (simp add: hlocal_def next_update_view)
      then have "scope_ok t" using scope_ok_cong [OF ss] world_okD(3) [OF w] by (simp add: fun_eq_iff)
      moreover have "scopes_own t"
        by (rule scopes_own_sub [OF world_okD(4) [OF w] born_grows [OF b]]) (simp add: held_cong [OF ss])
      ultimately show ?thesis using k born_grows [OF b] born_closed [OF w b ma(2)] by (simp add: mutated_def)
    qed
    with r(1) show ?thesis by simp
  qed
qed

interpretation alloc_root_op: mutator "\<lambda>h. map_option snd (alloc_root_raw ty gt pid v sys h)" "may_alloc ty gt pid v sys"
  for ty gt pid and v :: 'p and sys
proof
  fix h :: "'p gc_heap" assume w: "world_ok h" and m: "may_alloc ty gt pid v sys h"
  show "\<exists>t. map_option snd (alloc_root_raw ty gt pid v sys h) = Some t \<and> mutated h t"
  proof (cases "rejects ty pid h")
    case True
    then obtain e where "alloc_root_raw ty gt pid v sys h = Some (Inl (e, v), h)" using rejected(2) [OF True, of gt v sys] by blast
    with mutated_refl [OF w] show ?thesis by simp
  next
    case False
    then obtain par l where p: "get_par h pid = Some par"
      and l: "layout_from_size_align (layout_size_of ty) (layout_align_of ty) = Some l"
      and lim: "\<not> over_limit h (layout_size_of ty)" by (rule not_rejected)
    have ma: "type_known h ty gt" "refs_inside h gt pid v" "fresh_memory pid l sys h"
      using m l by (simp_all add: may_alloc_def)
    from alloc_root_raw_correct [OF world_okD(1) [OF w] part_closed_refs [OF world_okD(5) [OF w]] p ma(1) l lim ma(3), of v]
    obtain r t where r: "alloc_root_raw ty gt pid v sys h = Some (r, t)"
      "case r of Inl (e, w) \<Rightarrow> e = AllocationFailed \<and> w = v \<and> sys = None \<and> arena_frame h t
       | Inr a \<Rightarrow> keeps h t \<and> hroot t a \<and> heads h a = None \<and>
         total_memory_used t = total_memory_used h + layout_size_of ty \<and>
         node_born h pid gt a v t \<and> scope_stacks t = scope_stacks h \<and>
         (\<forall>b. b \<noteq> a \<longrightarrow> map_option is_local (heads t b) = map_option is_local (heads h b)) \<and>
         (\<forall>g. heads t a = Some g \<longrightarrow> \<not> is_local g)" by blast
    have "mutated h t"
    proof (cases r)
      case (Inl e)
      with r(2) have "arena_frame h t" by (cases e) simp
      with w show ?thesis by (rule arena_frame_mutated)
    next
      case (Inr a)
      with r(2) have k: "keeps h t" and b: "node_born h pid gt a v t" and ss: "scope_stacks t = scope_stacks h"
        and n: "heads h a = None" and o: "\<And>b. b \<noteq> a \<Longrightarrow> map_option is_local (heads t b) = map_option is_local (heads h b)"
        and na: "\<And>g. heads t a = Some g \<Longrightarrow> \<not> is_local g" by auto
      have "hlocal t x = hlocal h x" for x
      proof (cases "x = a")
        case True
        with n na show ?thesis by (auto simp: hlocal_def)
      next
        case False
        with o [of x] show ?thesis by (cases "heads t x"; cases "heads h x") (auto simp: hlocal_def)
      qed
      then have "scope_ok t" using scope_ok_cong [OF ss] world_okD(3) [OF w] by (simp add: fun_eq_iff)
      moreover have "scopes_own t"
        by (rule scopes_own_sub [OF world_okD(4) [OF w] born_grows [OF b]]) (simp add: held_cong [OF ss])
      ultimately show ?thesis using k born_grows [OF b] born_closed [OF w b ma(2)] by (simp add: mutated_def)
    qed
    with r(1) show ?thesis by simp
  qed
qed

interpretation alloc_local_op: mutator "\<lambda>h. map_option snd (alloc_local ty gt sid k v sys h)"
  "\<lambda>h. \<exists>s. get_scope h sid k = Some s \<and> may_alloc ty gt (sc_partition_id s) v sys h"
  for ty gt sid k and v :: 'p and sys
proof
  fix h :: "'p gc_heap"
  assume w: "world_ok h" and "\<exists>s. get_scope h sid k = Some s \<and> may_alloc ty gt (sc_partition_id s) v sys h"
  then obtain s where s: "get_scope h sid k = Some s" and m: "may_alloc ty gt (sc_partition_id s) v sys h" by blast
  let ?pid = "sc_partition_id s"
  show "\<exists>t. map_option snd (alloc_local ty gt sid k v sys h) = Some t \<and> mutated h t"
  proof (cases "rejects ty ?pid h")
    case True
    then obtain e where "alloc_raw ty gt ?pid v sys h = Some (Inl (e, v), h)" using rejected(1) [OF True, of gt v sys] by blast
    with s mutated_refl [OF w] show ?thesis by (simp add: alloc_local_def)
  next
    case False
    then obtain par l where p: "get_par h ?pid = Some par"
      and l: "layout_from_size_align (layout_size_of ty) (layout_align_of ty) = Some l"
      and lim: "\<not> over_limit h (layout_size_of ty)" by (rule not_rejected)
    have ma: "type_known h ty gt" "refs_inside h gt ?pid v" "fresh_memory ?pid l sys h"
      using m l by (simp_all add: may_alloc_def)
    from alloc_local_correct [OF world_inv [OF w] part_closed_refs [OF world_okD(5) [OF w]] s p ma(1) l lim ma(3), of v]
    obtain r t where r: "alloc_local ty gt sid k v sys h = Some (r, t)"
      "case r of Inl (e, w) \<Rightarrow> e = AllocationFailed \<and> w = v \<and> sys = None \<and> arena_frame h t
       | Inr a \<Rightarrow> keeps h t \<and> scope_ok t \<and> heads h a = None \<and> (\<forall>b. hlocal t b \<longleftrightarrow> b = a \<or> hlocal h b) \<and>
         get_scope t sid k = Some (s\<lparr>sc_cache := Some (cache_list s @ [a])\<rparr>) \<and>
         held t \<subseteq> insert (?pid, a) (held h) \<and> node_born h ?pid gt a v t" by blast
    have "mutated h t"
    proof (cases r)
      case (Inl e)
      with r(2) have "arena_frame h t" by (cases e) simp
      with w show ?thesis by (rule arena_frame_mutated)
    next
      case (Inr a)
      with r(2) have k: "keeps h t" "scope_ok t" and hd: "held t \<subseteq> insert (?pid, a) (held h)"
        and b: "node_born h ?pid gt a v t" by simp_all
      have "in_par t (unat ?pid) a" using node_born_obs(1) [OF b] by blast
      from scopes_own_grows [OF world_okD(4) [OF w] born_grows [OF b] hd this]
      show ?thesis using k born_grows [OF b] born_closed [OF w b ma(2)] by (simp add: mutated_def)
    qed
    with r(1) show ?thesis by simp
  qed
qed

end
