(* ===== verification/Gc_Cycle.thy ===== *)
theory Gc_Cycle
  imports Gc_Mutators
begin

text \<open>
  The operations of the collector and of the partitions keep the invariant of a running program:
  marking, \<open>mark_reset\<close>, the sweeps and \<open>garbage_collect\<close>, creating and removing partitions.
\<close>

section \<open>Resetting a cycle\<close>

lemma fold_update_heads:
  fixes P :: "gc_head \<Rightarrow> 'x"
  assumes d: "set xs \<subseteq> dom (heads h)" and sh: "\<And>g. shape (f g) = shape g" and P: "\<And>g. P (f g) = P g"
  shows "\<exists>t. fold_opt (update_head f) xs h = Some t \<and> mark_frame h t \<and> partitions t = partitions h \<and>
    (\<forall>a\<in>set xs. \<exists>g. heads t a = Some (f g)) \<and> (\<forall>a. a \<notin> set xs \<longrightarrow> heads t a = heads h a) \<and>
    (\<forall>a. map_option P (heads t a) = map_option P (heads h a))"
proof (rule fold_opt_prefix_rule)
  fix ys x zs t
  assume xs: "xs = ys @ x # zs" and t: "mark_frame h t \<and> partitions t = partitions h \<and>
    (\<forall>a\<in>set ys. \<exists>g. heads t a = Some (f g)) \<and> (\<forall>a. a \<notin> set ys \<longrightarrow> heads t a = heads h a) \<and>
    (\<forall>a. map_option P (heads t a) = map_option P (heads h a))"
  have "x \<in> dom (heads t)" using d xs mark_frame_fields(11) [of h t] t by auto
  then obtain g where g: "heads t x = Some g" by blast
  have "mark_frame h (put_head x (f g) t)"
    using t mark_frame_trans [OF _ mark_frame_put_head [OF g sh]] by blast
  moreover have "map_option P (heads h x) = Some (P g)" using t g by (metis option.map(2))
  ultimately show "\<exists>t'. update_head f x t = Some t' \<and> mark_frame h t' \<and> partitions t' = partitions h \<and>
    (\<forall>a\<in>set (ys @ [x]). \<exists>g. heads t' a = Some (f g)) \<and> (\<forall>a. a \<notin> set (ys @ [x]) \<longrightarrow> heads t' a = heads h a) \<and>
    (\<forall>a. map_option P (heads t' a) = map_option P (heads h a))"
    using t g by (intro exI [of _ "put_head x (f g) t"]) (auto simp: update_head_Some P)
qed simp

definition reset_to :: "'p gc_heap \<Rightarrow> nat \<Rightarrow> 'p gc_heap \<Rightarrow> bool" where
  "reset_to h i t \<longleftrightarrow> mark_frame h t \<and> heap_ok t \<and> \<not> pmarking t i \<and> glist t i = [] \<and>
     (\<forall>a. hcolor t a = (if in_par h i a then Some White else hcolor h a)) \<and>
     (\<forall>j<length (partitions h). j \<noteq> i \<longrightarrow> partitions t ! j = partitions h ! j)"

lemma mark_reset_correct:
  assumes ok: "heap_ok h" and i: "unat pid < length (partitions h)"
  shows "\<exists>t. mark_reset pid h = Some t \<and> reset_to h (unat pid) t"
proof -
  let ?i = "unat pid"
  let ?p = "partitions h ! ?i"
  let ?h0 = "put_par pid (?p\<lparr>marking := False, gray_list := []\<rparr>) h"
  have p: "get_par h pid = Some ?p" using i by (simp add: get_par_Some)
  have gk: "gray_ok h ?i" by (rule heap_ok_gray [OF ok i])
  have f0: "mark_frame h ?h0" by (rule mark_frame_put_par [OF p]) (simp add: par_shape_def)
  have "set (gray_list ?p) \<subseteq> dom (heads ?h0)" using gk in_par_dom by (fastforce simp: gray_ok_def)
  from fold_update_heads [OF this, of "set_gray_listed False" color] obtain h1 where
    h1: "fold_opt (update_head (set_gray_listed False)) (gray_list ?p) ?h0 = Some h1" "mark_frame ?h0 h1"
      "partitions h1 = partitions ?h0" "\<forall>a\<in>set (gray_list ?p). \<exists>g. heads h1 a = Some (set_gray_listed False g)"
      "\<forall>a. a \<notin> set (gray_list ?p) \<longrightarrow> heads h1 a = heads h a" "\<forall>a. map_option color (heads h1 a) = map_option color (heads h a)"
    by auto
  let ?xs = "par_list h ?i"
  have m1: "mark_frame h h1" by (rule mark_frame_trans [OF f0 h1(2)])
  have xs: "a \<in> set ?xs \<longleftrightarrow> in_par h ?i a" for a by (rule heap_ok_member_iff [OF ok i])
  have "set ?xs \<subseteq> dom (heads h1)" using xs in_par_dom mark_frame_fields(11) [OF m1] by blast
  from fold_update_heads [OF this, of "set_color White" is_gray_listed] obtain t where
    t: "fold_opt (update_head (set_color White)) ?xs h1 = Some t" "mark_frame h1 t" "partitions t = partitions h1"
      "\<forall>a\<in>set ?xs. \<exists>g. heads t a = Some (set_color White g)" "\<forall>a. a \<notin> set ?xs \<longrightarrow> heads t a = heads h1 a"
      "\<forall>a. map_option is_gray_listed (heads t a) = map_option is_gray_listed (heads h1 a)" by auto
  have nx: "map_option next_ptr (heads u' b) = map_option next_ptr (heads u b)"
    if "update_head (set_color White) a u = Some u'" for a u u' b
    using that by (auto simp: update_head_Some)
  have "chain (heads h1) (nodes ?p) ?xs" using heap_ok_chain [OF ok i] by (simp add: chain_mark_frame [OF m1])
  from for_nodes_fold [OF this, of "update_head (set_color White)"] nx
  have "for_nodes (update_head (set_color White)) (nodes ?p) h1 = fold_opt (update_head (set_color White)) ?xs h1" by blast
  then have run: "mark_reset pid h = Some t" using p h1(1) t(1) by (simp add: mark_reset_def)
  have fr: "mark_frame h t" by (rule mark_frame_trans [OF m1 t(2)])
  have pt: "partitions t = (partitions h)[?i := ?p\<lparr>marking := False, gray_list := []\<rparr>]" by (simp add: t(3) h1(3))
  have col: "hcolor t a = (if in_par h ?i a then Some White else hcolor h a)" for a
  proof (cases "in_par h ?i a")
    case True
    with t(4) xs obtain g where "heads t a = Some (set_color White g)" by blast
    with True show ?thesis by (simp add: hcolor_def)
  next
    case False
    with t(5) xs have "heads t a = heads h1 a" by blast
    with False show ?thesis using h1(6) [rule_format, of a] by (cases "heads h1 a"; cases "heads h a") (auto simp: hcolor_def)
  qed
  have l1: "hlisted h1 a \<longleftrightarrow> hlisted h a \<and> a \<notin> set (gray_list ?p)" for a
  proof (cases "a \<in> set (gray_list ?p)")
    case True
    with h1(4) obtain g where "heads h1 a = Some (set_gray_listed False g)" by blast
    with True show ?thesis by (simp add: hlisted_def)
  qed (use h1(5) in \<open>simp add: hlisted_def\<close>)
  have "hlisted t a = hlisted h1 a" for a
    using t(6) [rule_format, of a] by (cases "heads h1 a"; cases "heads t a") (auto simp: hlisted_def)
  with l1 have li: "hlisted t a \<longleftrightarrow> hlisted h a \<and> a \<notin> set (gray_list ?p)" for a by simp
  have ip: "in_par t = in_par h" by (simp add: fun_eq_iff in_par_mark_frame [OF fr])
  have "heap_ok t"
  proof (rule heap_okI_mark_frame [OF ok fr])
    show "hcolor t a \<noteq> None" if "a \<in> dom (heads h)" for a using heap_ok_hcolor_dom [OF ok that] col by simp
    show "gray_ok t j" if j: "j < length (partitions h)" for j
    proof (cases "j = ?i")
      case True
      with gk i show ?thesis by (auto simp: gray_ok_def pt li ip)
    next
      case False
      have "a \<notin> set (gray_list ?p)" if "in_par h j a" for a
        using that gk False in_par_unique by (fastforce simp: gray_ok_def)
      with heap_ok_gray [OF ok j] False j show ?thesis by (simp add: gray_ok_def pt li ip)
    qed
  qed
  with fr col pt i have "reset_to h ?i t" by (simp add: reset_to_def)
  with run show ?thesis by blast
qed

section \<open>Marking\<close>

lemma remarked_refl: "world_ok h \<Longrightarrow> remarked h h"
  by (simp add: remarked_def world_okD)

lemma remarked_trans: "remarked h t \<Longrightarrow> remarked t u \<Longrightarrow> remarked h u"
  using mark_frame_trans by (auto simp: remarked_def)

lemma all_readyD: "world_ok h \<Longrightarrow> i < length (partitions h) \<Longrightarrow> ready i h"
  using world_okD(6) [of h] by (simp add: all_ready_def)

lemma prepare_remarked:
  assumes w: "world_ok h" and p: "get_par h pid = Some p"
  shows "\<exists>t. mark_prepare pid h = Some t \<and> remarked h t \<and> pmarking t (unat pid)"
proof (cases "marking p")
  case True
  with p have "mark_prepare pid h = Some h" by (rule mark_prepare_marking)
  with True p remarked_refl [OF w] show ?thesis by (auto simp: get_par_Some)
next
  case False
  from mark_prepare_correct [OF world_okD(2) [OF w] p False] obtain t where
    t: "mark_prepare pid h = Some t" "mark_frame h t" "heap_ok t"
      "\<forall>j<length (partitions h). pmarking t j \<and> seeded h j t" by blast
  have "ready j t" if j: "j < length (partitions h)" for j
  proof -
    have "tri_inv {j} t"
    proof (cases "glist h j = []")
      case True
      then show ?thesis using t(4) j by (intro seeded_tri_inv [OF t(2)]) simp
    next
      case False
      with all_readyD [OF w j] have "tri_inv {j} h" by (simp add: ready_def split: if_splits)
      with False t(4) j show ?thesis by (intro seeded_tri_inv_pending [OF t(2)] tri_inv_pending) auto
    qed
    with t(4) j show ?thesis by (simp add: ready_def)
  qed
  then have "all_ready t" by (simp add: all_ready_def mark_frame_fields(10) [OF t(2)])
  with t p show ?thesis by (auto simp: remarked_def get_par_Some)
qed

lemma mark_run_remarked:
  assumes w: "world_ok h" and mk: "pmarking h i" and r: "mark_run R i h t"
  shows "remarked h t"
proof -
  note d = mark_runD [OF r]
  have "ready j t" if j: "j < length (partitions h)" for j
  proof (cases "pmarking h j")
    case True
    with all_readyD [OF w j] d(3,8) j show ?thesis by (simp add: ready_def)
  next
    case False
    with mk have ji: "j \<noteq> i" by blast
    have "\<not> (in_par h i a \<and> edge h a b \<and> in_par h j b)" for a b
      using part_closed_edge [OF world_okD(5) [OF w]] in_par_unique ji by blast
    then have "set (glist t j) \<subseteq> set (glist h j)" using d(10) [OF j ji] by blast
    with False all_readyD [OF w j] d(8) [OF j] show ?thesis by (simp add: ready_def)
  qed
  then show ?thesis using d(1,2) by (simp add: remarked_def all_ready_def mark_frame_fields(10) [OF d(1)])
qed

lemma world_traced: "world_ok h \<Longrightarrow> traced_closed (\<lambda>_. True) i h"
  using part_closed_refs [OF world_okD(5)] by (simp add: traced_closed_def refs_closed_def)

interpretation mark_op: marker "\<lambda>h. map_option snd (mark pid m h)" "\<lambda>h. unat pid < length (partitions h)" for pid m
proof
  fix h :: "'p gc_heap" assume w: "world_ok h" and i: "unat pid < length (partitions h)"
  then have "get_par h pid = Some (partitions h ! unat pid)" by (simp add: get_par_Some)
  from prepare_remarked [OF w this] obtain u where
    u: "mark_prepare pid h = Some u" "remarked h u" "pmarking u (unat pid)" by blast
  have wu: "world_ok u" by (rule remarked_world(1) [OF w u(2)])
  show "\<exists>t. map_option snd (mark pid m h) = Some t \<and> remarked h t"
  proof (cases "m = 0")
    case True
    with u(1,2) show ?thesis by (simp add: mark_def)
  next
    case False
    have "unat pid < length (partitions u)"
      using i u(2) mark_frame_fields(10) by (fastforce simp: remarked_def)
    from mark_grays_correct [OF world_okD(2) [OF wu] this _ world_traced [OF wu] False] obtain d t where
      t: "mark_grays pid m u = Some (d, t)" "mark_run (\<lambda>_. True) (unat pid) u t" by blast
    have "mark pid m h = Some (d, t)" using u(1) t(1) False by (simp add: mark_def word_neq_0_conv)
    moreover have "remarked h t"
      by (rule remarked_trans [OF u(2) mark_run_remarked [OF wu u(3) t(2)]])
    ultimately show ?thesis by simp
  qed
qed

interpretation mark_reset_op: marker "mark_reset pid" "\<lambda>h. unat pid < length (partitions h)" for pid
proof
  fix h :: "'p gc_heap" assume w: "world_ok h" and i: "unat pid < length (partitions h)"
  from mark_reset_correct [OF world_okD(2) [OF w] i] obtain t where
    t: "mark_reset pid h = Some t" "reset_to h (unat pid) t" by blast
  have fr: "mark_frame h t" using t(2) by (simp add: reset_to_def)
  have "ready j t" if j: "j < length (partitions h)" for j
  proof (cases "j = unat pid")
    case True
    with t(2) show ?thesis by (simp add: ready_def reset_to_def)
  next
    case False
    have pj: "partitions t ! j = partitions h ! j" using t(2) j False by (simp add: reset_to_def)
    have c: "hcolor t a = hcolor h a" if "in_par h j a" for a
      using t(2) that False in_par_unique by (fastforce simp: reset_to_def)
    have "tri_inv {j} h \<Longrightarrow> tri_inv {j} t"
      unfolding tri_inv_def tri_inv_upto_def zone_def
      by (simp add: in_par_mark_frame [OF fr] hroot_mark_frame [OF fr] edge_mark_frame [OF fr] pj c)
    with all_readyD [OF w j] show ?thesis by (simp add: ready_def pj)
  qed
  then have "remarked h t" using t(2) by (simp add: remarked_def reset_to_def all_ready_def mark_frame_fields(10) [OF fr])
  with t(1) show "\<exists>t. mark_reset pid h = Some t \<and> remarked h t" by blast
qed

lemma until_done_remarked:
  assumes w: "world_ok h" and p: "get_par h pid = Some p"
  shows "\<exists>t. mark_until_done pid h = Some t \<and> remarked h t \<and> pmarking t (unat pid) \<and> glist t (unat pid) = []"
proof -
  from prepare_remarked [OF w p] obtain u where
    u: "mark_prepare pid h = Some u" "remarked h u" "pmarking u (unat pid)" by blast
  have wu: "world_ok u" by (rule remarked_world(1) [OF w u(2)])
  have iu: "unat pid < length (partitions u)"
    using p u(2) mark_frame_fields(10) by (fastforce simp: remarked_def get_par_Some)
  then have q: "get_par u pid = Some (partitions u ! unat pid)" by (simp add: get_par_Some)
  from mark_until_done_run [OF world_okD(2) [OF wu] q u(3) _ world_traced [OF wu]] obtain t where
    t: "mark_until_done pid u = Some t" "mark_run (\<lambda>_. True) (unat pid) u t" "glist t (unat pid) = []" by blast
  have "mark_until_done pid h = Some t" using mark_until_done_prepare [OF u(1) q u(3)] t(1) by simp
  moreover have "remarked h t"
    by (rule remarked_trans [OF u(2) mark_run_remarked [OF wu u(3) t(2)]])
  moreover have "pmarking t (unat pid)" using mark_runD(8) [OF t(2) iu] u(3) by simp
  ultimately show ?thesis using t(3) by blast
qed

section \<open>Sweeping\<close>

lemma held_cache:
  assumes "(p, a) \<in> held h"
  obtains sid k s where "get_scope h sid k = Some s" "sc_partition_id s = p" "a \<in> set (cache_list s)"
  using assms by (auto simp: held_def)

lemma detach_same:
  assumes "map_option detach (heads t a) = map_option detach (heads h a)"
  shows "kind t a = kind h a" "hlocal t a = hlocal h a"
proof -
  have d: "dtype g = dtype g' \<and> partition_id g = partition_id g' \<and> is_local g = is_local g'"
    if "detach g = detach g'" for g g' using ident_eqI(1) [OF that] by (simp add: ident_def)
  have "kind t a = kind h a \<and> hlocal t a = hlocal h a"
  proof (cases "heads h a")
    case None
    with assms show ?thesis by (simp add: kind_def hlocal_def)
  next
    case (Some g)
    with assms obtain g' where g': "heads t a = Some g'" "detach g' = detach g" by auto
    from d [OF g'(2)] g'(1) Some show ?thesis by (simp add: kind_def hlocal_def)
  qed
  then show "kind t a = kind h a" "hlocal t a = hlocal h a" by simp_all
qed

text \<open>At the end of marking what is not dead is black.\<close>

lemma survivor_black:
  assumes w: "world_ok h" and i: "i < length (partitions h)" and m: "pmarking h i" "glist h i = []"
    and a: "in_par h i a" "\<not> dead h a"
  shows "hcolor h a = Some Black"
proof -
  have tri: "tri_inv {i} h" using all_readyD [OF w i] m(1) by (simp add: ready_def)
  obtain c where c: "hcolor h a = Some c"
    using heap_ok_hcolor_dom [OF world_okD(2) [OF w] in_par_dom [OF a(1)]] by blast
  show ?thesis
  proof (cases c)
    case White
    with a(2) c have "hroot h a" by (simp add: dead_def)
    with tri a(1) c White show ?thesis by (auto simp: tri_inv_def tri_inv_upto_def zone_def)
  next
    case Gray
    with tri a(1) c m(2) show ?thesis by (auto simp: tri_inv_def tri_inv_upto_def)
  qed (use c in simp)
qed

lemma swept_world:
  assumes w: "world_ok h" and i: "i < length (partitions h)" and m: "pmarking h i" "glist h i = []"
    and sw: "swept h i n t"
  shows "world_ok t" "node_dtypes t = node_dtypes h" "ref_reach h a \<Longrightarrow> kind t a = kind h a"
proof -
  let ?D = "{a. in_par h i a \<and> dead h a}"
  have rm: "removed h ?D t" and inv: "heap_inv t" and ss: "scope_stacks t = scope_stacks h"
    and mk: "\<not> pmarking t i" "\<And>j. j < length (partitions h) \<Longrightarrow> j \<noteq> i \<Longrightarrow> pmarking t j = pmarking h j"
    using sw by (simp_all add: swept_def)
  have tri: "tri_inv {i} h" using all_readyD [OF w i] m(1) by (simp add: ready_def)
  show nd: "node_dtypes t = node_dtypes h" using rm by (simp add: removed_def)
  have gl: "glist t j = glist h j" if "j < length (partitions h)" for j using rm that by (simp add: removed_def)
  have len: "length (partitions t) = length (partitions h)" using rm by (simp add: removed_def)
  have de: "map_option detach (heads t a) = (if a \<in> ?D then None else map_option detach (heads h a))" for a
    using rm unfolding removed_def by blast
  have k: "kind t a = (if a \<in> ?D then None else kind h a)" for a
  proof (cases "a \<in> ?D")
    case True
    then show ?thesis using removed_gone [OF rm] by (simp add: kind_def)
  next
    case False
    then have "map_option detach (heads t a) = map_option detach (heads h a)" unfolding de [of a] by (rule if_not_P)
    from detach_same(1) [OF this] False show ?thesis by auto
  qed
  have pl: "a \<notin> ?D \<Longrightarrow> payloads t a = payloads h a" for a using rm by (simp add: removed_def)
  have ed: "edge h a b \<and> a \<notin> ?D" if "edge t a b" for a b
    using that k [of a] pl [of a] by (auto simp: edge_kind type_info_cong [OF nd] split: if_splits)
  have ip: "in_par t j a \<longleftrightarrow> in_par h j a \<and> a \<notin> ?D" for j a using k [of a] by (auto simp: in_par_kind)
  have black: "hcolor h a = Some Black" if "in_par h i a" "a \<notin> ?D" for a
    using survivor_black [OF w i m that(1)] that by simp
  have pc: "part_closed t"
    unfolding part_closed_def
  proof (intro allI impI)
    fix a b assume "edge t a b"
    from ed [OF this] have e: "edge h a b" "a \<notin> ?D" by simp_all
    from e(1) world_okD(5) [OF w] obtain j where j: "in_par h j a" "in_par h j b" by (auto simp: part_closed_def)
    have "b \<notin> ?D"
    proof
      assume b: "b \<in> ?D"
      then have "j = i" using j(2) in_par_unique by blast
      with j(1) have ai: "in_par h i a" by simp
      with b e tri black [OF ai e(2)] show False
        by (auto simp: tri_inv_def tri_inv_upto_def zone_def dead_def)
    qed
    with j e(2) ip show "\<exists>j. in_par t j a \<and> in_par t j b" by blast
  qed
  have rd: "ready j t" if j: "j < length (partitions h)" for j
  proof (cases "j = i")
    case True
    with mk(1) gl [OF i] m(2) show ?thesis by (simp add: ready_def)
  next
    case False
    have nD: "a \<notin> ?D" if "in_par h j a" for a using that False in_par_unique by blast
    have "tri_inv {j} h \<Longrightarrow> tri_inv {j} t"
      unfolding tri_inv_def tri_inv_upto_def zone_def
      using ed nD by (auto simp: ip gl [OF j] removed_obs [OF rm])
    with all_readyD [OF w j] gl [OF j] mk(2) [OF j False] show ?thesis by (simp add: ready_def)
  qed
  have hl: "hlocal t a = hlocal h a" for a
  proof (cases "a \<in> ?D")
    case True
    then have "heads t a = None" "\<not> hroot h a" using removed_gone [OF rm] by (auto simp: dead_def)
    then show ?thesis by (auto simp: hroot_iff hlocal_def)
  next
    case False
    then have "map_option detach (heads t a) = map_option detach (heads h a)" unfolding de [of a] by (rule if_not_P)
    then show ?thesis by (rule detach_same(2))
  qed
  have sk: "scope_ok t" using world_okD(3) [OF w] scope_ok_cong [OF ss] hl by (simp add: fun_eq_iff)
  have "in_par t (unat p) a" if "(p, a) \<in> held h" for p a
  proof -
    from that obtain sid k s where s: "get_scope h sid k = Some s" "sc_partition_id s = p" "a \<in> set (cache_list s)"
      by (rule held_cache)
    have "hlocal h a" by (rule cache_live(2) [OF world_okD(3) [OF w] s(1,3)])
    then have "a \<notin> ?D" by (auto simp: dead_def hroot_iff)
    moreover have "in_par h (unat p) a" using scopes_ownD [OF world_okD(4) [OF w] s(1,3)] s(2) by simp
    ultimately show ?thesis by (simp add: ip)
  qed
  then have "scopes_own t" unfolding scopes_own_def held_cong [OF ss] by blast
  then show "world_ok t" using inv sk pc rd by (simp add: world_ok_def all_ready_def len)
  show "kind t a = kind h a" if r: "ref_reach h a"
  proof -
    have "a \<notin> ?D"
    proof
      assume a: "a \<in> ?D"
      then have "reach_in {i} h a" using ref_reach_in [OF world_okD(5) [OF w] r] by blast
      from tri_inv_done [OF world_okD(2) [OF w] tri _ this] m(2) have "hcolor h a = Some Black" by simp
      with a show False by (simp add: dead_def)
    qed
    with k [of a] show ?thesis by auto
  qed
qed

lemma ref_reach_mark_frame:
  assumes fr: "mark_frame h t"
  shows "ref_reach t a \<longleftrightarrow> ref_reach h a"
proof
  show "ref_reach h a" if "ref_reach t a"
    using that by induction (simp_all add: ref_reach.root ref_reach.step hroot_mark_frame [OF fr] edge_mark_frame [OF fr])
  show "ref_reach t a" if "ref_reach h a"
    using that
  proof induction
    case (root a)
    then show ?case by (intro ref_reach.root) (simp add: hroot_mark_frame [OF fr])
  next
    case (step a b)
    from step.IH show ?case by (rule ref_reach.step) (use step in \<open>simp add: edge_mark_frame [OF fr]\<close>)
  qed
qed

lemma collected_world:
  assumes w: "world_ok h" and u: "remarked h u" and i: "i < length (partitions h)"
    and m: "pmarking u i" "glist u i = []" and sw: "swept u i n t"
  shows "world_ok t" "node_dtypes t = node_dtypes h" "ref_reach h a \<Longrightarrow> kind t a = kind h a"
proof -
  have fr: "mark_frame h u" using u by (simp add: remarked_def)
  have iu: "i < length (partitions u)" using i mark_frame_fields(10) [OF fr] by simp
  note rw = remarked_world [OF w u]
  note sw = swept_world [OF rw(1) iu m sw]
  show "world_ok t" "node_dtypes t = node_dtypes h" using sw(1,2) rw(2) by simp_all
  show "kind t a = kind h a" if "ref_reach h a"
    using sw(3) [of a] rw(3) [of a] that ref_reach_mark_frame [OF fr] by simp
qed

text \<open>What a sweep of a partition may do: nothing before marking is over, and the collection after it.\<close>

definition sweeps :: "'p gc_heap \<Rightarrow> nat \<Rightarrow> 'p gc_heap \<Rightarrow> bool" where
  "sweeps h i t \<longleftrightarrow> t = h \<or>
     (\<exists>u n. remarked h u \<and> i < length (partitions h) \<and> pmarking u i \<and> glist u i = [] \<and> swept u i n t)"

lemma sweeps_world:
  assumes w: "world_ok h" and s: "sweeps h i t"
  shows "world_ok t \<and> node_dtypes t = node_dtypes h \<and> (\<forall>a. ref_reach h a \<longrightarrow> a \<notin> {} \<longrightarrow> kind t a = kind h a)"
proof (cases "t = h")
  case True
  with w show ?thesis by simp
next
  case False
  with s obtain u n where "remarked h u" "i < length (partitions h)" "pmarking u i" "glist u i = []" "swept u i n t"
    by (auto simp: sweeps_def)
  from collected_world [OF w this] show ?thesis by simp
qed

lemma collect_white_sweeps:
  assumes w: "world_ok h"
  shows "\<exists>n t. collect_white pid h = Some (n, t) \<and> sweeps h (unat pid) t"
proof (cases "unat pid < length (partitions h) \<and> pmarking h (unat pid) \<and> glist h (unat pid) = []")
  case True
  then have i: "unat pid < length (partitions h)" and m: "pmarking h (unat pid)" "glist h (unat pid) = []" by simp_all
  from collect_white_correct [OF world_okD(1) [OF w] i m] obtain n t where
    t: "collect_white pid h = Some (n, t)" "swept h (unat pid) n t" by blast
  have "sweeps h (unat pid) t" unfolding sweeps_def using remarked_refl [OF w] i m t(2) by blast
  with t(1) show ?thesis by blast
next
  case False
  then have "sweep_unlink pid h = Some (None, h)"
    by (auto simp: sweep_unlink_def get_par_def vec_get_def)
  then have "collect_white pid h = Some (0, h)" by (simp add: collect_white_def)
  then show ?thesis by (auto simp: sweeps_def)
qed

interpretation collect_op: heap_op "\<lambda>h. map_option snd (collect_white pid h)" "\<lambda>_. True" "\<lambda>_. {}" for pid
proof
  fix h :: "'p gc_heap" assume w: "world_ok h"
  from collect_white_sweeps [OF this, of pid] obtain n t where
    t: "collect_white pid h = Some (n, t)" "sweeps h (unat pid) t" by blast
  with sweeps_world [OF w t(2)]
  show "\<exists>t. map_option snd (collect_white pid h) = Some t \<and> world_ok t \<and> node_dtypes t = node_dtypes h \<and>
      (\<forall>a. ref_reach h a \<longrightarrow> a \<notin> {} \<longrightarrow> kind t a = kind h a)" by simp
qed

lemma sweep_sweeps:
  assumes w: "world_ok h"
  shows "\<exists>n c' t. sweep pid cb c h = Some (n, c', t) \<and> sweeps h (unat pid) t"
proof (cases "unat pid < length (partitions h) \<and> pmarking h (unat pid) \<and> glist h (unat pid) = []")
  case True
  then have i: "unat pid < length (partitions h)" and m: "pmarking h (unat pid)" "glist h (unat pid) = []" by simp_all
  from sweep_correct [OF world_okD(1) [OF w] i m, of cb c] obtain n c' t where
    t: "sweep pid cb c h = Some (n, c', t)" "swept h (unat pid) n t" by blast
  have "sweeps h (unat pid) t" unfolding sweeps_def using remarked_refl [OF w] i m t(2) by blast
  with t(1) show ?thesis by blast
next
  case False
  then have "sweep pid cb c h = Some (0, c, h)"
    by (auto simp: sweep_def get_par_def vec_get_def)
  then show ?thesis by (auto simp: sweeps_def)
qed

interpretation sweep_op: heap_op "\<lambda>h. map_option (snd \<circ> snd) (sweep pid cb c h)" "\<lambda>_. True" "\<lambda>_. {}"
  for pid and cb :: "'p gc_heap \<Rightarrow> gc_head \<Rightarrow> 'c \<Rightarrow> 'c" and c
proof
  fix h :: "'p gc_heap" assume w: "world_ok h"
  from sweep_sweeps [OF this, of pid cb c] obtain n c' t where
    t: "sweep pid cb c h = Some (n, c', t)" "sweeps h (unat pid) t" by blast
  with sweeps_world [OF w t(2)]
  show "\<exists>t. map_option (snd \<circ> snd) (sweep pid cb c h) = Some t \<and> world_ok t \<and> node_dtypes t = node_dtypes h \<and>
      (\<forall>a. ref_reach h a \<longrightarrow> a \<notin> {} \<longrightarrow> kind t a = kind h a)" by simp
qed

lemma garbage_collect_sweeps:
  assumes w: "world_ok h"
  shows "\<exists>n t. garbage_collect pid h = Some (n, t) \<and> sweeps h (unat pid) t"
proof (cases "get_par h pid")
  case None
  then show ?thesis by (auto simp: garbage_collect_def sweeps_def)
next
  case (Some p)
  then have i: "unat pid < length (partitions h)" by (simp add: get_par_Some)
  from until_done_remarked [OF w Some] obtain u where
    u: "mark_until_done pid h = Some u" "remarked h u" "pmarking u (unat pid)" "glist u (unat pid) = []" by blast
  have iu: "unat pid < length (partitions u)"
    using i u(2) mark_frame_fields(10) by (fastforce simp: remarked_def)
  from collect_white_correct [OF world_okD(1) [OF remarked_world(1) [OF w u(2)]] iu u(3,4)] obtain n t where
    t: "collect_white pid u = Some (n, t)" "swept u (unat pid) n t" by blast
  have "garbage_collect pid h = Some (n, t)" using garbage_collect_eq [OF Some] u(1) t(1) by simp
  moreover have "sweeps h (unat pid) t" unfolding sweeps_def using u i t(2) by blast
  ultimately show ?thesis by blast
qed

interpretation gc_op: heap_op "\<lambda>h. map_option snd (garbage_collect pid h)" "\<lambda>_. True" "\<lambda>_. {}" for pid
proof
  fix h :: "'p gc_heap" assume w: "world_ok h"
  from garbage_collect_sweeps [OF this, of pid] obtain n t where
    t: "garbage_collect pid h = Some (n, t)" "sweeps h (unat pid) t" by blast
  with sweeps_world [OF w t(2)]
  show "\<exists>t. map_option snd (garbage_collect pid h) = Some t \<and> world_ok t \<and> node_dtypes t = node_dtypes h \<and>
      (\<forall>a. ref_reach h a \<longrightarrow> a \<notin> {} \<longrightarrow> kind t a = kind h a)" by simp
qed

section \<open>Partitions\<close>

text \<open>A new partition is empty and idle.\<close>

lemma create_partition_result:
  assumes "cap > 0 \<Longrightarrow> arena_new cap sys \<noteq> None"
  shows "\<exists>p. create_partition cap ma sys h = Some (of_nat (length (partitions h)), h\<lparr>partitions := partitions h @ [p]\<rparr>) \<and>
    nodes p = None \<and> gray_list p = [] \<and> \<not> marking p"
  using assms by (cases "cap > 0") (auto simp: create_partition_def partition_new_def vec_push_def)

lemma partition_added:
  assumes w: "world_ok h" and len: "length (partitions h) < 2 ^ 16"
    and p: "nodes p = None" "gray_list p = []" "\<not> marking p"
  shows "world_ok (h\<lparr>partitions := partitions h @ [p]\<rparr>)" (is "world_ok ?t")
proof -
  have f: "heads ?t = heads h" "payloads ?t = payloads h" "node_dtypes ?t = node_dtypes h" "scope_stacks ?t = scope_stacks h"
    "weak_slots ?t = weak_slots h" by simp_all
  note ob = obs_heads [OF f(1)]
  have ti: "type_info ?t = type_info h" by (rule type_info_cong [OF f(3)])
  have e: "edge ?t = edge h" by (simp add: fun_eq_iff edge_kind kind_def f ti)
  have ok: "heap_ok h" "disp_ok h" "passes_ok h" "arena_nodes_ok h"
    using world_okD(1) [OF w] by (simp_all add: heap_inv_def)
  let ?n = "length (partitions h)"
  have old: "partitions ?t ! j = partitions h ! j" if "j < ?n" for j using that by (simp add: nth_append)
  have new: "partitions ?t ! ?n = p" by simp
  have pl: "par_list ?t j = par_list h j" if "j < ?n" for j using that by (simp add: par_list_def nth_append)
  have pn: "par_list ?t ?n = []" using p(1) by (intro par_list_chain) simp
  have none: "\<not> in_par h ?n a" for a using in_par_bound [OF ok(1)] by blast
  have "chain (heads ?t) (nodes (partitions ?t ! j)) (par_list ?t j) \<and> (\<forall>a\<in>set (par_list ?t j). node_ok ?t j a) \<and> gray_ok ?t j"
    if "j < Suc ?n" for j
  proof (cases "j = ?n")
    case True
    then show ?thesis using p none by (simp add: pn gray_ok_def ob)
  next
    case False
    with that have j: "j < ?n" by simp
    have "node_ok ?t j a = node_ok h j a" for a by (simp add: node_ok_def ti)
    moreover have "gray_ok ?t j = gray_ok h j" unfolding gray_ok_def old [OF j] ob ..
    ultimately show ?thesis using ok(1) j unfolding heap_ok_def pl [OF j] old [OF j] f(1) by simp
  qed
  moreover have "dom (heads ?t) \<subseteq> (\<Union>i<Suc ?n. set (par_list ?t i))"
  proof
    fix x assume "x \<in> dom (heads ?t)"
    then have "x \<in> dom (heads h)" by simp
    moreover have "dom (heads h) \<subseteq> (\<Union>i<?n. set (par_list h i))" using ok(1) by (simp only: heap_ok_def)
    ultimately obtain j where j: "j < ?n" "x \<in> set (par_list h j)" by blast
    then have "x \<in> set (par_list ?t j)" using pl [OF j(1)] by simp
    with j(1) show "x \<in> (\<Union>i<Suc ?n. set (par_list ?t i))" by (intro UN_I [of j]) simp_all
  qed
  ultimately have "heap_ok ?t" using len unfolding heap_ok_def by simp
  moreover have "disp_ok ?t" using ok(2) ti by (fastforce simp: disp_ok_def weak_ok_def)
  moreover have "passes_ok ?t" using ok(3) by (simp add: passes_ok_def pass_is_def ti)
  moreover have "arena_nodes_ok ?t"
  proof -
    have "in_arena ?t a = in_arena h a" for a by (simp add: in_arena_def)
    moreover have "arena_present h i \<Longrightarrow> arena_present ?t i" for i
      by (auto simp: arena_present_def arenas_def nth_append)
    ultimately show ?thesis using ok(4) unfolding arena_nodes_ok_def ob by blast
  qed
  ultimately have "heap_inv ?t" by (simp add: heap_inv_def)
  moreover have "scope_ok ?t" using world_okD(3) [OF w] scope_ok_cong [OF f(4)] by (simp add: hlocal_def fun_eq_iff)
  moreover have "scopes_own ?t" using world_okD(4) [OF w] by (simp add: scopes_own_def held_cong [OF f(4)] ob)
  moreover have "part_closed ?t" using world_okD(5) [OF w] by (simp add: part_closed_def e ob)
  moreover have "ready j ?t" if "j < Suc ?n" for j
  proof (cases "j = ?n")
    case True
    with p show ?thesis by (simp add: ready_def)
  next
    case False
    with that have j: "j < ?n" by simp
    have "tri_inv {j} ?t \<longleftrightarrow> tri_inv {j} h"
      unfolding tri_inv_def tri_inv_upto_def zone_def ob e by (simp add: nth_append j)
    with all_readyD [OF w j] show ?thesis unfolding ready_def old [OF j] by simp
  qed
  ultimately show ?thesis by (simp add: world_ok_def all_ready_def)
qed

interpretation create_op: heap_op "\<lambda>h. map_option snd (create_partition cap ma sys h)"
  "\<lambda>h. length (partitions h) < 2 ^ 16 \<and> (cap > 0 \<longrightarrow> arena_new cap sys \<noteq> None)" "\<lambda>_. {}" for cap ma sys
proof
  fix h :: "'p gc_heap"
  assume w: "world_ok h" and pre: "length (partitions h) < 2 ^ 16 \<and> (cap > 0 \<longrightarrow> arena_new cap sys \<noteq> None)"
  then obtain p where c: "create_partition cap ma sys h =
      Some (of_nat (length (partitions h)), h\<lparr>partitions := partitions h @ [p]\<rparr>)"
    and p: "nodes p = None" "gray_list p = []" "\<not> marking p" using create_partition_result by blast
  from partition_added [OF w _ p] pre c
  show "\<exists>t. map_option snd (create_partition cap ma sys h) = Some t \<and> world_ok t \<and> node_dtypes t = node_dtypes h \<and>
      (\<forall>a. ref_reach h a \<longrightarrow> a \<notin> {} \<longrightarrow> kind t a = kind h a)" by (simp add: kind_def)
qed

text \<open>Removing a partition takes away its nodes and no others.\<close>

lemma partition_removed_world:
  assumes w: "world_ok h" and i: "i < length (partitions h)" and r: "partition_removed h i n t"
    and inv: "heap_inv t" "scope_ok t"
  shows "world_ok t" "node_dtypes t = node_dtypes h" "\<not> in_par h i a \<Longrightarrow> kind t a = kind h a"
proof -
  have hd: "heads t a = (if in_par h i a then None else heads h a)"
    and pl: "payloads t a = (if in_par h i a then None else payloads h a)" for a
    using r by (simp_all add: partition_removed_def restrict_map_def)
  have len: "length (partitions t) = length (partitions h)" and nd: "node_dtypes t = node_dtypes h"
    and held: "held t \<subseteq> held h" and fr: "fresh_partition (partitions h ! i) (partitions t ! i)"
    and oth: "\<And>j. j < length (partitions h) \<Longrightarrow> j \<noteq> i \<Longrightarrow> partitions t ! j = partitions h ! j"
    using r by (simp_all add: partition_removed_def)
  show "node_dtypes t = node_dtypes h" by (rule nd)
  have k: "kind t a = (if in_par h i a then None else kind h a)" for a by (simp add: kind_def hd)
  then show "kind t a = kind h a" if "\<not> in_par h i a" using that by simp
  have ip: "in_par t j a \<longleftrightarrow> in_par h j a \<and> \<not> in_par h i a" for j a by (simp add: in_par_kind k)
  have ed: "edge t a b \<longleftrightarrow> edge h a b \<and> \<not> in_par h i a" for a b
    by (simp add: edge_kind k pl type_info_cong [OF nd])
  have "part_closed t"
    unfolding part_closed_def
  proof (intro allI impI)
    fix a b assume "edge t a b"
    then have e: "edge h a b" "\<not> in_par h i a" by (simp_all add: ed)
    from e(1) world_okD(5) [OF w] obtain j where j: "in_par h j a" "in_par h j b" by (auto simp: part_closed_def)
    have "\<not> in_par h i b" using in_par_unique [OF j(2)] j(1) e(2) by blast
    with j e(2) show "\<exists>j. in_par t j a \<and> in_par t j b" by (auto simp: ip)
  qed
  moreover have "scopes_own t"
  proof -
    have "in_par t (unat p) a" if m: "(p, a) \<in> held t" for p a
    proof -
      from m obtain sid k s where s: "get_scope t sid k = Some s" "a \<in> set (cache_list s)" by (rule held_cache)
      have "a \<in> dom (heads t)" by (rule cache_live(1) [OF inv(2) s])
      then have "\<not> in_par h i a" by (auto simp: hd split: if_splits)
      moreover have "in_par h (unat p) a" using world_okD(4) [OF w] held m by (auto simp: scopes_own_def)
      ultimately show ?thesis by (simp add: ip)
    qed
    then show ?thesis by (auto simp: scopes_own_def)
  qed
  moreover have "ready j t" if j: "j < length (partitions h)" for j
  proof (cases "j = i")
    case True
    with fr show ?thesis by (simp add: ready_def fresh_partition_def)
  next
    case False
    have n: "\<not> in_par h i a" if "in_par h j a" for a using in_par_unique [OF that] False by blast
    have c: "hcolor t a = hcolor h a" "hroot t a = hroot h a" if "in_par h j a" for a
      using n [OF that] by (simp_all add: hcolor_def hroot_def hd)
    have "tri_inv {j} h \<Longrightarrow> tri_inv {j} t"
      unfolding tri_inv_def tri_inv_upto_def zone_def by (auto simp: ip ed oth [OF j False] c)
    with all_readyD [OF w j] show ?thesis by (simp add: ready_def oth [OF j False])
  qed
  ultimately show "world_ok t" using inv by (simp add: world_ok_def all_ready_def len)
qed

interpretation remove_op: heap_op "\<lambda>h. map_option snd (remove_partition pid sys h)"
  "\<lambda>h. \<forall>p. get_par h pid = Some p \<longrightarrow> arena_capacity p > 0 \<longrightarrow> arena_new (arena_capacity p) sys \<noteq> None"
  "\<lambda>h. {a. in_par h (unat pid) a}" for pid sys
proof
  fix h :: "'p gc_heap"
  assume w: "world_ok h" and pre: "\<forall>p. get_par h pid = Some p \<longrightarrow> arena_capacity p > 0 \<longrightarrow> arena_new (arena_capacity p) sys \<noteq> None"
  show "\<exists>t. map_option snd (remove_partition pid sys h) = Some t \<and> world_ok t \<and> node_dtypes t = node_dtypes h \<and>
      (\<forall>a. ref_reach h a \<longrightarrow> a \<notin> {a. in_par h (unat pid) a} \<longrightarrow> kind t a = kind h a)"
  proof (cases "get_par h pid")
    case None
    with w remove_partition_missing [OF None] show ?thesis by simp
  next
    case (Some p)
    then have i: "unat pid < length (partitions h)" and p: "p = partitions h ! unat pid" by (simp_all add: get_par_Some)
    have ar: "arena_capacity (partitions h ! unat pid) > 0 \<Longrightarrow> arena_new (arena_capacity (partitions h ! unat pid)) sys \<noteq> None"
      using pre Some p by blast
    from remove_partition_correct [OF world_inv [OF w] world_okD(4) [OF w] i ar] obtain n t where
      t: "remove_partition pid sys h = Some (n, t)" "heap_inv t" "scope_ok t" "partition_removed h (unat pid) n t" by blast
    from partition_removed_world [OF w i t(4,2,3)] t(1) show ?thesis by simp
  qed
qed

end
