(* ===== verification/Gc_Memory.thy ===== *)
theory Gc_Memory
  imports Gc_Cycle
begin

text \<open>
  The memory of a heap: which operations leave every node, every counter and every arena where it
  is (\<open>mem_frame\<close>), and that allocation and disposal account for exactly the nodes they add and
  take away (\<open>accounted\<close>).
\<close>

section \<open>Operations that allocate and free nothing\<close>

text \<open>What the memory of a node depends on: its type, its partition and where it came from.\<close>

definition mem_view :: "gc_head \<Rightarrow> u8 \<times> u16 \<times> bool" where
  "mem_view g = (dtype g, partition_id g, contains_flag g ARENA_ALLOC)"

definition par_mem :: "gc_partition \<Rightarrow> usize \<times> gc_arena option" where
  "par_mem p = (memory_used p, arena p)"

definition mem_frame :: "'p gc_heap \<Rightarrow> 'p gc_heap \<Rightarrow> bool" where
  "mem_frame h t \<longleftrightarrow>
     (\<forall>a. map_option mem_view (heads t a) = map_option mem_view (heads h a)) \<and>
     map par_mem (partitions t) = map par_mem (partitions h) \<and>
     node_dtypes t = node_dtypes h \<and> total_memory_used t = total_memory_used h"

lemma mem_frame_refl [simp, intro]: "mem_frame h h"
  by (simp add: mem_frame_def)

lemma mem_frame_trans [trans]: "mem_frame h t \<Longrightarrow> mem_frame t u \<Longrightarrow> mem_frame h u"
  by (simp add: mem_frame_def)

lemma mem_frame_same:
  "heads t = heads h \<Longrightarrow> partitions t = partitions h \<Longrightarrow> node_dtypes t = node_dtypes h \<Longrightarrow>
     total_memory_used t = total_memory_used h \<Longrightarrow> mem_frame h t"
  by (simp add: mem_frame_def)

lemma mem_frame_put_head:
  "heads h a = Some g \<Longrightarrow> mem_view g' = mem_view g \<Longrightarrow> mem_frame h (put_head a g' h)"
  by (simp add: mem_frame_def)

lemma mark_frame_mem_frame:
  assumes fr: "mark_frame h t"
  shows "mem_frame h t"
proof -
  have "map_option mem_view (heads t a) = map_option mem_view (heads h a)" for a
  proof -
    have "map_option (\<lambda>(ty, _, _, fl, p, _). (ty, p, fl)) (map_option shape (heads t a)) =
        map_option (\<lambda>(ty, _, _, fl, p, _). (ty, p, fl)) (map_option shape (heads h a))"
      by (simp add: mark_frame_shape [OF fr])
    moreover have "mem_view = (\<lambda>(ty, _, _, fl, p, _). (ty, p, fl)) \<circ> shape" by (simp add: fun_eq_iff shape_def mem_view_def)
    ultimately show ?thesis by (simp add: option.map_comp)
  qed
  moreover have "map par_mem (partitions t) = map par_mem (partitions h)"
  proof -
    have "map (\<lambda>(_, u, ar, _). (u, ar)) (map par_shape (partitions t)) =
        map (\<lambda>(_, u, ar, _). (u, ar)) (map par_shape (partitions h))"
      using fr by (simp add: mark_frame_def)
    moreover have "par_mem = (\<lambda>(_, u, ar, _). (u, ar)) \<circ> par_shape" by (simp add: fun_eq_iff par_shape_def par_mem_def)
    ultimately show ?thesis by simp
  qed
  ultimately show ?thesis using mark_frame_fields(2,5) [OF fr] by (simp add: mem_frame_def)
qed

lemma flag_view [head_simps, simp]:
  "mem_view (insert_flag ROOT g) = mem_view g" "mem_view (insert_flag LOCAL g) = mem_view g"
  "mem_view (remove_flag LOCAL g) = mem_view g" "mem_view (detach g) = mem_view g"
  "mem_view (g\<lparr>weak_id := w\<rparr>) = mem_view g" "mem_view (g\<lparr>next_ptr := n\<rparr>) = mem_view g"
  "mem_view (set_color c g) = mem_view g" "mem_view (set_gray_listed b g) = mem_view g"
  by (simp_all add: mem_view_def)

subsection \<open>Heads, partitions and loops\<close>

lemma mem_frame_update_head:
  "update_head f a h = Some t \<Longrightarrow> (\<And>g. mem_view (f g) = mem_view g) \<Longrightarrow> mem_frame h t"
  by (auto simp: update_head_Some intro: mem_frame_put_head)

lemma mem_frame_update_par:
  assumes "update_par f pid h = Some t" "\<And>p. par_mem (f p) = par_mem p"
  shows "mem_frame h t"
proof -
  from assms(1) obtain p where p: "get_par h pid = Some p" and t: "t = put_par pid (f p) h"
    by (auto simp: update_par_Some)
  have "par_mem (partitions h ! unat pid) = par_mem (f p)" using p assms(2) by (simp add: get_par_Some)
  then have "map par_mem ((partitions h)[unat pid := f p]) = map par_mem (partitions h)"
    by (metis list_update_id map_update)
  then show ?thesis by (simp add: mem_frame_def t)
qed

lemma mem_frame_fold:
  assumes "fold_opt f xs h = Some t" "\<And>x u v. f x u = Some v \<Longrightarrow> mem_frame u v"
  shows "mem_frame h t"
  using assms(1)
proof (induction xs arbitrary: h)
  case (Cons x xs)
  then obtain u where "f x h = Some u" "fold_opt f xs u = Some t" by (auto simp: bind_eq_Some_conv)
  with assms(2) Cons.IH show ?case using mem_frame_trans by blast
qed simp

lemma par_mem_gray [simp]: "par_mem (p\<lparr>gray_list := x\<rparr>) = par_mem p" "par_mem (p\<lparr>marking := m\<rparr>) = par_mem p"
  "par_mem (p\<lparr>nodes := n\<rparr>) = par_mem p"
  by (simp_all add: par_mem_def)

lemma update_gray_mem_frame:
  "update_par (\<lambda>p. p\<lparr>gray_list := f p\<rparr>) pid h = Some t \<Longrightarrow> mem_frame h t"
  by (erule mem_frame_update_par) simp

text \<open>A head that changes before the rest of the operation runs.\<close>

lemma put_head_then:
  "mem_frame (put_head a g' h) t \<Longrightarrow> heads h a = Some g \<Longrightarrow> mem_view g' = mem_view g \<Longrightarrow> mem_frame h t"
  using mem_frame_trans [OF mem_frame_put_head] .

lemma par_add_gray_mem_frame: "par_add_gray_node pid a h = Some t \<Longrightarrow> mem_frame h t"
  unfolding par_add_gray_node_def
  by (auto simp: bind_eq_Some_conv Let_def split: if_splits dest!: update_gray_mem_frame
      intro: mem_frame_put_head put_head_then)

lemma heap_add_gray_mem_frame: "heap_add_gray_node a h = Some t \<Longrightarrow> mem_frame h t"
  unfolding heap_add_gray_node_def
  by (auto simp: bind_eq_Some_conv split: if_splits intro: par_add_gray_mem_frame)

subsection \<open>Barriers and roots\<close>

lemma payload_mem_frame: "mem_frame h t \<Longrightarrow> mem_frame h (t\<lparr>payloads := x\<rparr>)"
  by (simp add: mem_frame_def)

lemma write_barrier_mem_frame:
  assumes "with_write_barrier a f h = Some (r, t)"
  shows "mem_frame h t"
proof -
  from assms obtain m h1 v where h1: "(if m then
        do { g \<leftarrow> heads h a; c \<leftarrow> color g;
             if c = Black then heap_add_gray_node a (put_head a (set_color Gray g) h) else Some h }
      else Some h) = Some h1" and t: "(let (x, v') = f v in Some (x, h1\<lparr>payloads := (payloads h1)(a \<mapsto> v')\<rparr>)) = Some (r, t)"
    unfolding with_write_barrier_def by (auto simp: bind_eq_Some_conv)
  from h1 have "mem_frame h h1"
    by (auto simp: bind_eq_Some_conv split: if_splits dest!: heap_add_gray_mem_frame intro: put_head_then)
  with t show ?thesis by (cases "f v") (auto intro: payload_mem_frame)
qed

lemma bind_barrier_mem_frame: "bind_barrier m s h = Some t \<Longrightarrow> mem_frame h t"
  unfolding bind_barrier_def
  by (auto simp: bind_eq_Some_conv Let_def split: if_splits option.splits
      dest!: heap_add_gray_mem_frame intro: mem_frame_put_head put_head_then)

lemma put_par_mem_frame:
  "get_par h pid = Some p \<Longrightarrow> par_mem q = par_mem p \<Longrightarrow> mem_frame h (put_par pid q h)"
  using mem_frame_update_par [of "\<lambda>x. if x = p then q else x" pid h] by (auto simp: update_par_Some)

lemma put_both_mem_frame:
  assumes "heads h a = Some g" "mem_view g' = mem_view g" "get_par h pid = Some p" "par_mem q = par_mem p"
  shows "mem_frame h (put_par pid q (put_head a g' h))"
proof -
  have "get_par (put_head a g' h) pid = Some p" using assms(3) by simp
  from mem_frame_trans [OF mem_frame_put_head [OF assms(1,2)] put_par_mem_frame [OF this assms(4)]] show ?thesis .
qed

lemma bind_cross_mem_frame:
  assumes r: "bind_cross m s h = Some t"
  shows "mem_frame h t"
proof -
  from r obtain mg sg where g: "heads h m = Some mg" "heads h s = Some sg"
    by (auto simp: bind_cross_def bind_eq_Some_conv)
  show ?thesis
  proof (cases "get_par h (partition_id sg)")
    case None
    with r g show ?thesis by (auto simp: bind_cross_def bind_eq_Some_conv split: if_splits)
  next
    case (Some q)
    let ?sg = "set_color Gray sg"
    let ?u = "put_par (partition_id sg) (q\<lparr>gray_list := vec_push (gray_list q) s\<rparr>) (put_head s (set_gray_listed True ?sg) h)"
    have "t = h \<or> t = put_head s ?sg h \<or> t = ?u"
      using r g Some by (cases "color sg") (auto simp: bind_cross_def Let_def split: if_splits)
    moreover have "mem_frame h (put_head s ?sg h)" by (rule mem_frame_put_head [OF g(2)]) simp
    moreover have "mem_frame h ?u" by (rule put_both_mem_frame [OF g(2) _ Some]) simp_all
    ultimately show ?thesis by blast
  qed
qed

lemma bind_mem_frame: "bind m s h = Some t \<Longrightarrow> mem_frame h t"
  unfolding bind_def
  by (auto simp: bind_eq_Some_conv intro: mem_frame_trans [OF bind_barrier_mem_frame bind_cross_mem_frame])

lemma set_root_mem_frame: "set_root_node a h = Some t \<Longrightarrow> mem_frame h t"
  unfolding set_root_node_def
  by (auto simp: bind_eq_Some_conv Let_def split: if_splits
      dest!: par_add_gray_mem_frame intro: mem_frame_put_head put_head_then)

subsection \<open>Scopes, weak references and limits\<close>

lemma put_stack_mem_frame: "mem_frame h (put_stack sid st h)"
  by (rule mem_frame_same) (simp_all add: put_stack_def)

lemma put_cache_mem_frame: "put_cache sid k c h = Some t \<Longrightarrow> mem_frame h t"
  unfolding put_cache_def by (auto simp: bind_eq_Some_conv intro: put_stack_mem_frame)

lemma unprotect_mem_frame: "unprotect c h = Some t \<Longrightarrow> mem_frame h t"
  unfolding unprotect_def
  by (auto split: option.splits elim!: mem_frame_fold intro: mem_frame_update_head)

lemma add_node_mem_frame: "add_node sid k a h = Some t \<Longrightarrow> mem_frame h t"
proof -
  assume "add_node sid k a h = Some t"
  then obtain s h1 h2 where "get_scope h sid k = Some s" and h1: "update_head (insert_flag LOCAL) a h = Some h1"
    and h2: "(case get_par h1 (sc_partition_id s) of None \<Rightarrow> Some h1
        | Some par \<Rightarrow> if marking par then par_add_gray_node (sc_partition_id s) a h1 else Some h1) = Some h2"
    and "\<exists>c. put_cache sid k c h2 = Some t"
    unfolding add_node_def bind_eq_Some_conv by blast
  then obtain c where t: "put_cache sid k c h2 = Some t" by blast
  have "mem_frame h h1" by (rule mem_frame_update_head [OF h1]) simp
  also have "mem_frame h1 h2"
    using h2 by (auto split: option.splits if_splits intro: par_add_gray_mem_frame)
  also have "mem_frame h2 t" by (rule put_cache_mem_frame [OF t])
  finally show ?thesis .
qed

lemma add_non_local_mem_frame: "add_non_local sid k a h = Some (r, t) \<Longrightarrow> mem_frame h t"
  unfolding add_non_local_def by (auto simp: bind_eq_Some_conv split: if_splits intro: add_node_mem_frame)

lemma pop_scope_mem_frame: "pop_scope sid h = Some (s, t) \<Longrightarrow> mem_frame h t"
proof -
  assume r: "pop_scope sid h = Some (s, t)"
  then obtain st where st: "get_stack h sid = Some st" by (auto simp: pop_scope_def bind_eq_Some_conv)
  with r show ?thesis
    by (cases "ss_list st" rule: rev_cases) (auto simp: pop_scope_def vec_pop_def intro: put_stack_mem_frame)
qed

lemma scope_mem_frames:
  "new_scope sid h = Some (d, t) \<Longrightarrow> mem_frame h t"
  "scope_drop sid index h = Some t \<Longrightarrow> mem_frame h t"
  "scope_clear sid k h = Some t \<Longrightarrow> mem_frame h t"
  "protect_node sid a h = Some (r, t) \<Longrightarrow> mem_frame h t"
  "remove_node sid k a h = Some (r, t) \<Longrightarrow> mem_frame h t"
  "promote_node_to sid k a tsid tk h = Some (r, t) \<Longrightarrow> mem_frame h t"
proof -
  show "new_scope sid h = Some (d, t) \<Longrightarrow> mem_frame h t"
    unfolding new_scope_def by (auto simp: bind_eq_Some_conv Let_def split: if_splits intro: put_stack_mem_frame)
  show "scope_drop sid index h = Some t \<Longrightarrow> mem_frame h t"
    unfolding scope_drop_def
    by (auto simp: bind_eq_Some_conv dest!: pop_scope_mem_frame split: option.splits
        intro: mem_frame_trans [OF _ unprotect_mem_frame])
  show "scope_clear sid k h = Some t \<Longrightarrow> mem_frame h t"
    unfolding scope_clear_def
    by (auto simp: bind_eq_Some_conv intro: mem_frame_trans [OF put_cache_mem_frame unprotect_mem_frame])
  show "protect_node sid a h = Some (r, t) \<Longrightarrow> mem_frame h t"
    unfolding protect_node_def
    by (auto simp: bind_eq_Some_conv split: option.splits intro: add_non_local_mem_frame)
  show "mem_frame h t" if op: "remove_node sid k a h = Some (r, t)"
  proof -
    from op obtain s where s: "get_scope h sid k = Some s" by (auto simp: remove_node_def bind_eq_Some_conv)
    have "mem_frame h u" if "update_head (remove_flag LOCAL) a v = Some u" "put_cache sid k c h = Some v" for c u v
      using put_cache_mem_frame [OF that(2)] mem_frame_update_head [OF that(1)] mem_frame_trans by simp
    with op s show ?thesis
      by (cases "sc_cache s"; cases "position a (the (sc_cache s))") (auto simp: remove_node_def bind_eq_Some_conv)
  qed
  show "mem_frame h t" if op: "promote_node_to sid k a tsid tk h = Some (r, t)"
  proof -
    from op obtain s where s: "get_scope h sid k = Some s" by (auto simp: promote_node_to_def bind_eq_Some_conv)
    have "mem_frame h u" if "put_cache tsid tk d v = Some u" "put_cache sid k c h = Some v" for c d u v
      using put_cache_mem_frame [OF that(2)] put_cache_mem_frame [OF that(1)] mem_frame_trans by blast
    with op s show ?thesis
      by (cases "sc_cache s"; cases "position a (the (sc_cache s))") (auto simp: promote_node_to_def bind_eq_Some_conv)
  qed
qed

lemma stack_mem_frames:
  "acquire_scope_stack p h = Some (sid, t) \<Longrightarrow> mem_frame h t"
  "release_scope_stack sid' h = Some t \<Longrightarrow> mem_frame h t"
  unfolding acquire_scope_stack_def release_scope_stack_def
  by (auto simp: bind_eq_Some_conv split: option.splits if_splits intro: put_stack_mem_frame mem_frame_same)

lemma downgrade_mem_frame: "downgrade a h = Some (w, t) \<Longrightarrow> mem_frame h t"
  unfolding downgrade_def
  by (auto simp: bind_eq_Some_conv Let_def mem_frame_def split: if_splits option.splits)

lemma limit_mem_frames:
  "mem_frame h (snd (set_memory_limit l h))" "mem_frame h (snd (set_gc_threshold l h))"
  by (auto simp: mem_frame_def set_memory_limit_def set_gc_threshold_def Let_def)

section \<open>Allocation\<close>

text \<open>
  An allocation adds one node and accounts for it.  The arena of the partition is asked first; when
  it has no room, or is not asked, the memory is the one the system allocator returned.
\<close>

definition arena_tried :: "layout \<Rightarrow> gc_arena option \<Rightarrow> gc_arena option \<Rightarrow> bool" where
  "arena_tried l a b \<longleftrightarrow>
     b = a \<or> (\<exists>ar ar'. a = Some ar \<and> arena_alloc l ar = Some (None, ar') \<and> b = Some ar')"

definition arena_gave :: "layout \<Rightarrow> addr \<Rightarrow> gc_arena option \<Rightarrow> gc_arena option \<Rightarrow> bool" where
  "arena_gave l p a b \<longleftrightarrow>
     (\<exists>ar ar'. a = Some ar \<and> arena_alloc l ar = Some (Some p, ar') \<and> b = Some ar')"

definition mem_grown :: "'p gc_heap \<Rightarrow> nat \<Rightarrow> usize \<Rightarrow> 'p gc_heap \<Rightarrow> bool" where
  "mem_grown h i sz t \<longleftrightarrow>
     node_dtypes t = node_dtypes h \<and> total_memory_used t = total_memory_used h + sz \<and>
     length (partitions t) = length (partitions h) \<and> i < length (partitions h) \<and>
     (\<forall>j<length (partitions h).
        memory_used (partitions t ! j) = memory_used (partitions h ! j) + (if j = i then sz else 0) \<and>
        (j \<noteq> i \<longrightarrow> arena (partitions t ! j) = arena (partitions h ! j)))"

definition mem_added :: "'p gc_heap \<Rightarrow> u16 \<Rightarrow> u8 \<Rightarrow> addr option \<Rightarrow> addr \<Rightarrow> layout \<Rightarrow> 'p gc_heap \<Rightarrow> bool" where
  "mem_added h pid gt sys p l t \<longleftrightarrow>
     mem_grown h (unat pid) (l_size l) t \<and>
     (\<exists>fl. (\<forall>a. map_option mem_view (heads t a) =
              (if a = p then Some (gt, pid, fl) else map_option mem_view (heads h a))) \<and>
        (if fl then arena_gave l p (arena (partitions h ! unat pid)) (arena (partitions t ! unat pid))
         else sys = Some p \<and> arena_tried l (arena (partitions h ! unat pid)) (arena (partitions t ! unat pid))))"

definition mem_refused :: "'p gc_heap \<Rightarrow> u16 \<Rightarrow> layout \<Rightarrow> 'p gc_heap \<Rightarrow> bool" where
  "mem_refused h pid l t \<longleftrightarrow>
     mem_grown h (unat pid) 0 t \<and> heads t = heads h \<and>
     arena_tried l (arena (partitions h ! unat pid)) (arena (partitions t ! unat pid))"

lemma mem_frame_par:
  assumes "mem_frame h t" "j < length (partitions h)"
  shows "memory_used (partitions t ! j) = memory_used (partitions h ! j)"
    "arena (partitions t ! j) = arena (partitions h ! j)"
proof -
  have m: "map par_mem (partitions t) = map par_mem (partitions h)" using assms(1) by (simp add: mem_frame_def)
  then have "length (partitions t) = length (partitions h)" by (metis length_map)
  with m assms(2) have "par_mem (partitions t ! j) = par_mem (partitions h ! j)" by (metis nth_map)
  then show "memory_used (partitions t ! j) = memory_used (partitions h ! j)"
    "arena (partitions t ! j) = arena (partitions h ! j)" by (simp_all add: par_mem_def)
qed

lemma mem_frame_len: "mem_frame h t \<Longrightarrow> length (partitions t) = length (partitions h)"
  unfolding mem_frame_def by (metis length_map)

lemma mem_added_frame:
  assumes a: "mem_added h pid gt sys p l t" and fr: "mem_frame t u"
  shows "mem_added h pid gt sys p l u"
proof -
  have len: "length (partitions t) = length (partitions h)" "unat pid < length (partitions h)"
    using a by (simp_all add: mem_added_def mem_grown_def)
  note f = mem_frame_par [OF fr, unfolded len(1)] mem_frame_len [OF fr, unfolded len(1)]
  have v: "map_option mem_view (heads u x) = map_option mem_view (heads t x)" for x
    using fr by (simp add: mem_frame_def)
  have "mem_grown h (unat pid) (l_size l) u"
    using a fr f by (simp add: mem_added_def mem_grown_def mem_frame_def)
  with a show ?thesis unfolding mem_added_def v f(2) [OF len(2)] by blast
qed

lemma fresh_attrs_view:
  "mem_view \<lparr>attrs = fresh_attrs gt, partition_word = ucast pid, weak_id = 0, next_ptr = None\<rparr> = (gt, pid, False)"
  "mem_view \<lparr>attrs = fresh_attrs gt OR ucast ARENA_ALLOC, partition_word = ucast pid, weak_id = 0, next_ptr = None\<rparr> =
     (gt, pid, True)"
proof -
  have ne: "fresh_attrs gt OR ucast ARENA_ALLOC \<noteq> fresh_attrs gt"
  proof
    assume "fresh_attrs gt OR ucast ARENA_ALLOC = fresh_attrs gt"
    then have "bit (fresh_attrs gt OR ucast ARENA_ALLOC) 2 = bit (fresh_attrs gt) 2" by simp
    then show False by (simp add: bit_or_iff bit_flag_u32 bit_fresh_attrs)
  qed
  show "mem_view \<lparr>attrs = fresh_attrs gt, partition_word = ucast pid, weak_id = 0, next_ptr = None\<rparr> = (gt, pid, False)"
    "mem_view \<lparr>attrs = fresh_attrs gt OR ucast ARENA_ALLOC, partition_word = ucast pid, weak_id = 0, next_ptr = None\<rparr> =
       (gt, pid, True)"
    using fresh_head_view(4,5,7) [of "fresh_attrs gt" gt pid]
      fresh_head_view(4,5,7) [of "fresh_attrs gt OR ucast ARENA_ALLOC" gt pid] ne
    by (simp_all add: mem_view_def fresh_head_def)
qed

lemma try_arena_cases:
  assumes r: "try_arena pid skip l h = Some (r, t)"
  shows "\<exists>p q. get_par h pid = Some p \<and> t = put_par pid q h \<and> memory_used q = memory_used p \<and>
    (case r of None \<Rightarrow> arena_tried l (arena p) (arena q) | Some a \<Rightarrow> arena_gave l a (arena p) (arena q))"
proof -
  from r obtain p where p: "get_par h pid = Some p" by (auto simp: try_arena_def bind_eq_Some_conv)
  then have same: "put_par pid p h = h" by (auto simp: put_par_def get_par_Some)
  show ?thesis
  proof (cases "\<not> skip \<and> l_size l \<le> arena_max_alloc p")
    case False
    with r p have "r = None" "t = put_par pid p h" using same by (auto simp: try_arena_def)
    with p show ?thesis by (auto simp: arena_tried_def)
  next
    case True
    show ?thesis
    proof (cases "arena p")
      case None
      with True r p have "r = None" "t = put_par pid p h" using same by (auto simp: try_arena_def)
      with p show ?thesis by (auto simp: arena_tried_def)
    next
      case (Some ar)
      with True r p obtain ar' where "arena_alloc l ar = Some (r, ar')" "t = put_par pid (p\<lparr>arena := Some ar'\<rparr>) h"
        by (auto simp: try_arena_def bind_eq_Some_conv)
      with p Some show ?thesis
        by (intro exI [of _ p] exI [of _ "p\<lparr>arena := Some ar'\<rparr>"])
          (auto simp: arena_tried_def arena_gave_def split: option.splits)
    qed
  qed
qed

lemma write_node_mem:
  assumes r: "write_node pid ats v (l_size l) p (put_par pid q h) = Some t"
    and par: "get_par h pid = Some par" and used: "memory_used q = memory_used par" and sz: "unat (l_size l) < 2 ^ 31"
  shows "mem_grown h (unat pid) (l_size l) t"
    "heads t = (heads h)(p \<mapsto> \<lparr>attrs = ats, partition_word = ucast pid, weak_id = 0, next_ptr = None\<rparr>)"
    "arena (partitions t ! unat pid) = arena q"
proof -
  have i: "unat pid < length (partitions h)" "partitions h ! unat pid = par" using par by (simp_all add: get_par_Some)
  let ?g = "\<lparr>attrs = ats, partition_word = ucast pid, weak_id = 0, next_ptr = None\<rparr>"
  let ?u = "put_head p ?g ((put_par pid q h)\<lparr>payloads := (payloads (put_par pid q h))(p \<mapsto> v)\<rparr>)"
  have gp: "get_par ?u pid = Some q" using i by (simp add: get_par_Some)
  have "t = put_par pid (q\<lparr>memory_used := memory_used q + l_size l\<rparr>)
      (?u\<lparr>total_memory_used := total_memory_used ?u + l_size l\<rparr>)"
    using r update_mem_use_add [OF sz gp] by (simp add: write_node_def)
  then show "mem_grown h (unat pid) (l_size l) t" "heads t = (heads h)(p \<mapsto> ?g)" "arena (partitions t ! unat pid) = arena q"
    using i used by (simp_all add: mem_grown_def)
qed

lemma alloc_node_mem_outcome:
  assumes r: "alloc_node_mem ty gt pid v skip sys h = Some (r, t)"
    and small: "unat (layout_size_of ty) < 2 ^ 31"
  obtains (rejected) e where "r = Inl e" "t = h"
    | (refused) e l where "r = Inl e" "mem_refused h pid l t" "sys = None"
        "layout_from_size_align (layout_size_of ty) (layout_align_of ty) = Some l"
    | (added) p l where "r = Inr (p, l_size l)" "mem_added h pid gt sys p l t"
        "layout_from_size_align (layout_size_of ty) (layout_align_of ty) = Some l"
proof -
  let ?lay = "layout_from_size_align (layout_size_of ty) (layout_align_of ty)"
  show thesis
  proof (cases "get_par h pid = None \<or> ?lay = None \<or> over_limit h (layout_size_of ty)")
    case True
    with r have "t = h \<and> (\<exists>e. r = Inl e)"
      by (auto simp: alloc_node_mem_def over_limit_def layout_from_size_align_def Let_def split: if_splits option.splits)
    with rejected show thesis by blast
  next
    case False
    then obtain par l where p: "get_par h pid = Some par" and l: "?lay = Some l" by auto
    have ls: "l_size l = layout_size_of ty" using l by (auto simp: layout_from_size_align_def split: if_splits)
    from False ls have lim: "\<not> (memory_limit h > 0 \<and> total_memory_used h + l_size l > memory_limit h)"
      by (simp add: over_limit_def)
    from r p l lim obtain s h1 where s: "try_arena pid skip l h = Some (s, h1)" and rest:
      "(case s of
          Some a \<Rightarrow> do { h2 \<leftarrow> write_node pid (fresh_attrs gt OR ucast ARENA_ALLOC) v (l_size l) a h1;
                       Some (Inr (a, l_size l), h2) }
        | None \<Rightarrow>
            (case sys of
               None \<Rightarrow> Some (Inl (AllocationFailed, v), h1)
             | Some a \<Rightarrow> do { h2 \<leftarrow> write_node pid (fresh_attrs gt) v (l_size l) a h1; Some (Inr (a, l_size l), h2) })) = Some (r, t)"
      unfolding alloc_node_mem_def Let_def by (auto simp: bind_eq_Some_conv)
    from try_arena_cases [OF s] p obtain q where q: "h1 = put_par pid q h" "memory_used q = memory_used par"
      "case s of None \<Rightarrow> arena_tried l (arena par) (arena q) | Some a \<Rightarrow> arena_gave l a (arena par) (arena q)" by auto
    have i: "unat pid < length (partitions h)" "partitions h ! unat pid = par" using p by (simp_all add: get_par_Some)
    have sz: "unat (l_size l) < 2 ^ 31" using small ls by simp
    show thesis
    proof (cases s)
      case (Some a)
      with rest q(1) have w: "write_node pid (fresh_attrs gt OR ucast ARENA_ALLOC) v (l_size l) a (put_par pid q h) = Some t"
        and rr: "r = Inr (a, l_size l)" by (auto simp: bind_eq_Some_conv)
      note wm = write_node_mem [OF w p q(2) sz]
      have "mem_added h pid gt sys a l t"
        unfolding mem_added_def using wm q(3) Some i by (auto simp: fresh_attrs_view intro!: exI [of _ True])
      with rr show thesis using l by (rule added)
    next
      case None
      show thesis
      proof (cases sys)
        case None2: None
        with rest None have "r = Inl (AllocationFailed, v)" "t = h1" by auto
        moreover have "mem_refused h pid l h1"
          using q None i by (auto simp: mem_refused_def mem_grown_def nth_list_update)
        ultimately show thesis using refused None2 l by blast
      next
        case (Some a)
        with rest None q(1) have w: "write_node pid (fresh_attrs gt) v (l_size l) a (put_par pid q h) = Some t"
          and rr: "r = Inr (a, l_size l)" by (auto simp: bind_eq_Some_conv)
        note wm = write_node_mem [OF w p q(2) sz]
        have "mem_added h pid gt sys a l t"
          unfolding mem_added_def using wm q(3) None Some i by (auto simp: fresh_attrs_view intro!: exI [of _ False])
        with rr show thesis using l by (rule added)
      qed
    qed
  qed
qed

lemma attach_node_mem_frame: "attach_node pid a h = Some t \<Longrightarrow> mem_frame h t"
proof -
  assume "attach_node pid a h = Some t"
  then obtain p h1 where p: "get_par h pid = Some p" and h1: "update_head (\<lambda>g. g\<lparr>next_ptr := nodes p\<rparr>) a h = Some h1"
    and t: "t = put_par pid (p\<lparr>nodes := Some a\<rparr>) h1"
    by (auto simp: attach_node_def link_prepend_def bind_eq_Some_conv)
  from h1 p have "get_par h1 pid = Some p" by (auto simp: update_head_Some)
  then have "mem_frame h1 t" unfolding t by (rule put_par_mem_frame) simp
  with mem_frame_update_head [OF h1] show ?thesis using mem_frame_trans by simp
qed

text \<open>The three ways to allocate, seen from the memory.\<close>

definition mem_outcome ::
  "'p gc_heap \<Rightarrow> 'p rust_type \<Rightarrow> u8 \<Rightarrow> u16 \<Rightarrow> addr option \<Rightarrow> ('e + addr) \<Rightarrow> 'p gc_heap \<Rightarrow> bool" where
  "mem_outcome h ty gt pid sys r t \<longleftrightarrow>
     (case r of
        Inl e \<Rightarrow> t = h \<or>
          (\<exists>l. layout_from_size_align (layout_size_of ty) (layout_align_of ty) = Some l \<and> mem_refused h pid l t)
      | Inr p \<Rightarrow> \<exists>l. layout_from_size_align (layout_size_of ty) (layout_align_of ty) = Some l \<and>
          mem_added h pid gt sys p l t)"

lemma alloc_raw_mem:
  assumes r: "alloc_raw ty gt pid v sys h = Some (r, t)" and small: "unat (layout_size_of ty) < 2 ^ 31"
  shows "mem_outcome h ty gt pid sys r t"
proof -
  from r obtain x h1 where x: "alloc_node_mem ty gt pid v False sys h = Some (x, h1)"
    and k: "(case x of Inl e \<Rightarrow> Some (Inl e, h1)
        | Inr (p, _) \<Rightarrow> do { h2 \<leftarrow> attach_node pid p h1; Some (Inr p, h2) }) = Some (r, t)"
    by (auto simp: alloc_raw_def bind_eq_Some_conv)
  from x small show ?thesis
  proof (cases rule: alloc_node_mem_outcome)
    case (added p l)
    with k have "attach_node pid p h1 = Some t" "r = Inr p" by (auto simp: bind_eq_Some_conv)
    with added(2,3) mem_added_frame [OF added(2) attach_node_mem_frame] show ?thesis by (auto simp: mem_outcome_def)
  qed (use k in \<open>auto simp: mem_outcome_def\<close>)
qed

lemma alloc_root_raw_mem:
  assumes r: "alloc_root_raw ty gt pid v sys h = Some (r, t)" and small: "unat (layout_size_of ty) < 2 ^ 31"
  shows "mem_outcome h ty gt pid sys r t"
proof -
  from r obtain x h1 where x: "alloc_node_mem ty gt pid v True sys h = Some (x, h1)"
    and k: "(case x of Inl e \<Rightarrow> Some (Inl e, h1)
        | Inr (p, _) \<Rightarrow>
            do { h2 \<leftarrow> update_head (insert_flag ROOT) p h1; h3 \<leftarrow> attach_node pid p h2; m \<leftarrow> is_marking h3 pid;
                 h4 \<leftarrow> (if m then par_add_gray_node pid p h3 else Some h3); Some (Inr p, h4) }) = Some (r, t)"
    by (auto simp: alloc_root_raw_def bind_eq_Some_conv)
  from x small show ?thesis
  proof (cases rule: alloc_node_mem_outcome)
    case (added p l)
    with k obtain h2 h3 m where s: "update_head (insert_flag ROOT) p h1 = Some h2" "attach_node pid p h2 = Some h3"
      "(if m then par_add_gray_node pid p h3 else Some h3) = Some t" "r = Inr p" by (auto simp: bind_eq_Some_conv)
    have "mem_frame h1 h2" by (rule mem_frame_update_head [OF s(1)]) simp
    also have "mem_frame h2 h3" by (rule attach_node_mem_frame [OF s(2)])
    also have "mem_frame h3 t" using s(3) by (auto split: if_splits intro: par_add_gray_mem_frame)
    finally have "mem_added h pid gt sys p l t" by (rule mem_added_frame [OF added(2)])
    with added(3) s(4) show ?thesis by (auto simp: mem_outcome_def)
  qed (use k in \<open>auto simp: mem_outcome_def\<close>)
qed

lemma alloc_local_mem:
  assumes r: "alloc_local ty gt sid k v sys h = Some (r, t)" and s: "get_scope h sid k = Some s"
    and small: "unat (layout_size_of ty) < 2 ^ 31"
  shows "mem_outcome h ty gt (sc_partition_id s) sys r t"
proof -
  from r s obtain x h1 where x: "alloc_raw ty gt (sc_partition_id s) v sys h = Some (x, h1)"
    and q: "(case x of Inl e \<Rightarrow> Some (Inl e, h1) | Inr a \<Rightarrow> do { h2 \<leftarrow> add_node sid k a h1; Some (Inr a, h2) }) = Some (r, t)"
    by (auto simp: alloc_local_def bind_eq_Some_conv)
  from alloc_raw_mem [OF x small] have o: "mem_outcome h ty gt (sc_partition_id s) sys x h1" .
  show ?thesis
  proof (cases x)
    case (Inl e)
    with q o show ?thesis by (auto simp: mem_outcome_def)
  next
    case (Inr a)
    with q have "add_node sid k a h1 = Some t" "r = Inr a" by (auto simp: bind_eq_Some_conv)
    with o Inr mem_added_frame [OF _ add_node_mem_frame] show ?thesis by (fastforce simp: mem_outcome_def)
  qed
qed

end
