(* ===== verification/Gc_Traverse.thy ===== *)
theory Gc_Traverse
  imports Gc_Cycle
begin

text \<open>
  Traversals in the middle of anything: \<open>traverse_start\<close> and \<open>traverse\<close> return on every heap of a
  running program, whatever visited flags earlier traversals have left, and change no other
  bit of it.
\<close>

section \<open>Traversals change visited flags only\<close>

definition visit_frame :: "'p gc_heap \<Rightarrow> 'p gc_heap \<Rightarrow> bool" where
  "visit_frame h t \<longleftrightarrow>
     mark_frame h t \<and> partitions t = partitions h \<and> hcolor t = hcolor h \<and> hlisted t = hlisted h"

lemma visit_frame_refl [simp, intro]: "visit_frame h h"
  by (simp add: visit_frame_def)

lemma visit_frame_trans: "visit_frame h t \<Longrightarrow> visit_frame t u \<Longrightarrow> visit_frame h u"
  using mark_frame_trans by (auto simp: visit_frame_def)

lemma set_traverse_visited_bits [head_simps, simp]:
  "color (set_traverse_visited b g) = color g" "is_gray_listed (set_traverse_visited b g) = is_gray_listed g"
  using arg_cong [OF decode_set_traverse_visited [of b g], of v_color]
    arg_cong [OF decode_set_traverse_visited [of b g], of v_listed] by (simp_all add: decode_def)

lemma visit_frame_visit:
  assumes "heads h a = Some g"
  shows "visit_frame h (put_head a (set_traverse_visited b g) h)"
  using assms mark_frame_put_head [OF assms, of "set_traverse_visited b g"]
  by (auto simp: visit_frame_def fun_eq_iff hcolor_def hlisted_def)

lemma visit_frame_remarked:
  assumes w: "world_ok h" and fr: "visit_frame h t"
  shows "remarked h t"
proof -
  have mf: "mark_frame h t" and p: "partitions t = partitions h" and c: "hcolor t = hcolor h" and l: "hlisted t = hlisted h"
    using fr by (simp_all add: visit_frame_def)
  note ip = in_par_mark_frame [OF mf]
  have "gray_ok t i" if "i < length (partitions h)" for i
    using heap_ok_gray [OF world_okD(2) [OF w] that] by (simp add: gray_ok_def ip l p)
  then have "heap_ok t"
    using heap_okI_mark_frame [OF world_okD(2) [OF w] mf] heap_ok_hcolor_dom [OF world_okD(2) [OF w]] by (simp add: c)
  moreover have "tri_inv S t = tri_inv S h" for S
    by (simp add: tri_inv_def tri_inv_upto_def zone_mark_frame [OF mf] hroot_mark_frame [OF mf] edge_mark_frame [OF mf] ip c p)
  then have "all_ready t" using world_okD(6) [OF w] by (simp add: all_ready_def ready_def p)
  ultimately show ?thesis using mf by (simp add: remarked_def)
qed

section \<open>Traversals return\<close>

lemma traverse_start_returns:
  assumes ok: "heap_ok h" and i: "unat pid < length (partitions h)"
  shows "\<exists>t. traverse_start pid h = Some t \<and> visit_frame h t"
proof -
  let ?body = "\<lambda>a. update_head (set_traverse_visited False) a" and ?xs = "par_list h (unat pid)"
  have p: "get_par h pid = Some (partitions h ! unat pid)" using i by (simp add: get_par_Some)
  have nx: "map_option next_ptr (heads u' b) = map_option next_ptr (heads u b)" if "?body a u = Some u'" for a u u' b
    using that by (auto simp: update_head_Some)
  have e: "for_nodes ?body (nodes (partitions h ! unat pid)) h = fold_opt ?body ?xs h"
    by (rule for_nodes_fold [OF heap_ok_chain [OF ok i]]) (rule nx)
  have "\<exists>t. fold_opt ?body ?xs h = Some t \<and> visit_frame h t"
  proof (rule fold_opt_prefix_rule)
    fix ys x zs t assume s: "?xs = ys @ x # zs" "visit_frame h t"
    have "x \<in> set ?xs" using s(1) by simp
    from dom_in_list [OF ok i this] mark_frame_fields(11) [of h t] s(2) obtain g where g: "heads t x = Some g"
      by (auto simp: visit_frame_def)
    then have "?body x t = Some (put_head x (set_traverse_visited False g) t)" by (simp add: update_head_Some)
    with visit_frame_trans [OF s(2) visit_frame_visit [OF g]]
    show "\<exists>t'. ?body x t = Some t' \<and> visit_frame h t'" by blast
  qed simp
  with e p show ?thesis by (simp add: traverse_start_def)
qed

lemma traverse_loop_returns:
  assumes ok: "heap_ok h0" and cl: "refs_closed h0"
    and fr: "visit_frame h0 h" and st: "set (map fst stack) \<subseteq> dom (heads h0)"
  shows "\<exists>s' t. traverse_loop cb flt stack s h = Some (s', t) \<and> visit_frame h0 t"
  using fr st
proof (induction cb flt stack s h rule: traverse_loop.induct)
  case (1 cb flt s h)
  then show ?case by simp
next
  case (2 cb flt cur parent stack s h)
  have mf: "mark_frame h0 h" using 2(3) by (simp add: visit_frame_def)
  from 2(4) obtain g0 where g0: "heads h0 cur = Some g0" by auto
  from mark_frame_head [OF mf g0] obtain g where g: "heads h cur = Some g" by blast
  have rest: "set (map fst stack) \<subseteq> dom (heads h0)" using 2(4) by simp
  show ?case
  proof (cases "traverse_visited g")
    case True
    from 2(1) [OF g True 2(3) rest] g True show ?thesis by simp
  next
    case False
    let ?h1 = "put_head cur (set_traverse_visited True g) h"
    have fr1: "visit_frame h0 ?h1" by (rule visit_frame_trans [OF 2(3) visit_frame_visit [OF g]])
    then have mf1: "mark_frame h0 ?h1" by (simp add: visit_frame_def)
    from refs_of_heap_ok [OF ok g0] obtain rs where rs: "refs_of h0 cur = Some rs" by blast
    let ?ctx = "run_trace rs (create_trace_ctx ?h1)"
    have tr: "trace_node ?h1 cur (create_trace_ctx ?h1) = Some ?ctx"
      by (simp add: trace_node_refs refs_of_cong [OF mf1] rs)
    have cs: "set (traced_nodes ?ctx) = set rs" by (simp add: run_trace_set create_trace_ctx_def)
    have "edge h0 cur b \<longleftrightarrow> b \<in> set rs" for b by (simp add: edge_def rs)
    then have rd: "set rs \<subseteq> dom (heads h0)" using cl unfolding refs_closed_def by blast
    then have "set (traced_nodes ?ctx) \<subseteq> dom (heads ?h1)" using mark_frame_fields(11) [OF mf1] cs by simp
    from push_children_spec [OF this] obtain st where st:
      "push_children ?h1 cur (traced_nodes ?ctx) stack = Some st" "set (map fst st) \<subseteq> set (map fst stack) \<union> set rs"
      unfolding cs by blast
    have "set (map fst st) \<subseteq> dom (heads h0)" using st(2) rest rd by blast
    from 2(2) [OF g False refl refl tr st(1) fr1 this] g False tr st(1) show ?thesis by (simp add: Let_def)
  qed
qed

lemma traverse_returns:
  assumes "heap_ok h" "refs_closed h" "a \<in> dom (heads h)"
  shows "\<exists>s' t. traverse a flt cb s h = Some (s', t) \<and> visit_frame h t"
  unfolding traverse_def by (rule traverse_loop_returns [OF assms(1,2)]) (use assms(3) in auto)

interpretation traverse_start_op: marker "traverse_start pid" "\<lambda>h. unat pid < length (partitions h)" for pid
proof
  fix h :: "'p gc_heap" assume w: "world_ok h" and i: "unat pid < length (partitions h)"
  from traverse_start_returns [OF world_okD(2) [OF w] i] visit_frame_remarked [OF w]
  show "\<exists>t. traverse_start pid h = Some t \<and> remarked h t" by blast
qed

interpretation traverse_op: marker "\<lambda>h. map_option snd (traverse a flt cb s h)" "\<lambda>h. a \<in> dom (heads h)" for a flt cb s
proof
  fix h :: "'p gc_heap" assume w: "world_ok h" and a: "a \<in> dom (heads h)"
  from traverse_returns [OF world_okD(2) [OF w] part_closed_refs [OF world_okD(5) [OF w]] a, of flt cb s] obtain s' t where
    "traverse a flt cb s h = Some (s', t)" "visit_frame h t" by blast
  with visit_frame_remarked [OF w] show "\<exists>t. map_option snd (traverse a flt cb s h) = Some t \<and> remarked h t" by auto
qed

end
