(* ===== verification/Gc_Demo.thy ===== *)
theory Gc_Demo
  imports Gc_Correct
begin

section \<open>A concrete heap\<close>

text \<open>
  Two partitions and five nodes of one type, the one heap the properties are applied to.  The
  payload of a node is the vector of its references.  Partition 0 holds a root that reaches one
  node through another, and a node nobody refers to; both partitions refer to the other.
\<close>

definition demo_info :: "addr list gc_type_info" where
  "demo_info =
     \<lparr>ti_size = 24, ti_payload_offset = 24, ti_layout_size = 48, ti_layout_align = 8,
      ti_trace_fn = (\<lambda>v. v), ti_drop_fn = True, ti_drop_pass = 0\<rparr>"

definition demo_registry :: "addr list gc_type_registry" where
  "demo_registry = \<lparr>type_info_list = [demo_info], drop_passes = [0]\<rparr>"

definition demo_head :: "u32 \<Rightarrow> u32 \<Rightarrow> u32 \<Rightarrow> addr option \<Rightarrow> gc_head" where
  "demo_head ats pid wk nx = \<lparr>attrs = ats, partition_word = pid, weak_id = wk, next_ptr = nx\<rparr>"

definition demo_par :: "addr option \<Rightarrow> usize \<Rightarrow> gc_partition" where
  "demo_par n used =
     \<lparr>nodes = n, gray_list = [], marking = False, memory_used = used, arena = None,
      arena_capacity = 0, arena_max_alloc = 0\<rparr>"

definition demo_heads :: "addr \<rightharpoonup> gc_head" where
  "demo_heads =
     [0x100 \<mapsto> demo_head 0xFF000020 0 0 (Some 0x140),
      0x140 \<mapsto> demo_head 0xFF000000 0 1 (Some 0x180),
      0x180 \<mapsto> demo_head 0xFF000000 0 0 (Some 0x1C0),
      0x1C0 \<mapsto> demo_head 0xFF000000 0 0x105 None,
      0x200 \<mapsto> demo_head 0xFF000020 1 0 None]"

definition demo_payloads :: "addr \<rightharpoonup> addr list" where
  "demo_payloads =
     [0x100 \<mapsto> [0x180, 0x200], 0x140 \<mapsto> [0x100], 0x180 \<mapsto> [0x140], 0x1C0 \<mapsto> [0x140], 0x200 \<mapsto> [0x100]]"

definition demo_heap :: "addr list gc_heap" where
  "demo_heap =
     \<lparr>node_dtypes = demo_registry, partitions = [demo_par (Some 0x100) 192, demo_par (Some 0x200) 48],
      memory_limit = 1000, gc_threshold = 0, total_memory_used = 240,
      weak_slots = [(1, Some 0x140), (5, Some 0x1C0)], scope_stacks = [scope_stack_new None],
      opaque = 0, heads = demo_heads, payloads = demo_payloads, drop_log = []\<rparr>"

lemmas demo_defs = demo_heap_def demo_heads_def demo_payloads_def demo_par_def demo_head_def
  demo_registry_def demo_info_def

lemmas head_eval = color_def color_try_from_def COLOR_MASK_def dtype_def partition_id_def
  is_root_or_local_def flags_def from_bits_truncate_def flags_intersects_def ROOT_def LOCAL_def
  ARENA_ALLOC_def GRAY_LISTED_def TRAVERSE_VISITED_def is_gray_listed_def contains_flag_def
  weak_is_null_def weak_version_def weak_index_def weak_new_def

lemma demo_dom: "heads demo_heap a \<noteq> None \<longleftrightarrow> a \<in> {0x100, 0x140, 0x180, 0x1C0, 0x200}"
  by (simp add: demo_defs)

lemma demo_cases:
  assumes "heads demo_heap a = Some g"
  obtains "a = 0x100" "g = demo_head 0xFF000020 0 0 (Some 0x140)"
  | "a = 0x140" "g = demo_head 0xFF000000 0 1 (Some 0x180)"
  | "a = 0x180" "g = demo_head 0xFF000000 0 0 (Some 0x1C0)"
  | "a = 0x1C0" "g = demo_head 0xFF000000 0 0x105 None"
  | "a = 0x200" "g = demo_head 0xFF000020 1 0 None"
  using assms by (auto simp: demo_heap_def demo_heads_def split: if_splits)

lemma demo_chains:
  "chain (heads demo_heap) (Some 0x100) [0x100, 0x140, 0x180, 0x1C0]"
  "chain (heads demo_heap) (Some 0x200) [0x200]"
  by (simp_all add: demo_defs)

lemma demo_lists:
  "par_list demo_heap 0 = [0x100, 0x140, 0x180, 0x1C0]" "par_list demo_heap (Suc 0) = [0x200]"
  using demo_chains by (auto intro!: par_list_chain simp: demo_heap_def demo_par_def)

lemma demo_node_view:
  "color (demo_head 0xFF000020 p w n) = Some White" "color (demo_head 0xFF000000 p w n) = Some White"
  "dtype (demo_head 0xFF000020 p w n) = 0" "dtype (demo_head 0xFF000000 p w n) = 0"
  "is_root_or_local (demo_head 0xFF000020 p w n)" "\<not> is_root_or_local (demo_head 0xFF000000 p w n)"
  "\<not> is_gray_listed (demo_head 0xFF000020 p w n)" "\<not> is_gray_listed (demo_head 0xFF000000 p w n)"
  "\<not> contains_flag (demo_head 0xFF000020 p w n) ARENA_ALLOC"
  "\<not> contains_flag (demo_head 0xFF000000 p w n) ARENA_ALLOC"
  "partition_id (demo_head ats 0 w n) = 0" "partition_id (demo_head ats 1 w n) = 1"
  "weak_id (demo_head ats p w n) = w" "next_ptr (demo_head ats p w n) = n"
  by (simp_all add: demo_head_def head_eval)

lemma demo_type: "type_info demo_heap 0 = Some demo_info"
  by (simp add: type_info_def demo_heap_def demo_registry_def vec_get_def)

lemma demo_at:
  "heads demo_heap 0x100 = Some (demo_head 0xFF000020 0 0 (Some 0x140))"
  "heads demo_heap 0x140 = Some (demo_head 0xFF000000 0 1 (Some 0x180))"
  "heads demo_heap 0x180 = Some (demo_head 0xFF000000 0 0 (Some 0x1C0))"
  "heads demo_heap 0x1C0 = Some (demo_head 0xFF000000 0 0x105 None)"
  "heads demo_heap 0x200 = Some (demo_head 0xFF000020 1 0 None)"
  "payloads demo_heap 0x100 = Some [0x180, 0x200]" "payloads demo_heap 0x140 = Some [0x100]"
  "payloads demo_heap 0x180 = Some [0x140]" "payloads demo_heap 0x1C0 = Some [0x140]"
  "payloads demo_heap 0x200 = Some [0x100]"
  by (simp_all add: demo_heap_def demo_heads_def demo_payloads_def)

lemma demo_fields:
  "node_dtypes demo_heap = demo_registry" "memory_limit demo_heap = 1000"
  "weak_slots demo_heap = [(1, Some 0x140), (5, Some 0x1C0)]"
  "partitions demo_heap = [demo_par (Some 0x100) 192, demo_par (Some 0x200) 48]"
  "gray_list (demo_par n u) = []" "\<not> marking (demo_par n u)" "nodes (demo_par n u) = n"
  "arena (demo_par n u) = None" "memory_used (demo_par n u) = u" "total_memory_used demo_heap = 240"
  by (simp_all add: demo_heap_def demo_par_def)

lemma demo_par_index: "i < length (partitions demo_heap) \<longleftrightarrow> i = 0 \<or> i = Suc 0"
  by (auto simp: demo_fields)

lemma demo_unlisted: "\<not> hlisted demo_heap a"
  by (auto simp: hlisted_def demo_node_view elim!: demo_cases)

lemma demo_heap_ok: "heap_ok demo_heap"
  unfolding heap_ok_def
proof (intro conjI allI impI)
  fix i assume "i < length (partitions demo_heap)"
  then have i: "i = 0 \<or> i = Suc 0" by (simp only: demo_par_index)
  then show "chain (heads demo_heap) (nodes (partitions demo_heap ! i)) (par_list demo_heap i)"
    using demo_chains by (auto simp: demo_lists demo_fields)
  show "\<forall>a\<in>set (par_list demo_heap i). node_ok demo_heap i a"
    using i by (auto simp: demo_lists node_ok_def demo_type demo_at demo_node_view)
  show "gray_ok demo_heap i"
    using i by (auto simp: gray_ok_def demo_unlisted demo_fields)
next
  show "length (partitions demo_heap) \<le> 2 ^ 16" by (simp add: demo_fields)
  show "dom (heads demo_heap) \<subseteq> (\<Union>i<length (partitions demo_heap). set (par_list demo_heap i))"
  proof
    fix a assume "a \<in> dom (heads demo_heap)"
    then have "a \<in> set (par_list demo_heap 0) \<union> set (par_list demo_heap (Suc 0))"
      using demo_dom [of a] by (auto simp: demo_lists)
    then show "a \<in> (\<Union>i<length (partitions demo_heap). set (par_list demo_heap i))"
      using demo_par_index by blast
  qed
qed

lemma demo_weak_ok: "weak_ok demo_heap"
  unfolding weak_ok_def
proof (intro conjI allI impI)
  fix i a assume "i < length (weak_slots demo_heap)" "snd (weak_slots demo_heap ! i) = Some a"
  then have "i = 0 \<and> a = 0x140 \<or> i = Suc 0 \<and> a = 0x1C0" by (auto simp: demo_fields less_Suc_eq)
  then show "\<exists>g. heads demo_heap a = Some g \<and>
      weak_id g = weak_new (of_nat i) (fst (weak_slots demo_heap ! i)) \<and> fst (weak_slots demo_heap ! i) \<noteq> 0"
    by (auto simp: demo_fields demo_at demo_node_view weak_new_def)
next
  fix a g assume g: "heads demo_heap a = Some g" "\<not> weak_is_null (weak_id g)"
  have "\<exists>i<2. [(1, Some 0x140), (5, Some 0x1C0)] ! i = (weak_version (weak_id g), Some a) \<and>
      weak_id g = weak_new (of_nat i) (weak_version (weak_id g))"
    using g(1)
  proof (cases rule: demo_cases)
    case 2
    then show ?thesis by (intro exI [of _ 0]) (simp add: demo_node_view head_eval)
  next
    case 4
    then show ?thesis by (intro exI [of _ 1]) (simp add: demo_node_view head_eval)
  qed (use g(2) in \<open>simp_all add: demo_node_view weak_is_null_def weak_version_def\<close>)
  then show "\<exists>i<length (weak_slots demo_heap). weak_slots demo_heap ! i = (weak_version (weak_id g), Some a) \<and>
      weak_id g = weak_new (of_nat i) (weak_version (weak_id g))"
    by (simp add: demo_fields numeral_2_eq_2)
qed (simp add: demo_fields)

lemma demo_inv: "heap_inv demo_heap"
proof -
  have "disp_ok demo_heap"
    by (auto simp: disp_ok_def demo_weak_ok demo_node_view demo_type demo_fields elim!: demo_cases)
       (auto simp: demo_info_def)
  moreover have "passes_ok demo_heap"
    by (auto simp: passes_ok_def pass_is_def demo_node_view demo_type demo_fields elim!: demo_cases)
       (simp_all add: demo_registry_def demo_info_def demo_at demo_node_view demo_type)
  moreover have "arena_nodes_ok demo_heap"
    by (auto simp: arena_nodes_ok_def in_arena_def demo_node_view elim!: demo_cases)
  ultimately show ?thesis by (simp add: heap_inv_def demo_heap_ok)
qed

subsection \<open>Its reference graph\<close>

lemma demo_edge:
  "edge demo_heap a b \<longleftrightarrow>
     (a, b) \<in> {(0x100, 0x180), (0x100, 0x200), (0x140, 0x100), (0x180, 0x140), (0x1C0, 0x140), (0x200, 0x100)}"
proof (cases "heads demo_heap a")
  case None
  then have "a \<notin> {0x100, 0x140, 0x180, 0x1C0, 0x200}" using demo_dom [of a] by simp
  with None show ?thesis by (auto simp: edge_def refs_of_def)
next
  case (Some g)
  then show ?thesis
    by (cases rule: demo_cases) (simp_all add: edge_def refs_of_def demo_at demo_node_view demo_type demo_info_def)
qed

lemma demo_closed: "refs_closed demo_heap"
  by (auto simp: refs_closed_def demo_edge dom_def demo_at)

lemma demo_in_par:
  "in_par demo_heap i a \<longleftrightarrow> i = 0 \<and> a \<in> {0x100, 0x140, 0x180, 0x1C0} \<or> i = 1 \<and> a = 0x200"
proof (cases "heads demo_heap a")
  case None
  then have "a \<notin> {0x100, 0x140, 0x180, 0x1C0, 0x200}" using demo_dom [of a] by simp
  with None show ?thesis by (auto simp: in_par_def)
next
  case (Some g)
  then show ?thesis
    by (cases rule: demo_cases) (auto simp: in_par_def demo_at demo_node_view)
qed

lemma demo_root: "hroot demo_heap a \<longleftrightarrow> a = 0x100 \<or> a = 0x200"
  by (auto simp: hroot_def demo_node_view demo_at elim!: demo_cases)

lemma demo_reach: "reach_in {0} demo_heap a \<longleftrightarrow> a \<in> {0x100, 0x180, 0x140}"
proof
  assume "reach_in {0} demo_heap a"
  then show "a \<in> {0x100, 0x180, 0x140}"
    by induction (auto simp: zone_def demo_in_par demo_root demo_edge)
next
  have 1: "reach_in {0} demo_heap 0x100"
    by (rule reach_in.root) (simp_all add: zone_def demo_in_par demo_root)
  have 2: "reach_in {0} demo_heap 0x180"
    by (rule reach_in.step [OF 1]) (simp_all add: zone_def demo_in_par demo_edge)
  have 3: "reach_in {0} demo_heap 0x140"
    by (rule reach_in.step [OF 2]) (simp_all add: zone_def demo_in_par demo_edge)
  assume "a \<in> {0x100, 0x180, 0x140}"
  with 1 2 3 show "reach_in {0} demo_heap a" by auto
qed

lemma demo_par0: "get_par demo_heap 0 = Some (demo_par (Some 0x100) 192)"
  by (simp add: get_par_def demo_fields vec_get_def)

lemma demo_sizes: "a \<in> {0x100, 0x140, 0x180, 0x1C0, 0x200} \<Longrightarrow> node_size demo_heap a = 48"
  by (auto simp: node_size_def demo_at demo_node_view demo_type demo_info_def)

subsection \<open>The heap at the start of a marking cycle\<close>

lemma demo_started:
  obtains h where "mark_prepare 0 demo_heap = Some h" "mark_frame demo_heap h" "heap_inv h" "refs_closed h"
    "tri_inv {0, 1} h" "tri_inv {0} h" "pmarking h 0" "pmarking h 1" "length (partitions h) = 2"
    "set (glist h 0) = {0x100}"
    "\<And>a. a \<in> {0x140, 0x180, 0x1C0} \<Longrightarrow> hcolor h a = Some White" "hcolor h 0x100 = Some Gray"
proof -
  obtain h where h: "mark_prepare 0 demo_heap = Some h" "mark_frame demo_heap h" "heap_ok h"
      "\<forall>j<length (partitions demo_heap). pmarking h j \<and> seeded demo_heap j h"
    using mark_prepare_correct [OF demo_heap_ok demo_par0] by (auto simp: demo_par_def)
  have s: "pmarking h j" "seeded demo_heap j h \<and> glist demo_heap j = []" if "j \<in> {0, 1}" for j
    using h(4) that by (auto simp: demo_fields)
  have t: "tri_inv {0, 1} h" "tri_inv {0} h"
    by (rule seeded_tri_inv [OF h(2)], rule s(2), simp)+
  have s0: "\<forall>a. in_par demo_heap 0 a \<longrightarrow> hcolor h a = Some (if hroot demo_heap a then Gray else White)"
    "set (glist h 0) = {a. in_par demo_heap 0 a \<and> hroot demo_heap a}"
    using s(2) [of 0] unfolding seeded_def by simp_all
  have g: "set (glist h 0) = {0x100}" unfolding s0(2) demo_in_par demo_root by auto
  have c: "hcolor h a = Some White" if "a \<in> {0x140, 0x180, 0x1C0}" for a
    using s0(1) that by (auto simp: demo_in_par demo_root)
  have c0: "hcolor h 0x100 = Some Gray" using s0(1) by (simp add: demo_in_par demo_root)
  have cl: "refs_closed h"
    using demo_closed unfolding refs_closed_def edge_mark_frame [OF h(2)] mark_frame_fields(11) [OF h(2)] .
  have l: "length (partitions h) = 2" using mark_frame_fields(10) [OF h(2)] by (simp add: demo_fields)
  show thesis
    by (rule that [OF h(1,2) heap_inv_mark_frame [OF demo_inv h(2,3)] cl t s(1) s(1) l g c c0]) simp_all
qed

end
