(* ===== verification/Gc_Program.thy ===== *)
theory Gc_Program
  imports Gc_Traverse Gc_Demo
begin

text \<open>
  Programs that use the library: the calls of a client as commands, what a client has to respect
  when it makes them, and the heaps it can reach.  Each command is the operation of the model
  with its result dropped; the theories before interpret the contract \<open>heap_op\<close> on every one.
\<close>

section \<open>Commands\<close>

datatype 'p command =
    Create_Partition usize usize "addr option"
  | Remove_Partition u16 "addr option"
  | Alloc "'p rust_type" u8 u16 'p "addr option"
  | Alloc_Root "'p rust_type" u8 u16 'p "addr option"
  | Alloc_Local "'p rust_type" u8 u16 nat 'p "addr option"
  | Write addr "'p \<Rightarrow> 'p"
  | Store_Bind addr addr 'p
  | Set_Root addr
  | New_Scope u16
  | Drop_Scope u16 u32
  | Clear_Scope u16 nat
  | Protect u16 addr
  | Remove_Node u16 nat addr
  | Promote u16 nat addr u16 nat
  | Acquire_Stack u16
  | Release_Stack u16
  | Downgrade addr
  | Set_Memory_Limit usize
  | Set_Gc_Threshold usize
  | Set_Opaque addr
  | Traverse_Start u16
  | Traverse addr "u16 option"
  | Mark u16 usize
  | Mark_Reset u16
  | Collect_White u16
  | Sweep u16
  | Garbage_Collect u16

fun exec :: "'p command \<Rightarrow> 'p gc_heap \<Rightarrow> 'p gc_heap option" where
  "exec (Create_Partition cap ma sys) h = map_option snd (create_partition cap ma sys h)"
| "exec (Remove_Partition pid sys) h = map_option snd (remove_partition pid sys h)"
| "exec (Alloc ty gt pid v sys) h = map_option snd (alloc_raw ty gt pid v sys h)"
| "exec (Alloc_Root ty gt pid v sys) h = map_option snd (alloc_root_raw ty gt pid v sys h)"
| "exec (Alloc_Local ty gt sid k v sys) h = map_option snd (alloc_local ty gt sid k v sys h)"
| "exec (Write a f) h = map_option snd (with_write_barrier a (\<lambda>v. ((), f v)) h)"
| "exec (Store_Bind m s w) h = bind m s (h\<lparr>payloads := (payloads h)(m \<mapsto> w)\<rparr>)"
| "exec (Set_Root a) h = set_root_node a h"
| "exec (New_Scope sid) h = map_option snd (new_scope sid h)"
| "exec (Drop_Scope sid index) h = scope_drop sid index h"
| "exec (Clear_Scope sid k) h = scope_clear sid k h"
| "exec (Protect sid a) h = map_option snd (protect_node sid a h)"
| "exec (Remove_Node sid k a) h = map_option snd (remove_node sid k a h)"
| "exec (Promote sid k a tsid tk) h = map_option snd (promote_node_to sid k a tsid tk h)"
| "exec (Acquire_Stack p) h = map_option snd (acquire_scope_stack p h)"
| "exec (Release_Stack sid) h = release_scope_stack sid h"
| "exec (Downgrade a) h = map_option snd (downgrade a h)"
| "exec (Set_Memory_Limit l) h = Some (snd (set_memory_limit l h))"
| "exec (Set_Gc_Threshold l) h = Some (snd (set_gc_threshold l h))"
| "exec (Set_Opaque p) h = Some (set_opaque p h)"
| "exec (Traverse_Start pid) h = traverse_start pid h"
| "exec (Traverse a flt) h = map_option snd (traverse a flt (\<lambda>_ _ s. s) () h)"
| "exec (Mark pid m) h = map_option snd (mark pid m h)"
| "exec (Mark_Reset pid) h = mark_reset pid h"
| "exec (Collect_White pid) h = map_option snd (collect_white pid h)"
| "exec (Sweep pid) h = map_option (snd \<circ> snd) (sweep pid (\<lambda>_ _ c. c) () h)"
| "exec (Garbage_Collect pid) h = map_option snd (garbage_collect pid h)"

text \<open>
  What a client has to respect: it passes nodes that are alive and partitions, stacks and scopes
  that exist, stores references inside a partition only, announces a store that adds a reference
  to the barrier, and releases a stack when its scopes are gone.  Of the environment it is asked
  that the system allocator finds memory for an arena and never returns a live node.
\<close>

fun allowed :: "'p command \<Rightarrow> 'p gc_heap \<Rightarrow> bool" where
  "allowed (Create_Partition cap ma sys) h \<longleftrightarrow>
     length (partitions h) < 2 ^ 16 \<and> (cap > 0 \<longrightarrow> arena_new cap sys \<noteq> None)"
| "allowed (Remove_Partition pid sys) h \<longleftrightarrow>
     (\<forall>p. get_par h pid = Some p \<longrightarrow> arena_capacity p > 0 \<longrightarrow> arena_new (arena_capacity p) sys \<noteq> None)"
| "allowed (Alloc ty gt pid v sys) h \<longleftrightarrow> may_alloc ty gt pid v sys h"
| "allowed (Alloc_Root ty gt pid v sys) h \<longleftrightarrow> may_alloc ty gt pid v sys h"
| "allowed (Alloc_Local ty gt sid k v sys) h \<longleftrightarrow>
     (\<exists>s. get_scope h sid k = Some s \<and> may_alloc ty gt (sc_partition_id s) v sys h)"
| "allowed (Write a f) h \<longleftrightarrow> (\<exists>v. payloads h a = Some v \<and> may_store h a (f v))"
| "allowed (Store_Bind m s w) h \<longleftrightarrow> may_bind m s w h"
| "allowed (Set_Root a) h \<longleftrightarrow> a \<in> dom (heads h)"
| "allowed (New_Scope sid) h \<longleftrightarrow>
     (\<exists>st. get_stack h sid = Some st \<and> ss_partition st \<noteq> None \<and> length (ss_list st) < 2 ^ 32 - 1)"
| "allowed (Drop_Scope sid index) h \<longleftrightarrow> get_stack h sid \<noteq> None"
| "allowed (Clear_Scope sid k) h \<longleftrightarrow> get_scope h sid k \<noteq> None"
| "allowed (Protect sid a) h \<longleftrightarrow>
     (\<exists>st. get_stack h sid = Some st \<and> (ss_list st \<noteq> [] \<longrightarrow> may_hold h (last (ss_list st)) a))"
| "allowed (Remove_Node sid k a) h \<longleftrightarrow> get_scope h sid k \<noteq> None"
| "allowed (Promote sid k a tsid tk) h \<longleftrightarrow>
     (\<exists>s tgt. get_scope h sid k = Some s \<and> get_scope h tsid tk = Some tgt \<and> (tsid, tk) \<noteq> (sid, k) \<and>
        sc_partition_id tgt = sc_partition_id s)"
| "allowed (Acquire_Stack p) h \<longleftrightarrow>
     length (scope_stacks h) < 2 ^ 16 \<or> (\<exists>st\<in>set (scope_stacks h). ss_partition st = None)"
| "allowed (Release_Stack sid) h \<longleftrightarrow> (\<exists>st. get_stack h sid = Some st \<and> ss_list st = [])"
| "allowed (Downgrade a) h \<longleftrightarrow> a \<in> dom (heads h) \<and> length (weak_slots h) < 2 ^ 24 - 1"
| "allowed (Traverse_Start pid) h \<longleftrightarrow> unat pid < length (partitions h)"
| "allowed (Traverse a flt) h \<longleftrightarrow> a \<in> dom (heads h)"
| "allowed (Mark pid m) h \<longleftrightarrow> unat pid < length (partitions h)"
| "allowed (Mark_Reset pid) h \<longleftrightarrow> unat pid < length (partitions h)"
| "allowed c h \<longleftrightarrow> True"

text \<open>The nodes a command takes away on purpose.\<close>

fun taken :: "'p command \<Rightarrow> 'p gc_heap \<Rightarrow> addr set" where
  "taken (Remove_Partition pid sys) h = {a. in_par h (unat pid) a}"
| "taken c h = {}"

definition safe_step :: "'p command \<Rightarrow> 'p gc_heap \<Rightarrow> bool" where
  "safe_step c h \<longleftrightarrow>
     (\<exists>t. exec c h = Some t \<and> world_ok t \<and> node_dtypes t = node_dtypes h \<and>
        (\<forall>a. ref_reach h a \<longrightarrow> a \<notin> taken c h \<longrightarrow> kind t a = kind h a))"

lemma exec_safe:
  assumes w: "world_ok h" and a: "allowed c h"
  shows "safe_step c h"
proof (cases c)
  case (Create_Partition cap ma sys)
  show ?thesis unfolding Create_Partition safe_step_def exec.simps taken.simps
    by (rule create_op.op_safe [OF w]) (use a in \<open>simp add: Create_Partition\<close>)
next
  case (Remove_Partition pid sys)
  show ?thesis unfolding Remove_Partition safe_step_def exec.simps taken.simps
    by (rule remove_op.op_safe [OF w]) (use a in \<open>simp add: Remove_Partition\<close>)
next
  case (Alloc ty gt pid v sys)
  show ?thesis unfolding Alloc safe_step_def exec.simps taken.simps
    by (rule alloc_op.op_safe [OF w]) (use a in \<open>simp add: Alloc\<close>)
next
  case (Alloc_Root ty gt pid v sys)
  show ?thesis unfolding Alloc_Root safe_step_def exec.simps taken.simps
    by (rule alloc_root_op.op_safe [OF w]) (use a in \<open>simp add: Alloc_Root\<close>)
next
  case (Alloc_Local ty gt sid k v sys)
  show ?thesis unfolding Alloc_Local safe_step_def exec.simps taken.simps
    by (rule alloc_local_op.op_safe [OF w]) (use a in \<open>simp add: Alloc_Local\<close>)
next
  case (Write x f)
  show ?thesis unfolding Write safe_step_def exec.simps taken.simps
    by (rule write_op.op_safe [OF w]) (use a in \<open>simp add: Write\<close>)
next
  case (Store_Bind m s v)
  show ?thesis unfolding Store_Bind safe_step_def exec.simps taken.simps
    by (rule bind_op.op_safe [OF w]) (use a in \<open>simp add: Store_Bind\<close>)
next
  case (Set_Root x)
  show ?thesis unfolding Set_Root safe_step_def exec.simps taken.simps
    by (rule set_root_op.op_safe [OF w]) (use a in \<open>simp add: Set_Root\<close>)
next
  case (New_Scope sid)
  show ?thesis unfolding New_Scope safe_step_def exec.simps taken.simps
    by (rule new_scope_op.op_safe [OF w]) (use a in \<open>simp add: New_Scope\<close>)
next
  case (Drop_Scope sid index)
  show ?thesis unfolding Drop_Scope safe_step_def exec.simps taken.simps
    by (rule drop_scope_op.op_safe [OF w]) (use a in \<open>simp add: Drop_Scope\<close>)
next
  case (Clear_Scope sid k)
  show ?thesis unfolding Clear_Scope safe_step_def exec.simps taken.simps
    by (rule clear_scope_op.op_safe [OF w]) (use a in \<open>simp add: Clear_Scope\<close>)
next
  case (Protect sid x)
  show ?thesis unfolding Protect safe_step_def exec.simps taken.simps
    by (rule protect_op.op_safe [OF w]) (use a in \<open>simp add: Protect\<close>)
next
  case (Remove_Node sid k x)
  show ?thesis unfolding Remove_Node safe_step_def exec.simps taken.simps
    by (rule remove_node_op.op_safe [OF w]) (use a in \<open>simp add: Remove_Node\<close>)
next
  case (Promote sid k x tsid tk)
  show ?thesis unfolding Promote safe_step_def exec.simps taken.simps
    by (rule promote_op.op_safe [OF w]) (use a in \<open>simp add: Promote\<close>)
next
  case (Acquire_Stack p)
  show ?thesis unfolding Acquire_Stack safe_step_def exec.simps taken.simps
    by (rule acquire_op.op_safe [OF w]) (use a in \<open>simp add: Acquire_Stack\<close>)
next
  case (Release_Stack sid)
  show ?thesis unfolding Release_Stack safe_step_def exec.simps taken.simps
    by (rule release_op.op_safe [OF w]) (use a in \<open>simp add: Release_Stack\<close>)
next
  case (Downgrade x)
  show ?thesis unfolding Downgrade safe_step_def exec.simps taken.simps
    by (rule downgrade_op.op_safe [OF w]) (use a in \<open>simp add: Downgrade\<close>)
next
  case (Set_Memory_Limit l)
  show ?thesis unfolding Set_Memory_Limit safe_step_def exec.simps taken.simps
    by (rule memory_limit_op.op_safe [OF w]) (use a in \<open>simp add: Set_Memory_Limit\<close>)
next
  case (Set_Gc_Threshold l)
  show ?thesis unfolding Set_Gc_Threshold safe_step_def exec.simps taken.simps
    by (rule gc_threshold_op.op_safe [OF w]) (use a in \<open>simp add: Set_Gc_Threshold\<close>)
next
  case (Set_Opaque p)
  show ?thesis unfolding Set_Opaque safe_step_def exec.simps taken.simps
    by (rule set_opaque_op.op_safe [OF w]) (use a in \<open>simp add: Set_Opaque\<close>)
next
  case (Traverse_Start pid)
  show ?thesis unfolding Traverse_Start safe_step_def exec.simps taken.simps
    by (rule traverse_start_op.op_safe [OF w]) (use a in \<open>simp add: Traverse_Start\<close>)
next
  case (Traverse x flt)
  show ?thesis unfolding Traverse safe_step_def exec.simps taken.simps
    by (rule traverse_op.op_safe [OF w]) (use a in \<open>simp add: Traverse\<close>)
next
  case (Mark pid m)
  show ?thesis unfolding Mark safe_step_def exec.simps taken.simps
    by (rule mark_op.op_safe [OF w]) (use a in \<open>simp add: Mark\<close>)
next
  case (Mark_Reset pid)
  show ?thesis unfolding Mark_Reset safe_step_def exec.simps taken.simps
    by (rule mark_reset_op.op_safe [OF w]) (use a in \<open>simp add: Mark_Reset\<close>)
next
  case (Collect_White pid)
  show ?thesis unfolding Collect_White safe_step_def exec.simps taken.simps
    by (rule collect_op.op_safe [OF w]) (use a in \<open>simp add: Collect_White\<close>)
next
  case (Sweep pid)
  show ?thesis unfolding Sweep safe_step_def exec.simps taken.simps
    by (rule sweep_op.op_safe [OF w]) (use a in \<open>simp add: Sweep\<close>)
next
  case (Garbage_Collect pid)
  show ?thesis unfolding Garbage_Collect safe_step_def exec.simps taken.simps
    by (rule gc_op.op_safe [OF w]) (use a in \<open>simp add: Garbage_Collect\<close>)
qed

section \<open>Reachable heaps\<close>

inductive gc_reachable :: "'p gc_type_registry \<Rightarrow> 'p gc_heap \<Rightarrow> bool" for reg where
  start: "gc_reachable reg (heap_new reg)"
| step: "gc_reachable reg h \<Longrightarrow> allowed c h \<Longrightarrow> exec c h = Some t \<Longrightarrow> gc_reachable reg t"

lemma world_new:
  assumes "distinct (drop_passes reg)"
  shows "world_ok (heap_new reg)"
proof -
  let ?h = "heap_new reg"
  have f: "partitions ?h = []" "heads ?h = Map.empty" "scope_stacks ?h = [scope_stack_new None]" "weak_slots ?h = []"
    "node_dtypes ?h = reg" by (simp_all add: heap_new_def)
  have e: "\<not> edge ?h a b" for a b by (simp add: edge_def refs_of_def f)
  have l: "local_nodes ?h = []" by (simp add: local_nodes_def stack_nodes_def f scope_stack_new_def)
  have hl: "held ?h = {}" by (auto simp: held_def get_scope_def get_stack_def vec_get_def f scope_stack_new_def)
  have "heap_inv ?h"
    using assms by (simp add: heap_inv_def heap_ok_def disp_ok_def weak_ok_def passes_ok_def arena_nodes_ok_def f in_par_def)
  moreover have "scope_ok ?h"
    using l by (simp add: scope_ok_def stack_ok_def f scope_stack_new_def hlocal_def)
  ultimately show ?thesis by (simp add: world_ok_def scopes_own_def hl part_closed_def e all_ready_def f)
qed

lemma reachable_world:
  assumes "gc_reachable reg h" "distinct (drop_passes reg)"
  shows "world_ok h" "node_dtypes h = reg"
proof -
  have "world_ok h \<and> node_dtypes h = reg"
    using assms(1)
  proof induction
    case start
    show ?case using world_new [OF assms(2)] by (simp add: heap_new_def)
  next
    case (step h c t)
    then show ?case using exec_safe [of h c] by (auto simp: safe_step_def)
  qed
  then show "world_ok h" "node_dtypes h = reg" by simp_all
qed

section \<open>A small program\<close>

definition demo_type :: "addr list rust_type" where
  "demo_type = \<lparr>size_of = 24, align_of = 8, needs_drop = True, trace_impl = \<lambda>v. v\<rparr>"

lemma demo_type_layout:
  "layout_size_of demo_type = 48" "layout_align_of demo_type = 8"
  "layout_from_size_align 48 8 = Some \<lparr>l_size = 48, l_align = 8\<rparr>"
  by (simp_all add: demo_type_def layout_size_of_def payload_offset_of_def align_up_def layout_align_of_def
      HEAD_SIZE_def HEAD_ALIGN_def layout_from_size_align_def is_power_of_two_def)

lemma demo_program:
  obtains h a where "gc_reachable demo_registry h" "hroot h a" "length (partitions h) = 1" "world_ok h"
proof -
  have d: "distinct (drop_passes demo_registry)" by (simp add: demo_registry_def)
  let ?h0 = "heap_new demo_registry"
  obtain p where c: "create_partition 0 0 None ?h0 = Some (0, ?h0\<lparr>partitions := [p]\<rparr>)"
    and p: "nodes p = None" "arena p = None"
    by (simp add: create_partition_def partition_new_def vec_push_def heap_new_def)
  let ?h1 = "?h0\<lparr>partitions := [p]\<rparr>"
  have r1: "gc_reachable demo_registry ?h1"
    by (rule gc_reachable.step [OF gc_reachable.start, of "Create_Partition 0 0 None"])
      (use c in \<open>simp_all add: heap_new_def\<close>)
  note w1 = reachable_world [OF r1 d]
  have gp: "get_par ?h1 0 = Some p" by (simp add: get_par_def vec_get_def)
  have nd: "node_dtypes ?h1 = demo_registry" by (rule w1(2))
  have ti: "type_info ?h1 0 = Some demo_info" unfolding type_info_def nd by (simp add: demo_registry_def vec_get_def)
  have ma: "may_alloc demo_type 0 0 [] (Some 0x100) ?h1"
    unfolding may_alloc_def type_known_def refs_inside_def fresh_memory_def demo_type_layout nd
    using gp p(2) ti by (simp add: demo_info_def demo_registry_def) (simp add: heap_new_def)
  have ly: "layout_from_size_align (layout_size_of demo_type) (layout_align_of demo_type) = Some \<lparr>l_size = 48, l_align = 8\<rparr>"
    by (simp add: demo_type_layout)
  have lim: "\<not> over_limit ?h1 (layout_size_of demo_type)" by (simp add: over_limit_def heap_new_def)
  have tk: "type_known ?h1 demo_type 0" and fm: "fresh_memory 0 \<lparr>l_size = 48, l_align = 8\<rparr> (Some 0x100) ?h1"
    using ma ly by (simp_all add: may_alloc_def)
  from alloc_root_raw_correct [OF world_okD(1) [OF w1(1)] part_closed_refs [OF world_okD(5) [OF w1(1)]] gp tk ly lim fm, of "[]"]
  obtain r t where r: "alloc_root_raw demo_type 0 0 [] (Some 0x100) ?h1 = Some (r, t)"
    "case r of Inl (e, w) \<Rightarrow> e = AllocationFailed \<and> w = [] \<and> Some (0x100 :: addr) = None \<and> arena_frame ?h1 t
     | Inr a \<Rightarrow> keeps ?h1 t \<and> hroot t a \<and> heads ?h1 a = None \<and>
         total_memory_used t = total_memory_used ?h1 + layout_size_of demo_type \<and>
         node_born ?h1 0 0 a [] t \<and> scope_stacks t = scope_stacks ?h1 \<and>
         (\<forall>b. b \<noteq> a \<longrightarrow> map_option is_local (heads t b) = map_option is_local (heads ?h1 b)) \<and>
         (\<forall>g. heads t a = Some g \<longrightarrow> \<not> is_local g)" by blast
  then obtain a where t: "alloc_root_raw demo_type 0 0 [] (Some 0x100) ?h1 = Some (Inr a, t)" "hroot t a" "keeps ?h1 t"
    by (cases r) auto
  have r2: "gc_reachable demo_registry t"
    by (rule gc_reachable.step [OF r1, of "Alloc_Root demo_type 0 0 [] (Some 0x100)"]) (use ma t(1) in simp_all)
  have len: "length (partitions t) = 1" using t(3) by (simp add: keeps_def)
  show thesis by (rule that [OF r2 t(2) len reachable_world(1) [OF r2 d]])
qed

text \<open>A heap with a partition, an acquired scope stack and an open scope.\<close>

definition demo_scope :: gc_scope_state where
  "demo_scope = \<lparr>sc_partition_id = 0, sc_stack_id = 0, sc_depth = 1, sc_cache = None\<rparr>"

definition demo_scoped :: "addr list gc_heap" where
  "demo_scoped = (heap_new demo_registry)\<lparr>partitions := [demo_par None 0],
     scope_stacks := [\<lparr>ss_list = [demo_scope], ss_partition = Some 0\<rparr>]\<rparr>"

definition demo_one :: "addr list gc_heap" where
  "demo_one = (heap_new demo_registry)\<lparr>partitions := [demo_par None 0]\<rparr>"

definition demo_stack :: "addr list gc_heap" where
  "demo_stack = demo_one\<lparr>scope_stacks := [\<lparr>ss_list = [], ss_partition = Some 0\<rparr>]\<rparr>"

lemma demo_scoped_steps:
  "create_partition 0 0 None (heap_new demo_registry) = Some (0, demo_one)"
  "acquire_scope_stack 0 demo_one = Some (0, demo_stack)"
  "new_scope 0 demo_stack = Some (0, demo_scoped)"
  by (simp_all add: create_partition_def partition_new_def vec_push_def heap_new_def demo_par_def demo_one_def
      acquire_scope_stack_def scope_stack_new_def demo_stack_def new_scope_def get_stack_def vec_get_def
      put_stack_def demo_scoped_def demo_scope_def)

lemma demo_scoped_reachable: "gc_reachable demo_registry demo_scoped"
proof -
  note st = demo_scoped_steps
  have r1: "gc_reachable demo_registry demo_one"
    by (rule gc_reachable.step [OF gc_reachable.start, of "Create_Partition 0 0 None"])
      (use st(1) in \<open>simp_all add: heap_new_def\<close>)
  have r2: "gc_reachable demo_registry demo_stack"
    by (rule gc_reachable.step [OF r1, of "Acquire_Stack 0"]) (use st(2) in \<open>simp_all add: demo_one_def heap_new_def\<close>)
  show ?thesis
    by (rule gc_reachable.step [OF r2, of "New_Scope 0"])
      (use st(3) in \<open>simp_all add: demo_stack_def get_stack_def vec_get_def\<close>)
qed

lemma demo_scoped_facts:
  "world_ok demo_scoped" "get_scope demo_scoped 0 0 = Some demo_scope" "sc_partition_id demo_scope = 0"
  "get_stack demo_scoped 0 = Some \<lparr>ss_list = [demo_scope], ss_partition = Some 0\<rparr>"
  "may_alloc demo_type 0 0 [] (Some 0x100) demo_scoped" "\<not> rejects demo_type 0 demo_scoped"
proof -
  have f: "heads demo_scoped = Map.empty" "node_dtypes demo_scoped = demo_registry" "partitions demo_scoped = [demo_par None 0]"
    "memory_limit demo_scoped = 0" by (simp_all add: demo_scoped_def heap_new_def)
  show "world_ok demo_scoped"
    by (rule reachable_world(1) [OF demo_scoped_reachable]) (simp add: demo_registry_def)
  show gs: "get_stack demo_scoped 0 = Some \<lparr>ss_list = [demo_scope], ss_partition = Some 0\<rparr>"
    by (simp add: demo_scoped_def get_stack_def vec_get_def)
  then show "get_scope demo_scoped 0 0 = Some demo_scope" by (simp add: get_scope_def vec_get_def)
  show "sc_partition_id demo_scope = 0" by (simp add: demo_scope_def)
  have ti: "type_info demo_scoped 0 = Some demo_info" unfolding type_info_def f by (simp add: demo_registry_def vec_get_def)
  have gp: "get_par demo_scoped 0 = Some (demo_par None 0)" by (simp add: get_par_def vec_get_def f)
  show "may_alloc demo_type 0 0 [] (Some 0x100) demo_scoped"
    unfolding may_alloc_def type_known_def refs_inside_def fresh_memory_def demo_type_layout f
    using gp ti by (simp add: demo_info_def demo_registry_def demo_par_def)
  show "\<not> rejects demo_type 0 demo_scoped"
    using gp by (simp add: rejects_def demo_type_layout over_limit_def f)
qed

text \<open>The same heap with a node in the partition that nothing refers to.\<close>

lemma demo_plain:
  obtains a t where "gc_reachable demo_registry t" "world_ok t"
    "get_stack t 0 = Some \<lparr>ss_list = [demo_scope], ss_partition = Some 0\<rparr>" "kind t a = Some (0, 0)" "\<not> hroot t a"
    "dom (heads t) = {a}" "alloc_raw demo_type 0 0 [] (Some 0x100) demo_scoped = Some (Inr a, t)"
proof -
  note d = demo_scoped_facts
  from d(6) obtain par l where p: "get_par demo_scoped 0 = Some par"
    and l: "layout_from_size_align (layout_size_of demo_type) (layout_align_of demo_type) = Some l"
    and lim: "\<not> over_limit demo_scoped (layout_size_of demo_type)" by (rule not_rejected)
  have ma: "type_known demo_scoped demo_type 0" "fresh_memory 0 l (Some 0x100) demo_scoped"
    using d(5) l by (simp_all add: may_alloc_def)
  from alloc_raw_correct [OF world_okD(1) [OF d(1)] part_closed_refs [OF world_okD(5) [OF d(1)]] p ma(1) l lim ma(2), of "[]"]
  obtain r t where r: "alloc_raw demo_type 0 0 [] (Some 0x100) demo_scoped = Some (r, t)"
    "case r of Inl (e, w) \<Rightarrow> e = AllocationFailed \<and> w = [] \<and> Some (0x100 :: addr) = None \<and> arena_frame demo_scoped t
     | Inr a \<Rightarrow> keeps demo_scoped t \<and>
         (\<exists>g. node_added demo_scoped (unat (0 :: u16)) a g [] (layout_size_of demo_type) t \<and>
            new_node_ok demo_scoped (unat (0 :: u16)) g \<and> \<not> is_root_or_local g \<and> dtype g = 0)" by blast
  then obtain a where a: "r = Inr a" by (cases r) auto
  with r(2) obtain g where g: "node_added demo_scoped (unat (0 :: u16)) a g [] (layout_size_of demo_type) t"
    "new_node_ok demo_scoped (unat (0 :: u16)) g" "\<not> is_root_or_local g" "dtype g = 0" by auto
  have b: "node_born demo_scoped 0 0 a [] t" using node_added_born [OF g(1,2)] g(4) by simp
  have k: "kind t a = Some (0, 0)" using node_born_head [OF b, of a] by (simp add: kind_def)
  have ss: "scope_stacks t = scope_stacks demo_scoped" using g(1) by (simp add: node_added_def)
  have st: "get_stack t 0 = Some \<lparr>ss_list = [demo_scope], ss_partition = Some 0\<rparr>"
    using d(4) local_nodes_cong(3) [OF ss] by simp
  have re: "gc_reachable demo_registry t"
    by (rule gc_reachable.step [OF demo_scoped_reachable, of "Alloc demo_type 0 0 [] (Some 0x100)"])
      (use d(5) r(1) in simp_all)
  have "world_ok t" by (rule reachable_world(1) [OF re]) (simp add: demo_registry_def)
  moreover have "\<not> hroot t a" using g(1,3) by (simp add: node_added_def hroot_def)
  moreover have "heads demo_scoped = Map.empty" by (simp add: demo_scoped_def heap_new_def)
  with g(1) have "dom (heads t) = {a}" by (simp add: node_added_def)
  ultimately show thesis using that [OF re _ st k] r(1) unfolding a by blast
qed

text \<open>The node in the cache of a scope that has a parent.\<close>

lemma demo_nested:
  obtains a p c and t :: "addr list gc_heap" where "world_ok t" "get_stack t 0 = Some \<lparr>ss_list = [p, c], ss_partition = Some 0\<rparr>" "a \<in> set (cache_list c)"
proof -
  obtain a t where t: "gc_reachable demo_registry t" "world_ok t"
    "get_stack t 0 = Some \<lparr>ss_list = [demo_scope], ss_partition = Some 0\<rparr>" "kind t a = Some (0, 0)" "\<not> hroot t a"
    by (rule demo_plain)
  from new_scope_correct [OF world_inv [OF t(2)] t(3), of 0] obtain u s where
    u: "new_scope 0 t = Some (1, u)" "heads u = heads t" "sc_partition_id s = 0" "stays t u"
      "get_stack u 0 = Some \<lparr>ss_list = [demo_scope, s], ss_partition = Some 0\<rparr>" by auto
  have "\<exists>st. get_stack t 0 = Some st \<and> ss_partition st \<noteq> None \<and> length (ss_list st) < 2 ^ 32 - 1" using t(3) by simp
  from new_scope_op.op_result(1) [OF t(2) this] u(1) have wu: "world_ok u" by simp
  have ku: "kind u a = Some (0, 0)" using t(4) by (simp add: kind_def u(2))
  then obtain g where g: "heads u a = Some g" "partition_id g = 0" by (auto simp: kind_def)
  have gs: "get_scope u 0 1 = Some s" using u(5) by (simp add: get_scope_def vec_get_def)
  have nl: "\<not> is_root_or_local g" using t(5) g(1) u(2) by (simp add: hroot_def)
  then have "\<not> is_local g" by (simp add: is_root_or_local_iff)
  from add_node_correct [OF world_inv [OF wu] gs g(1) _ this] g(2) u(3) obtain w where
    w: "add_node 0 1 a u = Some w" "get_scope w 0 1 = Some (s\<lparr>sc_cache := Some (cache_list s @ [a])\<rparr>)"
      "\<forall>sid. map_option (\<lambda>st. (length (ss_list st), ss_partition st)) (get_stack w sid) =
            map_option (\<lambda>st. (length (ss_list st), ss_partition st)) (get_stack u sid)" by auto
  have pn: "protect_node 0 a u = Some (True, w)"
    using u(5) g(1) nl w(1) by (simp add: protect_node_def current_index_def add_non_local_def)
  have "may_hold u s a" using ku u(3) by (simp add: may_hold_def)
  then have "\<exists>st. get_stack u 0 = Some st \<and> (ss_list st \<noteq> [] \<longrightarrow> may_hold u (last (ss_list st)) a)" using u(5) by simp
  from protect_op.op_result(1) [OF wu this] pn have ww: "world_ok w" by simp
  from w(3) u(5) obtain st where st: "get_stack w 0 = Some st" "length (ss_list st) = 2" "ss_partition st = Some 0"
    by (auto dest!: spec [of _ 0])
  from st(2) obtain p c where pc: "ss_list st = [p, c]" by (auto simp: numeral_2_eq_2 length_Suc_conv)
  have "st = \<lparr>ss_list = [p, c], ss_partition = Some 0\<rparr>" using st(3) pc by simp
  moreover have "c = s\<lparr>sc_cache := Some (cache_list s @ [a])\<rparr>"
    using w(2) st(1) pc by (simp add: get_scope_def vec_get_def)
  ultimately show thesis using that [OF ww, of p c a] st(1) by simp
qed

end
