(* ===== verification/Gc_Account.thy ===== *)
theory Gc_Account
  imports Gc_Memory Gc_Program
begin

text \<open>
  The counters of a heap are exact: \<open>memory_used\<close> of every partition is the sum of the sizes of
  its nodes and \<open>total_memory_used\<close> is the sum over all nodes, after every call of a program.
\<close>

section \<open>Exact counters\<close>

definition part_nodes :: "'p gc_heap \<Rightarrow> nat \<Rightarrow> addr set" where
  "part_nodes h i = {a. in_par h i a}"

definition accounted :: "'p gc_heap \<Rightarrow> bool" where
  "accounted h \<longleftrightarrow>
     (\<forall>i<length (partitions h). memory_used (partitions h ! i) = sum (node_size h) (part_nodes h i)) \<and>
     total_memory_used h = sum (node_size h) (dom (heads h))"

lemma finite_dom: "heap_ok h \<Longrightarrow> finite (dom (heads h))"
  by (rule finite_subset [of _ "\<Union>i<length (partitions h). set (par_list h i)"]) (simp_all add: heap_ok_def)

lemma finite_part: "heap_ok h \<Longrightarrow> finite (part_nodes h i)"
  by (rule finite_subset [OF _ finite_dom]) (auto simp: part_nodes_def in_par_def)

lemma mem_view_obs:
  assumes v: "map_option mem_view (heads t a) = map_option mem_view (heads h a)" and nd: "node_dtypes t = node_dtypes h"
  shows "in_par t i a = in_par h i a" "node_size t a = node_size h a" "in_arena t a = in_arena h a"
    "heads t a = None \<longleftrightarrow> heads h a = None"
  using v by (cases "heads h a"; cases "heads t a";
      auto simp: mem_view_def in_par_def node_size_def in_arena_def type_info_def nd)+

lemma mem_frame_obs:
  assumes "mem_frame h t"
  shows "in_par t = in_par h" "node_size t = node_size h" "in_arena t = in_arena h" "dom (heads t) = dom (heads h)"
proof -
  have v: "map_option mem_view (heads t a) = map_option mem_view (heads h a)" "node_dtypes t = node_dtypes h" for a
    using assms by (simp_all add: mem_frame_def)
  show "in_par t = in_par h" "node_size t = node_size h" "in_arena t = in_arena h" "dom (heads t) = dom (heads h)"
    using mem_view_obs [OF v] by (auto simp: fun_eq_iff dom_def)
qed

lemma accounted_mem_frame:
  assumes fr: "mem_frame h t" and a: "accounted h"
  shows "accounted t"
  using a fr mem_frame_par(1) [OF fr]
  by (simp add: accounted_def part_nodes_def mem_frame_obs [OF fr] mem_frame_len [OF fr]) (simp add: mem_frame_def)

text \<open>A node more, or none.\<close>

lemma accounted_mem_added:
  assumes ok: "heap_ok h" and a: "accounted h" and ad: "mem_added h pid gt sys p l t" and n: "heads h p = None"
    and sz: "type_info h gt = Some info" "ti_layout_size info = l_size l"
  shows "accounted t"
proof -
  from ad obtain fl where v: "\<And>x. map_option mem_view (heads t x) =
      (if x = p then Some (gt, pid, fl) else map_option mem_view (heads h x))" by (auto simp: mem_added_def)
  have g: "mem_grown h (unat pid) (l_size l) t" using ad by (simp add: mem_added_def)
  then have nd: "node_dtypes t = node_dtypes h" by (simp add: mem_grown_def)
  have o: "in_par t i x = in_par h i x" "node_size t x = node_size h x" "heads t x = None \<longleftrightarrow> heads h x = None"
    if "x \<noteq> p" for i x using mem_view_obs [of t x h, OF _ nd] v [of x] that by simp_all
  from v [of p] obtain q where q: "heads t p = Some q" "mem_view q = (gt, pid, fl)" by auto
  then have pp: "in_par t i p \<longleftrightarrow> i = unat pid" "node_size t p = l_size l" for i
    using sz nd by (auto simp: in_par_def node_size_def mem_view_def type_info_def)
  have np: "\<not> in_par h i p" for i using n by (simp add: in_par_def)
  have s: "sum (node_size t) X = sum (node_size h) X" if "p \<notin> X" for X
    by (rule sum.cong [OF refl], rule o(2)) (use that in auto)
  have d: "dom (heads t) = insert p (dom (heads h))"
  proof (rule set_eqI)
    show "x \<in> dom (heads t) \<longleftrightarrow> x \<in> insert p (dom (heads h))" for x
      using o(3) [of x] q by (cases "x = p") (simp_all add: domIff)
  qed
  have pn: "part_nodes t i = (if i = unat pid then insert p (part_nodes h i) else part_nodes h i)" for i
  proof (rule set_eqI)
    show "x \<in> part_nodes t i \<longleftrightarrow> x \<in> (if i = unat pid then insert p (part_nodes h i) else part_nodes h i)" for x
      using o(1) [of x i] pp(1) [of i] np [of i] by (cases "x = p") (simp_all add: part_nodes_def)
  qed
  have "sum (node_size t) (dom (heads t)) = sum (node_size h) (dom (heads h)) + l_size l"
    using finite_dom [OF ok] n s [of "dom (heads h)"] pp(2) by (simp add: d domIff)
  moreover have "sum (node_size t) (part_nodes t i) =
      sum (node_size h) (part_nodes h i) + (if i = unat pid then l_size l else 0)" for i
  proof -
    have "p \<notin> part_nodes h i" using np by (simp add: part_nodes_def)
    with finite_part [OF ok, of i] s [OF this] pp(2) show ?thesis by (cases "i = unat pid") (simp_all add: pn)
  qed
  ultimately show ?thesis using a g by (simp add: accounted_def mem_grown_def)
qed

lemma accounted_refused:
  assumes a: "accounted h" and r: "mem_refused h pid l t"
  shows "accounted t"
proof -
  have e: "heads t = heads h" "node_dtypes t = node_dtypes h" using r by (simp_all add: mem_refused_def mem_grown_def)
  have "in_par t i x = in_par h i x" "node_size t x = node_size h x" for i x
    using mem_view_obs(1,2) [of t x h, OF _ e(2)] e(1) by simp_all
  then have "in_par t = in_par h" "node_size t = node_size h" by (simp_all add: fun_eq_iff)
  with a r e show ?thesis by (simp add: accounted_def part_nodes_def mem_refused_def mem_grown_def)
qed

text \<open>Nodes less: a sweep of one partition, or the whole partition.\<close>

lemma sum_sizes_set: "distinct xs \<Longrightarrow> sum_sizes f xs = sum f (set xs)"
  by (simp add: sum_sizes_def sum_list_distinct_conv_sum_set)

lemma accounted_less:
  assumes ok: "heap_ok h" and a: "accounted h" and D: "D \<subseteq> part_nodes h i" and i: "i < length (partitions h)"
    and v: "\<And>x. map_option mem_view (heads t x) = (if x \<in> D then None else map_option mem_view (heads h x))"
    and nd: "node_dtypes t = node_dtypes h" and len: "length (partitions t) = length (partitions h)"
    and n: "n = sum (node_size h) D" and tm: "total_memory_used t = total_memory_used h - n"
    and mem: "\<And>j. j < length (partitions h) \<Longrightarrow>
      memory_used (partitions t ! j) = memory_used (partitions h ! j) - (if j = i then n else 0)"
  shows "accounted t"
proof -
  have o: "in_par t j x = in_par h j x" "node_size t x = node_size h x" "heads t x = None \<longleftrightarrow> heads h x = None"
    if "x \<notin> D" for j x using mem_view_obs [of t x h, OF _ nd] v [of x] that by simp_all
  have gone: "heads t x = None" if "x \<in> D" for x using v [of x] that by simp
  have d: "dom (heads t) = dom (heads h) - D"
  proof (rule set_eqI)
    show "x \<in> dom (heads t) \<longleftrightarrow> x \<in> dom (heads h) - D" for x
      using o(3) [of x] gone [of x] by (cases "x \<in> D") (simp_all add: domIff)
  qed
  have Dd: "D \<subseteq> dom (heads h)" using D by (auto simp: part_nodes_def in_par_def)
  have pn: "part_nodes t j = part_nodes h j - D" for j
  proof (rule set_eqI)
    show "x \<in> part_nodes t j \<longleftrightarrow> x \<in> part_nodes h j - D" for x
      using o(1) [of x j] gone [of x] by (cases "x \<in> D") (simp_all add: part_nodes_def in_par_def)
  qed
  have pj: "part_nodes h j - D = part_nodes h j" if "j \<noteq> i" for j
  proof -
    have "x \<notin> part_nodes h j" if "x \<in> D" for x
    proof
      assume "x \<in> part_nodes h j"
      then have "in_par h j x" by (simp add: part_nodes_def)
      moreover have "in_par h i x" using D \<open>x \<in> D\<close> by (auto simp: part_nodes_def)
      ultimately have "j = i" by (rule in_par_unique)
      with \<open>j \<noteq> i\<close> show False ..
    qed
    then show ?thesis by blast
  qed
  have s: "sum (node_size t) (X - D) = sum (node_size h) (X - D)" for X
    by (rule sum.cong [OF refl], rule o(2)) simp
  have "sum (node_size t) (dom (heads t)) = sum (node_size h) (dom (heads h)) - n"
    unfolding d s n using sum_diff [OF finite_dom [OF ok] Dd] by simp
  moreover have "sum (node_size t) (part_nodes t j) = sum (node_size h) (part_nodes h j) - (if j = i then n else 0)" for j
    unfolding pn s n using sum_diff [OF finite_part [OF ok] D] pj [of j] by (cases "j = i") simp_all
  ultimately show ?thesis using a tm mem by (simp add: accounted_def len)
qed

lemma detach_mem_view: "map_option detach x = map_option detach y \<Longrightarrow> map_option mem_view x = map_option mem_view y"
  by (cases x; cases y) (auto simp: mem_view_def dest: detach_eqD)

lemma accounted_swept:
  assumes w: "world_ok h" and a: "accounted h" and i: "i < length (partitions h)" and sw: "swept h i n t"
  shows "accounted t"
proof (rule accounted_less [OF world_okD(2) [OF w] a _ i])
  let ?D = "{x. in_par h i x \<and> dead h x}"
  note ok = world_okD(2) [OF w]
  have rm: "removed h ?D t" using sw by (simp add: swept_def)
  show "?D \<subseteq> part_nodes h i" by (auto simp: part_nodes_def)
  show "map_option mem_view (heads t x) = (if x \<in> ?D then None else map_option mem_view (heads h x))" for x
  proof -
    have d: "map_option detach (heads t x) = (if x \<in> ?D then None else map_option detach (heads h x))"
      using rm unfolding removed_def by blast
    show ?thesis
    proof (cases "x \<in> ?D")
      case True
      with d show ?thesis by simp
    next
      case False
      have "map_option detach (heads t x) = map_option detach (heads h x)" using d unfolding if_not_P [OF False] .
      then show ?thesis unfolding if_not_P [OF False] by (rule detach_mem_view)
    qed
  qed
  show "node_dtypes t = node_dtypes h" "length (partitions t) = length (partitions h)"
    using rm by (simp_all add: removed_def)
  have "set (filter (dead h) (par_list h i)) = ?D" by (auto simp: heap_ok_member_iff [OF ok i])
  moreover have "distinct (filter (dead h) (par_list h i))" using heap_ok_distinct [OF ok i] by simp
  ultimately have "sum_sizes (node_size h) (filter (dead h) (par_list h i)) = sum (node_size h) ?D"
    by (simp only: sum_sizes_set)
  then show "n = sum (node_size h) ?D" using sw by (simp add: swept_def)
  show "total_memory_used t = total_memory_used h - n" using sw by (simp add: swept_def)
  show "memory_used (partitions t ! j) = memory_used (partitions h ! j) - (if j = i then n else 0)"
    if "j < length (partitions h)" for j using sw that by (simp add: swept_def)
qed

lemma accounted_removed:
  assumes w: "world_ok h" and a: "accounted h" and i: "i < length (partitions h)" and r: "partition_removed h i n t"
  shows "accounted t"
proof (rule accounted_less [OF world_okD(2) [OF w] a _ i])
  let ?D = "part_nodes h i"
  have hd: "heads t = heads h |` {x. \<not> in_par h i x}" using r by (simp add: partition_removed_def)
  show "map_option mem_view (heads t x) = (if x \<in> ?D then None else map_option mem_view (heads h x))" for x
    by (simp add: hd part_nodes_def restrict_map_def)
  show "node_dtypes t = node_dtypes h" "length (partitions t) = length (partitions h)"
    using r by (simp_all add: partition_removed_def)
  have m: "memory_used (partitions h ! i) = sum (node_size h) ?D" using a i by (simp add: accounted_def)
  show "sum (node_size h) ?D = sum (node_size h) ?D" ..
  show "total_memory_used t = total_memory_used h - sum (node_size h) ?D" using r m by (simp add: partition_removed_def)
  show "memory_used (partitions t ! j) = memory_used (partitions h ! j) - (if j = i then sum (node_size h) ?D else 0)"
    if "j < length (partitions h)" for j using r that m by (cases "j = i") (simp_all add: partition_removed_def fresh_partition_def)
qed simp

section \<open>Programs\<close>

text \<open>The commands that neither allocate nor free.\<close>

fun quiet :: "'p command \<Rightarrow> bool" where
  "quiet (Create_Partition cap ma sys) = False"
| "quiet (Remove_Partition pid sys) = False"
| "quiet (Alloc ty gt pid v sys) = False"
| "quiet (Alloc_Root ty gt pid v sys) = False"
| "quiet (Alloc_Local ty gt sid k v sys) = False"
| "quiet (Collect_White pid) = False"
| "quiet (Sweep pid) = False"
| "quiet (Garbage_Collect pid) = False"
| "quiet c = True"

lemma remarked_mem_frame: "remarked h t \<Longrightarrow> mem_frame h t"
  by (simp add: remarked_def mark_frame_mem_frame)

lemma quiet_mem_frame:
  assumes w: "world_ok h" and a: "allowed c h" and q: "quiet c" and r: "exec c h = Some t"
  shows "mem_frame h t"
proof (cases c)
  case (Mark pid m)
  with a have "unat pid < length (partitions h)" by simp
  from mark_op.op_marks [OF w this, of m] Mark r show ?thesis using remarked_mem_frame by auto
next
  case (Mark_Reset pid)
  with a have "unat pid < length (partitions h)" by simp
  from mark_reset_op.op_marks [OF w this] Mark_Reset r show ?thesis using remarked_mem_frame by auto
next
  case (Traverse_Start pid)
  with a have "unat pid < length (partitions h)" by simp
  from traverse_start_op.op_marks [OF w this] Traverse_Start r show ?thesis using remarked_mem_frame by auto
next
  case (Traverse x flt)
  with a have "x \<in> dom (heads h)" by simp
  then have "\<exists>t. map_option snd (traverse x flt (\<lambda>_ _ s. s) () h) = Some t \<and> remarked h t"
    by (rule traverse_op.op_marks [OF w])
  with Traverse r show ?thesis using remarked_mem_frame by auto
next
  case (Set_Opaque p)
  with r show ?thesis by (auto simp: set_opaque_def mem_frame_def)
next
  case (Store_Bind m s v)
  with r have "bind m s (h\<lparr>payloads := (payloads h)(m \<mapsto> v)\<rparr>) = Some t" by simp
  from bind_mem_frame [OF this] show ?thesis by (simp add: mem_frame_def)
qed (use q r in \<open>auto simp del: set_memory_limit_def set_gc_threshold_def
      intro: write_barrier_mem_frame set_root_mem_frame scope_mem_frames stack_mem_frames downgrade_mem_frame limit_mem_frames\<close>)

text \<open>Memory that is free holds no node.\<close>

lemma added_fresh:
  assumes ad: "mem_added h pid gt sys p l t" and f: "fresh_memory pid l sys h"
  shows "heads h p = None"
proof -
  have i: "unat pid < length (partitions h)" using ad by (simp add: mem_added_def mem_grown_def)
  then have gp: "get_par h pid = Some (partitions h ! unat pid)" by (simp add: get_par_Some)
  from ad consider "arena_gave l p (arena (partitions h ! unat pid)) (arena (partitions t ! unat pid))" | "sys = Some p"
    by (auto simp: mem_added_def split: if_splits)
  then show ?thesis
  proof cases
    case 1
    with f gp show ?thesis by (fastforce simp: arena_gave_def fresh_memory_def)
  next
    case 2
    with f show ?thesis by (simp add: fresh_memory_def)
  qed
qed

lemma accounted_outcome:
  assumes w: "world_ok h" and a: "accounted h" and o: "mem_outcome h ty gt pid sys r t"
    and m: "may_alloc ty gt pid v sys h"
  shows "accounted t"
proof (cases r)
  case (Inl e)
  with o a accounted_refused show ?thesis by (auto simp: mem_outcome_def)
next
  case (Inr p)
  with o obtain l where l: "layout_from_size_align (layout_size_of ty) (layout_align_of ty) = Some l"
    and ad: "mem_added h pid gt sys p l t" by (auto simp: mem_outcome_def)
  from m obtain info where info: "type_info h gt = Some info" "ti_layout_size info = layout_size_of ty"
    by (auto simp: may_alloc_def type_known_def)
  have "fresh_memory pid l sys h" using m l by (simp add: may_alloc_def)
  then have n: "heads h p = None" by (rule added_fresh [OF ad])
  have "ti_layout_size info = l_size l" using info l by (auto simp: layout_from_size_align_def split: if_splits)
  from accounted_mem_added [OF world_okD(2) [OF w] a ad n info(1) this] show ?thesis .
qed

lemma may_alloc_small: "may_alloc ty gt pid v sys h \<Longrightarrow> unat (layout_size_of ty) < 2 ^ 31"
  by (auto simp: may_alloc_def type_known_def)

lemma accounted_sweeps:
  assumes w: "world_ok h" and a: "accounted h" and s: "sweeps h i t"
  shows "accounted t"
proof (cases "t = h")
  case False
  with s obtain u n where u: "remarked h u" and i: "i < length (partitions h)" and sw: "swept u i n t" by (auto simp: sweeps_def)
  have fr: "mem_frame h u" by (rule remarked_mem_frame [OF u])
  have "i < length (partitions u)" using i mem_frame_len [OF fr] by simp
  from accounted_swept [OF remarked_world(1) [OF w u] accounted_mem_frame [OF fr a] this sw] show ?thesis .
qed (use a in simp)

lemma accounted_create:
  assumes a: "accounted h" and w: "world_ok h" and r: "create_partition cap ma sys h = Some (pid, t)"
  shows "accounted t"
proof -
  from r obtain p where t: "t = h\<lparr>partitions := partitions h @ [p]\<rparr>" and p: "memory_used p = 0"
    by (auto simp: create_partition_def partition_new_def vec_push_def Let_def bind_eq_Some_conv split: if_splits)
  have "in_par t i x = in_par h i x" "node_size t x = node_size h x" for i x
    using mem_view_obs(1,2) [of t x h] by (simp_all add: t)
  then have e: "node_size t = node_size h" "part_nodes t = part_nodes h" by (simp_all add: fun_eq_iff part_nodes_def)
  have "part_nodes h (length (partitions h)) = {}"
    using in_par_bound [OF world_okD(2) [OF w]] by (auto simp: part_nodes_def)
  with a p show ?thesis by (auto simp: accounted_def e [unfolded t] t nth_append less_Suc_eq)
qed

lemma exec_accounted:
  assumes w: "world_ok h" and al: "allowed c h" and a: "accounted h" and r: "exec c h = Some t"
  shows "accounted t"
proof (cases "quiet c")
  case True
  from accounted_mem_frame [OF quiet_mem_frame [OF w al True r] a] show ?thesis .
next
  case False
  then show ?thesis
  proof (cases c)
    case (Create_Partition cap ma sys)
    with r accounted_create [OF a w] show ?thesis by auto
  next
    case (Remove_Partition pid sys)
    show ?thesis
    proof (cases "get_par h pid")
      case None
      with r a remove_partition_missing [OF None] show ?thesis by (simp add: Remove_Partition)
    next
      case (Some p)
      then have i: "unat pid < length (partitions h)" and p: "p = partitions h ! unat pid" by (simp_all add: get_par_Some)
      have ar: "arena_capacity (partitions h ! unat pid) > 0 \<Longrightarrow> arena_new (arena_capacity (partitions h ! unat pid)) sys \<noteq> None"
        using al Remove_Partition Some p by simp
      from remove_partition_correct [OF world_inv [OF w] world_okD(4) [OF w] i ar] r Remove_Partition
      have "\<exists>n. partition_removed h (unat pid) n t" by auto
      with accounted_removed [OF w a i] show ?thesis by blast
    qed
  next
    case (Alloc ty gt pid v sys)
    with al have m: "may_alloc ty gt pid v sys h" by simp
    from r Alloc obtain x where "alloc_raw ty gt pid v sys h = Some (x, t)" by auto
    from accounted_outcome [OF w a alloc_raw_mem [OF this may_alloc_small [OF m]] m] show ?thesis .
  next
    case (Alloc_Root ty gt pid v sys)
    with al have m: "may_alloc ty gt pid v sys h" by simp
    from r Alloc_Root obtain x where "alloc_root_raw ty gt pid v sys h = Some (x, t)" by auto
    from accounted_outcome [OF w a alloc_root_raw_mem [OF this may_alloc_small [OF m]] m] show ?thesis .
  next
    case (Alloc_Local ty gt sid k v sys)
    with al obtain s where s: "get_scope h sid k = Some s" and m: "may_alloc ty gt (sc_partition_id s) v sys h" by auto
    from r Alloc_Local obtain x where "alloc_local ty gt sid k v sys h = Some (x, t)" by auto
    from accounted_outcome [OF w a alloc_local_mem [OF this s may_alloc_small [OF m]] m] show ?thesis .
  next
    case (Collect_White pid)
    with collect_white_sweeps [OF w, of pid] r have "sweeps h (unat pid) t" by auto
    with w a show ?thesis by (rule accounted_sweeps)
  next
    case (Sweep pid)
    with sweep_sweeps [OF w, of pid "\<lambda>_ _ c. c" "()"] r have "sweeps h (unat pid) t" by auto
    with w a show ?thesis by (rule accounted_sweeps)
  next
    case (Garbage_Collect pid)
    with garbage_collect_sweeps [OF w, of pid] r have "sweeps h (unat pid) t" by auto
    with w a show ?thesis by (rule accounted_sweeps)
  qed simp_all
qed

lemma reachable_accounted:
  assumes r: "gc_reachable reg h" and d: "distinct (drop_passes reg)"
  shows "accounted h"
  using r
proof induction
  case start
  show ?case by (simp add: accounted_def heap_new_def part_nodes_def)
next
  case (step h c t)
  from exec_accounted [OF reachable_world(1) [OF step(1) d] step(2,4,3)] show ?case .
qed

end
