(* ===== verification/Gc_Blocks.thy ===== *)
theory Gc_Blocks
  imports Gc_Account
begin

text \<open>
  Memory blocks.  Every node occupies a block that the system allocator or the arena of its
  partition gave out.  The blocks of live nodes never overlap and the arenas know exactly which of
  their blocks are in use, after every call of a program; so an allocation never returns memory
  that a live node occupies.
\<close>

section \<open>Who owns which memory\<close>

text \<open>The blocks the system allocator has given out and not got back, as ranges of natural numbers.\<close>

datatype owner = Sys_Node addr | Arena_Of nat

fun owned :: "'p gc_heap \<Rightarrow> owner \<Rightarrow> nat_block option" where
  "owned h (Sys_Node a) =
     (if heads h a \<noteq> None \<and> \<not> in_arena h a then Some (unat a, unat (node_size h a)) else None)"
| "owned h (Arena_Of i) =
     (if i < length (partitions h)
      then map_option (\<lambda>ar. (unat (base ar), unat (capacity ar))) (arena (partitions h ! i)) else None)"

definition sys_apart :: "'p gc_heap \<Rightarrow> bool" where
  "sys_apart h \<longleftrightarrow>
     (\<forall>x b. owned h x = Some b \<longrightarrow> 0 < snd b \<and> fst b + snd b < 2 ^ 64) \<and>
     (\<forall>x y b c. owned h x = Some b \<longrightarrow> owned h y = Some c \<longrightarrow> x \<noteq> y \<longrightarrow> apart b c)"

text \<open>
  What is asked of the system allocator: memory it returns lies in the address space and apart
  from everything it has given out before and not got back.
\<close>

definition sys_free :: "'p gc_heap \<Rightarrow> addr option \<Rightarrow> usize \<Rightarrow> bool" where
  "sys_free h sys n \<longleftrightarrow>
     (\<forall>p. sys = Some p \<longrightarrow> unat p + unat n < 2 ^ 64 \<and>
        (\<forall>x b. owned h x = Some b \<longrightarrow> apart (unat p, unat n) b))"

text \<open>The blocks of the live nodes of a partition that lie in its arena.\<close>

definition live_blocks :: "'p gc_heap \<Rightarrow> nat \<Rightarrow> (addr \<times> usize) set" where
  "live_blocks h i = (\<lambda>a. (a, max (node_size h a) MIN_ALLOC_SIZE)) ` {a. in_par h i a \<and> in_arena h a}"

definition arena_tracks :: "'p gc_heap \<Rightarrow> nat \<Rightarrow> hole list \<Rightarrow> gc_arena \<Rightarrow> bool" where
  "arena_tracks h i H ar \<longleftrightarrow>
     (\<exists>L F. distinct L \<and> set L = live_blocks h i \<and> arena_inv ar L F H)"

definition arenas_ok :: "'p gc_heap \<Rightarrow> bool" where
  "arenas_ok h \<longleftrightarrow>
     (\<forall>i<length (partitions h). \<forall>ar. arena (partitions h ! i) = Some ar \<longrightarrow> arena_tracks h i [] ar)"

definition blocks_ok :: "'p gc_heap \<Rightarrow> bool" where
  "blocks_ok h \<longleftrightarrow> sys_apart h \<and> arenas_ok h"

subsection \<open>What the block of a node depends on\<close>

lemma owned_cong:
  assumes v: "\<And>a. map_option mem_view (heads t a) = map_option mem_view (heads h a)" and nd: "node_dtypes t = node_dtypes h"
    and len: "length (partitions t) = length (partitions h)"
    and ar: "\<And>j. j < length (partitions h) \<Longrightarrow> arena (partitions t ! j) = arena (partitions h ! j)"
  shows "owned t x = owned h x"
  using mem_view_obs [OF v nd] len ar by (cases x) simp_all

lemma live_blocks_cong:
  assumes "\<And>a. in_par t i a \<and> in_arena t a \<longleftrightarrow> in_par h i a \<and> in_arena h a"
    and "\<And>a. in_par h i a \<Longrightarrow> in_arena h a \<Longrightarrow> node_size t a = node_size h a"
  shows "live_blocks t i = live_blocks h i"
  unfolding live_blocks_def using assms by (intro image_cong) auto

lemma arena_tracks_cong: "live_blocks t i = live_blocks h i \<Longrightarrow> arena_tracks t i H ar = arena_tracks h i H ar"
  by (simp add: arena_tracks_def)

lemma blocks_ok_mem_frame:
  assumes fr: "mem_frame h t" and ok: "blocks_ok h"
  shows "blocks_ok t"
proof -
  note ob = mem_frame_obs [OF fr] and len = mem_frame_len [OF fr] and ar = mem_frame_par(2) [OF fr]
  have "owned t x = owned h x" for x
    by (rule owned_cong) (use fr len ar in \<open>simp_all add: mem_frame_def\<close>)
  moreover have "live_blocks t i = live_blocks h i" for i by (simp add: live_blocks_def ob)
  then have "arena_tracks t i H r = arena_tracks h i H r" for i H r by (rule arena_tracks_cong)
  with ok have "arenas_ok t" unfolding blocks_ok_def arenas_ok_def len using ar by fastforce
  moreover have "sys_apart t" using ok \<open>\<And>x. owned t x = owned h x\<close> by (simp add: blocks_ok_def sys_apart_def)
  ultimately show ?thesis by (simp add: blocks_ok_def)
qed


section \<open>Allocation\<close>

lemma arenas_okD:
  assumes "blocks_ok h" "i < length (partitions h)" "arena (partitions h ! i) = Some ar"
  obtains L F where "distinct L" "set L = live_blocks h i" "arena_inv ar L F []"
  using assms unfolding blocks_ok_def arenas_ok_def arena_tracks_def by blast

lemma in_live_blocks: "in_par h i a \<Longrightarrow> in_arena h a \<Longrightarrow> \<exists>n. (a, n) \<in> live_blocks h i"
  by (auto simp: live_blocks_def)

text \<open>A block of an arena lies in its range.\<close>

lemma arena_block_range:
  assumes "arena_inv ar L F H" "(a, n) \<in> set L"
  shows "unat (base ar) \<le> unat a" "unat a + 16 \<le> unat (base ar) + unat (capacity ar)"
proof -
  have m: "(a, n) \<in> set (L @ F)" using assms(2) by simp
  have "16 \<le> snd (nblk ar (a, n))" using assms unfolding arena_inv_def arena_blocks_def by auto
  then have "16 \<le> unat n" by (simp add: nblk_def)
  with arena_inv_addr [OF assms(1) m] show "unat (base ar) \<le> unat a"
    "unat a + 16 \<le> unat (base ar) + unat (capacity ar)" by auto
qed

lemma arena_node_range:
  assumes ok: "blocks_ok h" and inv: "heap_inv h" and a: "in_par h j a" "in_arena h a"
  shows "\<exists>ar. arena (partitions h ! j) = Some ar \<and> owned h (Arena_Of j) = Some (unat (base ar), unat (capacity ar)) \<and>
    unat (base ar) \<le> unat a \<and> unat a + 16 \<le> unat (base ar) + unat (capacity ar)"
proof -
  have j: "j < length (partitions h)" using in_par_bound a(1) inv by (auto simp: heap_inv_def)
  have "arena_present h j" using inv a by (auto simp: heap_inv_def arena_nodes_ok_def)
  then obtain ar where ar: "arena (partitions h ! j) = Some ar" using j by (auto simp: arena_present_def arenas_def)
  obtain L F where L: "set L = live_blocks h j" "arena_inv ar L F []" by (rule arenas_okD [OF ok j ar])
  from in_live_blocks [OF a] obtain n where "(a, n) \<in> set L" using L(1) by blast
  from arena_block_range [OF L(2) this] ar j show ?thesis by (intro exI [of _ ar]) simp
qed

lemma arena_alloc_fresh:
  assumes ok: "blocks_ok h" and inv: "heap_inv h" and i: "i < length (partitions h)"
    and ar: "arena (partitions h ! i) = Some ar" and l: "layout_ok l" and al: "arena_alloc l ar = Some (Some p, ar')"
  shows "heads h p = None"
proof (rule ccontr)
  assume "heads h p \<noteq> None"
  then obtain g where g: "heads h p = Some g" by blast
  obtain L F where L: "set L = live_blocks h i" "arena_inv ar L F []" by (rule arenas_okD [OF ok i ar])
  from arena_alloc_cases [OF L(2) l] obtain r ar2 F' where "arena_alloc l ar = Some (r, ar2)"
    "base ar2 = base ar" "capacity ar2 = capacity ar"
    "arena_inv ar2 (case r of None \<Rightarrow> L | Some p \<Rightarrow> (p, block_size l) # L) F' []" by blast
  with al have F': "arena_inv ar' ((p, block_size l) # L) F' []" "base ar' = base ar" "capacity ar' = capacity ar" by simp_all
  have rng: "unat (base ar) \<le> unat p" "unat p + 16 \<le> unat (base ar) + unat (capacity ar)"
    using arena_block_range [OF F'(1), of p "block_size l"] F'(2,3) by simp_all
  have oi: "owned h (Arena_Of i) = Some (unat (base ar), unat (capacity ar))" using i ar by simp
  have ap: "apart b c" if "owned h x = Some b" "owned h y = Some c" "x \<noteq> y" for x y b c
    using ok that unfolding blocks_ok_def sys_apart_def by blast
  show False
  proof (cases "in_arena h p")
    case True
    let ?j = "unat (partition_id g)"
    have pj: "in_par h ?j p" using g by (simp add: in_par_def)
    show False
    proof (cases "?j = i")
      case True
      with pj \<open>in_arena h p\<close> in_live_blocks obtain n where "(p, n) \<in> set L" using L(1) by blast
      then have "p \<in> fst ` set L" by force
      with arena_inv_distinct [OF F'(1)] show False by simp
    next
      case False
      from arena_node_range [OF ok inv pj \<open>in_arena h p\<close>] obtain ar2 :: gc_arena where
        r2: "owned h (Arena_Of ?j) = Some (unat (base ar2), unat (capacity ar2))"
        "unat (base ar2) \<le> unat p" "unat p + 16 \<le> unat (base ar2) + unat (capacity ar2)" by blast
      from ap [OF oi r2(1)] False r2 rng show False by (auto simp: apart_def)
    qed
  next
    case False
    with g have os: "owned h (Sys_Node p) = Some (unat p, unat (node_size h p))" by simp
    then have "0 < unat (node_size h p)" using ok unfolding blocks_ok_def sys_apart_def by (metis snd_conv)
    with ap [OF oi os] rng show False by (auto simp: apart_def)
  qed
qed

lemma sys_alloc_fresh:
  assumes ok: "blocks_ok h" and inv: "heap_inv h" and s: "sys_free h (Some p) n" and n: "0 < n"
  shows "heads h p = None"
proof (rule ccontr)
  assume "heads h p \<noteq> None"
  then obtain g where g: "heads h p = Some g" by blast
  have ap: "apart (unat p, unat n) b" if "owned h x = Some b" for x b using s that unfolding sys_free_def by blast
  have n0: "0 < unat n" using n by (simp add: word_less_nat_alt)
  show False
  proof (cases "in_arena h p")
    case True
    have "in_par h (unat (partition_id g)) p" using g by (simp add: in_par_def)
    from arena_node_range [OF ok inv this True] obtain ar :: gc_arena where
      r: "owned h (Arena_Of (unat (partition_id g))) = Some (unat (base ar), unat (capacity ar))"
      "unat (base ar) \<le> unat p" "unat p + 16 \<le> unat (base ar) + unat (capacity ar)" by blast
    from ap [OF r(1)] r n0 show False by (auto simp: apart_def)
  next
    case False
    with g have os: "owned h (Sys_Node p) = Some (unat p, unat (node_size h p))" by simp
    then have "0 < unat (node_size h p)" using ok unfolding blocks_ok_def sys_apart_def by (metis snd_conv)
    with ap [OF os] n0 show False by (auto simp: apart_def)
  qed
qed

text \<open>So the memory an allocation gets is fresh.\<close>

lemma blocks_fresh_memory:
  assumes ok: "blocks_ok h" and inv: "heap_inv h" and l: "layout_ok l" and s: "sys_free h sys (l_size l)" and n: "0 < l_size l"
  shows "fresh_memory pid l sys h"
  unfolding fresh_memory_def
proof (intro conjI allI impI)
  fix p assume "sys = Some p"
  with s show "heads h p = None" using sys_alloc_fresh [OF ok inv _ n] by simp
next
  fix par ar assume "get_par h pid = Some par" "arena par = Some ar"
  then have i: "unat pid < length (partitions h)" and ar: "arena (partitions h ! unat pid) = Some ar"
    by (auto simp: get_par_Some)
  obtain L F where L: "arena_inv ar L F []" by (rule arenas_okD [OF ok i ar])
  from arena_alloc_cases [OF L l] obtain r ar' where r: "arena_alloc l ar = Some (r, ar')" by blast
  moreover have "heads h p = None" if "r = Some p" for p
    by (rule arena_alloc_fresh [OF ok inv i ar l]) (use r that in simp)
  ultimately show "\<exists>r ar'. arena_alloc l ar = Some (r, ar') \<and> (\<forall>p. r = Some p \<longrightarrow> heads h p = None)" by blast
qed

lemma odd_part:
  assumes "0 < (n :: nat)"
  obtains k m where "n = 2 ^ k * m" "odd m"
proof -
  have "\<exists>k m. n = 2 ^ k * m \<and> odd m"
    using assms
  proof (induction n rule: less_induct)
    case (less n)
    show ?case
    proof (cases "even n")
      case True
      with less.prems obtain q where q: "n = 2 * q" "0 < q" by (auto elim: evenE)
      then have "q < n" by simp
      from less.IH [OF this q(2)] obtain k m where "q = 2 ^ k * m" "odd m" by blast
      with q(1) show ?thesis by (intro exI [of _ "Suc k"] exI [of _ m]) simp
    next
      case False
      then show ?thesis by (intro exI [of _ 0] exI [of _ n]) simp
    qed
  qed
  with that show thesis by blast
qed

lemma power_of_two:
  assumes "is_power_of_two a"
  obtains k where "k < 64" "a = 2 ^ k"
proof -
  from assms have "0 < unat a" by (simp add: is_power_of_two_def unat_gt_0)
  then obtain k m where km: "unat a = 2 ^ k * m" "odd m" by (rule odd_part)
  obtain q where m: "m = 2 * q + 1" using km(2) by (rule oddE)
  have u1: "unat (a - 1) = unat a - 1" using \<open>0 < unat a\<close> by (simp add: unat_minus_one unat_gt_0)
  have "unat a = 2 ^ Suc k * q + 2 ^ k" using km(1) m by (simp add: algebra_simps)
  moreover have "unat (a - 1) = 2 ^ Suc k * q + (2 ^ k - 1)" using calculation u1 by simp
  moreover have "(2 ^ Suc k * q + r) div 2 ^ Suc k = q" if "r < 2 ^ Suc k" for r :: nat
    using that by (simp add: div_mult_self4)
  moreover have "(2 :: nat) ^ k < 2 ^ Suc k" "(2 :: nat) ^ k - 1 < 2 ^ Suc k"
    by (simp, rule le_less_trans [of _ "2 ^ k"], simp_all)
  ultimately have d: "unat a div 2 ^ Suc k = q" "unat (a - 1) div 2 ^ Suc k = q" by metis+
  have "a AND (a - 1) = 0" using assms by (simp add: is_power_of_two_def)
  then have "unat a AND unat (a - 1) = 0" by (metis unsigned_0 unsigned_and_eq)
  then have "drop_bit (Suc k) (unat a AND unat (a - 1)) = 0" by simp
  then have "drop_bit (Suc k) (unat a) AND drop_bit (Suc k) (unat (a - 1)) = 0" by (simp only: drop_bit_and)
  then have "q AND q = 0" by (simp only: drop_bit_eq_div d)
  then have "q = 0" by simp
  then have "unat a = 2 ^ k" using km(1) m by simp
  moreover have "k < 64"
  proof (rule ccontr)
    assume "\<not> k < 64"
    then have "(2 :: nat) ^ 64 \<le> 2 ^ k" by (intro power_increasing) simp_all
    with \<open>unat a = 2 ^ k\<close> unsigned_less [of a, where 'a = nat] show False by simp
  qed
  moreover have "a = 2 ^ k" using \<open>unat a = 2 ^ k\<close> unat_two_power [OF calculation(2)] by (simp add: word_unat_eq_iff)
  ultimately show thesis using that by blast
qed

lemma layout_from_ok:
  assumes "layout_from_size_align n a = Some l" "0 < n"
  shows "layout_ok l"
proof -
  from assms have l: "is_power_of_two a" "unat n + unat a \<le> 2 ^ 63" "l = \<lparr>l_size = n, l_align = a\<rparr>"
    by (auto simp: layout_from_size_align_def split: if_splits)
  from power_of_two [OF l(1)] obtain k where k: "k < 64" "a = 2 ^ k" .
  have a: "unat a = 2 ^ k" using k by (simp add: unat_two_power)
  have "0 < unat n" using assms(2) by (simp add: word_less_nat_alt)
  with l(2) a have "(2 :: nat) ^ k < 2 ^ 63" by linarith
  then have "k < 63" by (simp only: power_strict_increasing_iff)
  with k l show ?thesis by (auto simp: layout_ok_def)
qed

subsection \<open>A successful allocation\<close>

lemma arena_tried_tracks:
  assumes tr: "arena_tracks h i [] ar" and l: "layout_ok l" and t: "arena_tried l (Some ar) b"
  shows "\<exists>ar'. b = Some ar' \<and> base ar' = base ar \<and> capacity ar' = capacity ar \<and> arena_tracks h i [] ar'"
proof (cases "b = Some ar")
  case False
  with t obtain ar' where ar': "arena_alloc l ar = Some (None, ar')" "b = Some ar'" by (auto simp: arena_tried_def)
  from tr obtain L F where L: "distinct L" "set L = live_blocks h i" "arena_inv ar L F []" by (auto simp: arena_tracks_def)
  from arena_alloc_cases [OF L(3) l] ar'(1) have "base ar' = base ar" "capacity ar' = capacity ar" "\<exists>F'. arena_inv ar' L F' []"
    by auto
  with L(1,2) ar'(2) show ?thesis unfolding arena_tracks_def by blast
qed (use tr in simp)

lemma arena_gave_tracks:
  assumes tr: "arena_tracks h i [] ar" and l: "layout_ok l" and t: "arena_gave l p (Some ar) b"
    and lb: "live_blocks t i = insert (p, block_size l) (live_blocks h i)" and new: "p \<notin> fst ` live_blocks h i"
  shows "\<exists>ar'. b = Some ar' \<and> base ar' = base ar \<and> capacity ar' = capacity ar \<and> arena_tracks t i [] ar'"
proof -
  from t obtain ar' where ar': "arena_alloc l ar = Some (Some p, ar')" "b = Some ar'" by (auto simp: arena_gave_def)
  from tr obtain L F where L: "distinct L" "set L = live_blocks h i" "arena_inv ar L F []" by (auto simp: arena_tracks_def)
  from arena_alloc_cases [OF L(3) l] ar'(1) have e: "base ar' = base ar" "capacity ar' = capacity ar"
    and "\<exists>F'. arena_inv ar' ((p, block_size l) # L) F' []" by auto
  then obtain F' where F': "arena_inv ar' ((p, block_size l) # L) F' []" by blast
  have "(p, block_size l) \<notin> set L" using new L(2) by force
  then have d: "distinct ((p, block_size l) # L)" using L(1) by simp
  have "set ((p, block_size l) # L) = live_blocks t i" by (simp add: L(2) lb)
  with d F' have "arena_tracks t i [] ar'" unfolding arena_tracks_def by blast
  with e ar'(2) show ?thesis by blast
qed

text \<open>Everything but the new block stays, and the new block is apart from all others.\<close>

lemma sys_apart_added:
  assumes ok: "sys_apart h" and n: "0 < n" and f: "sys_free h (Some p) n"
    and o: "\<And>x. owned t x = (if x = Sys_Node p then Some (unat p, unat n) else owned h x)"
  shows "sys_apart t"
proof -
  have n0: "0 < unat n" using n by (simp add: word_less_nat_alt)
  have ap: "apart (unat p, unat n) b" if "owned h x = Some b" for x b using f that unfolding sys_free_def by blast
  have p: "unat p + unat n < 2 ^ 64" using f by (simp add: sys_free_def)
  have "0 < snd b \<and> fst b + snd b < 2 ^ 64" if "owned t x = Some b" for x b
  proof (cases "x = Sys_Node p")
    case True
    with that o [of x] have "b = (unat p, unat n)" by (simp del: owned.simps)
    with n0 p show ?thesis by simp
  next
    case False
    with that o [of x] have "owned h x = Some b" by (simp del: owned.simps)
    with ok show ?thesis unfolding sys_apart_def by blast
  qed
  moreover have "apart b c" if b: "owned t x = Some b" and c: "owned t y = Some c" and ne: "x \<noteq> y" for x y b c
  proof -
    consider "x = Sys_Node p" "y \<noteq> Sys_Node p" | "x \<noteq> Sys_Node p" "y = Sys_Node p" | "x \<noteq> Sys_Node p" "y \<noteq> Sys_Node p"
      using ne by blast
    then show ?thesis
    proof cases
      case 1
      with b c o [of x] o [of y] have "b = (unat p, unat n)" "owned h y = Some c" by (simp_all del: owned.simps)
      with ap show ?thesis by blast
    next
      case 2
      with b c o [of x] o [of y] have "c = (unat p, unat n)" "owned h x = Some b" by (simp_all del: owned.simps)
      with ap have "apart c b" by blast
      then show ?thesis by (simp add: apart_sym)
    next
      case 3
      with b c o [of x] o [of y] have "owned h x = Some b" "owned h y = Some c" by (simp_all del: owned.simps)
      with ok ne show ?thesis unfolding sys_apart_def by blast
    qed
  qed
  ultimately show ?thesis unfolding sys_apart_def by blast
qed

lemma added_blocks:
  assumes ok: "blocks_ok h" and inv: "heap_inv h" and ad: "mem_added h pid gt sys p l t" and new: "heads h p = None"
    and l: "layout_ok l" and n: "0 < l_size l" and s: "sys_free h sys (l_size l)"
    and sz: "type_info h gt = Some info" "ti_layout_size info = l_size l"
  shows "blocks_ok t"
proof -
  let ?i = "unat pid"
  from ad obtain fl where v: "\<And>x. map_option mem_view (heads t x) =
      (if x = p then Some (gt, pid, fl) else map_option mem_view (heads h x))"
    and ar: "if fl then arena_gave l p (arena (partitions h ! ?i)) (arena (partitions t ! ?i))
         else sys = Some p \<and> arena_tried l (arena (partitions h ! ?i)) (arena (partitions t ! ?i))"
    by (auto simp: mem_added_def)
  have nd: "node_dtypes t = node_dtypes h" and len: "length (partitions t) = length (partitions h)"
    and i: "?i < length (partitions h)"
    and oth: "\<And>j. j < length (partitions h) \<Longrightarrow> j \<noteq> ?i \<Longrightarrow> arena (partitions t ! j) = arena (partitions h ! j)"
    using ad by (simp_all add: mem_added_def mem_grown_def)
  have o: "in_par t j x = in_par h j x" "node_size t x = node_size h x" "in_arena t x = in_arena h x"
    "heads t x = None \<longleftrightarrow> heads h x = None" if "x \<noteq> p" for j x
    using mem_view_obs [of t x h, OF _ nd] v [of x] that by simp_all
  from v [of p] obtain q where q: "heads t p = Some q" "mem_view q = (gt, pid, fl)" by auto
  have pp: "in_par t j p \<longleftrightarrow> j = ?i" "node_size t p = l_size l" "in_arena t p = fl" for j
    using q sz nd by (auto simp: in_par_def node_size_def mem_view_def type_info_def in_arena_def)
  have np: "\<not> in_par h j p" for j using new by (simp add: in_par_def)
  have lb: "live_blocks t j = (if fl \<and> j = ?i then insert (p, block_size l) (live_blocks h j) else live_blocks h j)" for j
  proof -
    have S: "{a. in_par t j a \<and> in_arena t a} =
        (if fl \<and> j = ?i then insert p {a. in_par h j a \<and> in_arena h a} else {a. in_par h j a \<and> in_arena h a})"
    proof (rule set_eqI)
      fix x show "x \<in> {a. in_par t j a \<and> in_arena t a} \<longleftrightarrow> x \<in> (if fl \<and> j = ?i
          then insert p {a. in_par h j a \<and> in_arena h a} else {a. in_par h j a \<and> in_arena h a})"
        using o(1,3) [of x] pp(1,3) np by (cases "x = p") auto
    qed
    have "(\<lambda>a. (a, max (node_size t a) MIN_ALLOC_SIZE)) ` {a. in_par h j a \<and> in_arena h a} = live_blocks h j"
      unfolding live_blocks_def
    proof (rule image_cong [OF refl])
      fix x assume "x \<in> {a. in_par h j a \<and> in_arena h a}"
      with np [of j] have "x \<noteq> p" by blast
      then show "(x, max (node_size t x) MIN_ALLOC_SIZE) = (x, max (node_size h x) MIN_ALLOC_SIZE)" using o(2) by simp
    qed
    then show ?thesis unfolding live_blocks_def [of t] S
      by (cases "fl \<and> j = ?i") (auto simp: pp(2) block_size_def)
  qed
  have pl: "p \<notin> fst ` live_blocks h j" for j using np by (auto simp: live_blocks_def)
  have tracks: "arena_tracks h j [] r" if "j < length (partitions h)" "arena (partitions h ! j) = Some r" for j r
    using ok that by (simp add: blocks_ok_def arenas_ok_def)
  have ari: "map_option (\<lambda>r. (base r, capacity r)) (arena (partitions t ! ?i)) =
        map_option (\<lambda>r. (base r, capacity r)) (arena (partitions h ! ?i)) \<and>
      (\<forall>r. arena (partitions t ! ?i) = Some r \<longrightarrow> arena_tracks t ?i [] r)"
  proof (cases "arena (partitions h ! ?i)")
    case None
    with ar show ?thesis by (auto simp: arena_gave_def arena_tried_def split: if_splits)
  next
    case (Some r)
    have "\<exists>r'. arena (partitions t ! ?i) = Some r' \<and> base r' = base r \<and> capacity r' = capacity r \<and> arena_tracks t ?i [] r'"
    proof (cases fl)
      case True
      with ar Some have g: "arena_gave l p (Some r) (arena (partitions t ! ?i))" by simp
      have "live_blocks t ?i = insert (p, block_size l) (live_blocks h ?i)" using True lb [of ?i] by simp
      from arena_gave_tracks [OF tracks [OF i Some] l g this pl] show ?thesis .
    next
      case False
      with ar Some have "arena_tried l (Some r) (arena (partitions t ! ?i))" by simp
      note tried = arena_tried_tracks [OF tracks [OF i Some] l this]
      have e: "live_blocks t ?i = live_blocks h ?i" using False lb [of ?i] by simp
      show ?thesis unfolding arena_tracks_cong [OF e] by (rule tried)
    qed
    with Some show ?thesis by auto
  qed
  have "arena_tracks t j [] r" if j: "j < length (partitions h)" and r: "arena (partitions t ! j) = Some r" for j r
  proof (cases "j = ?i")
    case False
    then have "live_blocks t j = live_blocks h j" using lb [of j] by simp
    from arena_tracks_cong [OF this] tracks [OF j] oth [OF j False] r show ?thesis by simp
  qed (use ari r in simp)
  then have "arenas_ok t" by (simp add: arenas_ok_def len)
  moreover have "sys_apart t"
  proof -
    have a: "owned t (Arena_Of j) = owned h (Arena_Of j)" for j
    proof (cases "j = ?i")
      case True
      with i ari len show ?thesis
        by (cases "arena (partitions t ! ?i)"; cases "arena (partitions h ! ?i)") simp_all
    next
      case False
      then show ?thesis using oth [of j] len by simp
    qed
    have b: "owned t (Sys_Node x) = owned h (Sys_Node x)" if "x \<noteq> p" for x using o(2,3,4) [OF that] by simp
    have c: "owned t (Sys_Node p) = (if fl then None else Some (unat p, unat (l_size l)))" using q pp by simp
    have hp: "owned h (Sys_Node p) = None" using new by simp
    have okh: "sys_apart h" using ok by (simp add: blocks_ok_def)
    show ?thesis
    proof (cases fl)
      case True
      have "owned t x = owned h x" for x using a b c hp True by (cases x) (metis, metis)
      with okh show ?thesis by (simp add: sys_apart_def)
    next
      case False
      have "owned t x = (if x = Sys_Node p then Some (unat p, unat (l_size l)) else owned h x)" for x
        using a b c False by (cases x) (metis owner.inject(1), metis owner.distinct(1))
      moreover have "sys_free h (Some p) (l_size l)" using s ar False by simp
      ultimately show ?thesis using sys_apart_added [OF okh n] by blast
    qed
  qed
  ultimately show ?thesis by (simp add: blocks_ok_def)
qed

lemma refused_blocks:
  assumes ok: "blocks_ok h" and r: "mem_refused h pid l t" and l: "layout_ok l"
  shows "blocks_ok t"
proof -
  let ?i = "unat pid"
  have e: "heads t = heads h" "node_dtypes t = node_dtypes h" and len: "length (partitions t) = length (partitions h)"
    and i: "?i < length (partitions h)" and ar: "arena_tried l (arena (partitions h ! ?i)) (arena (partitions t ! ?i))"
    and oth: "\<And>j. j < length (partitions h) \<Longrightarrow> j \<noteq> ?i \<Longrightarrow> arena (partitions t ! j) = arena (partitions h ! j)"
    using r by (simp_all add: mem_refused_def mem_grown_def)
  have ob: "in_par t j x = in_par h j x" "node_size t x = node_size h x" "in_arena t x = in_arena h x" for j x
    using mem_view_obs(1,2,3) [of t x h, OF _ e(2)] e(1) by simp_all
  have lb: "live_blocks t j = live_blocks h j" for j by (rule live_blocks_cong) (simp_all add: ob)
  have tracks: "arena_tracks h j [] r" if "j < length (partitions h)" "arena (partitions h ! j) = Some r" for j r
    using ok that by (simp add: blocks_ok_def arenas_ok_def)
  have ari: "map_option (\<lambda>r. (base r, capacity r)) (arena (partitions t ! ?i)) =
        map_option (\<lambda>r. (base r, capacity r)) (arena (partitions h ! ?i)) \<and>
      (\<forall>r. arena (partitions t ! ?i) = Some r \<longrightarrow> arena_tracks t ?i [] r)"
  proof (cases "arena (partitions h ! ?i)")
    case None
    with ar show ?thesis by (auto simp: arena_tried_def)
  next
    case (Some r)
    with ar have "arena_tried l (Some r) (arena (partitions t ! ?i))" by simp
    from arena_tried_tracks [OF tracks [OF i Some] l this] Some show ?thesis
      by (auto simp: arena_tracks_cong [OF lb])
  qed
  have "arena_tracks t j [] r" if j: "j < length (partitions h)" and r: "arena (partitions t ! j) = Some r" for j r
  proof (cases "j = ?i")
    case False
    with tracks [OF j] oth [OF j] r show ?thesis by (simp add: arena_tracks_cong [OF lb])
  qed (use ari r in simp)
  then have "arenas_ok t" by (simp add: arenas_ok_def len)
  moreover have "owned t x = owned h x" for x
  proof (cases x)
    case (Sys_Node a)
    then show ?thesis by (simp add: e ob)
  next
    case (Arena_Of j)
    show ?thesis
    proof (cases "j = ?i")
      case True
      with Arena_Of i ari len show ?thesis
        by (cases "arena (partitions t ! ?i)"; cases "arena (partitions h ! ?i)") simp_all
    next
      case False
      with Arena_Of oth [of j] len show ?thesis by simp
    qed
  qed
  ultimately show ?thesis using ok by (simp add: blocks_ok_def sys_apart_def)
qed

section \<open>Partitions\<close>

text \<open>A partition with an arena takes one block of the system allocator.\<close>

lemma arena_new_fields:
  assumes "arena_new cap sys = Some ar"
  shows "sys = Some (base ar)" "capacity ar = cap"
  using assms by (auto simp: arena_new_def bind_eq_Some_conv)

lemma empty_arena_tracks:
  assumes "arena_new cap sys = Some ar" "sys_free h sys cap" "live_blocks t i = {}"
  shows "arena_tracks t i [] ar"
proof -
  have "arena_inv ar [] [] []"
    by (rule arena_new_inv [OF assms(1)]) (use assms(2) in \<open>simp add: sys_free_def\<close>)
  with assms(3) show ?thesis unfolding arena_tracks_def by (intro exI [of _ "[]"]) auto
qed

text \<open>One arena is new; the system nodes may become fewer.\<close>

lemma sys_apart_arena:
  assumes ok: "sys_apart h" and cap: "0 < cap" and f: "sys_free u (Some p) cap"
    and o: "\<And>x b. x \<noteq> Arena_Of i \<Longrightarrow> owned t x = Some b \<Longrightarrow> owned h x = Some b \<and> owned u x = Some b"
    and i: "\<And>b. owned t (Arena_Of i) = Some b \<Longrightarrow> b = (unat p, unat cap)"
  shows "sys_apart t"
proof -
  have c0: "0 < unat cap" using cap by (simp add: word_less_nat_alt)
  have ap: "apart (unat p, unat cap) b" if "owned u x = Some b" for x b using f that unfolding sys_free_def by blast
  have p: "unat p + unat cap < 2 ^ 64" using f by (simp add: sys_free_def)
  have "0 < snd b \<and> fst b + snd b < 2 ^ 64" if "owned t x = Some b" for x b
  proof (cases "x = Arena_Of i")
    case True
    with i that have "b = (unat p, unat cap)" by blast
    with c0 p show ?thesis by simp
  next
    case False
    with o that have "owned h x = Some b" by blast
    with ok show ?thesis unfolding sys_apart_def by blast
  qed
  moreover have "apart b c" if b: "owned t x = Some b" and c: "owned t y = Some c" and ne: "x \<noteq> y" for x y b c
  proof -
    consider "x = Arena_Of i" "y \<noteq> Arena_Of i" | "x \<noteq> Arena_Of i" "y = Arena_Of i" | "x \<noteq> Arena_Of i" "y \<noteq> Arena_Of i"
      using ne by blast
    then show ?thesis
    proof cases
      case 1
      with b c i o ap show ?thesis by blast
    next
      case 2
      with b c i o ap have "apart c b" by blast
      then show ?thesis by (simp add: apart_sym)
    next
      case 3
      with b c o have "owned h x = Some b" "owned h y = Some c" by blast+
      with ok ne show ?thesis unfolding sys_apart_def by blast
    qed
  qed
  ultimately show ?thesis unfolding sys_apart_def by blast
qed

lemma create_blocks:
  assumes w: "world_ok h" and ok: "blocks_ok h" and r: "create_partition cap ma sys h = Some (pid, t)"
    and s: "0 < cap \<Longrightarrow> sys_free h sys cap"
  shows "blocks_ok t"
proof -
  let ?n = "length (partitions h)"
  from r obtain p where t: "t = h\<lparr>partitions := partitions h @ [p]\<rparr>"
    and p: "arena p = None \<or> 0 < cap \<and> (\<exists>a. arena_new cap sys = Some a \<and> arena p = Some a)"
    by (auto simp: create_partition_def partition_new_def vec_push_def Let_def bind_eq_Some_conv split: if_splits)
  have e: "heads t = heads h" "node_dtypes t = node_dtypes h" and par: "partitions t = partitions h @ [p]" by (simp_all add: t)
  have ob: "in_par t j x = in_par h j x" "node_size t x = node_size h x" "in_arena t x = in_arena h x" for j x
    using mem_view_obs(1,2,3) [of t x h, OF _ e(2)] e(1) by simp_all
  have lb: "live_blocks t j = live_blocks h j" for j by (rule live_blocks_cong) (simp_all add: ob)
  have none: "live_blocks t ?n = {}"
    unfolding lb using in_par_bound [OF world_okD(2) [OF w], of ?n] by (auto simp: live_blocks_def)
  have old: "owned t x = owned h x" if "x \<noteq> Arena_Of ?n" for x
    using that by (cases x) (auto simp: e ob par nth_append less_Suc_eq)
  have tracks: "arena_tracks t j [] r" if j: "j < Suc ?n" and r: "arena (partitions t ! j) = Some r" for j r
  proof (cases "j = ?n")
    case True
    with p r have a: "arena_new cap sys = Some r" "0 < cap" by (auto simp: par)
    from empty_arena_tracks [OF a(1) s [OF a(2)] none] True show ?thesis by simp
  next
    case False
    with j r have "arena_tracks h j [] r" using ok by (auto simp: par nth_append blocks_ok_def arenas_ok_def)
    then show ?thesis by (simp add: arena_tracks_cong [OF lb])
  qed
  have okh: "sys_apart h" using ok by (simp add: blocks_ok_def)
  have "sys_apart t"
  proof (cases "arena p")
    case None
    then have "owned t x = owned h x" for x using old by (cases "x = Arena_Of ?n") (auto simp: par)
    with okh show ?thesis by (simp add: sys_apart_def)
  next
    case (Some a)
    with p have a: "arena_new cap sys = Some a" "0 < cap" by auto
    note f = arena_new_fields [OF a(1)]
    have "sys_free h (Some (base a)) cap" using s [OF a(2)] f(1) by simp
    then show ?thesis
    proof (rule sys_apart_arena [OF okh a(2), of h _ ?n])
      show "owned h x = Some b \<and> owned h x = Some b" if "x \<noteq> Arena_Of ?n" "owned t x = Some b" for x b
        using old [OF that(1)] that(2) by (simp del: owned.simps)
      show "b = (unat (base a), unat cap)" if "owned t (Arena_Of ?n) = Some b" for b
        using that Some f(2) by (simp add: par)
    qed
  qed
  with tracks show ?thesis by (simp add: blocks_ok_def arenas_ok_def par)
qed

lemma sys_apart_sub:
  assumes ok: "sys_apart h" and o: "\<And>x b. owned t x = Some b \<Longrightarrow> owned h x = Some b"
  shows "sys_apart t"
  unfolding sys_apart_def
proof (intro conjI allI impI)
  fix x b assume "owned t x = Some b"
  with o have "owned h x = Some b" by blast
  with ok show "0 < snd b" "fst b + snd b < 2 ^ 64" unfolding sys_apart_def by blast+
next
  fix x y b c assume "owned t x = Some b" "owned t y = Some c" "x \<noteq> y"
  with o have "owned h x = Some b" "owned h y = Some c" by blast+
  with ok \<open>x \<noteq> y\<close> show "apart b c" unfolding sys_apart_def by blast
qed

text \<open>
  When a partition is removed its nodes are given back first, then the new arena is allocated and
  takes the place of the old one.
\<close>

definition drop_nodes :: "'p gc_heap \<Rightarrow> nat \<Rightarrow> 'p gc_heap" where
  "drop_nodes h i = h\<lparr>heads := heads h |` {a. \<not> in_par h i a}\<rparr>"

lemma dealloc_partition_arena:
  assumes "dealloc_partition pid link sys h = Some (n, t)"
  shows "arena (partitions t ! unat pid) =
    (if 0 < arena_capacity (partitions t ! unat pid) then arena_new (arena_capacity (partitions t ! unat pid)) sys else None)"
proof -
  from assms obtain h2 par1 par2 where g: "get_par h2 pid = Some par1" and r: "reset_arena sys par1 = Some par2"
    and t: "t = put_par pid (par2\<lparr>memory_used := 0, nodes := None, gray_list := [], marking := False\<rparr>) h2"
    by (auto simp: dealloc_partition_def bind_eq_Some_conv Let_def)
  have "unat pid < length (partitions h2)" using g by (simp add: get_par_Some)
  then have p: "partitions t ! unat pid = par2\<lparr>memory_used := 0, nodes := None, gray_list := [], marking := False\<rparr>"
    by (simp add: t)
  from r have "arena par2 = (if 0 < arena_capacity par2 then arena_new (arena_capacity par2) sys else None)"
    by (auto simp: reset_arena_def bind_eq_Some_conv split: if_splits)
  then show ?thesis unfolding p by simp
qed

lemma remove_blocks:
  assumes w: "world_ok h" and ok: "blocks_ok h" and i: "unat pid < length (partitions h)"
    and r: "remove_partition pid sys h = Some (n, t)" and pr: "partition_removed h (unat pid) m t"
    and s: "0 < arena_capacity (partitions h ! unat pid) \<Longrightarrow>
      sys_free (drop_nodes h (unat pid)) sys (arena_capacity (partitions h ! unat pid))"
  shows "blocks_ok t"
proof -
  let ?i = "unat pid" and ?u = "drop_nodes h (unat pid)"
  let ?cap = "arena_capacity (partitions h ! ?i)"
  have hd: "heads t = heads h |` {a. \<not> in_par h ?i a}" and nd: "node_dtypes t = node_dtypes h"
    and len: "length (partitions t) = length (partitions h)"
    and oth: "\<And>j. j < length (partitions h) \<Longrightarrow> j \<noteq> ?i \<Longrightarrow> partitions t ! j = partitions h ! j"
    and cap: "arena_capacity (partitions t ! ?i) = ?cap"
    using pr by (simp_all add: partition_removed_def fresh_partition_def)
  have ar: "arena (partitions t ! ?i) = (if 0 < ?cap then arena_new ?cap sys else None)"
  proof -
    from i obtain p where "get_par h pid = Some p" by (simp add: get_par_Some)
    then have "\<exists>link h1. finalize_partition pid h = Some (Some link, h1) \<and> dealloc_partition pid link sys h1 = Some (n, t)"
      using r by (auto simp: remove_partition_def finalize_partition_def finalize_partition_prepare_def bind_eq_Some_conv
          Let_def split: option.splits)
    then show ?thesis using dealloc_partition_arena cap by metis
  qed
  have ob: "in_par t j x = in_par h j x" "node_size t x = node_size h x" "in_arena t x = in_arena h x"
    if "\<not> in_par h ?i x" for j x
    using mem_view_obs(1,2,3) [of t x h, OF _ nd] that by (simp_all add: hd restrict_map_def)
  have gone: "heads t x = None" if "in_par h ?i x" for x using that by (simp add: hd)
  have lb: "live_blocks t j = live_blocks h j" if "j \<noteq> ?i" for j
  proof (rule live_blocks_cong)
    show "in_par t j a \<and> in_arena t a \<longleftrightarrow> in_par h j a \<and> in_arena h a" for a
    proof (cases "in_par h ?i a")
      case True
      then have "\<not> in_par h j a" using in_par_unique [OF True] \<open>j \<noteq> ?i\<close> by blast
      with gone [OF True] show ?thesis by (simp add: in_par_def)
    next
      case False
      then show ?thesis by (simp add: ob)
    qed
    show "node_size t a = node_size h a" if "in_par h j a" for a
      using ob(2) [of a] in_par_unique [OF that, of ?i] \<open>j \<noteq> ?i\<close> by blast
  qed
  have "\<not> in_par t ?i x" for x
  proof (cases "in_par h ?i x")
    case True
    with gone [OF True] show ?thesis by (simp add: in_par_def)
  qed (simp add: ob)
  then have none: "live_blocks t ?i = {}" by (simp add: live_blocks_def)
  have sub: "owned h x = Some b \<and> owned ?u x = Some b" if x: "x \<noteq> Arena_Of ?i" "owned t x = Some b" for x b
  proof (cases x)
    case (Sys_Node a)
    with x have "heads t a \<noteq> None" by (simp split: if_splits)
    then have n: "\<not> in_par h ?i a" by (rule contrapos_nn) (rule gone)
    have e: "heads ?u a = heads t a" "node_dtypes ?u = node_dtypes t" by (simp_all add: drop_nodes_def hd nd)
    note mv = mem_view_obs(2,3) [OF arg_cong [OF e(1), of "map_option mem_view"] e(2)]
    have "owned ?u x = owned t x" unfolding Sys_Node owned.simps mv e(1) ..
    moreover have "owned h x = owned t x" using ob(2,3) [OF n] n by (simp add: Sys_Node hd)
    ultimately show ?thesis using x by simp
  next
    case (Arena_Of j)
    with x oth [of j] len show ?thesis by (auto simp: drop_nodes_def split: if_splits)
  qed
  have okh: "sys_apart h" using ok by (simp add: blocks_ok_def)
  have tracks: "arena_tracks t j [] q" if j: "j < length (partitions h)" and q: "arena (partitions t ! j) = Some q" for j q
  proof (cases "j = ?i")
    case True
    with q ar have a: "arena_new ?cap sys = Some q" "0 < ?cap" by (simp_all split: if_splits)
    have "sys_free ?u sys ?cap" by (rule s [OF a(2)])
    then have "\<And>p. sys = Some p \<Longrightarrow> unat p + unat ?cap < 2 ^ 64" by (simp add: sys_free_def)
    then have "arena_inv q [] [] []" by (rule arena_new_inv [OF a(1)])
    then show ?thesis unfolding arena_tracks_def True using none by (intro exI [of _ "[]"]) auto
  next
    case False
    then have "arena_tracks h j [] q" using ok q oth [OF j] j by (simp add: blocks_ok_def arenas_ok_def)
    then show ?thesis unfolding arena_tracks_cong [OF lb [OF False]] .
  qed
  moreover have "sys_apart t"
  proof (cases "arena (partitions t ! ?i)")
    case None
    have "owned h x = Some b" if "owned t x = Some b" for x b
      using sub [OF _ that] None that by (cases "x = Arena_Of ?i") (auto split: if_splits)
    then show ?thesis by (rule sys_apart_sub [OF okh])
  next
    case (Some a)
    with ar have a: "arena_new ?cap sys = Some a" "0 < ?cap" by (simp_all split: if_splits)
    note f = arena_new_fields [OF a(1)]
    have "sys_free ?u (Some (base a)) ?cap" using s [OF a(2)] f(1) by simp
    then show ?thesis
    proof (rule sys_apart_arena [OF okh a(2), of ?u _ ?i])
      show "owned h x = Some b \<and> owned ?u x = Some b" if "x \<noteq> Arena_Of ?i" "owned t x = Some b" for x b
        by (rule sub [OF that])
      show "b = (unat (base a), unat ?cap)" if "owned t (Arena_Of ?i) = Some b" for b
        using that Some f(2) i len by simp
    qed
  qed
  ultimately show ?thesis by (simp add: blocks_ok_def arenas_ok_def len)
qed

end
