(* ===== verification/Gc_Blocks_Sweep.thy ===== *)
theory Gc_Blocks_Sweep
  imports Gc_Blocks
begin

text \<open>
  A sweep gives memory back: while it walks through the chains of a partition the arena of the
  partition knows the blocks of the nodes that are left and of the holes the disposed nodes leave
  behind, and \<open>finish_sweep\<close> turns the holes into the free list.  The loops are treated by their
  fixed-point induction: whatever they return satisfies the invariant.
\<close>

section \<open>The invariant of a running sweep\<close>

definition opt_in :: "addr set \<Rightarrow> addr option \<Rightarrow> bool" where
  "opt_in N p \<longleftrightarrow> (\<forall>a. p = Some a \<longrightarrow> a \<in> N)"

lemma opt_in_simps [simp]: "opt_in N None" "opt_in N (Some a) \<longleftrightarrow> a \<in> N"
  by (simp_all add: opt_in_def)

definition arena_kept :: "'p gc_heap \<Rightarrow> nat \<Rightarrow> hole list \<Rightarrow> gc_arena option \<Rightarrow> gc_arena option \<Rightarrow> bool" where
  "arena_kept t i H a0 a1 \<longleftrightarrow>
     (case a0 of None \<Rightarrow> a1 = None
      | Some r0 \<Rightarrow> \<exists>r. a1 = Some r \<and> base r = base r0 \<and> capacity r = capacity r0 \<and> arena_tracks t i H r)"

text \<open>
  \<open>t\<close> is a state of a sweep of partition \<open>i\<close> that began at \<open>h\<close>: only nodes of \<open>i\<close> have gone,
  the links of its nodes stay inside it, and its arena accounts for the holes \<open>H\<close>.
\<close>

definition sweeping :: "'p gc_heap \<Rightarrow> nat \<Rightarrow> hole list \<Rightarrow> 'p gc_heap \<Rightarrow> bool" where
  "sweeping h i H t \<longleftrightarrow>
     node_dtypes t = node_dtypes h \<and> length (partitions t) = length (partitions h) \<and> i < length (partitions h) \<and>
     (\<forall>j<length (partitions h). j \<noteq> i \<longrightarrow> arena (partitions t ! j) = arena (partitions h ! j)) \<and>
     (\<forall>a. heads t a \<noteq> None \<longrightarrow> map_option mem_view (heads t a) = map_option mem_view (heads h a)) \<and>
     (\<forall>a. a \<notin> part_nodes h i \<longrightarrow> (heads t a = None \<longleftrightarrow> heads h a = None)) \<and>
     (\<forall>a g. a \<in> part_nodes h i \<longrightarrow> heads t a = Some g \<longrightarrow> opt_in (part_nodes h i) (next_ptr g)) \<and>
     arena_kept t i H (arena (partitions h ! i)) (arena (partitions t ! i))"

lemma sweepingD:
  assumes "sweeping h i H t"
  shows "node_dtypes t = node_dtypes h" "length (partitions t) = length (partitions h)" "i < length (partitions h)"
    "j < length (partitions h) \<Longrightarrow> j \<noteq> i \<Longrightarrow> arena (partitions t ! j) = arena (partitions h ! j)"
    "heads t a \<noteq> None \<Longrightarrow> map_option mem_view (heads t a) = map_option mem_view (heads h a)"
    "a \<notin> part_nodes h i \<Longrightarrow> heads t a = None \<longleftrightarrow> heads h a = None"
    "a \<in> part_nodes h i \<Longrightarrow> heads t a = Some g \<Longrightarrow> opt_in (part_nodes h i) (next_ptr g)"
    "arena_kept t i H (arena (partitions h ! i)) (arena (partitions t ! i))"
  using assms unfolding sweeping_def by blast+

lemma arena_kept_cong:
  assumes "live_blocks u i = live_blocks t i"
  shows "arena_kept u i H a0 a1 = arena_kept t i H a0 a1"
  by (simp add: arena_kept_def arena_tracks_def assms split: option.splits)

lemma map_arena_nth:
  assumes "map arena (partitions u) = map arena (partitions t)"
  shows "length (partitions u) = length (partitions t)"
    "j < length (partitions t) \<Longrightarrow> arena (partitions u ! j) = arena (partitions t ! j)"
proof -
  show l: "length (partitions u) = length (partitions t)" using assms by (metis length_map)
  show "arena (partitions u ! j) = arena (partitions t ! j)" if "j < length (partitions t)"
    using assms that l by (metis nth_map)
qed

text \<open>Links, payloads, counters and weak slots may change.\<close>

lemma sweeping_same:
  assumes s: "sweeping h i H t" and nd: "node_dtypes u = node_dtypes t" and ar: "map arena (partitions u) = map arena (partitions t)"
    and v: "\<And>a. map_option mem_view (heads u a) = map_option mem_view (heads t a)"
    and n: "\<And>a g. a \<in> part_nodes h i \<Longrightarrow> heads u a = Some g \<Longrightarrow> opt_in (part_nodes h i) (next_ptr g)"
  shows "sweeping h i H u"
proof -
  note d = sweepingD [OF s] and m = map_arena_nth [OF ar]
  have none: "heads u a = None \<longleftrightarrow> heads t a = None" for a using v [of a] by (metis map_option_is_None)
  note ob = mem_view_obs [OF v nd]
  have lb: "live_blocks u i = live_blocks t i" by (rule live_blocks_cong) (simp_all add: ob)
  show ?thesis
    unfolding sweeping_def
  proof (intro conjI allI impI)
    show "arena_kept u i H (arena (partitions h ! i)) (arena (partitions u ! i))"
      using d(8) m(2) d(2,3) by (simp add: arena_kept_cong [OF lb])
    show "map_option mem_view (heads u a) = map_option mem_view (heads h a)" if "heads u a \<noteq> None" for a
      using d(5) that v none by metis
    show "arena (partitions u ! j) = arena (partitions h ! j)" if "j < length (partitions h)" "j \<noteq> i" for j
      using m(2) d(2,4) that by simp
  qed (use d(1-3,6) n nd m(1) none in auto)
qed

lemma sweeping_heads:
  assumes "sweeping h i H t" "heads u = heads t" "node_dtypes u = node_dtypes t" "map arena (partitions u) = map arena (partitions t)"
  shows "sweeping h i H u"
  by (rule sweeping_same [OF assms(1,3,4)]) (use assms(2) sweepingD(7) [OF assms(1)] in simp_all)

lemma sweeping_update_head:
  assumes s: "sweeping h i H t" and u: "update_head f a t = Some u"
    and f: "\<And>g. mem_view (f g) = mem_view g"
    and n: "\<And>g. heads t a = Some g \<Longrightarrow> a \<in> part_nodes h i \<Longrightarrow> opt_in (part_nodes h i) (next_ptr (f g))"
  shows "sweeping h i H u"
proof -
  from u obtain g where g: "heads t a = Some g" "u = put_head a (f g) t" by (auto simp: update_head_Some)
  show ?thesis
  proof (rule sweeping_same [OF s])
    show "opt_in (part_nodes h i) (next_ptr g')" if "b \<in> part_nodes h i" "heads u b = Some g'" for b g'
      using that g n [OF g(1)] sweepingD(7) [OF s that(1)] by (auto split: if_splits)
  qed (use g f in simp_all)
qed

lemma mem_view_next [simp]: "mem_view (g\<lparr>next_ptr := x\<rparr>) = mem_view g"
  by (simp add: mem_view_def contains_flag_def dtype_def partition_id_def)

lemma mem_view_detach [simp]: "mem_view (detach g) = mem_view g"
  by (simp add: detach_def)

lemma sweeping_append:
  assumes s: "sweeping h i H t" and r: "append_tail a tail hd0 t = Some (p, u)"
    and a: "a \<in> part_nodes h i" "opt_in (part_nodes h i) hd0"
  shows "sweeping h i H u \<and> opt_in (part_nodes h i) p"
proof (cases tail)
  case None
  with s r a show ?thesis by (auto simp: append_tail_def)
next
  case (Some k)
  with r have "update_head (\<lambda>g. g\<lparr>next_ptr := Some a\<rparr>) k t = Some u" "p = hd0"
    by (auto simp: append_tail_def bind_eq_Some_conv)
  with sweeping_update_head [OF s this(1)] a show ?thesis by simp
qed

section \<open>Where a sweep begins\<close>

lemma chain_next_in: "chain m p xs \<Longrightarrow> a \<in> set xs \<Longrightarrow> m a = Some g \<Longrightarrow> opt_in (set xs) (next_ptr g)"
proof (induction xs arbitrary: p)
  case (Cons x xs)
  then obtain gx where gx: "m x = Some gx" "chain m (next_ptr gx) xs" by auto
  show ?case
  proof (cases "a = x")
    case True
    with gx Cons.prems(3) show ?thesis by (cases xs) auto
  next
    case False
    with Cons.prems(2) have "a \<in> set xs" by simp
    from Cons.IH [OF gx(2) this Cons.prems(3)] show ?thesis by (auto simp: opt_in_def)
  qed
qed simp

lemma part_nodes_list:
  assumes "heap_ok h" "i < length (partitions h)"
  shows "set (par_list h i) = part_nodes h i"
  using heap_ok_member_iff [OF assms] by (auto simp: part_nodes_def)

lemma chain_first_in: "chain m p xs \<Longrightarrow> opt_in (set xs) p"
  by (cases xs) auto

lemma sweeping_start:
  assumes ok: "heap_ok h" and b: "blocks_ok h" and i: "i < length (partitions h)"
  shows "sweeping h i [] h" "opt_in (part_nodes h i) (nodes (partitions h ! i))"
proof -
  note c = heap_ok_chain [OF ok i] and e = part_nodes_list [OF ok i]
  show "opt_in (part_nodes h i) (nodes (partitions h ! i))" using chain_first_in [OF c] e by simp
  have "arena_kept h i [] (arena (partitions h ! i)) (arena (partitions h ! i))"
    using b i by (auto simp: arena_kept_def blocks_ok_def arenas_ok_def split: option.splits)
  then show "sweeping h i [] h"
    using i chain_next_in [OF c] by (simp add: sweeping_def e)
qed

section \<open>One node is disposed of\<close>

lemma live_blocks_gone:
  assumes hd: "heads u = (heads t)(a := None)" and nd: "node_dtypes u = node_dtypes t"
  shows "live_blocks u i = live_blocks t i - {(a, max (node_size t a) MIN_ALLOC_SIZE)}"
proof -
  have ob: "in_par u i b = in_par t i b" "node_size u b = node_size t b" "in_arena u b = in_arena t b" if "b \<noteq> a" for b
    using mem_view_obs(1,2,3) [of u b t, OF _ nd] that by (simp_all add: hd)
  have na: "\<not> in_par u i a" by (simp add: in_par_def hd)
  show ?thesis
  proof (rule set_eqI)
    fix x :: "addr \<times> usize" obtain b n where x: "x = (b, n)" by (cases x)
    show "x \<in> live_blocks u i \<longleftrightarrow> x \<in> live_blocks t i - {(a, max (node_size t a) MIN_ALLOC_SIZE)}"
      using na ob [of b] by (cases "b = a") (auto simp: x live_blocks_def image_iff)
  qed
qed

lemma sweeping_gone:
  assumes s: "sweeping h i H t" and a: "a \<in> part_nodes h i"
    and hd: "heads u = (heads t)(a := None)" and nd: "node_dtypes u = node_dtypes t"
    and len: "length (partitions u) = length (partitions t)"
    and oth: "\<And>j. j < length (partitions h) \<Longrightarrow> j \<noteq> i \<Longrightarrow> arena (partitions u ! j) = arena (partitions t ! j)"
    and kept: "arena_kept u i H' (arena (partitions h ! i)) (arena (partitions u ! i))"
  shows "sweeping h i H' u"
proof -
  note d = sweepingD [OF s]
  show ?thesis
    unfolding sweeping_def
    using d(1-3) nd len kept d(4) oth d(5-7) a by (auto simp: hd split: if_splits)
qed

lemma arena_kept_out:
  assumes k: "arena_kept t i H a0 a1" and lb: "live_blocks u i = live_blocks t i"
  shows "arena_kept u i H a0 a1"
  using k arena_kept_cong [OF lb] by simp

lemma arena_tracks_hole:
  assumes tr: "arena_tracks t i H ar" and a: "in_par t i a" "in_arena t a"
    and hd: "heads u = (heads t)(a := None)" and nd: "node_dtypes u = node_dtypes t"
    and c: "collect_hole H a (node_size t a) ar = (H', ar')"
  shows "arena_tracks u i H' ar' \<and> base ar' = base ar \<and> capacity ar' = capacity ar"
proof -
  let ?b = "(a, max (node_size t a) MIN_ALLOC_SIZE)"
  from tr obtain L F where L: "distinct L" "set L = live_blocks t i" "arena_inv ar L F H" by (auto simp: arena_tracks_def)
  have "?b \<in> set L" using L(2) a by (auto simp: live_blocks_def)
  then have "mset L = mset (?b # remove1 ?b L)" by simp
  with L(3) arena_inv_perm have "arena_inv ar (?b # remove1 ?b L) F H" by metis
  note r = collect_hole_inv [OF this c]
  have "set (remove1 ?b L) = live_blocks u i" using L(1,2) live_blocks_gone [OF hd nd, of i] by simp
  moreover have "distinct (remove1 ?b L)" using L(1) by simp
  ultimately have "arena_tracks u i H' ar'" using r(1) unfolding arena_tracks_def by blast
  with r(2,3) show ?thesis by blast
qed

text \<open>What both ways to dispose of a node do to the memory.\<close>

lemma clear_weak_slot_mem:
  "clear_weak_slot g h = Some t \<Longrightarrow> heads t = heads h \<and> node_dtypes t = node_dtypes h \<and> partitions t = partitions h"
  by (auto simp: clear_weak_slot_def Let_def split: if_splits)

lemma call_drop_fn_mem:
  "call_drop_fn info a h = Some t \<Longrightarrow> heads t = heads h \<and> node_dtypes t = node_dtypes h \<and> partitions t = partitions h"
  by (auto simp: call_drop_fn_def bind_eq_Some_conv split: if_splits)

lemma map_arena_put_par:
  assumes "get_par h pid = Some p" "arena q = arena p"
  shows "map arena ((partitions h)[unat pid := q]) = map arena (partitions h)"
proof -
  have "arena (partitions h ! unat pid) = arena q" using assms by (simp add: get_par_Some)
  then show ?thesis by (metis list_update_id map_update)
qed

lemma update_mem_use_mem:
  assumes "update_mem_use pid d h = Some (m, t)"
  shows "heads t = heads h \<and> node_dtypes t = node_dtypes h \<and> map arena (partitions t) = map arena (partitions h)"
  using assms by (auto simp: update_mem_use_def bind_eq_Some_conv Let_def map_arena_put_par split: if_splits)

lemma dispose_mem_only_mem:
  assumes "dispose_mem_only a pid n h = Some (m, t)"
  shows "heads t = (heads h)(a := None) \<and> node_dtypes t = node_dtypes h \<and> map arena (partitions t) = map arena (partitions h)"
proof -
  from assms obtain k where "update_mem_use pid (- usize_as_i32 n) (mem_dealloc a h) = Some (k, t)"
    by (auto simp: dispose_mem_only_def bind_eq_Some_conv)
  from update_mem_use_mem [OF this] show ?thesis by (simp add: mem_dealloc_def)
qed

definition disposed :: "'p gc_heap \<Rightarrow> addr \<Rightarrow> 'p gc_heap \<Rightarrow> bool" where
  "disposed h a t \<longleftrightarrow>
     heads t = (heads h)(a := None) \<and> node_dtypes t = node_dtypes h \<and> map arena (partitions t) = map arena (partitions h)"

lemma dispose_no_drop_mem:
  assumes "dispose_no_drop a (h :: 'p gc_heap) = Some (n, t)"
  shows "disposed h a t"
proof -
  from assms obtain g h1 and info :: "'p gc_type_info" where h1: "clear_weak_slot g h = Some h1"
    and d: "dispose_mem_only a (partition_id g) (l_size (info_layout info)) h1 = Some (n, t)"
    unfolding dispose_no_drop_def bind_eq_Some_conv by blast
  from dispose_mem_only_mem [OF d] clear_weak_slot_mem [OF h1] show ?thesis by (simp add: disposed_def)
qed

lemma dispose_mem:
  assumes "dispose a h = Some (n, t)"
  shows "disposed h a t"
proof -
  from assms obtain g info h1 h2 where h1: "clear_weak_slot g h = Some h1" and h2: "call_drop_fn info a h1 = Some h2"
    and d: "dispose_mem_only a (partition_id g) (l_size (info_layout info)) h2 = Some (n, t)"
    unfolding dispose_def bind_eq_Some_conv by blast
  from dispose_mem_only_mem [OF d] clear_weak_slot_mem [OF h1] call_drop_fn_mem [OF h2]
  show ?thesis by (simp add: disposed_def)
qed

text \<open>A disposed node leaves the memory to the system, or a hole in the arena.\<close>

lemma sweeping_disposed:
  assumes s: "sweeping h i H t" and a: "a \<in> part_nodes h i" and g: "heads t a = Some g" "\<not> contains_flag g ARENA_ALLOC"
    and d: "disposed t a u"
  shows "sweeping h i H u"
proof -
  have hd: "heads u = (heads t)(a := None)" and nd: "node_dtypes u = node_dtypes t"
    and ar: "map arena (partitions u) = map arena (partitions t)" using d by (simp_all add: disposed_def)
  note m = map_arena_nth [OF ar] and sd = sweepingD [OF s]
  have "(a, n) \<notin> live_blocks t i" for n using g by (auto simp: live_blocks_def in_arena_def)
  then have "live_blocks u i = live_blocks t i" using live_blocks_gone [OF hd nd, of i] by simp
  from arena_kept_out [OF sd(8) this] m(2) sd(2,3) have
    "arena_kept u i H (arena (partitions h ! i)) (arena (partitions u ! i))" by simp
  then show ?thesis by (rule sweeping_gone [OF s a hd nd m(1), rotated]) (use m(2) sd(2) in simp)
qed

lemma sweeping_hole:
  assumes s: "sweeping h (unat pid) H t" and a: "a \<in> part_nodes h (unat pid)"
    and g: "heads t a = Some g" "contains_flag g ARENA_ALLOC" "type_info t (dtype g) = Some info"
    and d: "disposed t a u" and p: "get_par u pid = Some p" "arena p = Some ar"
    and c: "collect_hole H a (l_size (info_layout info)) ar = (H', ar')"
  shows "sweeping h (unat pid) H' (put_par pid (p\<lparr>arena := Some ar'\<rparr>) u)"
proof -
  let ?i = "unat pid" and ?v = "put_par pid (p\<lparr>arena := Some ar'\<rparr>) u"
  have hd: "heads u = (heads t)(a := None)" and nd: "node_dtypes u = node_dtypes t"
    and ar: "map arena (partitions u) = map arena (partitions t)" using d by (simp_all add: disposed_def)
  note m = map_arena_nth [OF ar] and sd = sweepingD [OF s]
  have i: "?i < length (partitions u)" and pi: "partitions u ! ?i = p" using p(1) by (simp_all add: get_par_Some)
  have at: "arena (partitions t ! ?i) = Some ar" using m(2) [of ?i] i m(1) pi p(2) by simp
  have "node_size t a = l_size (info_layout info)" using g by (simp add: node_size_def info_layout_def)
  with c have c': "collect_hole H a (node_size t a) ar = (H', ar')" by simp
  have ip: "in_par t ?i a" using a g(1) sd(5) [of a]
    by (auto simp: part_nodes_def in_par_def mem_view_def)
  have ia: "in_arena t a" using g by (simp add: in_arena_def)
  from sd(8) at obtain r0 where r0: "arena (partitions h ! ?i) = Some r0" "base ar = base r0" "capacity ar = capacity r0"
    "arena_tracks t ?i H ar" by (auto simp: arena_kept_def split: option.splits)
  have "arena_tracks ?v ?i H' ar' \<and> base ar' = base ar \<and> capacity ar' = capacity ar"
    by (rule arena_tracks_hole [OF r0(4) ip ia _ _ c']) (simp_all add: hd nd)
  then have kept: "arena_kept ?v ?i H' (arena (partitions h ! ?i)) (arena (partitions ?v ! ?i))"
    using r0(1-3) i by (simp add: arena_kept_def)
  show ?thesis
    by (rule sweeping_gone [OF s a _ _ _ _ kept]) (use hd nd m sd(2) in \<open>simp_all\<close>)
qed

lemma dispose_white_sweeping:
  assumes s: "sweeping (h :: 'p gc_heap) (unat pid) H t" and a: "a \<in> part_nodes h (unat pid)"
    and r: "dispose_white pid a (n, H, t) = Some (n', H', u)"
  shows "sweeping h (unat pid) H' u"
proof -
  from r obtain g q and info :: "'p gc_type_info" where g: "heads t a = Some g" "type_info t (dtype g) = Some info"
    and q: "dispose_no_drop a t = Some q"
    and k: "(if contains_flag g ARENA_ALLOC then
            do { par \<leftarrow> get_par (snd q) pid;
                 ar \<leftarrow> arena par;
                 let hr = collect_hole H a (l_size (info_layout info)) ar
                 in Some (n + fst q, fst hr, put_par pid (par\<lparr>arena := Some (snd hr)\<rparr>) (snd q)) }
          else Some (n + fst q, H, snd q)) = Some (n', H', u)"
    unfolding dispose_white_def prod.case bind_eq_Some_conv by blast
  have d: "disposed t a (snd q)" using dispose_no_drop_mem [of a t "fst q" "snd q"] q by simp
  show ?thesis
  proof (cases "contains_flag g ARENA_ALLOC")
    case False
    with k have "H' = H" "u = snd q" by auto
    with sweeping_disposed [OF s a g(1) False d] show ?thesis by simp
  next
    case True
    with k obtain p ar where p: "get_par (snd q) pid = Some p" "arena p = Some ar"
      and e: "H' = fst (collect_hole H a (l_size (info_layout info)) ar)"
        "u = put_par pid (p\<lparr>arena := Some (snd (collect_hole H a (l_size (info_layout info)) ar))\<rparr>) (snd q)"
      by (auto simp: bind_eq_Some_conv Let_def)
    show ?thesis unfolding e by (rule sweeping_hole [OF s a g(1) True g(2) d p]) simp
  qed
qed

lemma sweep_step_sweeping:
  assumes s: "sweeping (h :: 'p gc_heap) (unat pid) (fst (snd st)) t" and a: "a \<in> part_nodes h (unat pid)"
    and r: "sweep_step pid cb a st t = Some (st', u)"
  shows "sweeping h (unat pid) (fst (snd st')) u"
proof -
  let ?H = "fst (snd st)"
  from r obtain g n t1 and info :: "'p gc_type_info" where g: "heads t a = Some g" "type_info t (dtype g) = Some info"
    and q: "dispose a t = Some (n, t1)"
    and k: "(if contains_flag g ARENA_ALLOC then
            do { par \<leftarrow> get_par t1 pid;
                 ar \<leftarrow> arena par;
                 let hr = collect_hole ?H a (l_size (info_layout info)) ar
                 in Some ((fst st + n, fst hr, cb t g (snd (snd st))), put_par pid (par\<lparr>arena := Some (snd hr)\<rparr>) t1) }
          else Some ((fst st + n, ?H, cb t g (snd (snd st))), t1)) = Some (st', u)"
    by (auto simp: sweep_step_def bind_eq_Some_conv Let_def)
  note d = dispose_mem [OF q]
  show ?thesis
  proof (cases "contains_flag g ARENA_ALLOC")
    case False
    with k have "fst (snd st') = ?H" "u = t1" by auto
    with sweeping_disposed [OF s a g(1) False d] show ?thesis by simp
  next
    case True
    with k obtain p ar where p: "get_par t1 pid = Some p" "arena p = Some ar"
      and e: "fst (snd st') = fst (collect_hole ?H a (l_size (info_layout info)) ar)"
        "u = put_par pid (p\<lparr>arena := Some (snd (collect_hole ?H a (l_size (info_layout info)) ar))\<rparr>) t1"
      by (auto simp: bind_eq_Some_conv Let_def)
    show ?thesis unfolding e by (rule sweeping_hole [OF s a g(1) True g(2) d p]) simp
  qed
qed

section \<open>The loops\<close>

lemma unlink_loop_sweeping:
  assumes "unlink_loop cur wh wt sh st t = Some (wh', sh', u)" "sweeping (h :: 'p gc_heap) i H t"
    and "opt_in (part_nodes h i) cur" "opt_in (part_nodes h i) wh" "opt_in (part_nodes h i) sh"
  shows "sweeping h i H u \<and> opt_in (part_nodes h i) wh' \<and> opt_in (part_nodes h i) sh'"
proof -
  let ?N = "part_nodes h i"
  have "sweeping h i H t \<longrightarrow> opt_in ?N cur \<longrightarrow> opt_in ?N wh \<longrightarrow> opt_in ?N sh \<longrightarrow>
      sweeping h i H (snd (snd r)) \<and> opt_in ?N (fst r) \<and> opt_in ?N (fst (snd r))"
    if "unlink_loop cur wh wt sh st t = Some r" for r
  proof (rule unlink_loop.raw_induct [OF _ that], intro impI)
    fix ul cur wh wt sh st and t :: "'p gc_heap" and r
    assume IH: "\<And>cur wh wt sh st t r. ul cur wh wt sh st t = Some r \<Longrightarrow>
        sweeping h i H t \<longrightarrow> opt_in ?N cur \<longrightarrow> opt_in ?N wh \<longrightarrow> opt_in ?N sh \<longrightarrow>
        sweeping h i H (snd (snd r)) \<and> opt_in ?N (fst r) \<and> opt_in ?N (fst (snd r))"
      and b: "(case cur of None \<Rightarrow> Some (wh, sh, t)
        | Some this \<Rightarrow>
          do { g \<leftarrow> heads t this;
               c \<leftarrow> color g;
               h1 \<leftarrow> update_head detach this t;
               if white_non_root g c then
                 do { r \<leftarrow> append_tail this wt wh h1;
                      ul (next_ptr g) (fst r) (Some this) sh st (snd r) }
               else
                 do { r \<leftarrow> append_tail this st sh h1;
                      ul (next_ptr g) wh wt (fst r) (Some this) (snd r) } }) = Some r"
      and s: "sweeping h i H t" and o: "opt_in ?N cur" "opt_in ?N wh" "opt_in ?N sh"
    show "sweeping h i H (snd (snd r)) \<and> opt_in ?N (fst r) \<and> opt_in ?N (fst (snd r))"
    proof (cases cur)
      case None
      with b s o show ?thesis by auto
    next
      case (Some a)
      with b obtain g c t1 where g: "heads t a = Some g" and t1: "update_head detach a t = Some t1"
        and k: "(if white_non_root g c then
                 do { r \<leftarrow> append_tail a wt wh t1;
                      ul (next_ptr g) (fst r) (Some a) sh st (snd r) }
               else
                 do { r \<leftarrow> append_tail a st sh t1;
                      ul (next_ptr g) wh wt (fst r) (Some a) (snd r) }) = Some r"
        by (auto simp: bind_eq_Some_conv)
      have a: "a \<in> ?N" using o(1) Some by simp
      have s1: "sweeping h i H t1" by (rule sweeping_update_head [OF s t1]) simp_all
      have nx: "opt_in ?N (next_ptr g)" by (rule sweepingD(7) [OF s a g])
      show ?thesis
      proof (cases "white_non_root g c")
        case True
        with k obtain q where q: "append_tail a wt wh t1 = Some q" "ul (next_ptr g) (fst q) (Some a) sh st (snd q) = Some r"
          by (auto simp: bind_eq_Some_conv)
        from sweeping_append [OF s1 _ a o(2), of wt "fst q" "snd q"] q(1) have
          "sweeping h i H (snd q)" "opt_in ?N (fst q)" by simp_all
        with IH [OF q(2)] nx o(3) show ?thesis by blast
      next
        case False
        with k obtain q where q: "append_tail a st sh t1 = Some q" "ul (next_ptr g) wh wt (fst q) (Some a) (snd q) = Some r"
          by (auto simp: bind_eq_Some_conv)
        from sweeping_append [OF s1 _ a o(3), of st "fst q" "snd q"] q(1) have
          "sweeping h i H (snd q)" "opt_in ?N (fst q)" by simp_all
        with IH [OF q(2)] nx o(2) show ?thesis by blast
      qed
    qed
  qed
  from this [OF assms(1)] assms(2-5) show ?thesis by simp
qed

lemma for_nodes_sweeping:
  assumes "for_nodes drop_node_payload_without_dealloc cur t = Some u" "sweeping (h :: 'p gc_heap) i H t"
  shows "sweeping h i H u"
  by (rule for_nodes_inv [OF assms(1), where P = "sweeping h i H"])
    (use assms(2) in \<open>auto simp: drop_node_payload_without_dealloc_def bind_eq_Some_conv
      dest!: call_drop_fn_mem intro: sweeping_heads\<close>)

lemma dispose_pass_sweeping:
  assumes "dispose_pass pid q cur kh kt (n, H, t) = Some (kh', n', H', u)" "sweeping (h :: 'p gc_heap) (unat pid) H t"
    and "opt_in (part_nodes h (unat pid)) cur" "opt_in (part_nodes h (unat pid)) kh"
  shows "sweeping h (unat pid) H' u \<and> opt_in (part_nodes h (unat pid)) kh'"
proof -
  let ?N = "part_nodes h (unat pid)" and ?sw = "\<lambda>st. sweeping h (unat pid) (fst (snd st)) (snd (snd st))"
  have "pid' = pid \<longrightarrow> ?sw st \<longrightarrow> opt_in ?N cur \<longrightarrow> opt_in ?N kh \<longrightarrow> ?sw (snd r) \<and> opt_in ?N (fst r)"
    if "dispose_pass pid' q cur kh kt st = Some r" for pid' q cur kh kt st r
  proof (rule dispose_pass.raw_induct [OF _ that], intro impI)
    fix dp pid' q cur kh kt and st :: "usize \<times> hole list \<times> 'p gc_heap" and r
    assume IH: "\<And>pid' q cur kh kt st r. dp pid' q cur kh kt st = Some r \<Longrightarrow>
        pid' = pid \<longrightarrow> ?sw st \<longrightarrow> opt_in ?N cur \<longrightarrow> opt_in ?N kh \<longrightarrow> ?sw (snd r) \<and> opt_in ?N (fst r)"
      and b: "(case cur of None \<Rightarrow> Some (kh, st)
        | Some this \<Rightarrow>
          do { g \<leftarrow> heads (snd (snd st)) this;
               info \<leftarrow> type_info (snd (snd st)) (dtype g);
               if ti_drop_pass info = q then
                 do { st1 \<leftarrow> dispose_white pid' this st;
                      dp pid' q (next_ptr g) kh kt st1 }
               else
                 do { h1 \<leftarrow> update_head detach this (snd (snd st));
                      r \<leftarrow> append_tail this kt kh h1;
                      dp pid' q (next_ptr g) (fst r) (Some this) (fst st, fst (snd st), snd r) } }) = Some r"
      and e: "pid' = pid" and s: "?sw st" and o: "opt_in ?N cur" "opt_in ?N kh"
    show "?sw (snd r) \<and> opt_in ?N (fst r)"
    proof (cases cur)
      case None
      with b s o show ?thesis by auto
    next
      case (Some a)
      with b e obtain g and info :: "'p gc_type_info" where g: "heads (snd (snd st)) a = Some g"
        and k: "(if ti_drop_pass info = q then
                 do { st1 \<leftarrow> dispose_white pid a st; dp pid q (next_ptr g) kh kt st1 }
               else
                 do { h1 \<leftarrow> update_head detach a (snd (snd st));
                      r \<leftarrow> append_tail a kt kh h1;
                      dp pid q (next_ptr g) (fst r) (Some a) (fst st, fst (snd st), snd r) }) = Some r"
        by (auto simp: bind_eq_Some_conv)
      have a: "a \<in> ?N" using o(1) Some by simp
      have nx: "opt_in ?N (next_ptr g)" by (rule sweepingD(7) [OF s a g])
      show ?thesis
      proof (cases "ti_drop_pass info = q")
        case True
        with k obtain st1 where st1: "dispose_white pid a st = Some st1" "dp pid q (next_ptr g) kh kt st1 = Some r"
          by (auto simp: bind_eq_Some_conv)
        have "?sw st1"
          by (rule dispose_white_sweeping [OF s a, of "fst st" "fst st1"]) (use st1(1) in simp)
        with IH [OF st1(2)] nx o(2) show ?thesis by blast
      next
        case False
        with k obtain t1 p where t1: "update_head detach a (snd (snd st)) = Some t1" and p: "append_tail a kt kh t1 = Some p"
          and r: "dp pid q (next_ptr g) (fst p) (Some a) (fst st, fst (snd st), snd p) = Some r"
          by (auto simp: bind_eq_Some_conv)
        have s1: "sweeping h (unat pid) (fst (snd st)) t1" by (rule sweeping_update_head [OF s t1]) simp_all
        from sweeping_append [OF s1 _ a o(2), of kt "fst p" "snd p"] p have
          "sweeping h (unat pid) (fst (snd st)) (snd p)" "opt_in ?N (fst p)" by simp_all
        with IH [OF r] nx show ?thesis by simp
      qed
    qed
  qed
  from this [OF assms(1)] assms(2-4) show ?thesis by simp
qed

lemma dispose_passes_sweeping:
  assumes "dispose_passes pid ps rem (n, H, t) = Some (n', H', u)" "sweeping h (unat pid) H t"
    and "opt_in (part_nodes h (unat pid)) rem"
  shows "sweeping h (unat pid) H' u"
  using assms
proof (induction ps arbitrary: rem n H t)
  case (Cons q ps)
  from Cons.prems(1) obtain r where r: "dispose_pass pid q rem None None (n, H, t) = Some r"
    "(if fst r = None then Some (snd r) else dispose_passes pid ps (fst r) (snd r)) = Some (n', H', u)"
    by (auto simp only: dispose_passes.simps bind_eq_Some_conv)
  obtain kh n1 H1 t1 where e: "r = (kh, n1, H1, t1)" by (cases r) auto
  have d: "dispose_pass pid q rem None None (n, H, t) = Some (kh, n1, H1, t1)"
    and k: "(if kh = None then Some (n1, H1, t1) else dispose_passes pid ps kh (n1, H1, t1)) = Some (n', H', u)"
    using r unfolding e fst_conv snd_conv .
  from dispose_pass_sweeping [OF d Cons.prems(2,3)] have s: "sweeping h (unat pid) H1 t1"
    "opt_in (part_nodes h (unat pid)) kh" by simp_all
  show ?case
  proof (cases "kh = None")
    case False
    with k have "dispose_passes pid ps kh (n1, H1, t1) = Some (n', H', u)" by simp
    from Cons.IH [OF this s] show ?thesis .
  qed (use k s in simp)
qed simp

text \<open>The same for the walk of the one-phase sweep.\<close>

lemma unlink_after_sweeping:
  assumes s: "sweeping h i H t" and r: "unlink_after prev nx link t = Some (link', u)"
    and o: "opt_in (part_nodes h i) nx" "opt_in (part_nodes h i) link"
  shows "sweeping h i H u \<and> opt_in (part_nodes h i) link'"
proof (cases prev)
  case None
  with r s o show ?thesis by (auto simp: unlink_after_def)
next
  case (Some k)
  with r have "update_head (\<lambda>g. g\<lparr>next_ptr := nx\<rparr>) k t = Some u" "link' = link"
    by (auto simp: unlink_after_def bind_eq_Some_conv)
  with sweeping_update_head [OF s this(1)] o show ?thesis by simp
qed

lemma filter_remove_loop_sweeping:
  assumes "filter_remove_loop pr (sweep_step pid cb) prev cur link st t = Some (link', st', u)"
    and "sweeping (h :: 'p gc_heap) (unat pid) (fst (snd st)) t"
    and "opt_in (part_nodes h (unat pid)) cur" "opt_in (part_nodes h (unat pid)) link"
  shows "sweeping h (unat pid) (fst (snd st')) u \<and> opt_in (part_nodes h (unat pid)) link'"
proof -
  let ?N = "part_nodes h (unat pid)" and ?sw = "\<lambda>st t. sweeping h (unat pid) (fst (snd st)) t"
  have "rem = sweep_step pid cb \<longrightarrow> ?sw st t \<longrightarrow> opt_in ?N cur \<longrightarrow> opt_in ?N link \<longrightarrow>
      ?sw (fst (snd r)) (snd (snd r)) \<and> opt_in ?N (fst r)"
    if "filter_remove_loop pr rem prev cur link st t = Some r" for pr rem prev cur link st t r
  proof (rule filter_remove_loop.raw_induct [OF _ that], intro impI)
    fix fl pr rem prev cur link st and t :: "'p gc_heap" and r
    assume IH: "\<And>pr rem prev cur link st t r. fl pr rem prev cur link st t = Some r \<Longrightarrow>
        rem = sweep_step pid cb \<longrightarrow> ?sw st t \<longrightarrow> opt_in ?N cur \<longrightarrow> opt_in ?N link \<longrightarrow>
        ?sw (fst (snd r)) (snd (snd r)) \<and> opt_in ?N (fst r)"
      and b: "(case cur of None \<Rightarrow> Some (link, st, t)
        | Some node \<Rightarrow>
          do { g \<leftarrow> heads t node;
               b \<leftarrow> pr g;
               if b then
                 do { r \<leftarrow> unlink_after prev (next_ptr g) link t;
                      q \<leftarrow> rem node st (snd r);
                      fl pr rem prev (next_ptr g) (fst r) (fst q) (snd q) }
               else fl pr rem (Some node) (next_ptr g) link st t }) = Some r"
      and e: "rem = sweep_step pid cb" and s: "?sw st t" and o: "opt_in ?N cur" "opt_in ?N link"
    show "?sw (fst (snd r)) (snd (snd r)) \<and> opt_in ?N (fst r)"
    proof (cases cur)
      case None
      with b s o show ?thesis by auto
    next
      case (Some a)
      with b obtain g c where g: "heads t a = Some g"
        and k: "(if c then
                 do { r \<leftarrow> unlink_after prev (next_ptr g) link t;
                      q \<leftarrow> rem a st (snd r);
                      fl pr rem prev (next_ptr g) (fst r) (fst q) (snd q) }
               else fl pr rem (Some a) (next_ptr g) link st t) = Some r"
        by (auto simp: bind_eq_Some_conv)
      have a: "a \<in> ?N" using o(1) Some by simp
      have nx: "opt_in ?N (next_ptr g)" by (rule sweepingD(7) [OF s a g])
      show ?thesis
      proof (cases c)
        case False
        with k have "fl pr rem (Some a) (next_ptr g) link st t = Some r" by simp
        from IH [OF this] e s nx o(2) show ?thesis by blast
      next
        case True
        with k obtain l t1 st1 t2 where u: "unlink_after prev (next_ptr g) link t = Some (l, t1)"
          and d: "rem a st t1 = Some (st1, t2)" and r: "fl pr rem prev (next_ptr g) l st1 t2 = Some r"
          by (auto simp: bind_eq_Some_conv)
        from unlink_after_sweeping [OF s u nx o(2)] have s1: "?sw st t1" and l: "opt_in ?N l" by simp_all
        from d have "sweep_step pid cb a st t1 = Some (st1, t2)" unfolding e .
        from sweep_step_sweeping [OF s1 a this] IH [OF r] e nx l show ?thesis by blast
      qed
    qed
  qed
  from this [OF assms(1)] assms(2-4) show ?thesis by simp
qed

lemma remove_passes_sweeping:
  assumes "remove_passes pr (sweep_step pid cb) ps link st t = Some (link', st', u)"
    and "sweeping h (unat pid) (fst (snd st)) t" "opt_in (part_nodes h (unat pid)) link"
  shows "sweeping h (unat pid) (fst (snd st')) u"
  using assms
proof (induction ps arbitrary: link st t)
  case (Cons q ps)
  from Cons.prems(1) obtain l st1 t1 where
    f: "filter_remove_loop (pr q) (sweep_step pid cb) None link link st t = Some (l, st1, t1)"
    and k: "(if l = None then Some (l, st1, t1) else remove_passes pr (sweep_step pid cb) ps l st1 t1) = Some (link', st', u)"
    by (auto simp: bind_eq_Some_conv filter_remove_with_def)
  from filter_remove_loop_sweeping [OF f Cons.prems(2,3,3)] have s: "sweeping h (unat pid) (fst (snd st1)) t1"
    "opt_in (part_nodes h (unat pid)) l" by simp_all
  show ?case
  proof (cases "l = None")
    case False
    with k have "remove_passes pr (sweep_step pid cb) ps l st1 t1 = Some (link', st', u)" by simp
    from Cons.IH [OF this s] show ?thesis .
  qed (use k s in simp)
qed simp

section \<open>The end of a sweep\<close>

lemma sweeping_put_par:
  assumes s: "sweeping h i H t" and p: "get_par t pid = Some p" "arena q = arena p"
  shows "sweeping h i H (put_par pid q t)"
  by (rule sweeping_heads [OF s]) (simp_all add: map_arena_put_par [OF p])

lemma sweeping_finish:
  assumes s: "sweeping h (unat pid) H t" and p: "get_par t pid = Some p"
    and q: "arena q = map_option (\<lambda>ar. snd (finish_sweep H ar)) (arena p)"
  shows "sweeping h (unat pid) [] (put_par pid q t)"
proof -
  let ?i = "unat pid" and ?u = "put_par pid q t"
  note d = sweepingD [OF s]
  have i: "?i < length (partitions t)" and pi: "partitions t ! ?i = p" using p by (simp_all add: get_par_Some)
  have v: "map_option mem_view (heads ?u a) = map_option mem_view (heads t a)" for a by simp
  have "node_dtypes ?u = node_dtypes t" by simp
  note ob = mem_view_obs [OF v this]
  have lb: "live_blocks ?u ?i = live_blocks t ?i" by (rule live_blocks_cong) (simp_all add: ob)
  have "arena_kept ?u ?i [] (arena (partitions h ! ?i)) (arena q)"
  proof (cases "arena (partitions h ! ?i)")
    case None
    with d(8) q pi show ?thesis by (simp add: arena_kept_def)
  next
    case (Some r0)
    with d(8) pi obtain r where r: "arena p = Some r" "base r = base r0" "capacity r = capacity r0"
      "arena_tracks t ?i H r" by (auto simp: arena_kept_def)
    from r(4) obtain L F where L: "distinct L" "set L = live_blocks t ?i" "arena_inv r L F H" by (auto simp: arena_tracks_def)
    obtain H' r' where f: "finish_sweep H r = (H', r')" by (cases "finish_sweep H r")
    note fi = finish_sweep_inv [OF L(3) f]
    from fi(4) obtain F' where "arena_inv r' L F' []" by blast
    with L(1,2) lb have "arena_tracks ?u ?i [] r'" unfolding arena_tracks_def by blast
    with Some q r(1-3) f fi(2,3) show ?thesis by (simp add: arena_kept_def)
  qed
  then show ?thesis
    unfolding sweeping_def using d(1-7) i by simp
qed

lemma part_nodes_other: "in_par h j a \<Longrightarrow> j \<noteq> i \<Longrightarrow> a \<notin> part_nodes h i"
  using in_par_unique [of h j a i] by (auto simp: part_nodes_def)

lemma sweeping_done:
  assumes ok: "blocks_ok h" and s: "sweeping h i [] t"
  shows "blocks_ok t"
proof -
  note d = sweepingD [OF s]
  have ob: "in_par t j a = in_par h j a" "node_size t a = node_size h a" "in_arena t a = in_arena h a"
    if "heads t a \<noteq> None" for j a
    using mem_view_obs(1,2,3) [of t a h, OF d(5) [OF that] d(1)] by simp_all
  have other: "live_blocks t j = live_blocks h j" if "j \<noteq> i" for j
  proof (rule live_blocks_cong)
    fix a
    show "in_par t j a \<and> in_arena t a \<longleftrightarrow> in_par h j a \<and> in_arena h a"
    proof (cases "heads t a = None")
      case True
      have "\<not> in_par h j a"
      proof
        assume a: "in_par h j a"
        then have "a \<notin> part_nodes h i" by (rule part_nodes_other [OF _ that])
        from d(6) [OF this] True a show False by (simp add: in_par_def)
      qed
      with True show ?thesis by (simp add: in_par_def)
    qed (simp add: ob)
    assume a: "in_par h j a"
    then have "a \<notin> part_nodes h i" by (rule part_nodes_other [OF _ that])
    from d(6) [OF this] a have "heads t a \<noteq> None" by (auto simp: in_par_def)
    then show "node_size t a = node_size h a" by (rule ob)
  qed
  have "owned h x = Some b" if x: "owned t x = Some b" for x b
  proof (cases x)
    case (Sys_Node a)
    with x have a: "heads t a \<noteq> None" by (simp split: if_splits)
    from d(5) [OF a] a have "heads h a \<noteq> None" by (metis map_option_is_None)
    with x a show ?thesis by (auto simp: Sys_Node ob [OF a] split: if_splits)
  next
    case (Arena_Of j)
    show ?thesis
    proof (cases "j = i")
      case True
      with d(8) x Arena_Of d(2,3) show ?thesis by (auto simp: arena_kept_def split: option.splits)
    next
      case False
      with x d(2,4) Arena_Of show ?thesis by (simp split: if_splits)
    qed
  qed
  note sub = this
  have "sys_apart h" using ok by (simp add: blocks_ok_def)
  from sys_apart_sub [OF this sub] have "sys_apart t" .
  moreover have "arena_tracks t j [] r" if j: "j < length (partitions h)" and r: "arena (partitions t ! j) = Some r" for j r
  proof (cases "j = i")
    case True
    with d(8) r show ?thesis by (auto simp: arena_kept_def split: option.splits)
  next
    case False
    with ok r d(4) [OF j] j have "arena_tracks h j [] r" by (simp add: blocks_ok_def arenas_ok_def)
    then show ?thesis unfolding arena_tracks_cong [OF other [OF False]] .
  qed
  ultimately show ?thesis by (simp add: blocks_ok_def arenas_ok_def d(2))
qed

text \<open>Both sweeps and the collection keep the blocks apart.\<close>

lemma sweep_dispose_blocks:
  assumes r: "sweep_dispose pid white t = Some (n, u)" and s: "sweeping h (unat pid) [] t"
    and o: "opt_in (part_nodes h (unat pid)) white" and ok: "blocks_ok h"
  shows "blocks_ok u"
proof -
  from r obtain q p where q: "dispose_passes pid (drop_passes (node_dtypes t)) white (0, [], t) = Some q"
      "get_par (snd (snd q)) pid = Some p"
      "u = (case arena p of None \<Rightarrow> snd (snd q)
        | Some ar \<Rightarrow> put_par pid (p\<lparr>arena := Some (snd (finish_sweep (fst (snd q)) ar))\<rparr>) (snd (snd q)))"
    unfolding sweep_dispose_def bind_eq_Some_conv by auto
  obtain n1 H t1 where e: "q = (n1, H, t1)" by (cases q) auto
  have d: "dispose_passes pid (drop_passes (node_dtypes t)) white (0, [], t) = Some (n1, H, t1)"
    and p: "get_par t1 pid = Some p"
    and u: "u = (case arena p of None \<Rightarrow> t1 | Some ar \<Rightarrow> put_par pid (p\<lparr>arena := Some (snd (finish_sweep H ar))\<rparr>) t1)"
    using q unfolding e fst_conv snd_conv .
  have s1: "sweeping h (unat pid) H t1" by (rule dispose_passes_sweeping [OF d s o])
  have "sweeping h (unat pid) [] u"
  proof (cases "arena p")
    case None
    have "arena p = map_option (\<lambda>ar. snd (finish_sweep H ar)) (arena p)" using None by simp
    from sweeping_finish [OF s1 p this] have "sweeping h (unat pid) [] (put_par pid p t1)" .
    moreover have "(partitions t1)[unat pid := p] = partitions t1" using p by (metis get_par_Some list_update_id)
    then have "put_par pid p t1 = t1" by (simp add: put_par_def)
    ultimately show ?thesis using u None by simp
  next
    case (Some ar)
    have "sweeping h (unat pid) [] (put_par pid (p\<lparr>arena := Some (snd (finish_sweep H ar))\<rparr>) t1)"
      by (rule sweeping_finish [OF s1 p]) (simp add: Some)
    with u Some show ?thesis by simp
  qed
  with ok show ?thesis by (rule sweeping_done)
qed

lemma collect_white_blocks:
  assumes ok: "heap_ok h" and b: "blocks_ok h" and r: "collect_white pid h = Some (n, t)"
  shows "blocks_ok t"
proof -
  from r obtain q where q: "sweep_unlink pid h = Some q" "(case fst q of None \<Rightarrow> Some (0, snd q)
      | Some white \<Rightarrow> do { h3 \<leftarrow> sweep_drop_payloads white (snd q); sweep_dispose pid white h3 }) = Some (n, t)"
    unfolding collect_white_def bind_eq_Some_conv by blast
  obtain w h1 where e: "q = (w, h1)" by (cases q)
  have w: "sweep_unlink pid h = Some (w, h1)"
    and k: "(case w of None \<Rightarrow> Some (0, h1)
      | Some white \<Rightarrow> do { h3 \<leftarrow> sweep_drop_payloads white h1; sweep_dispose pid white h3 }) = Some (n, t)"
    using q unfolding e fst_conv snd_conv .
  show ?thesis
  proof (cases "h1 = h \<and> w = None")
    case True
    with k b show ?thesis by simp
  next
    case False
    then obtain p where p: "get_par h pid = Some p" "marking p \<and> gray_list p = []"
      using w by (auto simp: sweep_unlink_def split: option.splits if_splits)
    let ?h1 = "put_par pid (p\<lparr>marking := False, nodes := None\<rparr>) h" and ?N = "part_nodes h (unat pid)"
    have i: "unat pid < length (partitions h)" and pi: "partitions h ! unat pid = p" using p by (simp_all add: get_par_Some)
    note st = sweeping_start [OF ok b i]
    have s1: "sweeping h (unat pid) [] ?h1" by (rule sweeping_put_par [OF st(1) p(1)]) simp
    show ?thesis
    proof (cases "nodes p")
      case None
      with w p have "w = None" "h1 = ?h1" by (auto simp: sweep_unlink_def)
      with k sweeping_done [OF b s1] show ?thesis by simp
    next
      case (Some l)
      with w p obtain wh sh h2 where u: "unlink_loop (Some l) None None None None ?h1 = Some (wh, sh, h2)"
        and q: "update_par (\<lambda>q. q\<lparr>nodes := sh\<rparr>) pid h2 = Some h1" "w = Some wh"
        by (auto simp: sweep_unlink_def bind_eq_Some_conv Let_def)
      have "opt_in ?N (Some l)" using st(2) pi Some by simp
      from unlink_loop_sweeping [OF u s1 this] have s2: "sweeping h (unat pid) [] h2" and o: "opt_in ?N wh" by simp_all
      from q(1) obtain p2 where "get_par h2 pid = Some p2" "h1 = put_par pid (p2\<lparr>nodes := sh\<rparr>) h2"
        by (auto simp: update_par_Some)
      with sweeping_put_par [OF s2] have s3: "sweeping h (unat pid) [] h1" by simp
      from k q(2) obtain h3 where h3: "sweep_drop_payloads wh h1 = Some h3" "sweep_dispose pid wh h3 = Some (n, t)"
        by (auto simp: bind_eq_Some_conv)
      have "sweeping h (unat pid) [] h3"
        by (rule for_nodes_sweeping [OF _ s3]) (use h3(1) in \<open>simp add: sweep_drop_payloads_def\<close>)
      from sweep_dispose_blocks [OF h3(2) this o b] show ?thesis .
    qed
  qed
qed

lemma sweep_blocks:
  assumes ok: "heap_ok h" and b: "blocks_ok h" and r: "sweep pid cb c h = Some (n, c', t)"
  shows "blocks_ok t"
proof (cases "\<exists>p. get_par h pid = Some p \<and> marking p \<and> gray_list p = []")
  case False
  with r have "t = h" by (auto simp: sweep_def split: option.splits)
  with b show ?thesis by simp
next
  case True
  then obtain p where p: "get_par h pid = Some p" "marking p \<and> gray_list p = []" by blast
  let ?h1 = "put_par pid (p\<lparr>marking := False, nodes := None\<rparr>) h" and ?N = "part_nodes h (unat pid)"
  have i: "unat pid < length (partitions h)" and pi: "partitions h ! unat pid = p" using p by (simp_all add: get_par_Some)
  note st = sweeping_start [OF ok b i]
  have s1: "sweeping h (unat pid) [] ?h1" by (rule sweeping_put_par [OF st(1) p(1)]) simp
  show ?thesis
  proof (cases "nodes p")
    case None
    with r p have "t = ?h1" by (auto simp: sweep_def)
    with sweeping_done [OF b s1] show ?thesis by simp
  next
    case (Some l)
    with r p obtain link st2 h2 p2 where
      m: "remove_passes (sweep_pred ?h1) (sweep_step pid cb) (drop_passes (node_dtypes ?h1)) (Some l) (0, [], c) ?h1 =
        Some (link, st2, h2)"
      and p2: "get_par h2 pid = Some p2"
      and t: "t = (let par3 = (case arena p2 of None \<Rightarrow> p2
                 | Some ar \<Rightarrow> p2\<lparr>arena := Some (snd (finish_sweep (fst (snd st2)) ar))\<rparr>);
               par4 = (if link \<noteq> None then par3\<lparr>nodes := link\<rparr> else par3)
             in put_par pid par4 h2)"
      by (auto simp: sweep_def bind_eq_Some_conv Let_def)
    have "opt_in ?N (Some l)" using st(2) pi Some by simp
    from remove_passes_sweeping [OF m _ this] s1 have s2: "sweeping h (unat pid) (fst (snd st2)) h2" by simp
    define q where "q = (let par3 = (case arena p2 of None \<Rightarrow> p2
                 | Some ar \<Rightarrow> p2\<lparr>arena := Some (snd (finish_sweep (fst (snd st2)) ar))\<rparr>)
               in if link \<noteq> None then par3\<lparr>nodes := link\<rparr> else par3)"
    have "arena q = map_option (\<lambda>ar. snd (finish_sweep (fst (snd st2)) ar)) (arena p2)"
      by (cases "arena p2") (simp_all add: q_def Let_def)
    from sweeping_finish [OF s2 p2 this] have "sweeping h (unat pid) [] (put_par pid q h2)" .
    moreover have "t = put_par pid q h2" by (simp add: t q_def Let_def)
    ultimately show ?thesis using sweeping_done [OF b] by simp
  qed
qed

end
