(* ===== verification/Gc_Progress.thy ===== *)
theory Gc_Progress
  imports Gc_Program
begin

text \<open>
  What the collector achieves in the end: a client that calls \<open>mark\<close> with a step budget finishes
  after a number of calls that the number of nodes bounds, and two collections free every
  node the client cannot reach, whatever the first one found in progress.
\<close>

section \<open>Incremental marking ends\<close>

text \<open>A loop that stops on its budget has blackened that many nodes.\<close>

lemma mark_loop_budget:
  "mark_loop pid m k h = Some (False, t) \<Longrightarrow> card (not_black t) + (unat m - unat k) \<le> card (not_black h)"
proof (induction pid m k h rule: mark_loop.induct)
  case (1 pid m k h)
  from 1(3) show ?case
  proof (cases rule: mark_loopE)
    case (full p x rest g)
    then show ?thesis by (auto simp: update_par_Some not_black_flag word_le_nat_alt)
  next
    case (black p x rest g h2)
    have "card (not_black t) + (unat m - unat (k + 1)) \<le> card (not_black h2)"
      by (rule 1(1) [OF black(1) _ refl black(3) refl refl, of rest Gray h2]) (use black in simp_all)
    moreover have "not_black h2 = not_black h - {x}"
      using blacken_not_black [OF black(6)] black(3) by (simp add: not_black_flag)
    moreover have "x \<in> not_black h" using black(3,4) by (simp add: not_black_def)
    then have "Suc (card (not_black h - {x})) = card (not_black h)" by (intro card_Suc_Diff1) simp_all
    moreover have "unat k < unat m" using black(5) by (simp add: word_le_nat_alt)
    moreover from this have "Suc (unat k) < 2 ^ 64" using unsigned_less [of m, where ?'a = nat] by simp
    then have "unat (k + 1) = Suc (unat k)" by (simp add: unat_word_ariths)
    ultimately show ?thesis by simp
  next
    case (skip p x rest g c)
    let ?h1 = "put_head x (set_gray_listed False g) (put_par pid (p\<lparr>gray_list := rest\<rparr>) h)"
    have "card (not_black t) + (unat m - unat k) \<le> card (not_black ?h1)"
      by (rule 1(2) [OF skip(1) _ refl skip(3) refl refl, of rest c]) (use skip in \<open>simp_all\<close>)
    then show ?thesis using skip(3) by (simp add: not_black_flag)
  qed simp
qed

lemma mark_grays_budget:
  assumes "mark_grays pid m h = Some (False, t)"
  shows "card (not_black t) + unat m \<le> card (not_black h)"
proof (cases "m = 0")
  case False
  with assms mark_loop_budget [of pid m 0 h t] show ?thesis
    by (auto simp: mark_grays_def bind_eq_Some_conv split: if_splits)
qed (use assms in \<open>simp add: mark_grays_def\<close>)

text \<open>A client's loop: call \<open>mark\<close> until it reports completion, at most \<open>k\<close> times.\<close>

fun mark_times :: "nat \<Rightarrow> u16 \<Rightarrow> usize \<Rightarrow> 'p gc_heap \<Rightarrow> (bool \<times> 'p gc_heap) option" where
  "mark_times 0 pid m h = Some (False, h)"
| "mark_times (Suc k) pid m h =
     do { (d, t) \<leftarrow> mark pid m h;
          if d then Some (True, t) else mark_times k pid m t }"

lemma mark_step_world:
  assumes w: "world_ok h" and p: "get_par h pid = Some p" and m: "m \<noteq> 0"
  obtains u d t where "mark_prepare pid h = Some u" "remarked h u" "mark pid m h = Some (d, t)"
    "mark_grays pid m u = Some (d, t)" "remarked h t" "pmarking t (unat pid)" "d \<longleftrightarrow> glist t (unat pid) = []"
proof -
  from prepare_remarked [OF w p] obtain u where
    u: "mark_prepare pid h = Some u" "remarked h u" "pmarking u (unat pid)" by blast
  have wu: "world_ok u" by (rule remarked_world(1) [OF w u(2)])
  have i: "unat pid < length (partitions u)"
    using p u(2) mark_frame_fields(10) by (fastforce simp: remarked_def get_par_Some)
  from mark_grays_correct [OF world_okD(2) [OF wu] i _ world_traced [OF wu] m] obtain d t where
    t: "mark_grays pid m u = Some (d, t)" "mark_run (\<lambda>_. True) (unat pid) u t" "d \<longleftrightarrow> glist t (unat pid) = []" by blast
  have "mark pid m h = Some (d, t)" using u(1) t(1) m by (simp add: mark_def word_neq_0_conv)
  moreover have "remarked h t" by (rule remarked_trans [OF u(2) mark_run_remarked [OF wu u(3) t(2)]])
  moreover have "pmarking t (unat pid)" using mark_runD(8) [OF t(2) i] u(3) by simp
  ultimately show thesis using that u(1,2) t(1,3) by blast
qed

lemma not_black_dom: "not_black h \<subseteq> dom (heads h)"
  by (auto simp: not_black_def)

text \<open>Once the partition is marking, \<open>k\<close> calls blacken \<open>k * m\<close> nodes unless they finish.\<close>

lemma mark_times_marking:
  assumes "world_ok h" "get_par h pid = Some p" "marking p" "m \<noteq> 0" "card (not_black h) < k * unat m"
  shows "\<exists>t. mark_times k pid m h = Some (True, t) \<and> remarked h t \<and> pmarking t (unat pid) \<and> glist t (unat pid) = []"
  using assms
proof (induction k arbitrary: h p)
  case 0
  then show ?case by simp
next
  case (Suc k)
  from mark_step_world [OF Suc.prems(1,2,4)] obtain u d t where
    t: "mark_prepare pid h = Some u" "mark pid m h = Some (d, t)" "mark_grays pid m u = Some (d, t)"
      "remarked h t" "pmarking t (unat pid)" "d \<longleftrightarrow> glist t (unat pid) = []" by blast
  show ?case
  proof (cases d)
    case True
    with t show ?thesis by simp
  next
    case False
    have "u = h" using mark_prepare_marking [OF Suc.prems(2,3)] t(1) by simp
    with t(3) False have "card (not_black t) + unat m \<le> card (not_black h)" by (simp add: mark_grays_budget)
    with Suc.prems(5) have b: "card (not_black t) < k * unat m" by simp
    have "unat pid < length (partitions t)"
      using Suc.prems(2) t(4) mark_frame_fields(10) by (fastforce simp: remarked_def get_par_Some)
    then have q: "get_par t pid = Some (partitions t ! unat pid)" by (simp add: get_par_Some)
    from Suc.IH [OF remarked_world(1) [OF Suc.prems(1) t(4)] q t(5) Suc.prems(4) b] obtain v where
      v: "mark_times k pid m t = Some (True, v)" "remarked t v" "pmarking v (unat pid)" "glist v (unat pid) = []" by blast
    with remarked_trans [OF t(4) v(2)] t(2) False show ?thesis by simp
  qed
qed

lemma mark_times_prepare:
  assumes "mark_prepare pid h = Some u" "mark_prepare pid u = Some u"
  shows "0 < k \<Longrightarrow> mark_times k pid m h = mark_times k pid m u"
  using assms by (cases k) (simp_all add: mark_def)

lemma mark_times_finish:
  assumes w: "world_ok h" and p: "get_par h pid = Some p" and m: "m \<noteq> 0" and k: "card (dom (heads h)) < k * unat m"
  shows "\<exists>t. mark_times k pid m h = Some (True, t) \<and> remarked h t \<and> pmarking t (unat pid) \<and> glist t (unat pid) = []"
proof -
  from prepare_remarked [OF w p] obtain u where
    u: "mark_prepare pid h = Some u" "remarked h u" "pmarking u (unat pid)" by blast
  have fr: "mark_frame h u" using u(2) by (simp add: remarked_def)
  have "unat pid < length (partitions u)" using p mark_frame_fields(10) [OF fr] by (simp add: get_par_Some)
  then have q: "get_par u pid = Some (partitions u ! unat pid)" by (simp add: get_par_Some)
  have "card (not_black u) \<le> card (dom (heads u))" by (rule card_mono [OF _ not_black_dom]) simp
  with k have "card (not_black u) < k * unat m" using mark_frame_fields(11) [OF fr] by simp
  from mark_times_marking [OF remarked_world(1) [OF w u(2)] q u(3) m this] obtain t where
    t: "mark_times k pid m u = Some (True, t)" "remarked u t" "pmarking t (unat pid)" "glist t (unat pid) = []" by blast
  have "0 < k" using k by (cases k) simp_all
  with mark_times_prepare [OF u(1) mark_prepare_marking [OF q u(3)]] t(1) have "mark_times k pid m h = Some (True, t)" by simp
  with remarked_trans [OF u(2) t(2)] t(3,4) show ?thesis by blast
qed

section \<open>Two collections free all garbage\<close>

lemma reach_in_ref: "reach_in S h a \<Longrightarrow> ref_reach h a"
  by (induction rule: reach_in.induct) (simp_all add: ref_reach.root ref_reach.step)

lemma reach_in_iff_ref:
  "part_closed h \<Longrightarrow> in_par h i a \<Longrightarrow> reach_in {i} h a \<longleftrightarrow> ref_reach h a"
  using reach_in_ref ref_reach_in by blast

text \<open>Removing nodes that are out of reach leaves reachability as it was.\<close>

lemma removed_kind:
  assumes "removed h D t" "a \<notin> D"
  shows "kind t a = kind h a"
proof -
  have "map_option detach (heads t a) = map_option detach (heads h a)" using assms by (simp add: removed_def)
  then show ?thesis by (rule detach_same)
qed

lemma removed_edge:
  assumes rm: "removed h D t"
  shows "edge t a b \<longleftrightarrow> a \<notin> D \<and> edge h a b"
proof (cases "a \<in> D")
  case True
  with removed_gone [OF rm True] show ?thesis by (simp add: edge_kind kind_def)
next
  case False
  from removed_kind [OF rm this] have "kind t a = kind h a" .
  moreover have "type_info t = type_info h" using rm by (simp add: type_info_def removed_def fun_eq_iff)
  ultimately show ?thesis using False removed_obs(8) [OF rm False] by (simp add: edge_kind)
qed

lemma removed_root: "removed h D t \<Longrightarrow> hroot t a \<longleftrightarrow> a \<notin> D \<and> hroot h a"
  using removed_obs(3) [of h D t a] removed_gone [of h D t a] by (cases "a \<in> D") (simp_all add: hroot_def)

lemma removed_ref_reach:
  assumes rm: "removed h D t" and D: "\<And>a. a \<in> D \<Longrightarrow> \<not> ref_reach h a"
  shows "ref_reach t a \<longleftrightarrow> ref_reach h a"
proof
  show "ref_reach h a" if "ref_reach t a"
    using that by induction (auto simp: removed_root [OF rm] removed_edge [OF rm] intro: ref_reach.intros)
  show "ref_reach t a" if "ref_reach h a"
    using that
  proof induction
    case (root a)
    then have "a \<notin> D" using D ref_reach.root by blast
    with root show ?case by (intro ref_reach.root) (simp add: removed_root [OF rm])
  next
    case (step a b)
    then have "a \<notin> D" using D by blast
    with step show ?case by (intro ref_reach.step [OF step.IH]) (simp add: removed_edge [OF rm])
  qed
qed

text \<open>A collection leaves the partition idle, and takes nothing in reach.\<close>

lemma garbage_collect_settles:
  assumes w: "world_ok h" and p: "get_par h pid = Some p"
  shows "\<exists>n t q. garbage_collect pid h = Some (n, t) \<and> world_ok t \<and> get_par t pid = Some q \<and>
    \<not> marking q \<and> gray_list q = [] \<and> (\<forall>a. ref_reach t a \<longleftrightarrow> ref_reach h a) \<and>
    (\<forall>a. kind t a \<noteq> None \<longrightarrow> kind t a = kind h a)"
proof -
  let ?i = "unat pid"
  have i: "?i < length (partitions h)" using p by (simp add: get_par_Some)
  from until_done_remarked [OF w p] obtain u where
    u: "mark_until_done pid h = Some u" "remarked h u" "pmarking u ?i" "glist u ?i = []" by blast
  have fr: "mark_frame h u" using u(2) by (simp add: remarked_def)
  have wu: "world_ok u" by (rule remarked_world(1) [OF w u(2)])
  have iu: "?i < length (partitions u)" using i mark_frame_fields(10) [OF fr] by simp
  from collect_white_correct [OF world_okD(1) [OF wu] iu u(3,4)] obtain n t where
    t: "collect_white pid u = Some (n, t)" "swept u ?i n t" by blast
  let ?D = "{a. in_par u ?i a \<and> dead u a}"
  have rm: "removed u ?D t" and mk: "\<not> pmarking t ?i" using t(2) by (simp_all add: swept_def)
  have sw: "world_ok t" by (rule swept_world(1) [OF wu iu u(3,4) t(2)])
  have len: "length (partitions t) = length (partitions u)" and gl: "glist t ?i = []"
    using rm u(4) iu by (simp_all add: removed_def)
  have tri: "tri_inv {?i} u" using all_readyD [OF wu iu] u(3) by (simp add: ready_def)
  have nr: "\<not> ref_reach u a" if a: "a \<in> ?D" for a
  proof
    assume "ref_reach u a"
    with a have "reach_in {?i} u a" using ref_reach_in [OF world_okD(5) [OF wu]] by blast
    from tri_inv_done [OF world_okD(2) [OF wu] tri _ this] u(4) have "hcolor u a = Some Black" by simp
    with a show False by (simp add: dead_def)
  qed
  have "ref_reach t a \<longleftrightarrow> ref_reach h a" for a
    using removed_ref_reach [OF rm nr] ref_reach_mark_frame [OF fr] by simp
  moreover have "kind t a = kind h a" if "kind t a \<noteq> None" for a
  proof -
    have "a \<notin> ?D" using that removed_gone [OF rm, of a] by (auto simp: kind_def)
    from removed_kind [OF rm this] remarked_world(3) [OF w u(2)] show ?thesis by simp
  qed
  moreover have "get_par t pid = Some (partitions t ! ?i)" using iu len by (simp add: get_par_Some)
  moreover have "garbage_collect pid h = Some (n, t)" using garbage_collect_eq [OF p] u(1) t(1) by simp
  ultimately show ?thesis using sw mk gl by blast
qed

lemma collected_idle:
  assumes w: "world_ok h" and p: "get_par h pid = Some p" "\<not> marking p" "gray_list p = []"
  shows "\<exists>n t. garbage_collect pid h = Some (n, t) \<and> collected h (unat pid) (ref_reach h) n t"
proof -
  have pc: "part_closed h" by (rule world_okD(5) [OF w])
  have cl: "b \<in> dom (heads h)" if "edge h a b" for a b
    using that part_closed_refs [OF pc] unfolding refs_closed_def by blast
  have "\<exists>n t. garbage_collect pid h = Some (n, t) \<and> heap_inv t \<and> collected h (unat pid) (reach_in {unat pid} h) n t"
    by (rule garbage_collect_correct [OF world_okD(1) [OF w] p]) (rule cl)
  then obtain n t where
    t: "garbage_collect pid h = Some (n, t)" "collected h (unat pid) (reach_in {unat pid} h) n t" by blast
  have e: "filter (\<lambda>a. j = unat pid \<longrightarrow> reach_in {unat pid} h a) (par_list h j) =
      filter (\<lambda>a. j = unat pid \<longrightarrow> ref_reach h a) (par_list h j)"
    "filter (\<lambda>a. \<not> reach_in {unat pid} h a) (par_list h (unat pid)) =
      filter (\<lambda>a. \<not> ref_reach h a) (par_list h (unat pid))" if "j < length (partitions h)" for j
    using heap_ok_member_iff [OF world_okD(2) [OF w]] p(1) that reach_in_iff_ref [OF pc]
    by (auto simp: get_par_Some intro!: filter_cong)
  have "unat pid < length (partitions h)" using p(1) by (simp add: get_par_Some)
  with t(2) e(2) [of "unat pid"] have "collected h (unat pid) (ref_reach h) n t"
    unfolding collected_def using reach_in_iff_ref [OF pc, of "unat pid"]
    by (simp add: e(1) cong: conj_cong)
  with t(1) show ?thesis by blast
qed

text \<open>The second collection leaves exactly what is in reach, the third one finds nothing.\<close>

lemma collect_twice:
  assumes w: "world_ok h" and p: "get_par h pid = Some p"
  shows "\<exists>n t m u v. garbage_collect pid h = Some (n, t) \<and> garbage_collect pid t = Some (m, u) \<and>
    garbage_collect pid u = Some (0, v) \<and>
    (\<forall>a. in_par h (unat pid) a \<longrightarrow> (heads u a \<noteq> None \<longleftrightarrow> ref_reach h a))"
proof -
  let ?i = "unat pid"
  from garbage_collect_settles [OF w p] obtain n t q where
    t: "garbage_collect pid h = Some (n, t)" "world_ok t" "get_par t pid = Some q" "\<not> marking q" "gray_list q = []"
      "\<forall>a. ref_reach t a \<longleftrightarrow> ref_reach h a" "\<forall>a. kind t a \<noteq> None \<longrightarrow> kind t a = kind h a" by blast
  from collected_idle [OF t(2-5)] obtain m u where
    u: "garbage_collect pid t = Some (m, u)" "collected t ?i (ref_reach t) m u" by blast
  from garbage_collect_settles [OF t(2,3)] u(1) obtain q' where
    s: "world_ok u" "get_par u pid = Some q'" "\<not> marking q'" "gray_list q' = []"
      "\<forall>a. ref_reach u a \<longleftrightarrow> ref_reach t a" "\<forall>a. kind u a \<noteq> None \<longrightarrow> kind u a = kind t a" by auto
  from collected_idle [OF s(1-4)] obtain k v where
    v: "garbage_collect pid u = Some (k, v)" "collected u ?i (ref_reach u) k v" by blast
  have id: "map_option ident (heads u a) = (if in_par t ?i a \<and> \<not> ref_reach t a then None else map_option ident (heads t a))" for a
    using u(2) unfolding collected_def by blast
  have alive: "heads u a \<noteq> None \<longleftrightarrow> ref_reach h a" if a: "in_par h ?i a" for a
  proof
    assume r: "ref_reach h a"
    then have "ref_reach u a" using s(5) t(6) by simp
    from ref_reach_live [OF world_okD(5) [OF s(1)] this] show "heads u a \<noteq> None" by auto
  next
    assume r: "heads u a \<noteq> None"
    then have "kind u a \<noteq> None" by (simp add: kind_def)
    with s(6) have "kind u a = kind t a" "kind t a \<noteq> None" by (metis)+
    with t(7) a have "in_par t ?i a" by (simp add: in_par_kind)
    with id [of a] r t(6) show "ref_reach h a" by (auto split: if_splits)
  qed
  have "?i < length (partitions t)" using t(3) by (simp add: get_par_Some)
  with u(2) have "par_list u ?i = filter (\<lambda>a. ?i = ?i \<longrightarrow> ref_reach t a) (par_list t ?i)"
    unfolding collected_def by blast
  then have "set (par_list u ?i) \<subseteq> Collect (ref_reach u)" using s(5) by auto
  then have "filter (\<lambda>a. \<not> ref_reach u a) (par_list u ?i) = []" by (auto simp: filter_empty_conv)
  with v(2) have "k = 0" by (simp add: collected_def sum_sizes_def)
  with t(1) u(1) v(1) alive show ?thesis by blast
qed

end
