(* ===== verification/Gc_Run.thy ===== *)
theory Gc_Run
  imports Gc_Blocks_Sweep Gc_Progress
begin

text \<open>
  Programs in an environment that only has to provide a sound system allocator.  The freshness of
  memory, which \<open>allowed\<close> asks for, is then a theorem: it follows from the invariant that the
  blocks of nodes and arenas are apart.
\<close>

section \<open>Blocks of nodes are apart\<close>

definition node_block :: "'p gc_heap \<Rightarrow> addr \<Rightarrow> nat_block" where
  "node_block h a = (unat a, unat (node_size h a))"

definition within :: "nat_block \<Rightarrow> nat_block \<Rightarrow> bool" where
  "within b c \<longleftrightarrow> fst c \<le> fst b \<and> fst b + snd b \<le> fst c + snd c"

lemma apart_within: "apart b c \<Longrightarrow> within b' b \<Longrightarrow> within c' c \<Longrightarrow> apart b' c'"
  by (auto simp: apart_def within_def)

lemma arena_block_in:
  assumes inv: "arena_inv ar L F H" and b: "(a, n) \<in> set L"
  shows "within (unat a, unat n) (unat (base ar), unat (capacity ar))"
  using arena_inv_addr [OF inv, of "(a, n)"] b by (simp add: within_def)

lemma arena_blocks_apart:
  assumes inv: "arena_inv ar L F H" and d: "distinct L" and b: "(a, n) \<in> set L" "(b, m) \<in> set L" and ne: "a \<noteq> b"
  shows "apart (unat a, unat n) (unat b, unat m)"
proof -
  obtain us vs where L: "L = us @ (a, n) # vs" using b(1) by (meson split_list)
  have "(b, m) \<in> set us \<or> (b, m) \<in> set vs" using b(2) ne L by auto
  moreover have "separate (map (nblk ar) L)" using inv by (simp add: arena_inv_def arena_blocks_def separate_append)
  ultimately have "apart (nblk ar (a, n)) (nblk ar (b, m))"
    unfolding L by (auto simp: separate_append apart_sym)
  with arena_inv_addr(1) [OF inv, of "(a, n)"] arena_inv_addr(1) [OF inv, of "(b, m)"] b show ?thesis
    by (auto simp: apart_def nblk_def)
qed

text \<open>Every node lies in one block the system allocator gave out.\<close>

definition home :: "'p gc_heap \<Rightarrow> addr \<Rightarrow> owner" where
  "home h a =
     (case heads h a of None \<Rightarrow> Sys_Node a
      | Some g \<Rightarrow> if contains_flag g ARENA_ALLOC then Arena_Of (unat (partition_id g)) else Sys_Node a)"

lemma home_arena: "in_par h i a \<Longrightarrow> home h a = (if in_arena h a then Arena_Of i else Sys_Node a)"
  by (auto simp: home_def in_par_def in_arena_def)

lemma node_home:
  assumes ok: "blocks_ok h" and inv: "heap_inv h" and a: "heads h a \<noteq> None"
  shows "\<exists>b. owned h (home h a) = Some b \<and> within (node_block h a) b"
proof (cases "in_arena h a")
  case False
  with a show ?thesis by (auto simp: home_def in_arena_def node_block_def within_def)
next
  case True
  obtain i where i: "in_par h i a" using a dom_in_par by blast
  from arena_node_range [OF ok inv i True] obtain ar where ar: "arena (partitions h ! i) = Some ar"
    "owned h (Arena_Of i) = Some (unat (base ar), unat (capacity ar))" by blast
  have "i < length (partitions h)" using in_par_bound i inv by (auto simp: heap_inv_def)
  from arenas_okD [OF ok this ar(1)] obtain L F where L: "set L = live_blocks h i" "arena_inv ar L F []" by metis
  have "(a, max (node_size h a) MIN_ALLOC_SIZE) \<in> set L" using L(1) i True by (auto simp: live_blocks_def)
  from arena_block_in [OF L(2) this] have "within (unat a, unat (max (node_size h a) MIN_ALLOC_SIZE)) (unat (base ar), unat (capacity ar))" .
  moreover have "unat (node_size h a) \<le> unat (max (node_size h a) MIN_ALLOC_SIZE)"
    by (simp add: word_le_nat_alt [symmetric])
  ultimately have "within (node_block h a) (unat (base ar), unat (capacity ar))"
    by (simp add: within_def node_block_def)
  moreover have "home h a = Arena_Of i" using True home_arena [OF i] by simp
  ultimately show ?thesis using ar(2) by metis
qed

lemma node_blocks_apart:
  assumes ok: "blocks_ok h" and inv: "heap_inv h" and a: "heads h a \<noteq> None" and b: "heads h b \<noteq> None" and ne: "a \<noteq> b"
  shows "apart (node_block h a) (node_block h b)"
proof (cases "home h a = home h b")
  case False
  from node_home [OF ok inv a] node_home [OF ok inv b] obtain x y where
    x: "owned h (home h a) = Some x" "within (node_block h a) x" and
    y: "owned h (home h b) = Some y" "within (node_block h b) y" by blast
  from ok x(1) y(1) False have "apart x y" unfolding blocks_ok_def sys_apart_def by blast
  from apart_within [OF this x(2) y(2)] show ?thesis .
next
  case True
  obtain i j where i: "in_par h i a" and j: "in_par h j b" using a b dom_in_par by blast
  have ia: "in_arena h a" "in_arena h b" "j = i"
    using True ne home_arena [OF i] home_arena [OF j] by (auto split: if_splits)
  from arena_node_range [OF ok inv i ia(1)] obtain ar where ar: "arena (partitions h ! i) = Some ar" by blast
  have "i < length (partitions h)" using in_par_bound i inv by (auto simp: heap_inv_def)
  from arenas_okD [OF ok this ar] obtain L F where L: "distinct L" "set L = live_blocks h i" "arena_inv ar L F []" by metis
  have m: "(a, max (node_size h a) MIN_ALLOC_SIZE) \<in> set L" "(b, max (node_size h b) MIN_ALLOC_SIZE) \<in> set L"
    using L(2) i j ia by (auto simp: live_blocks_def)
  have le: "unat (node_size h x) \<le> unat (max (node_size h x) MIN_ALLOC_SIZE)" for x
    by (simp add: word_le_nat_alt [symmetric])
  show ?thesis
    by (rule apart_within [OF arena_blocks_apart [OF L(3,1) m ne]]) (simp_all add: within_def node_block_def le)
qed

text \<open>No block wraps around the end of the address space.\<close>

lemma node_block_bound:
  assumes ok: "blocks_ok h" and inv: "heap_inv h" and a: "heads h a \<noteq> None"
  shows "unat a + unat (node_size h a) < 2 ^ 64"
proof -
  from node_home [OF assms] obtain b where b: "owned h (home h a) = Some b" "within (node_block h a) b" by blast
  with ok have "fst b + snd b < 2 ^ 64" unfolding blocks_ok_def sys_apart_def by blast
  with b(2) show ?thesis by (simp add: within_def node_block_def)
qed

section \<open>A sound environment\<close>

text \<open>The rules of a client alone: as \<open>allowed\<close>, but nothing is said of the memory it gets.\<close>

definition asks_alloc :: "'p rust_type \<Rightarrow> u8 \<Rightarrow> u16 \<Rightarrow> 'p \<Rightarrow> 'p gc_heap \<Rightarrow> bool" where
  "asks_alloc ty gt pid v h \<longleftrightarrow> type_known h ty gt \<and> refs_inside h gt pid v \<and> 0 < layout_size_of ty"

fun obeys :: "'p command \<Rightarrow> 'p gc_heap \<Rightarrow> bool" where
  "obeys (Alloc ty gt pid v sys) h \<longleftrightarrow> asks_alloc ty gt pid v h"
| "obeys (Alloc_Root ty gt pid v sys) h \<longleftrightarrow> asks_alloc ty gt pid v h"
| "obeys (Alloc_Local ty gt sid k v sys) h \<longleftrightarrow>
     (\<exists>s. get_scope h sid k = Some s \<and> asks_alloc ty gt (sc_partition_id s) v h)"
| "obeys c h \<longleftrightarrow> allowed c h"

text \<open>
  The system allocator answers a request with memory that is apart from all memory it has given
  out; \<open>remove_partition\<close> has freed its nodes when it asks for the new arena.
\<close>

fun sys_sound :: "'p command \<Rightarrow> 'p gc_heap \<Rightarrow> bool" where
  "sys_sound (Create_Partition cap ma sys) h \<longleftrightarrow> (0 < cap \<longrightarrow> sys_free h sys cap)"
| "sys_sound (Remove_Partition pid sys) h \<longleftrightarrow>
     (\<forall>p. get_par h pid = Some p \<longrightarrow> 0 < arena_capacity p \<longrightarrow>
        sys_free (drop_nodes h (unat pid)) sys (arena_capacity p))"
| "sys_sound (Alloc ty gt pid v sys) h \<longleftrightarrow> sys_free h sys (layout_size_of ty)"
| "sys_sound (Alloc_Root ty gt pid v sys) h \<longleftrightarrow> sys_free h sys (layout_size_of ty)"
| "sys_sound (Alloc_Local ty gt sid k v sys) h \<longleftrightarrow> sys_free h sys (layout_size_of ty)"
| "sys_sound c h \<longleftrightarrow> True"

lemma asks_may:
  assumes w: "world_ok h" and b: "blocks_ok h" and a: "asks_alloc ty gt pid v h" and s: "sys_free h sys (layout_size_of ty)"
  shows "may_alloc ty gt pid v sys h"
proof -
  have "fresh_memory pid l sys h" if l: "layout_from_size_align (layout_size_of ty) (layout_align_of ty) = Some l" for l
  proof -
    have n: "0 < layout_size_of ty" using a by (simp add: asks_alloc_def)
    have "l_size l = layout_size_of ty" using l by (auto simp: layout_from_size_align_def split: if_splits)
    with blocks_fresh_memory [OF b world_okD(1) [OF w] layout_from_ok [OF l n]] s n show ?thesis by simp
  qed
  with a show ?thesis by (simp add: may_alloc_def asks_alloc_def)
qed

lemma obeys_allowed:
  assumes "world_ok h" "blocks_ok h" "obeys c h" "sys_sound c h"
  shows "allowed c h"
  using assms asks_may [OF assms(1,2)] by (cases c) auto

section \<open>Every call keeps the blocks apart\<close>

lemma outcome_blocks:
  assumes w: "world_ok h" and b: "blocks_ok h" and a: "asks_alloc ty gt pid v h" and s: "sys_free h sys (layout_size_of ty)"
    and o: "mem_outcome h ty gt pid sys r t"
  shows "blocks_ok t"
proof -
  have n: "0 < layout_size_of ty" using a by (simp add: asks_alloc_def)
  note m = asks_may [OF w b a s]
  show ?thesis
  proof (cases r)
    case (Inl e)
    with o b refused_blocks [OF b _ layout_from_ok [OF _ n]] show ?thesis by (auto simp: mem_outcome_def)
  next
    case (Inr p)
    with o obtain l where l: "layout_from_size_align (layout_size_of ty) (layout_align_of ty) = Some l"
      and ad: "mem_added h pid gt sys p l t" by (auto simp: mem_outcome_def)
    have ls: "l_size l = layout_size_of ty" using l by (auto simp: layout_from_size_align_def split: if_splits)
    from m obtain info where info: "type_info h gt = Some info" "ti_layout_size info = layout_size_of ty"
      by (auto simp: may_alloc_def type_known_def)
    have new: "heads h p = None" by (rule added_fresh [OF ad]) (use m l in \<open>simp add: may_alloc_def\<close>)
    show ?thesis
      by (rule added_blocks [OF b world_okD(1) [OF w] ad new layout_from_ok [OF l n] _ _ info(1)])
        (use n s ls info(2) in simp_all)
  qed
qed

lemma garbage_collect_blocks:
  assumes w: "world_ok h" and b: "blocks_ok h" and r: "garbage_collect pid h = Some (n, t)"
  shows "blocks_ok t"
proof (cases "get_par h pid")
  case None
  with r b show ?thesis by (simp add: garbage_collect_def)
next
  case (Some p)
  from until_done_remarked [OF w Some] obtain u where u: "mark_until_done pid h = Some u" "remarked h u" by blast
  with r garbage_collect_eq [OF Some] have c: "collect_white pid u = Some (n, t)" by simp
  have "blocks_ok u" by (rule blocks_ok_mem_frame [OF remarked_mem_frame [OF u(2)] b])
  from collect_white_blocks [OF world_okD(2) [OF remarked_world(1) [OF w u(2)]] this c] show ?thesis .
qed

lemma exec_blocks:
  assumes w: "world_ok h" and b: "blocks_ok h" and ob: "obeys c h" and s: "sys_sound c h" and r: "exec c h = Some t"
  shows "blocks_ok t"
proof (cases c)
  case (Create_Partition cap ma sys)
  with r obtain pid where "create_partition cap ma sys h = Some (pid, t)" by auto
  from create_blocks [OF w b this] s Create_Partition show ?thesis by simp
next
  case (Remove_Partition pid sys)
  show ?thesis
  proof (cases "get_par h pid")
    case None
    with r b remove_partition_missing [OF None] show ?thesis by (simp add: Remove_Partition)
  next
    case (Some p)
    then have i: "unat pid < length (partitions h)" and p: "p = partitions h ! unat pid" by (simp_all add: get_par_Some)
    have ar: "arena_capacity (partitions h ! unat pid) > 0 \<Longrightarrow> arena_new (arena_capacity (partitions h ! unat pid)) sys \<noteq> None"
      using ob Remove_Partition Some p by simp
    from remove_partition_correct [OF world_inv [OF w] world_okD(4) [OF w] i ar] r Remove_Partition
    obtain n where n: "remove_partition pid sys h = Some (n, t)" "partition_removed h (unat pid) n t" by auto
    show ?thesis by (rule remove_blocks [OF w b i n]) (use s Remove_Partition Some p in simp)
  qed
next
  case (Alloc ty gt pid v sys)
  with ob s have a: "asks_alloc ty gt pid v h" "sys_free h sys (layout_size_of ty)" by simp_all
  from r Alloc obtain x where "alloc_raw ty gt pid v sys h = Some (x, t)" by auto
  from outcome_blocks [OF w b a alloc_raw_mem [OF this may_alloc_small [OF asks_may [OF w b a]]]] show ?thesis .
next
  case (Alloc_Root ty gt pid v sys)
  with ob s have a: "asks_alloc ty gt pid v h" "sys_free h sys (layout_size_of ty)" by simp_all
  from r Alloc_Root obtain x where "alloc_root_raw ty gt pid v sys h = Some (x, t)" by auto
  from outcome_blocks [OF w b a alloc_root_raw_mem [OF this may_alloc_small [OF asks_may [OF w b a]]]] show ?thesis .
next
  case (Alloc_Local ty gt sid k v sys)
  with ob s obtain sc where sc: "get_scope h sid k = Some sc" and a: "asks_alloc ty gt (sc_partition_id sc) v h"
    "sys_free h sys (layout_size_of ty)" by auto
  from r Alloc_Local obtain x where "alloc_local ty gt sid k v sys h = Some (x, t)" by auto
  from outcome_blocks [OF w b a alloc_local_mem [OF this sc may_alloc_small [OF asks_may [OF w b a]]]] show ?thesis .
next
  case (Collect_White pid)
  with r obtain n where "collect_white pid h = Some (n, t)" by auto
  from collect_white_blocks [OF world_okD(2) [OF w] b this] show ?thesis .
next
  case (Sweep pid)
  with r obtain n c' where "sweep pid (\<lambda>_ _ c. c) () h = Some (n, c', t)" by auto
  from sweep_blocks [OF world_okD(2) [OF w] b this] show ?thesis .
next
  case (Garbage_Collect pid)
  with r obtain n where "garbage_collect pid h = Some (n, t)" by auto
  from garbage_collect_blocks [OF w b this] show ?thesis .
qed (rule blocks_ok_mem_frame [OF quiet_mem_frame [OF w obeys_allowed [OF w b ob s] _ r] b]; simp)+

text \<open>The heaps of a program in a sound environment.\<close>

inductive gc_run :: "'p gc_type_registry \<Rightarrow> 'p gc_heap \<Rightarrow> bool" for reg where
  start: "gc_run reg (heap_new reg)"
| step: "gc_run reg h \<Longrightarrow> obeys c h \<Longrightarrow> sys_sound c h \<Longrightarrow> exec c h = Some t \<Longrightarrow> gc_run reg t"

lemma blocks_ok_new: "blocks_ok (heap_new reg)"
proof -
  have "owned (heap_new reg) x = None" for x by (cases x) (simp_all add: heap_new_def)
  then show ?thesis by (simp add: blocks_ok_def sys_apart_def arenas_ok_def) (simp add: heap_new_def)
qed

lemma run_reachable:
  assumes r: "gc_run reg h" and d: "distinct (drop_passes reg)"
  shows "gc_reachable reg h \<and> blocks_ok h"
  using r
proof induction
  case start
  show ?case using blocks_ok_new gc_reachable.start by blast
next
  case (step h c t)
  then have w: "world_ok h" using reachable_world(1) [OF _ d] by blast
  have "allowed c h" using obeys_allowed [OF w] step by blast
  with step exec_blocks [OF w _ step(2,3,4)] show ?case using gc_reachable.step by blast
qed

text \<open>The demonstration heap with a scope and a node is the heap of such a program.\<close>

lemma demo_scoped_run: "gc_run demo_registry demo_scoped"
proof -
  note st = demo_scoped_steps
  have r1: "gc_run demo_registry demo_one"
    by (rule gc_run.step [OF gc_run.start, of "Create_Partition 0 0 None"]) (use st(1) in \<open>simp_all add: heap_new_def\<close>)
  have r2: "gc_run demo_registry demo_stack"
    by (rule gc_run.step [OF r1, of "Acquire_Stack 0"]) (use st(2) in \<open>simp_all add: demo_one_def heap_new_def\<close>)
  show ?thesis
    by (rule gc_run.step [OF r2, of "New_Scope 0"]) (use st(3) in \<open>simp_all add: demo_stack_def get_stack_def vec_get_def\<close>)
qed

lemma demo_plain_run:
  obtains a t where "gc_run demo_registry t" "dom (heads t) = {a}" "kind t a = Some (0, 0)"
proof -
  obtain a t where t: "alloc_raw demo_type 0 0 [] (Some 0x100) demo_scoped = Some (Inr a, t)" "dom (heads t) = {a}"
    "kind t a = Some (0, 0)" by (rule demo_plain)
  have "type_known demo_scoped demo_type 0" "refs_inside demo_scoped 0 0 []"
    using demo_scoped_facts(5) by (simp_all add: may_alloc_def)
  then have ob: "obeys (Alloc demo_type 0 0 [] (Some 0x100)) demo_scoped"
    by (simp add: asks_alloc_def demo_type_layout)
  have "owned demo_scoped x = None" for x
    by (cases x) (simp_all add: demo_scoped_def heap_new_def demo_par_def)
  then have s: "sys_sound (Alloc demo_type 0 0 [] (Some 0x100)) demo_scoped"
    by (simp add: sys_free_def demo_type_layout)
  have "exec (Alloc demo_type 0 0 [] (Some 0x100)) demo_scoped = Some t" using t(1) by simp
  from gc_run.step [OF demo_scoped_run ob s this] t(2,3) that show thesis by blast
qed

end
