(* ===== verification/Gc_Ref.thy ===== *)
theory Gc_Ref
  imports Gc_Run
begin

text \<open>
  \<open>GcRef\<close>, the typed pointer to a node: from the head to the payload and back.  A payload is
  addressed behind its head, at the offset of its type; the conversion back checks the type number
  the head carries.
\<close>

section \<open>References and payload pointers (src/src/node.rs)\<close>

subsection \<open>Operations\<close>

record gc_ref =
  head_ptr :: addr

definition from_node_ptr :: "addr \<Rightarrow> gc_ref" where
  "from_node_ptr p = \<lparr>head_ptr = p\<rparr>"

text \<open>\<open>GcHead::payload\<close> reads the offset from the registry, \<open>payload_for\<close> computes it from the type.\<close>

definition head_payload :: "'p gc_type_registry \<Rightarrow> addr \<Rightarrow> 'p gc_heap \<Rightarrow> addr option" where
  "head_payload reg node h =
     do { g \<leftarrow> heads h node;
          info \<leftarrow> vec_get (type_info_list reg) (unat (dtype g));
          Some (payload_ptr info node) }"

definition payload_for :: "'p rust_type \<Rightarrow> addr \<Rightarrow> addr" where
  "payload_for ty node = node + payload_offset_of ty"

definition as_ptr :: "'p rust_type \<Rightarrow> gc_ref \<Rightarrow> 'p gc_heap \<Rightarrow> addr option" where
  "as_ptr ty r h = do { _ \<leftarrow> heads h (head_ptr r); Some (payload_for ty (head_ptr r)) }"

text \<open>\<open>ty_id\<close> is the constant \<open>T::GC_TYPE_ID\<close> of the type.\<close>

definition try_from_ref :: "'p rust_type \<Rightarrow> u8 \<Rightarrow> addr \<Rightarrow> 'p gc_heap \<Rightarrow> gc_ref option option" where
  "try_from_ref ty ty_id data_ref h =
     (let node = data_ref - payload_offset_of ty in
      do { g \<leftarrow> heads h node;
           Some (if ty_id = dtype g then Some \<lparr>head_ptr = node\<rparr> else None) })"

definition from_ref_unchecked :: "'p rust_type \<Rightarrow> addr \<Rightarrow> gc_ref" where
  "from_ref_unchecked ty data_ref = \<lparr>head_ptr = data_ref - payload_offset_of ty\<rparr>"

subsection \<open>The round trip, and where payloads lie\<close>

text \<open>A Rust type registered under a type number.\<close>

definition registered :: "'p gc_heap \<Rightarrow> 'p rust_type \<Rightarrow> u8 \<Rightarrow> bool" where
  "registered h ty k \<longleftrightarrow>
     rust_type_ok ty \<and>
     (\<exists>info. type_info h k = Some info \<and> ti_payload_offset info = payload_offset_of ty \<and>
        ti_layout_size info = layout_size_of ty)"

lemma payload_range:
  assumes ty: "rust_type_ok ty" and b: "unat a + unat (layout_size_of ty) < 2 ^ 64"
  shows "unat a + 24 \<le> unat (payload_for ty a)"
    "within (unat (payload_for ty a), unat (size_of ty)) (unat a, unat (layout_size_of ty))"
proof -
  note f = layout_facts [OF ty]
  have "unat (payload_for ty a) = unat a + unat (payload_offset_of ty)"
    unfolding payload_for_def by (rule unat_add_lem [THEN iffD1]) (use b f(1) in simp)
  with f(1,7) show "unat a + 24 \<le> unat (payload_for ty a)"
    "within (unat (payload_for ty a), unat (size_of ty)) (unat a, unat (layout_size_of ty))"
    by (simp_all add: within_def)
qed

lemma registered_size:
  assumes "heads h a = Some g" "registered h ty (dtype g)"
  shows "node_size h a = layout_size_of ty"
  using assms by (auto simp: registered_def node_size_def)

lemma reference_conversions:
  assumes g: "heads h a = Some g" and r: "registered h ty (dtype g)"
  shows "as_ptr ty (from_node_ptr a) h = Some (payload_for ty a)"
    "head_payload (node_dtypes h) a h = Some (payload_for ty a)"
    "try_from_ref ty k (payload_for ty a) h = Some (if k = dtype g then Some (from_node_ptr a) else None)"
    "from_ref_unchecked ty (payload_for ty a) = from_node_ptr a"
  using g r by (auto simp: as_ptr_def from_node_ptr_def head_payload_def registered_def type_info_def payload_ptr_def
      payload_for_def try_from_ref_def from_ref_unchecked_def)

lemma payloads_apart:
  assumes ok: "blocks_ok h" and inv: "heap_inv h" and g: "heads h a = Some g" and r: "registered h ty (dtype g)"
    and b: "heads h b \<noteq> None" "b \<noteq> a"
  shows "apart (unat (payload_for ty a), unat (size_of ty)) (node_block h b)"
proof -
  have a: "heads h a \<noteq> None" using g by simp
  note s = registered_size [OF g r] and bd = node_block_bound [OF ok inv a]
  have "rust_type_ok ty" using r by (simp add: registered_def)
  from payload_range(2) [OF this, of a] bd s have
    "within (unat (payload_for ty a), unat (size_of ty)) (node_block h a)" by (simp add: node_block_def)
  moreover have "apart (node_block h a) (node_block h b)" using node_blocks_apart [OF ok inv a b(1)] b(2) by simp
  moreover have "within (node_block h b) (node_block h b)" by (simp add: within_def)
  ultimately show ?thesis using apart_within by blast
qed

lemma registered_range:
  assumes ok: "blocks_ok h" and inv: "heap_inv h" and g: "heads h a = Some g" and r: "registered h ty (dtype g)"
  shows "unat a + 24 \<le> unat (payload_for ty a)"
    "unat (payload_for ty a) + unat (size_of ty) \<le> unat a + unat (node_size h a)"
proof -
  have a: "heads h a \<noteq> None" using g by simp
  have "rust_type_ok ty" using r by (simp add: registered_def)
  from payload_range [OF this, of a] node_block_bound [OF ok inv a] registered_size [OF g r]
  show "unat a + 24 \<le> unat (payload_for ty a)"
    "unat (payload_for ty a) + unat (size_of ty) \<le> unat a + unat (node_size h a)" by (simp_all add: within_def)
qed

text \<open>
  The checked conversion computes the address of the head with the offset of its own type before it
  knows what the pointer points to.  When that type has another payload offset than the node the
  address it reads is not the head of the node; but no head of a node of that type can be there,
  because its block would overlap the block of the node.
\<close>

lemma foreign_reference:
  assumes ok: "blocks_ok h" and inv: "heap_inv h" and g: "heads h a = Some g" and r: "registered h ty (dtype g)"
    and r': "registered h ty' k" and acc: "try_from_ref ty' k (payload_for ty a) h = Some (Some q)"
  shows "q = from_node_ptr a \<and> k = dtype g"
proof -
  let ?p = "payload_for ty a"
  let ?b = "?p - payload_offset_of ty'"
  from acc obtain g' where b: "heads h ?b = Some g'" "k = dtype g'" "q = from_node_ptr ?b"
    by (auto simp: try_from_ref_def from_node_ptr_def Let_def bind_eq_Some_conv split: if_splits)
  have rb: "registered h ty' (dtype g')" using r' b(2) by simp
  have p: "payload_for ty' ?b = ?p" by (simp add: payload_for_def)
  have "?b = a"
  proof (rule ccontr)
    assume "?b \<noteq> a"
    then have "apart (node_block h a) (node_block h ?b)"
      using node_blocks_apart [OF ok inv, of a ?b] g b(1) by simp
    with registered_range [OF ok inv g r] registered_range [OF ok inv b(1) rb]
    show False unfolding p by (auto simp: apart_def node_block_def)
  qed
  with b g show ?thesis by auto
qed

end
