(* ===== verification/Gc_Value.thy ===== *)
theory Gc_Value
  imports Gc_Trace
begin

section \<open>Tracing the standard types (src/src/trace.rs)\<close>

text \<open>
  The \<open>GcTrace\<close> implementations of the primitives, strings, pointers and containers, over a
  value type of their own, and the proof that a trace submits exactly the references of the
  value.
\<close>

subsection \<open>Values and their trace\<close>

text \<open>
  A payload value built from the types \<open>trace.rs\<close> implements \<open>GcTrace\<close> for, over its node
  references.  The maps and sets carry their items in iteration order, which for the hash
  containers is any order.  A \<open>RefCell\<close> knows whether it is mutably borrowed, in which case
  \<open>borrow\<close> panics.
\<close>

datatype (val_refs: 'r) gval =
    Prim
  | Str_V
  | Gc_Ref 'r
  | Boxed "'r gval"
  | Slice "'r gval list"
  | Array "'r gval list"
  | Vec_V "'r gval list"
  | Vec_Deque "'r gval list"
  | Opt "'r gval option"
  | Ok_V "'r gval"
  | Err_V "'r gval"
  | Phantom_Data
  | Cell_V "'r gval"
  | Ref_Cell bool "'r gval"
  | Rc_V "'r gval"
  | Arc_V "'r gval"
  | Hash_Map "('r gval \<times> 'r gval) list"
  | BTree_Map "('r gval \<times> 'r gval) list"
  | Hash_Set "'r gval list"
  | BTree_Set "'r gval list"
  | Tuple "'r gval list"

fun trace_val :: "addr gval \<Rightarrow> trace_ctx \<Rightarrow> trace_ctx option" where
  "trace_val Prim ctx = Some ctx"
| "trace_val Str_V ctx = Some ctx"
| "trace_val (Gc_Ref n) ctx = Some (ctx_add_node n ctx)"
| "trace_val (Boxed v) ctx = trace_val v ctx"
| "trace_val (Slice vs) ctx = fold_opt trace_val vs ctx"
| "trace_val (Array vs) ctx = fold_opt trace_val vs ctx"
| "trace_val (Vec_V vs) ctx = fold_opt trace_val vs ctx"
| "trace_val (Vec_Deque vs) ctx = fold_opt trace_val vs ctx"
| "trace_val (Opt None) ctx = Some ctx"
| "trace_val (Opt (Some v)) ctx = trace_val v ctx"
| "trace_val (Ok_V v) ctx = trace_val v ctx"
| "trace_val (Err_V v) ctx = trace_val v ctx"
| "trace_val Phantom_Data ctx = Some ctx"
| "trace_val (Cell_V v) ctx = trace_val v ctx"
| "trace_val (Ref_Cell mut v) ctx = (if mut then None else trace_val v ctx)"
| "trace_val (Rc_V v) ctx = trace_val v ctx"
| "trace_val (Arc_V v) ctx = trace_val v ctx"
| "trace_val (Hash_Map kvs) ctx =
     fold_opt (\<lambda>kv c. Option.bind (trace_val (fst kv) c) (trace_val (snd kv))) kvs ctx"
| "trace_val (BTree_Map kvs) ctx =
     fold_opt (\<lambda>kv c. Option.bind (trace_val (fst kv) c) (trace_val (snd kv))) kvs ctx"
| "trace_val (Hash_Set vs) ctx = fold_opt trace_val vs ctx"
| "trace_val (BTree_Set vs) ctx = fold_opt trace_val vs ctx"
| "trace_val (Tuple vs) ctx = fold_opt trace_val vs ctx"

text \<open>No \<open>RefCell\<close> inside the value is mutably borrowed.\<close>

fun unborrowed :: "'r gval \<Rightarrow> bool" where
  "unborrowed (Boxed v) = unborrowed v"
| "unborrowed (Slice vs) = (\<forall>v\<in>set vs. unborrowed v)"
| "unborrowed (Array vs) = (\<forall>v\<in>set vs. unborrowed v)"
| "unborrowed (Vec_V vs) = (\<forall>v\<in>set vs. unborrowed v)"
| "unborrowed (Vec_Deque vs) = (\<forall>v\<in>set vs. unborrowed v)"
| "unborrowed (Opt (Some v)) = unborrowed v"
| "unborrowed (Ok_V v) = unborrowed v"
| "unborrowed (Err_V v) = unborrowed v"
| "unborrowed (Cell_V v) = unborrowed v"
| "unborrowed (Ref_Cell mut v) = (\<not> mut \<and> unborrowed v)"
| "unborrowed (Rc_V v) = unborrowed v"
| "unborrowed (Arc_V v) = unborrowed v"
| "unborrowed (Hash_Map kvs) = (\<forall>kv\<in>set kvs. unborrowed (fst kv) \<and> unborrowed (snd kv))"
| "unborrowed (BTree_Map kvs) = (\<forall>kv\<in>set kvs. unborrowed (fst kv) \<and> unborrowed (snd kv))"
| "unborrowed (Hash_Set vs) = (\<forall>v\<in>set vs. unborrowed v)"
| "unborrowed (BTree_Set vs) = (\<forall>v\<in>set vs. unborrowed v)"
| "unborrowed (Tuple vs) = (\<forall>v\<in>set vs. unborrowed v)"
| "unborrowed _ = True"

text \<open>What a trace adds to the context when it does not panic.\<close>

definition traces :: "trace_ctx option \<Rightarrow> trace_ctx \<Rightarrow> addr set \<Rightarrow> bool \<Rightarrow> bool" where
  "traces r ctx refs ok \<longleftrightarrow>
     (case r of None \<Rightarrow> \<not> ok
      | Some c \<Rightarrow> ok \<and> set (traced_nodes c) = set (traced_nodes ctx) \<union> refs \<and>
                  (distinct (traced_nodes ctx) \<longrightarrow> distinct (traced_nodes c)))"

lemma traces_Some: "traces (Some ctx) ctx {} True"
  by (simp add: traces_def)

lemma traces_bind:
  assumes "traces r ctx refs ok" "\<And>c. r = Some c \<Longrightarrow> traces (f c) c refs' ok'"
  shows "traces (Option.bind r f) ctx (refs \<union> refs') (ok \<and> ok')"
  using assms by (cases r) (fastforce simp: traces_def split: option.splits)+

lemma traces_fold:
  assumes "\<And>x c. x \<in> set xs \<Longrightarrow> traces (f x c) c (R x) (P x)"
  shows "traces (fold_opt f xs ctx) ctx (\<Union>x\<in>set xs. R x) (\<forall>x\<in>set xs. P x)"
  using assms
proof (induction xs arbitrary: ctx)
  case Nil
  then show ?case by (simp add: traces_def)
next
  case (Cons x xs)
  have "traces (Option.bind (f x ctx) (fold_opt f xs)) ctx
      (R x \<union> (\<Union>y\<in>set xs. R y)) (P x \<and> (\<forall>y\<in>set xs. P y))"
    by (rule traces_bind, rule Cons.prems, simp) (rule Cons.IH, rule Cons.prems, simp)
  then show ?case by simp
qed

lemma traces_pairs:
  assumes "\<And>kv c. kv \<in> set kvs \<Longrightarrow>
      traces (trace_val (fst kv) c) c (val_refs (fst kv)) (unborrowed (fst kv))"
    and "\<And>kv c. kv \<in> set kvs \<Longrightarrow>
      traces (trace_val (snd kv) c) c (val_refs (snd kv)) (unborrowed (snd kv))"
  shows "traces (fold_opt (\<lambda>kv c. Option.bind (trace_val (fst kv) c) (trace_val (snd kv))) kvs ctx)
    ctx (\<Union>kv\<in>set kvs. val_refs (fst kv) \<union> val_refs (snd kv))
    (\<forall>kv\<in>set kvs. unborrowed (fst kv) \<and> unborrowed (snd kv))"
  by (rule traces_fold, rule traces_bind) (simp_all add: assms)

lemma traces_ref: "traces (Some (ctx_add_node n ctx)) ctx {n} True"
  by (auto simp: traces_def ctx_add_node_def vec_push_def)

lemma trace_val_traces: "traces (trace_val v ctx) ctx (val_refs v) (unborrowed v)"
proof (induction v arbitrary: ctx)
  case (Opt x)
  then show ?case by (cases x) (simp_all add: traces_Some)
next
  case (Gc_Ref n)
  then show ?case by (simp add: traces_ref)
next
  case (Ref_Cell b v)
  then show ?case by (cases b) (simp_all add: traces_def)
next
  case (Hash_Map kvs)
  have "traces (trace_val (Hash_Map kvs) ctx) ctx
      (\<Union>kv\<in>set kvs. val_refs (fst kv) \<union> val_refs (snd kv)) (unborrowed (Hash_Map kvs))"
    by (simp, rule traces_pairs) (rule Hash_Map, simp, simp add: prod_set_defs)+
  moreover have "val_refs (Hash_Map kvs) = (\<Union>kv\<in>set kvs. val_refs (fst kv) \<union> val_refs (snd kv))"
    by (auto simp: prod_set_defs)
  ultimately show ?case by simp
next
  case (BTree_Map kvs)
  have "traces (trace_val (BTree_Map kvs) ctx) ctx
      (\<Union>kv\<in>set kvs. val_refs (fst kv) \<union> val_refs (snd kv)) (unborrowed (BTree_Map kvs))"
    by (simp, rule traces_pairs) (rule BTree_Map, simp, simp add: prod_set_defs)+
  moreover have "val_refs (BTree_Map kvs) = (\<Union>kv\<in>set kvs. val_refs (fst kv) \<union> val_refs (snd kv))"
    by (auto simp: prod_set_defs)
  ultimately show ?case by simp
qed (simp_all add: traces_Some traces_fold)

subsection \<open>Tracing is exact\<close>

text \<open>
  C29: tracing a value of the standard types, nested in any way, collects every reference in it once
  and nothing else; it panics exactly when a \<open>RefCell\<close> in it is mutably borrowed.
\<close>
theorem trace_val_exact:
  "case trace_val v (create_trace_ctx h) of
     None \<Rightarrow> \<not> unborrowed v
   | Some c \<Rightarrow> unborrowed v \<and> distinct (traced_nodes c) \<and> set (traced_nodes c) = val_refs v"
  using trace_val_traces [of v "create_trace_ctx h"]
  by (auto simp: traces_def create_trace_ctx_def split: option.splits)

end
