(* ===== verification/Gc_Derive.thy ===== *)
theory Gc_Derive
  imports Gc_Value
begin

section \<open>The derive macro (src/gc-lite-macros/src/lib.rs)\<close>

text \<open>
  \<open>#[derive(GcTrace)]\<close> as a compiler: \<open>expand_gc_trace\<close> translates the fields of a type,
  as \<open>syn\<close> delivers them, to the statements of a \<open>trace\<close> body; \<open>run_body\<close> gives those
  statements their meaning on a value.  The path of a \<open>with = "path"\<close> attribute is parsed by
  \<open>syn\<close>; that parser is the parameter \<open>parse_path\<close>.
\<close>

subsection \<open>Input\<close>

datatype syn_error =
    Unknown_Gc_Attribute
  | Duplicate_Gc_Attribute
  | Syn_Parse_Error
  | Derive_For_Union

record nested_meta =
  meta_path :: string
  meta_value :: "string option option" \<comment> \<open>what follows \<open>=\<close>; \<open>Some None\<close> is no string literal\<close>

record attribute =
  attr_path :: string
  attr_metas :: "nested_meta list option" \<comment> \<open>\<open>None\<close>: no parenthesised list, as in \<open>#[gc]\<close>\<close>

datatype syn_fields =
    Named "(string \<times> attribute list) list"
  | Unnamed "attribute list list"
  | Unit_F

datatype syn_data =
    Struct_D syn_fields
  | Enum_D "(string \<times> syn_fields) list"
  | Union_D

subsection \<open>What to emit for a field\<close>

datatype 'path FieldKind =
    Trace_K
  | Skip_K
  | With_K 'path

text \<open>The closure handed to \<open>parse_nested_meta\<close>.\<close>

definition meta_step ::
  "(string \<Rightarrow> 'path option) \<Rightarrow> nested_meta \<Rightarrow> 'path FieldKind option
     \<Rightarrow> syn_error + 'path FieldKind option" where
  "meta_step parse_path m kind =
     (let new_kind =
        (if meta_path m = ''skip'' then Inr Skip_K
         else if meta_path m = ''with'' then
           (case Option.bind (Option.bind (meta_value m) id) parse_path of
              None \<Rightarrow> Inl Syn_Parse_Error
            | Some p \<Rightarrow> Inr (With_K p))
         else Inl Unknown_Gc_Attribute)
      in case new_kind of
           Inl e \<Rightarrow> Inl e
         | Inr k \<Rightarrow> if kind \<noteq> None then Inl Duplicate_Gc_Attribute else Inr (Some k))"

fun fold_res :: "('a \<Rightarrow> 's \<Rightarrow> 'e + 's) \<Rightarrow> 'a list \<Rightarrow> 's \<Rightarrow> 'e + 's" where
  "fold_res f [] s = Inr s"
| "fold_res f (x # xs) s = (case f x s of Inl e \<Rightarrow> Inl e | Inr t \<Rightarrow> fold_res f xs t)"

fun map_res :: "('a \<Rightarrow> 'e + 'b) \<Rightarrow> 'a list \<Rightarrow> 'e + 'b list" where
  "map_res f [] = Inr []"
| "map_res f (x # xs) =
     (case f x of Inl e \<Rightarrow> Inl e
      | Inr y \<Rightarrow> (case map_res f xs of Inl e \<Rightarrow> Inl e | Inr ys \<Rightarrow> Inr (y # ys)))"

text \<open>
  \<open>parse_nested_meta\<close> runs the closure on each item and then expects a comma or the end, so a
  value the closure did not read is an error.
\<close>

definition nested_step ::
  "(string \<Rightarrow> 'path option) \<Rightarrow> nested_meta \<Rightarrow> 'path FieldKind option
     \<Rightarrow> syn_error + 'path FieldKind option" where
  "nested_step parse_path m kind =
     (case meta_step parse_path m kind of
        Inl e \<Rightarrow> Inl e
      | Inr k \<Rightarrow> if meta_path m = ''skip'' \<and> meta_value m \<noteq> None then Inl Syn_Parse_Error else Inr k)"

definition parse_nested_meta ::
  "(string \<Rightarrow> 'path option) \<Rightarrow> attribute \<Rightarrow> 'path FieldKind option
     \<Rightarrow> syn_error + 'path FieldKind option" where
  "parse_nested_meta parse_path attr kind =
     (case attr_metas attr of
        None \<Rightarrow> Inl Syn_Parse_Error
      | Some ms \<Rightarrow> fold_res (nested_step parse_path) ms kind)"

definition field_kind :: "(string \<Rightarrow> 'path option) \<Rightarrow> attribute list \<Rightarrow> syn_error + 'path FieldKind" where
  "field_kind parse_path ats =
     (case fold_res (parse_nested_meta parse_path) (filter (\<lambda>a. attr_path a = ''gc'') ats) None of
        Inl e \<Rightarrow> Inl e
      | Inr kind \<Rightarrow> Inr (case kind of None \<Rightarrow> Trace_K | Some k \<Rightarrow> k))"

subsection \<open>The generated code\<close>

text \<open>
  An argument of a generated call: a field of \<open>self\<close> by name or by index, or a variable a
  match pattern bound.
\<close>

datatype place = Self_Field string | Self_Index nat | Bound string

datatype 'path stmt =
    Call_Trace place
  | Call_With 'path place

text \<open>A field of a pattern: bound under a name, or \<open>_\<close>.\<close>

datatype pat =
    Bind_Field string \<comment> \<open>\<open>ident,\<close>\<close>
  | Wild_Field string \<comment> \<open>\<open>ident: _,\<close>\<close>
  | Bind_Pos string
  | Wild_Pos

datatype arm_pat = Pat_Named "pat list" | Pat_Unnamed "pat list" | Pat_Unit

datatype 'path body =
    Stmts "'path stmt list"
  | Match_Self "(string \<times> arm_pat \<times> 'path stmt list) list"

definition field_stmt :: "place \<Rightarrow> 'path FieldKind \<Rightarrow> 'path stmt list" where
  "field_stmt p k =
     (case k of Skip_K \<Rightarrow> [] | Trace_K \<Rightarrow> [Call_Trace p] | With_K q \<Rightarrow> [Call_With q p])"

definition named_field_stmts ::
  "(string \<Rightarrow> 'path option) \<Rightarrow> (string \<times> attribute list) list \<Rightarrow> syn_error + 'path stmt list" where
  "named_field_stmts pp flds =
     fold_res (\<lambda>(ident, ats) stmts.
        case field_kind pp ats of Inl e \<Rightarrow> Inl e
        | Inr k \<Rightarrow> Inr (stmts @ field_stmt (Self_Field ident) k)) flds []"

definition unnamed_field_stmts ::
  "(string \<Rightarrow> 'path option) \<Rightarrow> attribute list list \<Rightarrow> syn_error + 'path stmt list" where
  "unnamed_field_stmts pp flds =
     fold_res (\<lambda>(i, ats) stmts.
        case field_kind pp ats of Inl e \<Rightarrow> Inl e
        | Inr k \<Rightarrow> Inr (stmts @ field_stmt (Self_Index i) k)) (List.enumerate 0 flds) []"

text \<open>\<open>format_ident!("__field_{}", i)\<close>, with the decimal digits of \<open>i\<close>.\<close>

fun digits :: "nat \<Rightarrow> string" where
  "digits n = (if n < 10 then [char_of (48 + n)] else digits (n div 10) @ [char_of (48 + n mod 10)])"

declare digits.simps [simp del]

definition field_binding :: "nat \<Rightarrow> string" where
  "field_binding i = ''__field_'' @ digits i"

definition variant_arm ::
  "(string \<Rightarrow> 'path option) \<Rightarrow> string \<times> syn_fields \<Rightarrow> syn_error + (string \<times> arm_pat \<times> 'path stmt list)" where
  "variant_arm pp = (\<lambda>(vname, flds).
     case flds of
       Named fs \<Rightarrow>
         (case fold_res (\<lambda>(ident, ats) (pats, stmts).
             case field_kind pp ats of Inl e \<Rightarrow> Inl e
             | Inr k \<Rightarrow> Inr (pats @ [if k = Skip_K then Wild_Field ident else Bind_Field ident],
                            stmts @ field_stmt (Bound ident) k)) fs ([], []) of
            Inl e \<Rightarrow> Inl e
          | Inr (pats, stmts) \<Rightarrow> Inr (vname, Pat_Named pats, stmts))
     | Unnamed fs \<Rightarrow>
         (case fold_res (\<lambda>(i, ats) (pats, stmts).
             case field_kind pp ats of Inl e \<Rightarrow> Inl e
             | Inr k \<Rightarrow> Inr (pats @ [if k = Skip_K then Wild_Pos else Bind_Pos (field_binding i)],
                            stmts @ field_stmt (Bound (field_binding i)) k)) (List.enumerate 0 fs) ([], []) of
            Inl e \<Rightarrow> Inl e
          | Inr (pats, stmts) \<Rightarrow> Inr (vname, Pat_Unnamed pats, stmts))
     | Unit_F \<Rightarrow> Inr (vname, Pat_Unit, []))"

definition expand_body :: "(string \<Rightarrow> 'path option) \<Rightarrow> syn_data \<Rightarrow> syn_error + 'path body" where
  "expand_body pp input =
     (case input of
        Union_D \<Rightarrow> Inl Derive_For_Union
      | Struct_D (Named fs) \<Rightarrow> map_sum id Stmts (named_field_stmts pp fs)
      | Struct_D (Unnamed fs) \<Rightarrow> map_sum id Stmts (unnamed_field_stmts pp fs)
      | Struct_D Unit_F \<Rightarrow> Inr (Stmts [])
      | Enum_D vs \<Rightarrow> map_sum id Match_Self (map_res (variant_arm pp) vs))"

text \<open>Every type parameter gets the bound \<open>GcTrace\<close>; lifetimes and constants are left alone.\<close>

datatype generic_param =
    Type_P string "string list" \<comment> \<open>name and bounds\<close>
  | Lifetime_P string "string list"
  | Const_P string string

record derive_input =
  di_ident :: string
  di_generics :: "generic_param list"
  di_where :: "string list"
  di_data :: syn_data

record 'path trace_impl =
  im_ident :: string
  im_generics :: "generic_param list"
  im_where :: "string list"
  im_body :: "'path body"

definition add_gc_trace_bounds :: "generic_param list \<Rightarrow> generic_param list" where
  "add_gc_trace_bounds params =
     map (\<lambda>param. case param of Type_P t bounds \<Rightarrow> Type_P t (vec_push bounds ''::gc_lite::GcTrace'')
                  | _ \<Rightarrow> param) params"

definition expand_gc_trace :: "(string \<Rightarrow> 'path option) \<Rightarrow> derive_input \<Rightarrow> syn_error + 'path trace_impl" where
  "expand_gc_trace pp input =
     (case expand_body pp (di_data input) of
        Inl e \<Rightarrow> Inl e
      | Inr b \<Rightarrow> Inr \<lparr>im_ident = di_ident input, im_generics = add_gc_trace_bounds (di_generics input),
                      im_where = di_where input, im_body = b\<rparr>)"

subsection \<open>What the generated code does\<close>

datatype 'v fvals = V_Named "(string \<times> 'v) list" | V_Unnamed "'v list" | V_Unit

datatype 'v dvalue = V_Struct "'v fvals" | V_Enum string "'v fvals"

fun field_list :: "'v fvals \<Rightarrow> 'v list" where
  "field_list (V_Named fs) = map snd fs"
| "field_list (V_Unnamed vs) = vs"
| "field_list V_Unit = []"

fun attr_list :: "syn_fields \<Rightarrow> attribute list list" where
  "attr_list (Named fs) = map snd fs"
| "attr_list (Unnamed fs) = fs"
| "attr_list Unit_F = []"

text \<open>A place of \<open>self\<close>, or of the variables a pattern bound.\<close>

fun place_val :: "'v fvals \<Rightarrow> (string \<times> 'v) list \<Rightarrow> place \<Rightarrow> 'v option" where
  "place_val (V_Named fs) env (Self_Field x) = map_of fs x"
| "place_val (V_Unnamed vs) env (Self_Index i) = (if i < length vs then Some (vs ! i) else None)"
| "place_val fv env (Bound x) = map_of env x"
| "place_val fv env p = None"

definition run_stmt ::
  "('path \<Rightarrow> addr gval \<Rightarrow> trace_ctx \<Rightarrow> trace_ctx option) \<Rightarrow> addr gval fvals
     \<Rightarrow> (string \<times> addr gval) list \<Rightarrow> 'path stmt \<Rightarrow> trace_ctx \<Rightarrow> trace_ctx option" where
  "run_stmt call fv env st ctx =
     (case st of
        Call_Trace p \<Rightarrow> do { v \<leftarrow> place_val fv env p; trace_val v ctx }
      | Call_With q p \<Rightarrow> do { v \<leftarrow> place_val fv env p; call q v ctx })"

fun bind_named :: "(string \<times> 'v) list \<Rightarrow> pat \<Rightarrow> (string \<times> 'v) list" where
  "bind_named fs (Bind_Field x) = (case map_of fs x of None \<Rightarrow> [] | Some v \<Rightarrow> [(x, v)])"
| "bind_named fs _ = []"

fun bind_pos :: "pat \<Rightarrow> 'v \<Rightarrow> (string \<times> 'v) list" where
  "bind_pos (Bind_Pos x) v = [(x, v)]"
| "bind_pos _ v = []"

fun match_pat :: "arm_pat \<Rightarrow> 'v fvals \<Rightarrow> (string \<times> 'v) list option" where
  "match_pat (Pat_Named ps) (V_Named fs) = Some (concat (map (bind_named fs) ps))"
| "match_pat (Pat_Unnamed ps) (V_Unnamed vs) =
     (if length ps = length vs then Some (concat (map2 bind_pos ps vs)) else None)"
| "match_pat Pat_Unit V_Unit = Some []"
| "match_pat _ _ = None"

fun run_body ::
  "('path \<Rightarrow> addr gval \<Rightarrow> trace_ctx \<Rightarrow> trace_ctx option) \<Rightarrow> 'path body \<Rightarrow> addr gval dvalue
     \<Rightarrow> trace_ctx \<Rightarrow> trace_ctx option" where
  "run_body call (Stmts ss) (V_Struct fv) ctx = fold_opt (run_stmt call fv []) ss ctx"
| "run_body call (Match_Self arms) (V_Enum x fv) ctx =
     do { (p, ss) \<leftarrow> map_of arms x; env \<leftarrow> match_pat p fv; fold_opt (run_stmt call fv env) ss ctx }"
| "run_body call _ _ ctx = None"

text \<open>The fields of a value are those of the declaration, in order, under distinct names.\<close>

fun fields_match :: "syn_fields \<Rightarrow> 'v fvals \<Rightarrow> bool" where
  "fields_match (Named fs) (V_Named vs) \<longleftrightarrow> map fst vs = map fst fs \<and> distinct (map fst fs)"
| "fields_match (Unnamed fs) (V_Unnamed vs) \<longleftrightarrow> length vs = length fs"
| "fields_match Unit_F V_Unit \<longleftrightarrow> True"
| "fields_match _ _ \<longleftrightarrow> False"

fun value_of :: "syn_data \<Rightarrow> 'v dvalue \<Rightarrow> syn_fields option" where
  "value_of (Struct_D fs) (V_Struct fv) = (if fields_match fs fv then Some fs else None)"
| "value_of (Enum_D vs) (V_Enum x fv) =
     do { fs \<leftarrow> map_of vs x; if fields_match fs fv then Some fs else None }"
| "value_of _ _ = None"

fun value_fields :: "'v dvalue \<Rightarrow> 'v list" where
  "value_fields (V_Struct fv) = field_list fv"
| "value_fields (V_Enum x fv) = field_list fv"

text \<open>The reference: every field in declaration order, by its kind.\<close>

definition trace_field ::
  "('path \<Rightarrow> addr gval \<Rightarrow> trace_ctx \<Rightarrow> trace_ctx option) \<Rightarrow> 'path FieldKind \<times> addr gval
     \<Rightarrow> trace_ctx \<Rightarrow> trace_ctx option" where
  "trace_field call kv ctx =
     (case fst kv of Skip_K \<Rightarrow> Some ctx | Trace_K \<Rightarrow> trace_val (snd kv) ctx
      | With_K q \<Rightarrow> call q (snd kv) ctx)"

definition trace_fields ::
  "('path \<Rightarrow> addr gval \<Rightarrow> trace_ctx \<Rightarrow> trace_ctx option) \<Rightarrow> 'path FieldKind list \<Rightarrow> addr gval list
     \<Rightarrow> trace_ctx \<Rightarrow> trace_ctx option" where
  "trace_fields call ks vs ctx = fold_opt (trace_field call) (zip ks vs) ctx"

lemma field_stmt_simps [simp]:
  "field_stmt p Skip_K = []" "field_stmt p Trace_K = [Call_Trace p]" "field_stmt p (With_K q) = [Call_With q p]"
  by (simp_all add: field_stmt_def)

lemma fold_res_append:
  "fold_res (\<lambda>(x, ats) acc. case fk ats of Inl e \<Rightarrow> Inl e | Inr k \<Rightarrow> Inr (acc @ g x k)) fs acc =
     (case map_res fk (map snd fs) of Inl e \<Rightarrow> Inl e
      | Inr ks \<Rightarrow> Inr (acc @ concat (map2 g (map fst fs) ks)))"
  by (induction fs arbitrary: acc) (auto split: sum.splits)

lemma fold_res_append2:
  "fold_res (\<lambda>(x, ats) (p, s). case fk ats of Inl e \<Rightarrow> Inl e | Inr k \<Rightarrow> Inr (p @ [f x k], s @ g x k)) fs (p, s) =
     (case map_res fk (map snd fs) of Inl e \<Rightarrow> Inl e
      | Inr ks \<Rightarrow> Inr (p @ map2 f (map fst fs) ks, s @ concat (map2 g (map fst fs) ks)))"
  by (induction fs arbitrary: p s) (auto split: sum.splits)

lemma map_res_length: "map_res f xs = Inr ys \<Longrightarrow> length ys = length xs"
  by (induction xs arbitrary: ys) (auto split: sum.splits)

lemma map2_map: "map2 (\<lambda>x. h (F x)) xs ks = map2 h (map F xs) ks"
  by (simp add: zip_map1 comp_def case_prod_beta')

subsection \<open>The generated code traces the declared fields\<close>

lemma run_fields:
  assumes "length ps = length ks" "length vs = length ks"
    and "\<And>i. i < length ks \<Longrightarrow> ks ! i \<noteq> Skip_K \<Longrightarrow> place_val fv env (ps ! i) = Some (vs ! i)"
  shows "fold_opt (run_stmt call fv env) (concat (map2 field_stmt ps ks)) ctx = trace_fields call ks vs ctx"
  using assms
proof (induction ks arbitrary: ps vs ctx)
  case Nil
  then show ?case by (simp add: trace_fields_def)
next
  case (Cons k ks)
  obtain p ps' v vs' where l: "ps = p # ps'" "vs = v # vs'" "length ps' = length ks" "length vs' = length ks"
    using Cons.prems(1,2) by (cases ps; cases vs) auto
  have hd: "k \<noteq> Skip_K \<Longrightarrow> place_val fv env p = Some v" using Cons.prems(3) [of 0] l by simp
  have IH: "fold_opt (run_stmt call fv env) (concat (map2 field_stmt ps' ks)) c = trace_fields call ks vs' c" for c
    by (rule Cons.IH [OF l(3,4)]) (use Cons.prems(3) [of "Suc _"] l in simp)
  have "run_stmt call fv env st c = trace_field call (k, v) c" if "field_stmt p k = [st]" for st c
    using that hd by (cases k) (auto simp: run_stmt_def trace_field_def)
  then show ?case
    using IH l by (cases k) (auto simp: trace_fields_def trace_field_def fold_opt_append intro!: Option.bind_cong)
qed

lemma named_field_stmts_eq:
  "named_field_stmts pp fs =
     (case map_res (field_kind pp) (map snd fs) of Inl e \<Rightarrow> Inl e
      | Inr ks \<Rightarrow> Inr (concat (map2 field_stmt (map (\<lambda>x. Self_Field (fst x)) fs) ks)))"
  unfolding named_field_stmts_def fold_res_append
  by (simp add: map2_map [where F = Self_Field] comp_def split: sum.splits)

lemma unnamed_field_stmts_eq:
  "unnamed_field_stmts pp fs =
     (case map_res (field_kind pp) fs of Inl e \<Rightarrow> Inl e
      | Inr ks \<Rightarrow> Inr (concat (map2 field_stmt (map Self_Index [0..<length fs]) ks)))"
  unfolding unnamed_field_stmts_def fold_res_append
  by (simp add: map2_map [where F = Self_Index] split: sum.splits)

definition named_pats :: "string list \<Rightarrow> 'path FieldKind list \<Rightarrow> pat list" where
  "named_pats ns ks = map2 (\<lambda>n k. if k = Skip_K then Wild_Field n else Bind_Field n) ns ks"

definition pos_pats :: "nat \<Rightarrow> 'path FieldKind list \<Rightarrow> pat list" where
  "pos_pats n ks = map2 (\<lambda>i k. if k = Skip_K then Wild_Pos else Bind_Pos (field_binding i)) [0..<n] ks"

lemma variant_arm_named:
  "variant_arm pp (x, Named fs) =
     (case map_res (field_kind pp) (map snd fs) of Inl e \<Rightarrow> Inl e
      | Inr ks \<Rightarrow> Inr (x, Pat_Named (named_pats (map fst fs) ks),
                    concat (map2 field_stmt (map (\<lambda>x. Bound (fst x)) fs) ks)))"
  unfolding variant_arm_def
  by (simp add: fold_res_append2 map2_map [where F = Bound] comp_def named_pats_def split: sum.splits)

lemma variant_arm_unnamed:
  "variant_arm pp (x, Unnamed fs) =
     (case map_res (field_kind pp) fs of Inl e \<Rightarrow> Inl e
      | Inr ks \<Rightarrow> Inr (x, Pat_Unnamed (pos_pats (length fs) ks),
                    concat (map2 field_stmt (map (\<lambda>i. Bound (field_binding i)) [0..<length fs]) ks)))"
  unfolding variant_arm_def
  by (simp add: fold_res_append2 map2_map [where F = "\<lambda>i. Bound (field_binding i)"] pos_pats_def split: sum.splits)

subsection \<open>The bindings of a pattern\<close>

definition undigits :: "string \<Rightarrow> nat" where
  "undigits cs = foldl (\<lambda>n c. 10 * n + (of_char c - 48)) 0 cs"

lemma undigits_digits: "undigits (digits n) = n"
proof (induction n rule: digits.induct)
  case (1 n)
  show ?case
  proof (cases "n < 10")
    case True
    then show ?thesis by (subst digits.simps) (simp add: undigits_def)
  next
    case False
    have "(of_char (char_of (48 + n mod 10)) :: nat) = 48 + n mod 10" by simp
    moreover have "undigits (digits (n div 10) @ [c]) = 10 * undigits (digits (n div 10)) + (of_char c - 48)" for c
      by (simp add: undigits_def)
    ultimately show ?thesis using False 1 [OF False] by (subst digits.simps) simp
  qed
qed

lemma field_binding_inj: "field_binding i = field_binding j \<longleftrightarrow> i = j"
  unfolding field_binding_def by (metis same_append_eq undigits_digits)

text \<open>Looking a name up in an association list all of whose entries agree on it.\<close>

lemma map_of_agree:
  assumes "(x, v) \<in> set env" "\<And>w. (x, w) \<in> set env \<Longrightarrow> w = v"
  shows "map_of env x = Some v"
proof -
  from assms(1) obtain w where "map_of env x = Some w"
    by (metis domIff dom_map_of_conv_image_fst fst_conv image_eqI not_None_eq)
  with assms(2) map_of_SomeD show ?thesis by fastforce
qed

lemma named_bindings:
  assumes "distinct (map fst vs)" "length ks = length vs" "i < length ks" "ks ! i \<noteq> Skip_K"
  shows "map_of (concat (map (bind_named vs) (named_pats (map fst vs) ks))) (fst (vs ! i)) = Some (snd (vs ! i))"
proof (rule map_of_agree)
  have at: "map_of vs (fst (vs ! i)) = Some (snd (vs ! i))"
    using assms by (intro map_of_is_SomeI) simp_all
  have "Bind_Field (fst (vs ! i)) = named_pats (map fst vs) ks ! i"
    using assms by (simp add: named_pats_def)
  moreover have "named_pats (map fst vs) ks ! i \<in> set (named_pats (map fst vs) ks)"
    by (rule nth_mem) (use assms in \<open>simp add: named_pats_def\<close>)
  ultimately have "Bind_Field (fst (vs ! i)) \<in> set (named_pats (map fst vs) ks)" by simp
  moreover have "(fst (vs ! i), snd (vs ! i)) \<in> set (bind_named vs (Bind_Field (fst (vs ! i))))"
    using at by simp
  ultimately show "(fst (vs ! i), snd (vs ! i)) \<in> set (concat (map (bind_named vs) (named_pats (map fst vs) ks)))"
    unfolding set_concat set_map by blast
  fix w assume "(fst (vs ! i), w) \<in> set (concat (map (bind_named vs) (named_pats (map fst vs) ks)))"
  then obtain p where "(fst (vs ! i), w) \<in> set (bind_named vs p)" by auto
  then have "map_of vs (fst (vs ! i)) = Some w" by (cases p) (auto split: option.splits)
  with at show "w = snd (vs ! i)" by simp
qed

lemma pos_bindings:
  assumes "length ks = length vs" "i < length ks" "ks ! i \<noteq> Skip_K"
  shows "map_of (concat (map2 bind_pos (pos_pats (length ks) ks) vs)) (field_binding i) = Some (vs ! i)"
proof (rule map_of_agree)
  let ?ps = "pos_pats (length ks) ks"
  have len: "length ?ps = length ks" by (simp add: pos_pats_def)
  have at: "?ps ! j = (if ks ! j = Skip_K then Wild_Pos else Bind_Pos (field_binding j))" if "j < length ks" for j
    using that by (simp add: pos_pats_def)
  have e: "map2 bind_pos ?ps vs ! i = [(field_binding i, vs ! i)]" using assms len at by simp
  have "map2 bind_pos ?ps vs ! i \<in> set (map2 bind_pos ?ps vs)"
    by (rule nth_mem) (use assms len in simp)
  then show "(field_binding i, vs ! i) \<in> set (concat (map2 bind_pos ?ps vs))"
    unfolding set_concat by (rule UN_I) (simp add: e)
  fix w assume "(field_binding i, w) \<in> set (concat (map2 bind_pos ?ps vs))"
  then obtain zs where zs: "zs \<in> set (map2 bind_pos ?ps vs)" "(field_binding i, w) \<in> set zs" by auto
  from zs(1) obtain j where "j < length (map2 bind_pos ?ps vs)" "zs = map2 bind_pos ?ps vs ! j"
    unfolding in_set_conv_nth by blast
  with zs(2) len assms have j: "j < length ks" "(field_binding i, w) \<in> set (bind_pos (?ps ! j) (vs ! j))"
    by simp_all
  then show "w = vs ! i" using at [OF j(1)] j(2) by (auto simp: field_binding_inj split: if_splits)
qed

subsection \<open>The derived trace\<close>

lemma variant_arm_correct:
  assumes "variant_arm pp (x, fs) = Inr arm" and m: "fields_match fs fv"
  shows "\<exists>ks p ss. arm = (x, p, ss) \<and> map_res (field_kind pp) (attr_list fs) = Inr ks \<and>
    (\<exists>env. match_pat p fv = Some env \<and>
       (\<forall>ctx. fold_opt (run_stmt call fv env) ss ctx = trace_fields call ks (field_list fv) ctx))"
proof (cases fs)
  case (Named ns)
  with m obtain vs where vs: "fv = V_Named vs" "map fst vs = map fst ns" "distinct (map fst vs)"
    by (cases fv) auto
  from assms(1) Named obtain ks where ks: "map_res (field_kind pp) (map snd ns) = Inr ks"
    "arm = (x, Pat_Named (named_pats (map fst ns) ks), concat (map2 field_stmt (map (\<lambda>x. Bound (fst x)) ns) ks))"
    by (auto simp: variant_arm_named split: sum.splits)
  have len: "length ks = length ns" "length vs = length ns"
    using map_res_length [OF ks(1)] arg_cong [OF vs(2), of length] by simp_all
  let ?env = "concat (map (bind_named vs) (named_pats (map fst vs) ks))"
  have nm: "fst (ns ! i) = fst (vs ! i)" if "i < length ks" for i
    using arg_cong [OF vs(2), of "\<lambda>l. l ! i"] that len by simp
  have "fold_opt (run_stmt call fv ?env) (concat (map2 field_stmt (map (\<lambda>x. Bound (fst x)) ns) ks)) ctx =
      trace_fields call ks (map snd vs) ctx" for ctx
    by (rule run_fields) (use named_bindings [OF vs(3), of ks] nm len vs(1) in simp_all)
  with ks Named vs show ?thesis by (intro exI [of _ ks]) simp
next
  case (Unnamed us)
  with m obtain vs where vs: "fv = V_Unnamed vs" "length vs = length us" by (cases fv) auto
  from assms(1) Unnamed obtain ks where ks: "map_res (field_kind pp) us = Inr ks"
    "arm = (x, Pat_Unnamed (pos_pats (length us) ks),
       concat (map2 field_stmt (map (\<lambda>i. Bound (field_binding i)) [0..<length us]) ks))"
    by (auto simp: variant_arm_unnamed split: sum.splits)
  have len: "length ks = length us" using map_res_length [OF ks(1)] .
  let ?env = "concat (map2 bind_pos (pos_pats (length us) ks) vs)"
  have "fold_opt (run_stmt call fv ?env) (concat (map2 field_stmt (map (\<lambda>i. Bound (field_binding i)) [0..<length us]) ks)) ctx =
      trace_fields call ks vs ctx" for ctx
    by (rule run_fields) (use pos_bindings [of ks vs] len vs in simp_all)
  with ks Unnamed vs len show ?thesis by (intro exI [of _ ks]) (simp add: pos_pats_def)
next
  case Unit_F
  with assms show ?thesis by (cases fv) (auto simp: variant_arm_def trace_fields_def)
qed

lemma map_res_arms:
  assumes "map_res (variant_arm pp) vs = Inr arms" "map_of vs x = Some fs"
  shows "\<exists>arm. variant_arm pp (x, fs) = Inr (x, arm) \<and> map_of arms x = Some arm"
  using assms
proof (induction vs arbitrary: arms)
  case Nil
  then show ?case by simp
next
  case (Cons v vs)
  obtain y gs where v: "v = (y, gs)" by fastforce
  have nm: "fst arm = y" if "variant_arm pp (y, gs) = Inr arm" for arm
    using that by (cases gs) (auto simp: variant_arm_named variant_arm_unnamed variant_arm_def split: sum.splits)
  from Cons.prems(1) v obtain arm arms' where a: "variant_arm pp (y, gs) = Inr arm"
    "map_res (variant_arm pp) vs = Inr arms'" "arms = arm # arms'" by (auto split: sum.splits)
  obtain arm' where arm: "arm = (y, arm')" using nm [OF a(1)] by (cases arm) auto
  show ?case
    using Cons a v arm by (cases "x = y") auto
qed

lemma expand_body_correct:
  assumes ex: "expand_body pp d = Inr b" and v: "value_of d v = Some fs"
  shows "\<exists>ks. map_res (field_kind pp) (attr_list fs) = Inr ks \<and>
    run_body call b v ctx = trace_fields call ks (value_fields v) ctx"
proof (cases d)
  case (Struct_D gs)
  with v obtain fv where fv: "v = V_Struct fv" "gs = fs" "fields_match fs fv"
    by (cases v) (auto split: if_splits)
  show ?thesis
  proof (cases fs)
    case (Named ns)
    with fv obtain vs where vs: "fv = V_Named vs" "map fst vs = map fst ns" "distinct (map fst vs)"
      by (cases fv) auto
    from ex Struct_D fv(2) Named obtain ks where ks: "map_res (field_kind pp) (map snd ns) = Inr ks"
      "b = Stmts (concat (map2 field_stmt (map (\<lambda>x. Self_Field (fst x)) ns) ks))"
      by (auto simp: expand_body_def named_field_stmts_eq split: sum.splits)
    have len: "length ks = length ns" "length vs = length ns"
      using map_res_length [OF ks(1)] arg_cong [OF vs(2), of length] by simp_all
    have "map_of vs (fst (ns ! i)) = Some (snd (vs ! i))" if "i < length ks" for i
    proof -
      have "fst (ns ! i) = fst (vs ! i)" using arg_cong [OF vs(2), of "\<lambda>l. l ! i"] that len by simp
      then show ?thesis using vs(3) that len by (simp add: map_of_is_SomeI)
    qed
    then have "fold_opt (run_stmt call fv []) (concat (map2 field_stmt (map (\<lambda>x. Self_Field (fst x)) ns) ks)) ctx =
        trace_fields call ks (map snd vs) ctx"
      by (intro run_fields) (use len vs(1) in simp_all)
    with ks Named fv vs show ?thesis by simp
  next
    case (Unnamed us)
    with fv obtain vs where vs: "fv = V_Unnamed vs" "length vs = length us" by (cases fv) auto
    from ex Struct_D fv(2) Unnamed obtain ks where ks: "map_res (field_kind pp) us = Inr ks"
      "b = Stmts (concat (map2 field_stmt (map Self_Index [0..<length us]) ks))"
      by (auto simp: expand_body_def unnamed_field_stmts_eq split: sum.splits)
    have len: "length ks = length us" using map_res_length [OF ks(1)] .
    have "fold_opt (run_stmt call fv []) (concat (map2 field_stmt (map Self_Index [0..<length us]) ks)) ctx =
        trace_fields call ks vs ctx"
      by (intro run_fields) (use len vs in simp_all)
    with ks Unnamed fv vs show ?thesis by simp
  next
    case Unit_F
    with ex Struct_D fv show ?thesis
      by (cases fv) (auto simp: expand_body_def trace_fields_def)
  qed
next
  case (Enum_D vs)
  with v obtain x fv where fv: "v = V_Enum x fv" "map_of vs x = Some fs" "fields_match fs fv"
    by (cases v) (auto simp: bind_eq_Some_conv split: if_splits)
  from ex Enum_D obtain arms where arms: "map_res (variant_arm pp) vs = Inr arms" "b = Match_Self arms"
    by (cases "map_res (variant_arm pp) vs") (auto simp: expand_body_def)
  from map_res_arms [OF arms(1) fv(2)] obtain arm where arm: "variant_arm pp (x, fs) = Inr (x, arm)"
    "map_of arms x = Some arm" by blast
  from variant_arm_correct [OF arm(1) fv(3), of call] arm arms(2) fv(1) show ?thesis by auto
next
  case Union_D
  with ex show ?thesis by (simp add: expand_body_def)
qed

subsection \<open>Properties of the macro\<close>


lemma fold_res_error: "fold_res f (xs @ ys) s = (case fold_res f xs s of Inl e \<Rightarrow> Inl e | Inr t \<Rightarrow> fold_res f ys t)"
  by (induction xs arbitrary: s) (auto split: sum.splits)

lemma fold_parse_metas:
  "fold_res (parse_nested_meta pp) as k = Inr r \<longleftrightarrow>
     (\<forall>a\<in>set as. attr_metas a \<noteq> None) \<and>
     fold_res (nested_step pp) (concat (map (\<lambda>a. the (attr_metas a)) as)) k = Inr r"
  by (induction as arbitrary: k) (auto simp: parse_nested_meta_def fold_res_error split: sum.splits option.splits)

definition meta_kind :: "(string \<Rightarrow> 'path option) \<Rightarrow> nested_meta \<Rightarrow> 'path FieldKind option" where
  "meta_kind pp m =
     (if meta_path m = ''skip'' \<and> meta_value m = None then Some Skip_K
      else if meta_path m = ''with'' then
        (case meta_value m of Some (Some s) \<Rightarrow> map_option With_K (pp s) | _ \<Rightarrow> None)
      else None)"

lemma nested_step_Inr:
  "nested_step pp m k = Inr r \<longleftrightarrow> k = None \<and> r \<noteq> None \<and> r = meta_kind pp m"
  by (auto simp: nested_step_def meta_step_def meta_kind_def Let_def split: option.splits if_splits)

lemma fold_nested_steps:
  "fold_res (nested_step pp) ms None = Inr r \<longleftrightarrow>
     (ms = [] \<and> r = None) \<or> (\<exists>m. ms = [m] \<and> r \<noteq> None \<and> r = meta_kind pp m)"
proof (cases ms)
  case (Cons m ms')
  have *: "fold_res (nested_step pp) ms' (Some x) = Inr r \<longleftrightarrow> ms' = [] \<and> r = Some x" for x
    by (cases ms') (auto simp: nested_step_Inr split: sum.splits)
  show ?thesis
  proof (cases "nested_step pp m None")
    case (Inl e)
    then have "meta_kind pp m = None" using nested_step_Inr [of pp m None "meta_kind pp m"] by auto
    with Inl Cons show ?thesis by auto
  next
    case (Inr s)
    then obtain x where "s = Some x" "meta_kind pp m = Some x" by (auto simp: nested_step_Inr)
    with Inr Cons * show ?thesis by auto
  qed
qed auto

definition gc_rules :: "(string \<Rightarrow> 'path option) \<Rightarrow> attribute list \<Rightarrow> 'path FieldKind option" where
  "gc_rules pp ats =
     (let gs = filter (\<lambda>a. attr_path a = ''gc'') ats
      in if \<exists>a\<in>set gs. attr_metas a = None then None
         else (case concat (map (\<lambda>a. the (attr_metas a)) gs) of
                 [] \<Rightarrow> Some Trace_K | [m] \<Rightarrow> meta_kind pp m | _ \<Rightarrow> None))"

lemma field_kind_rules: "field_kind pp ats = Inr k \<longleftrightarrow> gc_rules pp ats = Some k"
proof -
  have "field_kind pp ats = Inr k \<longleftrightarrow>
    (\<exists>r. fold_res (parse_nested_meta pp) (filter (\<lambda>a. attr_path a = ''gc'') ats) None = Inr r \<and>
       k = (case r of None \<Rightarrow> Trace_K | Some k \<Rightarrow> k))"
    by (auto simp: field_kind_def split: sum.splits)
  also have "\<dots> \<longleftrightarrow> gc_rules pp ats = Some k"
    unfolding fold_parse_metas fold_nested_steps gc_rules_def Let_def
    by (auto simp del: concat_eq_Nil_conv split: option.splits list.splits)
  finally show ?thesis .
qed

lemma field_kind_error: "(\<exists>e. field_kind pp ats = Inl e) \<longleftrightarrow> gc_rules pp ats = None"
  using field_kind_rules [of pp ats] by (cases "field_kind pp ats") auto

lemma map_res_Inl: "(\<exists>e. map_res f xs = Inl e) \<longleftrightarrow> (\<exists>x\<in>set xs. \<exists>e. f x = Inl e)"
  by (induction xs) (auto split: sum.splits)

lemma variant_arm_Inl:
  "(\<exists>e. variant_arm pp (x, fs) = Inl e) \<longleftrightarrow> (\<exists>a\<in>set (attr_list fs). \<exists>e. field_kind pp a = Inl e)"
proof -
  have "(\<exists>e. variant_arm pp (x, fs) = Inl e) \<longleftrightarrow> (\<exists>e. map_res (field_kind pp) (attr_list fs) = Inl e)"
  proof (cases fs)
    case Unit_F
    then show ?thesis by (simp add: variant_arm_def)
  qed (auto simp: variant_arm_named variant_arm_unnamed split: sum.splits)
  then show ?thesis by (simp add: map_res_Inl)
qed

fun field_attrs :: "syn_data \<Rightarrow> attribute list list" where
  "field_attrs (Struct_D fs) = attr_list fs"
| "field_attrs (Enum_D vs) = concat (map (attr_list \<circ> snd) vs)"
| "field_attrs Union_D = []"

lemma expand_error_iff:
  "(\<exists>e. expand_gc_trace pp input = Inl e) \<longleftrightarrow>
     di_data input = Union_D \<or> (\<exists>a\<in>set (field_attrs (di_data input)). \<exists>e. field_kind pp a = Inl e)"
proof -
  have "(\<exists>e. expand_gc_trace pp input = Inl e) \<longleftrightarrow> (\<exists>e. expand_body pp (di_data input) = Inl e)"
    by (auto simp: expand_gc_trace_def split: sum.splits)
  also have "\<dots> \<longleftrightarrow> di_data input = Union_D \<or> (\<exists>a\<in>set (field_attrs (di_data input)). \<exists>e. field_kind pp a = Inl e)"
  proof (cases "di_data input")
    case (Struct_D fs)
    have "(\<exists>e. expand_body pp (Struct_D fs) = Inl e) \<longleftrightarrow> (\<exists>e. map_res (field_kind pp) (attr_list fs) = Inl e)"
      by (cases fs) (auto simp: expand_body_def named_field_stmts_eq unnamed_field_stmts_eq split: sum.splits)
    with Struct_D show ?thesis by (simp add: map_res_Inl)
  next
    case (Enum_D vs)
    have "(\<exists>e. expand_body pp (Enum_D vs) = Inl e) \<longleftrightarrow> (\<exists>e. map_res (variant_arm pp) vs = Inl e)"
      by (cases "map_res (variant_arm pp) vs") (auto simp: expand_body_def)
    also have "\<dots> \<longleftrightarrow> (\<exists>v\<in>set vs. \<exists>e. variant_arm pp v = Inl e)" by (rule map_res_Inl)
    also have "\<dots> \<longleftrightarrow> (\<exists>a\<in>set (field_attrs (Enum_D vs)). \<exists>e. field_kind pp a = Inl e)"
      by (auto simp: variant_arm_Inl) (metis prod.collapse variant_arm_Inl snd_conv)+
    finally show ?thesis using Enum_D by simp
  qed (simp add: expand_body_def)
  finally show ?thesis .
qed

text \<open>
  C32: the macro rejects a type exactly when it is a union or a field breaks the attribute rules: at
  most one item in all its \<open>gc\<close> attributes together, which is a bare \<open>skip\<close> or \<open>with\<close> with a string
  literal that is a path; otherwise the item decides what is emitted for the field.  The rule
  counts items, not attributes: the comment on \<open>field_kind\<close> allows at most one \<open>gc\<close> attribute on a field,
  the code accepts \<open>#[gc()] #[gc(skip)]\<close> and skips the field.
\<close>
theorem derive_error_iff:
  "(field_kind pp ats = Inr k \<longleftrightarrow> gc_rules pp ats = Some k) \<and>
   ((\<exists>e. expand_gc_trace pp input = Inl e) \<longleftrightarrow>
      di_data input = Union_D \<or> (\<exists>a\<in>set (field_attrs (di_data input)). gc_rules pp a = None)) \<and>
   field_kind pp [\<lparr>attr_path = ''gc'', attr_metas = Some []\<rparr>,
       \<lparr>attr_path = ''gc'', attr_metas = Some [\<lparr>meta_path = ''skip'', meta_value = None\<rparr>]\<rparr>] = Inr Skip_K"
proof -
  have "gc_rules pp [\<lparr>attr_path = ''gc'', attr_metas = Some []\<rparr>,
      \<lparr>attr_path = ''gc'', attr_metas = Some [\<lparr>meta_path = ''skip'', meta_value = None\<rparr>]\<rparr>] = Some Skip_K"
    by (simp add: gc_rules_def meta_kind_def)
  then show ?thesis by (simp add: field_kind_rules expand_error_iff field_kind_error)
qed

text \<open>
  C30: the code the macro generates for a struct or an enum visits, on every value of the type, the
  fields of the value in declaration order: nothing for a skipped one, \<open>trace\<close> for a plain one
  and the given function for a \<open>with\<close> one, whatever the shape of the variant; and every type
  parameter of the implementation gets the bound \<open>GcTrace\<close> added to its own.
\<close>
theorem derived_trace_correct:
  assumes ex: "expand_gc_trace pp input = Inr im" and v: "value_of (di_data input) v = Some fs"
  shows "\<exists>ks. map_res (field_kind pp) (attr_list fs) = Inr ks \<and>
    run_body call (im_body im) v ctx = trace_fields call ks (value_fields v) ctx \<and>
    list_all2 (\<lambda>p q. case p of Type_P t bs \<Rightarrow> q = Type_P t (bs @ [''::gc_lite::GcTrace'']) | _ \<Rightarrow> q = p)
      (di_generics input) (im_generics im)"
proof -
  have b: "expand_body pp (di_data input) = Inr (im_body im)"
    and g: "im_generics im = add_gc_trace_bounds (di_generics input)"
    using ex by (auto simp: expand_gc_trace_def split: sum.splits)
  have "list_all2 (\<lambda>p q. case p of Type_P t bs \<Rightarrow> q = Type_P t (bs @ [''::gc_lite::GcTrace'']) | _ \<Rightarrow> q = p)
      (di_generics input) (im_generics im)"
    unfolding g add_gc_trace_bounds_def
    by (auto simp: list_all2_conv_all_nth vec_push_def split: generic_param.splits)
  with expand_body_correct [OF b v, of call ctx] show ?thesis by blast
qed

text \<open>
  C31: for a type without \<open>with\<close> fields the generated code reports exactly the references in the fields
  that are not skipped, each once, and it panics only if one of them holds a mutably borrowed
  \<open>RefCell\<close>.
\<close>
theorem derived_trace_exact:
  assumes ex: "expand_gc_trace pp input = Inr im" and v: "value_of (di_data input) v = Some fs"
    and ks: "map_res (field_kind pp) (attr_list fs) = Inr ks" "\<forall>k\<in>set ks. k = Skip_K \<or> k = Trace_K"
  shows "case run_body call (im_body im) v (create_trace_ctx h) of
      None \<Rightarrow> \<exists>(k, x)\<in>set (zip ks (value_fields v)). k = Trace_K \<and> \<not> unborrowed x
    | Some c \<Rightarrow> distinct (traced_nodes c) \<and>
        set (traced_nodes c) = (\<Union>(k, x)\<in>set (zip ks (value_fields v)). if k = Trace_K then val_refs x else {})"
proof -
  let ?z = "zip ks (value_fields v)"
  have b: "expand_body pp (di_data input) = Inr (im_body im)"
    using ex by (auto simp: expand_gc_trace_def split: sum.splits)
  have r: "run_body call (im_body im) v ctx = fold_opt (trace_field call) ?z ctx" for ctx
    using expand_body_correct [OF b v, of call ctx] ks(1) by (auto simp: trace_fields_def)
  have step: "traces (trace_field call kx c) c (if fst kx = Trace_K then val_refs (snd kx) else {})
      (fst kx = Trace_K \<longrightarrow> unborrowed (snd kx))" if "kx \<in> set ?z" for kx c
  proof -
    obtain k x where kx: "kx = (k, x)" by fastforce
    then have "fst kx = Skip_K \<or> fst kx = Trace_K" using that ks(2) set_zip_leftD [of k x] by auto
    then show ?thesis
      using trace_val_traces [of "snd kx" c] by (auto simp: trace_field_def traces_Some)
  qed
  have "traces (fold_opt (trace_field call) ?z (create_trace_ctx h)) (create_trace_ctx h)
      (\<Union>kx\<in>set ?z. if fst kx = Trace_K then val_refs (snd kx) else {})
      (\<forall>kx\<in>set ?z. fst kx = Trace_K \<longrightarrow> unborrowed (snd kx))"
    by (rule traces_fold) (rule step)
  then show ?thesis unfolding r
    by (auto simp: traces_def create_trace_ctx_def split_beta split: option.splits)
qed

definition skip_attr :: attribute where
  "skip_attr = \<lparr>attr_path = ''gc'', attr_metas = Some [\<lparr>meta_path = ''skip'', meta_value = None\<rparr>]\<rparr>"

definition pair_input :: derive_input where
  "pair_input =
     \<lparr>di_ident = ''Pair'', di_generics = [Type_P ''T'' []], di_where = [],
      di_data = Struct_D (Named [(''next'', []), (''cache'', [skip_attr])])\<rparr>"

definition list_input :: derive_input where
  "list_input =
     \<lparr>di_ident = ''List'', di_generics = [Lifetime_P ''a'' [], Type_P ''T'' [''Copy'']], di_where = [],
      di_data = Enum_D [(''Nil'', Unit_F), (''Cons'', Unnamed [[skip_attr], []])]\<rparr>"

lemma skip_attr_kind: "field_kind pp [skip_attr] = Inr Skip_K" "field_kind pp [] = Inr Trace_K"
  by (simp_all add: field_kind_rules gc_rules_def meta_kind_def skip_attr_def)

lemma inputs_expand:
  "\<exists>im. expand_gc_trace pp pair_input = Inr im" "\<exists>im. expand_gc_trace pp list_input = Inr im"
  using expand_error_iff [of pp pair_input] expand_error_iff [of pp list_input]
  by (auto simp: pair_input_def list_input_def skip_attr_kind) (metis sum.exhaust_sel)+

theorem derived_trace_correct_witness:
  "\<exists>im. expand_gc_trace (\<lambda>s. Some s) list_input = Inr im \<and>
     run_body (\<lambda>_ _ c. Some c) (im_body im) (V_Enum ''Cons'' (V_Unnamed [Prim, Gc_Ref 0x40]))
       \<lparr>traced_nodes = [], ctx_opaque = 7\<rparr> = Some \<lparr>traced_nodes = [0x40], ctx_opaque = 7\<rparr>"
proof -
  obtain im where im: "expand_gc_trace (\<lambda>s. Some s) list_input = Inr im" using inputs_expand(2) by blast
  have v: "value_of (di_data list_input) (V_Enum ''Cons'' (V_Unnamed [Prim, Gc_Ref 0x40])) =
      Some (Unnamed [[skip_attr], []])"
    by (simp add: list_input_def)
  show ?thesis
    using derived_trace_correct [OF im v, of "\<lambda>_ _ c. Some c" "\<lparr>traced_nodes = [], ctx_opaque = 7\<rparr>"] im
    by (auto simp: skip_attr_kind trace_fields_def trace_field_def ctx_add_node_def vec_push_def)
qed

theorem derived_trace_exact_witness:
  "\<exists>im c. expand_gc_trace (\<lambda>s. Some s) pair_input = Inr im \<and>
     run_body (\<lambda>_ _ c. Some c) (im_body im) (V_Struct (V_Named [(''next'', Gc_Ref 0x40), (''cache'', Gc_Ref 0x80)]))
       (create_trace_ctx (heap_new registry_empty :: unit gc_heap)) = Some c \<and> set (traced_nodes c) = {0x40}"
proof -
  obtain im where im: "expand_gc_trace (\<lambda>s. Some s) pair_input = Inr im" using inputs_expand(1) by blast
  let ?v = "V_Struct (V_Named [(''next'', Gc_Ref 0x40), (''cache'', Gc_Ref (0x80 :: addr))])"
  have v: "value_of (di_data pair_input) ?v = Some (Named [(''next'', []), (''cache'', [skip_attr])])"
    by (simp add: pair_input_def)
  have k: "map_res (field_kind (\<lambda>s. Some s)) (attr_list (Named [(''next'', []), (''cache'', [skip_attr])])) = Inr [Trace_K, Skip_K]"
    by (simp add: skip_attr_kind)
  show ?thesis
    using derived_trace_exact [OF im v k, of "\<lambda>_ _ c. Some c" "heap_new registry_empty :: unit gc_heap"] im
    by (auto split: option.splits)
qed

end
