(* ===== verification/Gc_Type_Table.thy ===== *)
theory Gc_Type_Table
  imports Gc_Derive Gc_Collect
begin

section \<open>The type table macro (src/gc-lite-macros/src/lib.rs)\<close>

text \<open>
  \<open>gc_type_table_internal!\<close>: the parser of its input and the registry it generates.  The token
  stream is a list of tokens; the parsers of a Rust path and of a Rust type are \<open>syn\<close>'s, here
  the parameters \<open>parse_path\<close> and \<open>parse_ty\<close>, which return the rest of the stream.  What the
  generated code asks of a type (\<open>size_of\<close>, \<open>align_of\<close>, \<open>needs_drop\<close>, its trace) is the
  parameter \<open>rt\<close>.
\<close>

subsection \<open>Parsing\<close>

datatype token =
    T_Ident string
  | T_Eq
  | T_Comma
  | T_Semi
  | T_Lit nat \<comment> \<open>an integer literal\<close>
  | T_Other nat

datatype table_error =
    Expected_Crate_Path
  | Expected_Drop_Pass
  | Drop_Pass_Range
  | Table_Parse_Error
  | Too_Many_Types

record 'ty type_entry =
  te_ty :: 'ty
  te_drop_pass :: "u8 option"

fun parse_drop_pass :: "token list \<Rightarrow> table_error + (u8 option \<times> token list)" where
  "parse_drop_pass (T_Comma # ts) =
     (case ts of
        T_Ident ident # ts1 \<Rightarrow>
          if ident \<noteq> ''drop_pass'' then Inl Expected_Drop_Pass
          else
            (case ts1 of
               T_Eq # T_Lit v # ts2 \<Rightarrow>
                 if v > 255 then Inl Table_Parse_Error
                 else if v > 3 then Inl Drop_Pass_Range
                 else Inr (Some (of_nat v), ts2)
             | _ \<Rightarrow> Inl Table_Parse_Error)
      | _ \<Rightarrow> Inl Table_Parse_Error)"
| "parse_drop_pass ts = Inr (None, ts)"

partial_function (option) parse_entries ::
  "(token list \<Rightarrow> table_error + ('ty \<times> token list)) \<Rightarrow> token list \<Rightarrow> 'ty type_entry list
     \<Rightarrow> (table_error + 'ty type_entry list) option" where
  "parse_entries parse_ty ts entries =
     (if ts = [] then Some (Inr entries)
      else
        (case parse_ty ts of
           Inl e \<Rightarrow> Some (Inl e)
         | Inr (ty, ts1) \<Rightarrow>
             (case parse_drop_pass ts1 of
                Inl e \<Rightarrow> Some (Inl e)
              | Inr (drop_pass, ts2) \<Rightarrow>
                  (case ts2 of
                     T_Semi # ts3 \<Rightarrow>
                       parse_entries parse_ty ts3
                         (vec_push entries \<lparr>te_ty = ty, te_drop_pass = drop_pass\<rparr>)
                   | _ \<Rightarrow> Some (Inl Table_Parse_Error)))))"

definition parse_type_table ::
  "(token list \<Rightarrow> table_error + ('path \<times> token list)) \<Rightarrow> (token list \<Rightarrow> table_error + ('ty \<times> token list))
     \<Rightarrow> token list \<Rightarrow> (table_error + ('path \<times> 'ty type_entry list)) option" where
  "parse_type_table parse_path parse_ty ts =
     (case ts of
        T_Ident key_ident # ts1 \<Rightarrow>
          if key_ident \<noteq> ''crate_path'' then Some (Inl Expected_Crate_Path)
          else
            (case ts1 of
               T_Eq # ts2 \<Rightarrow>
                 (case parse_path ts2 of
                    Inl e \<Rightarrow> Some (Inl e)
                  | Inr (crate_path, ts3) \<Rightarrow>
                      (case ts3 of
                         T_Semi # ts4 \<Rightarrow>
                           map_option (map_sum id (Pair crate_path)) (parse_entries parse_ty ts4 [])
                       | _ \<Rightarrow> Some (Inl Table_Parse_Error)))
             | _ \<Rightarrow> Some (Inl Table_Parse_Error))
      | _ \<Rightarrow> Some (Inl Table_Parse_Error))"

subsection \<open>The generated registry\<close>

definition info_of :: "'p rust_type \<Rightarrow> u8 \<Rightarrow> 'p gc_type_info" where
  "info_of t pass =
     \<lparr>ti_size = size_of t, ti_payload_offset = payload_offset_of t, ti_layout_size = layout_size_of t,
      ti_layout_align = layout_align_of t, ti_trace_fn = trace_impl t, ti_drop_fn = needs_drop t,
      ti_drop_pass = pass\<rparr>"

definition entry_pass :: "'ty type_entry \<Rightarrow> u8" where
  "entry_pass e = (case te_drop_pass e of None \<Rightarrow> 0 | Some v \<Rightarrow> v)"

text \<open>The registry constant, and the \<open>GC_TYPE_ID\<close> of every type.\<close>

definition gc_type_table_internal ::
  "('ty \<Rightarrow> 'p rust_type) \<Rightarrow> 'ty type_entry list
     \<Rightarrow> table_error + ('p gc_type_registry \<times> ('ty \<times> u8) list)" where
  "gc_type_table_internal rt entries =
     (let count = length entries in
      if count > 255 + 1 then Inl Too_Many_Types
      else
        (let tys = map te_ty entries;
             passes = map entry_pass entries;
             ids = map of_nat [0..<count];
             drop_passes = remdups_adj (sort passes)
         in Inr (\<lparr>type_info_list = map2 (\<lambda>t p. info_of (rt t) p) tys passes, drop_passes = drop_passes\<rparr>,
                 zip tys ids)))"

subsection \<open>Printing and parsing back\<close>

definition print_pass :: "u8 option \<Rightarrow> token list" where
  "print_pass p = (case p of None \<Rightarrow> [] | Some v \<Rightarrow> [T_Comma, T_Ident ''drop_pass'', T_Eq, T_Lit (unat v)])"

definition print_entry :: "('ty \<Rightarrow> token list) \<Rightarrow> 'ty type_entry \<Rightarrow> token list" where
  "print_entry pr e = pr (te_ty e) @ print_pass (te_drop_pass e) @ [T_Semi]"

definition print_table :: "('path \<Rightarrow> token list) \<Rightarrow> ('ty \<Rightarrow> token list) \<Rightarrow> 'path \<Rightarrow> 'ty type_entry list \<Rightarrow> token list" where
  "print_table prp pr p es = T_Ident ''crate_path'' # T_Eq # prp p @ T_Semi # concat (map (print_entry pr) es)"

definition entry_ok :: "'ty type_entry \<Rightarrow> bool" where
  "entry_ok e \<longleftrightarrow> (\<forall>v. te_drop_pass e = Some v \<longrightarrow> unat v \<le> 3)"

lemma parse_print_pass:
  "\<forall>v. p = Some v \<longrightarrow> unat v \<le> 3 \<Longrightarrow> parse_drop_pass (print_pass p @ T_Semi # ts) = Inr (p, T_Semi # ts)"
  by (cases p) (auto simp: print_pass_def)

lemma parse_print_entries:
  assumes pt: "\<And>t c ts. c = T_Comma \<or> c = T_Semi \<Longrightarrow> parse_ty (pr t @ c # ts) = Inr (t, c # ts)"
    and "\<forall>e\<in>set es. entry_ok e"
  shows "parse_entries parse_ty (concat (map (print_entry pr) es)) acc = Some (Inr (acc @ es))"
  using assms(2)
proof (induction es arbitrary: acc)
  case Nil
  then show ?case by (simp add: parse_entries.simps)
next
  case (Cons e es)
  let ?rest = "concat (map (print_entry pr) es)"
  have ok: "\<forall>v. te_drop_pass e = Some v \<longrightarrow> unat v \<le> 3" using Cons.prems by (simp add: entry_ok_def)
  have ty: "parse_ty (pr (te_ty e) @ print_pass (te_drop_pass e) @ T_Semi # ?rest) =
      Inr (te_ty e, print_pass (te_drop_pass e) @ T_Semi # ?rest)"
    by (cases "te_drop_pass e") (simp_all add: print_pass_def pt)
  have e: "\<lparr>te_ty = te_ty e, te_drop_pass = te_drop_pass e\<rparr> = e" by (cases e) simp
  have "parse_entries parse_ty (concat (map (print_entry pr) (e # es))) acc =
      parse_entries parse_ty ?rest (vec_push acc e)"
    by (subst parse_entries.simps) (simp add: print_entry_def ty parse_print_pass [OF ok] e)
  with Cons show ?case by (simp add: vec_push_def)
qed

lemma parse_print_table:
  assumes "\<And>p ts. parse_path (prp p @ T_Semi # ts) = Inr (p, T_Semi # ts)"
    and "\<And>t c ts. c = T_Comma \<or> c = T_Semi \<Longrightarrow> parse_ty (pr t @ c # ts) = Inr (t, c # ts)"
    and "\<forall>e\<in>set es. entry_ok e"
  shows "parse_type_table parse_path parse_ty (print_table prp pr p es) = Some (Inr (p, es))"
  using parse_print_entries [OF assms(2,3), of "[]"]
  by (simp add: parse_type_table_def print_table_def assms(1))

subsection \<open>The registry is consistent\<close>

lemma parse_drop_pass_ok:
  "parse_drop_pass ts = Inr (p, ts') \<Longrightarrow> \<forall>v. p = Some v \<longrightarrow> unat v \<le> 3"
  by (induction ts rule: parse_drop_pass.induct)
     (auto split: list.splits token.splits if_splits simp: unat_of_nat)

lemma parse_entries_ok:
  assumes "parse_entries parse_ty ts acc = Some (Inr es)" "\<forall>e\<in>set acc. entry_ok e"
  shows "\<forall>e\<in>set es. entry_ok e"
proof -
  have "(\<forall>e\<in>set acc. entry_ok e) \<longrightarrow> (\<forall>es. r = Inr es \<longrightarrow> (\<forall>e\<in>set es. entry_ok e))"
    if "parse_entries parse_ty ts acc = Some r" for r
  proof (rule parse_entries.raw_induct [OF _ that])
    fix rec parse_ty ts acc r
    assume IH: "\<And>pt ts acc r. rec pt ts acc = Some r \<Longrightarrow>
        (\<forall>e\<in>set acc. entry_ok e) \<longrightarrow> (\<forall>es. r = Inr es \<longrightarrow> (\<forall>e\<in>set es. entry_ok e))"
      and eq: "(if ts = [] then Some (Inr acc)
      else
        (case parse_ty ts of
           Inl e \<Rightarrow> Some (Inl e)
         | Inr (ty, ts1) \<Rightarrow>
             (case parse_drop_pass ts1 of
                Inl e \<Rightarrow> Some (Inl e)
              | Inr (drop_pass, ts2) \<Rightarrow>
                  (case ts2 of
                     T_Semi # ts3 \<Rightarrow>
                       rec parse_ty ts3 (vec_push acc \<lparr>te_ty = ty, te_drop_pass = drop_pass\<rparr>)
                   | _ \<Rightarrow> Some (Inl Table_Parse_Error))))) = Some r"
    show "(\<forall>e\<in>set acc. entry_ok e) \<longrightarrow> (\<forall>es. r = Inr es \<longrightarrow> (\<forall>e\<in>set es. entry_ok e))"
    proof (intro impI allI)
      fix es assume acc: "\<forall>e\<in>set acc. entry_ok e" and r: "r = Inr es"
      show "\<forall>e\<in>set es. entry_ok e"
      proof (cases "ts = []")
        case True
        with eq acc r show ?thesis by simp
      next
        case False
        with eq r obtain ty ts1 dp ts3 where s: "parse_drop_pass ts1 = Inr (dp, T_Semi # ts3)"
          "rec parse_ty ts3 (vec_push acc \<lparr>te_ty = ty, te_drop_pass = dp\<rparr>) = Some (Inr es)"
          by (auto split: sum.splits prod.splits list.splits token.splits)
        have "\<forall>e\<in>set (vec_push acc \<lparr>te_ty = ty, te_drop_pass = dp\<rparr>). entry_ok e"
          using acc parse_drop_pass_ok [OF s(1)] by (auto simp: vec_push_def entry_ok_def)
        with IH [OF s(2)] show ?thesis by blast
      qed
    qed
  qed
  with assms show ?thesis by blast
qed

lemma distinct_dedup_sorted: "sorted (xs :: 'a::linorder list) \<Longrightarrow> distinct (remdups_adj xs)"
  by (induction xs rule: remdups_adj.induct) (auto simp: order.antisym)

lemma type_table_correct:
  assumes "gc_type_table_internal rt es = Inr (reg, ids)"
  shows "length (type_info_list reg) = length es" "map fst ids = map te_ty es" "distinct (map snd ids)"
    "\<And>i. i < length es \<Longrightarrow> unat (snd (ids ! i)) = i \<and>
       type_info_list reg ! i = info_of (rt (te_ty (es ! i))) (entry_pass (es ! i))"
    "sorted (drop_passes reg)" "distinct (drop_passes reg)" "set (drop_passes reg) = entry_pass ` set es"
proof -
  from assms have len: "length es \<le> 256"
    and reg: "reg = \<lparr>type_info_list = map2 (\<lambda>t p. info_of (rt t) p) (map te_ty es) (map entry_pass es),
      drop_passes = remdups_adj (sort (map entry_pass es))\<rparr>"
    and ids: "ids = zip (map te_ty es) (map of_nat [0..<length es])"
    by (auto simp: gc_type_table_internal_def Let_def split: if_splits)
  have small: "unat (of_nat i :: u8) = i" if "i < length es" for i
    using that len by (simp add: unat_of_nat)
  show "length (type_info_list reg) = length es" "map fst ids = map te_ty es" by (simp_all add: reg ids)
  have "inj_on (of_nat :: nat \<Rightarrow> u8) (set [0..<length es])"
    by (rule inj_on_inverseI [where g = unat]) (simp add: small)
  then show "distinct (map snd ids)" by (simp add: ids distinct_map)
  show "unat (snd (ids ! i)) = i \<and>
       type_info_list reg ! i = info_of (rt (te_ty (es ! i))) (entry_pass (es ! i))" if "i < length es" for i
    using that small by (simp add: reg ids)
  show "sorted (drop_passes reg)" "distinct (drop_passes reg)" "set (drop_passes reg) = entry_pass ` set es"
    by (simp_all add: reg distinct_dedup_sorted)
qed

text \<open>A heap created with a generated registry knows the drop pass of every node.\<close>

lemma type_table_passes_ok:
  assumes "gc_type_table_internal rt es = Inr (node_dtypes h, ids)"
    and "\<And>a g. heads h a = Some g \<Longrightarrow> unat (dtype g) < length es"
  shows "passes_ok h"
proof -
  note t = type_table_correct [OF assms(1)]
  have "\<exists>q\<in>set (drop_passes (node_dtypes h)). pass_is h q a" if a: "heads h a = Some g" for a g
  proof -
    let ?i = "unat (dtype g)"
    have i: "?i < length es" by (rule assms(2) [OF a])
    then have "type_info h (dtype g) = Some (info_of (rt (te_ty (es ! ?i))) (entry_pass (es ! ?i)))"
      using t(1) t(4) [OF i] by (simp add: type_info_def vec_get_def)
    then have "pass_is h (entry_pass (es ! ?i)) a" using a by (simp add: pass_is_def info_of_def)
    moreover have "entry_pass (es ! ?i) \<in> set (drop_passes (node_dtypes h))" using i by (simp add: t(7))
    ultimately show ?thesis by blast
  qed
  with t(6) show ?thesis by (auto simp: passes_ok_def)
qed

subsection \<open>Properties of the type table\<close>


text \<open>
  C33: what the table parser accepts is what a table prints as: for any path and type syntax whose
  parsers stop at the separators, parsing a printed table returns the path and the entries.
\<close>
theorem type_table_roundtrip:
  assumes "\<And>p ts. parse_path (prp p @ T_Semi # ts) = Inr (p, T_Semi # ts)"
    and "\<And>t c ts. c = T_Comma \<or> c = T_Semi \<Longrightarrow> parse_ty (pr t @ c # ts) = Inr (t, c # ts)"
    and "\<forall>e\<in>set es. entry_ok e"
  shows "parse_type_table parse_path parse_ty (print_table prp pr p es) = Some (Inr (p, es))"
  by (rule parse_print_table [OF assms])

definition ident_parser :: "token list \<Rightarrow> table_error + (string \<times> token list)" where
  "ident_parser ts = (case ts of T_Ident x # ts' \<Rightarrow> Inr (x, ts') | _ \<Rightarrow> Inl Table_Parse_Error)"

theorem type_table_roundtrip_witness:
  "parse_type_table ident_parser ident_parser
     (T_Ident ''crate_path'' # T_Eq # T_Ident ''gc_lite'' # T_Semi # T_Ident ''Str'' # T_Semi
        # T_Ident ''Map'' # T_Comma # T_Ident ''drop_pass'' # T_Eq # T_Lit 2 # T_Semi # []) =
   Some (Inr (''gc_lite'', [\<lparr>te_ty = ''Str'', te_drop_pass = None\<rparr>, \<lparr>te_ty = ''Map'', te_drop_pass = Some 2\<rparr>]))"
proof -
  have "parse_type_table ident_parser ident_parser
     (print_table (\<lambda>x. [T_Ident x]) (\<lambda>x. [T_Ident x]) ''gc_lite''
        [\<lparr>te_ty = ''Str'', te_drop_pass = None\<rparr>, \<lparr>te_ty = ''Map'', te_drop_pass = Some 2\<rparr>]) =
    Some (Inr (''gc_lite'', [\<lparr>te_ty = ''Str'', te_drop_pass = None\<rparr>, \<lparr>te_ty = ''Map'', te_drop_pass = Some 2\<rparr>]))"
    by (rule type_table_roundtrip) (auto simp: ident_parser_def entry_ok_def)
  then show ?thesis by (simp add: print_table_def print_entry_def print_pass_def)
qed

text \<open>
  C34: the registry generated from a table has one entry per type in declaration order, with the
  layout of the type and its drop pass; type ids are the positions and are distinct; the drop
  passes are the ones that occur, increasing and without repetition, so every node of a
  registered type falls into exactly one pass.
\<close>
theorem type_table_registry:
  assumes "gc_type_table_internal rt es = Inr (reg, ids)"
  shows "length es \<le> 256 \<and> map fst ids = map te_ty es \<and> distinct (map snd ids) \<and>
    length (type_info_list reg) = length es \<and>
    (\<forall>i<length es. unat (snd (ids ! i)) = i \<and>
       type_info_list reg ! i = info_of (rt (te_ty (es ! i))) (entry_pass (es ! i))) \<and>
    sorted (drop_passes reg) \<and> distinct (drop_passes reg) \<and>
    set (drop_passes reg) = entry_pass ` set es"
proof -
  have "length es \<le> 256" using assms by (simp add: gc_type_table_internal_def Let_def split: if_splits)
  with type_table_correct [OF assms] show ?thesis by simp
qed

theorem type_table_registry_witness:
  "\<exists>reg. gc_type_table_internal (\<lambda>_. word_type)
      [\<lparr>te_ty = ''Str'', te_drop_pass = None\<rparr>, \<lparr>te_ty = ''Map'', te_drop_pass = Some 2\<rparr>] =
      Inr (reg, [(''Str'', 0), (''Map'', 1)]) \<and> sorted (drop_passes reg) \<and>
    ti_drop_pass (type_info_list reg ! 1) = 2"
proof -
  let ?es = "[\<lparr>te_ty = ''Str'', te_drop_pass = None\<rparr>, \<lparr>te_ty = ''Map'', te_drop_pass = Some 2\<rparr>]"
  obtain reg where r: "gc_type_table_internal (\<lambda>_. word_type) ?es = Inr (reg, [(''Str'', 0), (''Map'', 1)])"
    by (simp add: gc_type_table_internal_def)
  with type_table_registry [OF r] show ?thesis by (auto simp: info_of_def entry_pass_def)
qed

end
