(* ===== verification/Spec2Isabelle.thy ===== *)
theory Spec2Isabelle
  imports Gc_Ref Gc_Type_Table
begin

text \<open>
  A verification library for gc-lite, an incremental tri-colour mark and sweep collector written in
  Rust (src/src/) with a derive macro (src/gc-lite-macros/src/lib.rs).  Every definition that
  models code translates the source text branch by branch and is executable; the theorems are about
  these definitions.

  \<^bold>\<open>The program.\<close>  A \<open>GcHeap\<close> owns partitions, weak slots, scope stacks and a type registry.  A
  partition owns an intrusive chain of nodes, a gray list and possibly an arena.  A node is a head
  (type number, partition number, packed attribute word with its colour, root and local flags, chain
  link, weak id) followed by its payload.
  A client allocates nodes (mem.rs), protects them as roots (heap.rs) or as locals of a scope
  (scope.rs), stores references with a barrier (node.rs), and marks and sweeps partitions
  (mark_sweep.rs), incrementally or with \<open>garbage_collect\<close>.  The trait \<open>GcTrace\<close> enumerates the
  references of a payload; the macros generate its implementations and the registry.

  \<^bold>\<open>Modelling conventions.\<close>
  \<^item> A fallible run returns an option: \<open>None\<close> is a panic, an undefined access or divergence, and a
    theorem that says \<open>= Some ...\<close> says that the code returns.  Rust's own \<open>Result\<close> and \<open>Option\<close> are
    values inside it (Gc_Prelude).
  \<^item> Integers that the code keeps at a width are words (\<open>u8\<close>, \<open>u16\<close>, \<open>u32\<close>, \<open>usize\<close> at 64 bits); wrap-around,
    truncating casts and saturating operations are those of the code.
  \<^item> Memory is the pair of maps \<open>heads\<close> and \<open>payloads\<close> of the record \<open>gc_heap\<close>, indexed by address; freeing a
    node removes its entries, so a use after free is a \<open>None\<close>.  One field is a ghost: \<open>drop_log\<close> records the calls of
    \<open>drop_fn\<close>, so a payload that is freed without being dropped shows in it; \<open>call_drop_fn\<close> extends it and nothing depends on it.  The payload type is a parameter
    \<open>'p\<close>; how a type traces its payload is the field \<open>ti_trace_fn\<close> of its \<open>gc_type_info\<close>,
    as in the code's function table.
    Gc_Value and Gc_Derive model the functions that stand there.
  \<^item> The system allocator (\<open>std::alloc\<close>) is the parameter \<open>sys\<close> of an allocation, its answer; what is relied on
    is the named hypothesis \<open>sys_free\<close>, that it is apart from all memory given out.  \<open>fresh_memory\<close>, which the
    component lemmas use and which speaks of the arena too, is derived from it in Gc_Blocks.  The callbacks \<open>on_dispose\<close> thread a client
    state.  The parsers of syn are parameters of the type table parser.

  \<^bold>\<open>Theories and the code they model.\<close>
  \<^item> Gc_Node: \<open>GcHead\<close> and its attribute word (node.rs), refining a record of independent fields.
    Gc_Type: \<open>GcTypeInfo\<close>, layouts, registry (gctype.rs).
  \<^item> Gc_Arena, Gc_Arena_Safe: the arena allocator and its invariant \<open>arena_inv\<close>, relating bump pointer, free list and
    holes to the set of blocks in use (arena.rs); the locale \<open>block_allocator\<close> is the contract an allocator
    offers and is interpreted on the arena.
  \<^item> Gc_State: the records of heap.rs, partition.rs, scope.rs and weak.rs.  Gc_Link: the chains
    (node_link.rs).  Gc_Heap: creation, limits, accounting, roots, gray lists (heap.rs, partition.rs),
    and \<open>heap_ok\<close>, the well-formedness of a heap.
  \<^item> Gc_Trace: trace contexts and \<open>traverse\<close> (trace.rs).  Gc_Value: the \<open>GcTrace\<close> implementations of the standard
    types (trace.rs).  Gc_Derive, Gc_Type_Table: \<open>derive(GcTrace)\<close> as a compiler from a type's fields to a trace
    body with an interpreter for the body, and \<open>gc_type_table_internal!\<close> as parser and generator (gc-lite-macros).
  \<^item> Gc_Mark, Gc_Tricolor, Gc_Mark_Correct, Gc_Mark_Phase: the marker of mark_sweep.rs, the tri-colour
    invariant \<open>tri_inv\<close> over any set of partitions, and that marking keeps it and ends with exactly the
    reachable nodes black.
  \<^item> Gc_Weak: weak ids and slots (weak.rs).  Gc_Mem: allocation and disposal of nodes (mem.rs).
  \<^item> Gc_Sweep, Gc_Dispose, Gc_Collect, Gc_Correct: the three-step sweep, \<open>garbage_collect\<close> (mark_sweep.rs), the
    invariant \<open>heap_inv\<close> and the result \<open>collected\<close> of a collection.  Gc_Remove: the one-walk sweep; the locale
    \<open>remover\<close> is the contract of the closures handed to \<open>filter_remove_with\<close>, interpreted on both closures; it fixes
    the order of the removals and their effect on arenas, weak slots and drop log, so the two sweeps can be compared
    field by field (\<open>swept_unique\<close>).
  \<^item> Gc_Alloc, Gc_Barrier: what allocations and barriers do to the heap (mem.rs, node.rs, heap.rs).
  \<^item> Gc_Scope, Gc_Scope_Safe, Gc_Scope_Ops: scope stacks and local nodes (scope.rs), their invariant
    \<open>scope_ok\<close>: a node carries the local flag exactly as long as some scope caches it.
  \<^item> Gc_Teardown, Gc_Drop: \<open>remove_partition\<close> (partition.rs) and \<open>Drop for GcHeap\<close> (heap.rs).
  \<^item> Gc_World, Gc_Mutators, Gc_Traverse, Gc_Cycle: \<open>world_ok\<close>, the invariant between two calls of a client; the locale
    \<open>heap_op\<close> is the contract of every call (it returns, keeps \<open>world_ok\<close> and every node the client can
    reach), \<open>mutator\<close> and \<open>marker\<close> give it for calls that free nothing; all operations are interpreted.
  \<^item> Gc_Program: commands, the rules \<open>allowed\<close> a client has to follow, and the heaps a program reaches
    (\<open>gc_reachable\<close>).  Gc_Progress: marking in steps ends, and two collections free all garbage.
  \<^item> Gc_Memory, Gc_Account: what every operation does to nodes, counters and arenas, and that the counters are
    exact in every heap a program reaches.
  \<^item> Gc_Blocks, Gc_Blocks_Sweep, Gc_Run: who owns which memory.  The blocks of live nodes are disjoint and the
    arenas know which of their blocks are in use, through allocation, sweeps, collections and removals; so in an
    environment with a sound system allocator (\<open>sys_sound\<close>) fresh memory is a theorem, not an
    assumption (\<open>gc_run\<close>).  Gc_Ref: \<open>GcRef\<close>, payload pointers and the conversions between them (node.rs).
  \<^item> Gc_Demo: a concrete heap and program that the witnesses of this theory use.
  \<^item> This theory: the properties that span components.  Properties of one component stand in its theory.

  \<^bold>\<open>Termination and fuel.\<close>  No definition uses fuel.  Loops over lists are structural.  The gray list
  loops \<open>mark_loop\<close> and \<open>mark_until_done\<close> and the queue loop \<open>traverse_loop\<close> are \<open>function\<close>s with a termination proof: a
  step turns one node black or visits it, and there are finitely many.  The loops along intrusive links (\<open>node_iter\<close>,
  \<open>for_nodes\<close>, \<open>filter_remove_loop\<close>, \<open>unlink_loop\<close>, \<open>dispose_pass\<close>, \<open>dealloc_loop\<close>, \<open>free_list_walk\<close>) and the token loop
  \<open>parse_entries\<close> may run forever on a cyclic input and are \<open>partial_function (option)\<close>; the theorems state that they return.

  \<^bold>\<open>Limits of the guarantees.\<close>  \<open>garbage_collect\<close> of one partition does not look at roots and references of
  others: the last section has a well-formed heap where it frees a node that a root of another
  partition refers to, and a run of public calls where the gray node that another partition's marking left
  behind makes it free a node of its own that is still reachable (\<open>pending_run\<close>; \<open>start_ok\<close> is the condition under which a
  collection is safe).  So the rules of \<open>allowed\<close> ask a client to store references inside one partition
  only.  \<open>try_from_ref\<close> computes the address of the head with the offset of the type it tests for, so for a node of
  another alignment it reads a head where there is none.  The three-phase sweep drops payloads in list order, not by
  drop pass.  An arena aligns blocks to 16 bytes at most and reuses free cells whatever their alignment
  (\<open>arena_misaligned\<close>), so alignment is no part of what Gc_Run shows.  The counters are
  exact for types of less than 2 GiB (\<open>large_node_accounting\<close> shows the failure beyond), and a weak
  reference can be mistaken after 255 reuses of its slot.

  \<^bold>\<open>Not modelled.\<close>  Debug assertions and debug counters (\<open>dbg_living_nodes\<close>, poisoning), \<open>Debug\<close> and \<open>Display\<close>
  instances, lifetimes and the handle types that only carry them, and payload destructors that call back into the heap.
  Memory is not byte-addressed: that payloads of distinct nodes do not overlap is the subject of Gc_Blocks
  and Gc_Run, and the byte content of the free list is modelled by its cells.  lib.rs holds re-exports,
  xref.rs documentation only; tests and examples are clients.
\<close>

section \<open>References\<close>

text \<open>
  C13: on every heap of a program the typed pointers are sound.  The payload pointer of a live node lies
  behind its head and inside its block, apart from the memory of every other node; the registry
  and the static type agree on it; converting it back gives the same reference.  The checked
  conversion \<open>try_from_ref\<close>, for any type with the payload offset of the node's own type, accepts exactly
  the node's type number.  A type with another offset, that is of another alignment, is not refused
  in general: the code then reads a head where there is none, which the model counts as a fault.
  But it is never accepted: a registered type under its own number that the conversion accepts is
  the node's type, and the result is the reference of the node.
\<close>

theorem typed_pointers_sound:
  assumes "gc_run reg h" "distinct (drop_passes reg)" "heads h a = Some g" "registered h ty (dtype g)"
  shows "\<exists>p. as_ptr ty (from_node_ptr a) h = Some p \<and> head_payload (node_dtypes h) a h = Some p \<and>
    (\<forall>ty' k. payload_offset_of ty' = payload_offset_of ty \<longrightarrow>
       try_from_ref ty' k p h = Some (if k = dtype g then Some (from_node_ptr a) else None)) \<and>
    (\<forall>ty' k q. registered h ty' k \<longrightarrow> try_from_ref ty' k p h = Some (Some q) \<longrightarrow>
       q = from_node_ptr a \<and> k = dtype g) \<and>
    from_ref_unchecked ty p = from_node_ptr a \<and>
    unat a + 24 \<le> unat p \<and> unat p + unat (size_of ty) \<le> unat a + unat (node_size h a) \<and>
    (\<forall>b. heads h b \<noteq> None \<longrightarrow> b \<noteq> a \<longrightarrow> apart (unat p, unat (size_of ty)) (node_block h b))"
proof -
  from run_reachable [OF assms(1,2)] have b: "blocks_ok h" and w: "world_ok h"
    using reachable_world(1) [OF _ assms(2)] by blast+
  have a: "heads h a \<noteq> None" using assms(3) by simp
  note inv = world_okD(1) [OF w]
  note cv = reference_conversions [OF assms(3,4)]
  have same: "try_from_ref ty' k (payload_for ty a) h = Some (if k = dtype g then Some (from_node_ptr a) else None)"
    if "payload_offset_of ty' = payload_offset_of ty" for ty' k
    using that cv(3) [of k] by (simp add: try_from_ref_def)
  from same foreign_reference [OF b inv assms(3,4)] cv(1,2,4) registered_range [OF b inv assms(3,4)]
    payloads_apart [OF b inv assms(3,4)]
  show ?thesis by blast
qed

theorem typed_pointers_sound_witness:
  "\<exists>h a p. gc_run demo_registry h \<and> as_ptr demo_type (from_node_ptr a) h = Some p \<and>
     try_from_ref demo_type 0 p h = Some (Some (from_node_ptr a)) \<and> try_from_ref demo_type 1 p h = Some None"
proof -
  obtain a h where h: "gc_run demo_registry h" "kind h a = Some (0, 0)" by (rule demo_plain_run)
  have d: "distinct (drop_passes demo_registry)" by (simp add: demo_registry_def)
  from run_reachable [OF h(1) d] have nd: "node_dtypes h = demo_registry" using reachable_world(2) [OF _ d] by blast
  from h(2) obtain g where g: "heads h a = Some g" "dtype g = 0" by (auto simp: kind_def)
  have "rust_type_ok demo_type"
    unfolding rust_type_ok_def demo_type_def by (rule conjI, rule exI [of _ 3]) simp_all
  then have "registered h demo_type (dtype g)"
    unfolding registered_def g(2) type_info_def nd
    by (simp add: demo_registry_def vec_get_def demo_info_def demo_type_layout)
      (simp add: demo_type_def payload_offset_of_def align_up_def HEAD_SIZE_def)
  from typed_pointers_sound [OF h(1) d g(1) this] obtain p where p: "as_ptr demo_type (from_node_ptr a) h = Some p"
    "\<And>k. try_from_ref demo_type k p h = Some (if k = 0 then Some (from_node_ptr a) else None)" unfolding g(2) by metis
  from h(1) p(1) p(2) [of 0] p(2) [of 1] show ?thesis by (intro exI [of _ h] exI [of _ a] exI [of _ p]) simp
qed

section \<open>Collection\<close>

text \<open>
  C4: \<open>garbage_collect\<close> on a partition that is not being marked and has no pending gray node
  returns; the surviving nodes of the partition are exactly the ones its roots and locals reach
  inside it, every other partition keeps its nodes, payloads and list order are untouched, the
  returned size is the total size of the freed nodes and the counters went down by it, and
  weak references keep upgrading exactly to the survivors.  The heap is well-formed again.
\<close>
theorem garbage_collect_exact:
  assumes "heap_inv h" "get_par h pid = Some p" "\<not> marking p" "gray_list p = []"
    and "\<And>a b. reach_in {unat pid} h a \<Longrightarrow> edge h a b \<Longrightarrow> b \<in> dom (heads h)"
  shows "\<exists>n t. garbage_collect pid h = Some (n, t) \<and> heap_inv t \<and>
    collected h (unat pid) (reach_in {unat pid} h) n t"
  using garbage_collect_correct [OF assms(1-4)] assms(5) by blast

theorem garbage_collect_exact_witness:
  "\<exists>t. garbage_collect 0 demo_heap = Some (48, t) \<and> par_list t 0 = [0x100, 0x140, 0x180] \<and>
     heads t 0x1C0 = None \<and> heads t 0x200 \<noteq> None"
proof -
  have cl: "b \<in> dom (heads demo_heap)" if "edge demo_heap a b" for a b
    using demo_closed that by (auto simp: refs_closed_def)
  have "\<exists>n t. garbage_collect 0 demo_heap = Some (n, t) \<and> heap_inv t \<and>
      collected demo_heap (unat (0 :: u16)) (reach_in {unat (0 :: u16)} demo_heap) n t"
    by (rule garbage_collect_exact [OF demo_inv demo_par0]) (use cl in \<open>simp_all add: demo_fields\<close>)
  then obtain n t where t: "garbage_collect 0 demo_heap = Some (n, t)"
    "collected demo_heap 0 (reach_in {0} demo_heap) n t" by auto
  then have "n = sum_sizes (node_size demo_heap) (filter (\<lambda>a. \<not> reach_in {0} demo_heap a) (par_list demo_heap 0))"
    by (simp add: collected_def)
  then have n: "n = 48" by (simp add: demo_lists demo_reach demo_sizes)
  have "par_list t 0 = filter (\<lambda>a. reach_in {0} demo_heap a) (par_list demo_heap 0)"
    using t(2) by (simp add: collected_def demo_fields)
  then have l: "par_list t 0 = [0x100, 0x140, 0x180]" by (simp add: demo_lists demo_reach)
  have "map_option ident (heads t a) = (if in_par demo_heap 0 a \<and> \<not> reach_in {0} demo_heap a then None
      else map_option ident (heads demo_heap a))" for a
    using t(2) unfolding collected_def by blast
  from this [of "0x1C0"] this [of "0x200"] have "heads t 0x1C0 = None" "heads t 0x200 \<noteq> None"
    by (auto simp: demo_in_par demo_reach demo_at)
  with t(1) n l show ?thesis by blast
qed

section \<open>Weak references\<close>

text \<open>
  C23: \<open>downgrade\<close> of a live node without a weak reference gives one that upgrades to the node; asking
  again gives the same one.  Every other weak reference, dead or alive, upgrades to the same node as
  before or to none as before.  The new reference upgraded to nothing before, and it is not the one
  last given out for any slot, so reusing a slot does not revive the reference of its last node.
\<close>
theorem weak_roundtrip:
  assumes ok: "weak_ok h" and g: "heads h node = Some g" "weak_is_null (weak_id g)"
    and room: "length (weak_slots h) < 2 ^ 24 - 1"
  shows "\<exists>w t. downgrade node h = Some (w, t) \<and> weak_ok t \<and> upgrade w t = Some node \<and>
    downgrade node t = Some (w, t) \<and> (\<forall>w'. w' \<noteq> w \<longrightarrow> upgrade w' t = upgrade w' h) \<and> upgrade w h = None \<and>
    (\<forall>i<length (weak_slots h). w \<noteq> weak_new (of_nat i) (fst (weak_slots h ! i)))"
proof -
  obtain w t where d: "downgrade node h = Some (w, t)" "weak_ok t" "\<not> weak_is_null w"
    "heads t = (heads h)(node \<mapsto> g\<lparr>weak_id := w\<rparr>)" "upgrade w h = None"
    "\<forall>i<length (weak_slots h). w \<noteq> weak_new (of_nat i) (fst (weak_slots h ! i))"
    using downgrade_fresh [OF ok g room] by blast
  have n: "heads t node = Some (g\<lparr>weak_id := w\<rparr>)" by (simp add: d(4))
  have "upgrade w t = Some node" using upgrade_weak_ok [OF d(2) n] d(3) by simp
  moreover have "downgrade node t = Some (w, t)" using n d(3) by (simp add: downgrade_def)
  moreover have "upgrade w' t = upgrade w' h" if "w' \<noteq> w" for w'
  proof -
    have "upgrade w' t = Some a \<longleftrightarrow> upgrade w' h = Some a" for a
      using that g by (cases "a = node") (auto simp: upgrade_iff [OF ok] upgrade_iff [OF d(2)] d(4))
    then show ?thesis by (metis option.exhaust)
  qed
  ultimately show ?thesis using d(1,2,5,6) by (intro exI [of _ w] exI [of _ t] conjI allI impI) simp_all
qed

theorem weak_roundtrip_witness:
  "\<exists>w t. downgrade 0x100 demo_heap = Some (w, t) \<and> upgrade w t = Some 0x100 \<and> upgrade 1 t = Some 0x140"
proof -
  have g: "heads demo_heap 0x100 = Some (demo_head 0xFF000020 0 0 (Some 0x140))"
    and n: "weak_is_null (weak_id (demo_head 0xFF000020 0 0 (Some 0x140)))"
    and l: "length (weak_slots demo_heap) < 2 ^ 24 - 1"
    by (simp_all add: demo_at demo_head_def weak_is_null_def weak_version_def demo_heap_def demo_heads_def)
  obtain w t where d: "downgrade 0x100 demo_heap = Some (w, t)" "upgrade w t = Some 0x100"
      "\<forall>w'. w' \<noteq> w \<longrightarrow> upgrade w' t = upgrade w' demo_heap" "upgrade w demo_heap = None"
    using weak_roundtrip [OF demo_weak_ok g n l] by blast
  have u1: "upgrade 1 demo_heap = Some 0x140"
    by (simp add: upgrade_def vec_get_def demo_heap_def weak_is_null_def weak_version_def weak_index_def)
  have "w \<noteq> 1" using d(4) u1 by auto
  then have "upgrade 1 t = Some 0x140" using d(3) u1 by simp
  with d(1,2) show ?thesis by blast
qed

text \<open>
  C24: a weak reference never upgrades to freed memory: what \<open>upgrade\<close> returns is a live node that
  carries the index and the version of the reference.
\<close>
theorem weak_no_dangling:
  assumes "weak_ok h" "upgrade w h = Some a"
  shows "\<exists>g. heads h a = Some g \<and> weak_index (weak_id g) = weak_index w \<and> weak_version (weak_id g) = weak_version w"
proof -
  obtain g where g: "heads h a = Some g" "weak_id g = weak_new (weak_index w) (weak_version w)"
    using upgrade_live [OF assms] by blast
  have "unat (weak_index w) < 2 ^ 24" unfolding weak_index_def
    proof -
      have "unat w < 2 ^ LENGTH(32)" by (rule unsigned_less)
      then show "unat (drop_bit 8 w) < 2 ^ 24" by (simp add: unat_drop_bit_eq) (simp add: drop_bit_eq_div)
    qed
  with g show ?thesis by (simp add: weak_index_new weak_version_new)
qed

theorem weak_no_dangling_witness: "\<exists>g. heads demo_heap 0x140 = Some g \<and> weak_version (weak_id g) = 1"
proof -
  have "upgrade 1 demo_heap = Some 0x140"
    by (simp add: upgrade_def vec_get_def demo_heap_def weak_is_null_def weak_version_def weak_index_def)
  from weak_no_dangling [OF demo_weak_ok this] show ?thesis by (auto simp: weak_version_def)
qed

section \<open>Limits and accounting\<close>

lemma unat_minus_quarter: "unat ((a :: usize) - drop_bit 2 a) = unat a - unat a div 4"
proof -
  have "unat (drop_bit 2 a) = unat a div 4" by (simp add: unat_drop_bit_eq) (simp add: drop_bit_eq_div)
  then show ?thesis by (subst unat_sub) (simp_all add: word_le_nat_alt)
qed

lemma MIN_GC_THRESHOLD_32: "MIN_GC_THRESHOLD = 32"
  by (simp add: MIN_GC_THRESHOLD_def HEAD_SIZE_def HEAD_ALIGN_def align_up_def)

text \<open>
  \<open>set_memory_limit\<close> with a limit raises it to the memory in use, never switches the collection
  threshold on or off, leaves a threshold below the limit alone and otherwise pulls it to at
  most the limit, provided the limit is at least the smallest node size.
\<close>
theorem memory_limit_effect:
  assumes "limit \<noteq> 0"
  shows "\<exists>t. set_memory_limit limit h = (max (total_memory_used h) limit, t) \<and>
    memory_limit t = max (total_memory_used h) limit \<and> total_memory_used t = total_memory_used h \<and>
    (32 \<le> memory_limit t \<longrightarrow> gc_threshold t \<le> memory_limit t) \<and>
    (gc_threshold h < memory_limit t \<longrightarrow> gc_threshold t = gc_threshold h) \<and>
    (gc_threshold t = 0 \<longleftrightarrow> gc_threshold h = 0)"
proof -
  let ?a = "max (total_memory_used h) limit"
  have q: "?a - drop_bit 2 ?a \<le> ?a" by (simp only: word_le_nat_alt unat_minus_quarter)
  have m: "max (?a - drop_bit 2 ?a) 32 \<noteq> 0"
  proof
    assume "max (?a - drop_bit 2 ?a) 32 = 0"
    moreover have "(32 :: usize) \<le> max (?a - drop_bit 2 ?a) 32" by simp
    ultimately show False by simp
  qed
  show ?thesis
  proof (cases "gc_threshold h > 0 \<and> gc_threshold h \<ge> ?a")
    case True
    then have "\<not> gc_threshold h < ?a" by (simp add: not_less)
    then show ?thesis using assms q m True
      by (auto simp: set_memory_limit_def Let_def MIN_GC_THRESHOLD_32 simp del: max_less_iff_conj less_max_iff_disj)
  next
    case False
    then have "gc_threshold h \<le> ?a" by (auto simp: word_gt_0 not_le le_max_iff_disj)
    with False assms show ?thesis by (auto simp: set_memory_limit_def Let_def word_gt_0)
  qed
qed

theorem memory_limit_effect_witness:
  "\<exists>t. set_memory_limit 100 demo_heap = (240, t) \<and> memory_limit t = 240 \<and> gc_threshold t \<le> 240"
  using memory_limit_effect [of 100 demo_heap] by (auto simp: demo_heap_def max_def)

text \<open>
  \<open>set_gc_threshold\<close> caps the threshold at eight tenths of the limit, computed without
  overflow, and \<open>should_gc\<close> then asks for a collection exactly when the memory in use has
  reached it; a cap that rounds down to 0 switches collection off.
\<close>
theorem gc_threshold_effect:
  assumes "threshold \<noteq> 0" "unat (memory_limit h) * 8 < 2 ^ 64"
  shows "\<exists>v t. set_gc_threshold threshold h = (v, t) \<and> gc_threshold t = v \<and> memory_limit t = memory_limit h \<and>
    unat v = (if memory_limit h = 0 then unat threshold else min (unat threshold) (unat (memory_limit h) * 8 div 10)) \<and>
    (should_gc t \<longleftrightarrow> v \<noteq> 0 \<and> v \<le> total_memory_used h)"
proof -
  have "unat (memory_limit h * 8) = unat (memory_limit h) * 8"
    using assms(2) by (simp add: unat_mult_lem [THEN iffD1])
  then have "unat (saturating_mul (memory_limit h) 8 div 10) = unat (memory_limit h) * 8 div 10"
    using assms(2) by (simp add: saturating_mul_def unat_div)
  then have "unat (min threshold (saturating_mul (memory_limit h) 8 div 10)) = min (unat threshold) (unat (memory_limit h) * 8 div 10)"
    by (simp add: min_def word_le_nat_alt)
  then show ?thesis using assms(1)
    by (auto simp: set_gc_threshold_def Let_def should_gc_def word_gt_0)
qed

theorem gc_threshold_effect_witness:
  "\<exists>t. set_gc_threshold 5000 demo_heap = (800, t) \<and> \<not> should_gc t"
proof -
  obtain v t where t: "set_gc_threshold 5000 demo_heap = (v, t)" "unat v = 800"
      "should_gc t \<longleftrightarrow> v \<noteq> 0 \<and> v \<le> total_memory_used demo_heap"
    using gc_threshold_effect [of 5000 demo_heap] by (auto simp: demo_heap_def)
  moreover have "v = 800" using t(2) by (simp add: word_unat_eq_iff)
  ultimately show ?thesis by (simp add: demo_heap_def)
qed

text \<open>
  For sizes below $2^{31}$ the signed 32-bit deltas of \<open>update_mem_use\<close> account exactly: adding
  a size and subtracting it again restores both counters.
\<close>
theorem accounting_exact:
  assumes "unat s < 2 ^ 31" "get_par h pid = Some p"
  shows "\<exists>t u. update_mem_use pid (usize_as_i32 s) h = Some (memory_used p + s, t) \<and>
    total_memory_used t = total_memory_used h + s \<and>
    get_par t pid = Some (p\<lparr>memory_used := memory_used p + s\<rparr>) \<and>
    update_mem_use pid (- usize_as_i32 s) t = Some (memory_used p, u) \<and>
    total_memory_used u = total_memory_used h \<and> get_par u pid = Some p"
proof -
  let ?p = "p\<lparr>memory_used := memory_used p + s\<rparr>"
  let ?t = "put_par pid ?p (h\<lparr>total_memory_used := total_memory_used h + s\<rparr>)"
  have u: "update_mem_use pid (usize_as_i32 s) h = Some (memory_used p + s, ?t)" by (rule update_mem_use_add [OF assms])
  have g: "get_par ?t pid = Some ?p" "total_memory_used ?t = total_memory_used h + s"
    using assms(2) by (simp_all add: get_par_put_par put_par_def get_par_Some)
  show ?thesis using u g update_mem_use_sub [OF assms(1) g(1)] assms(2)
    by (auto simp: get_par_Some put_par_def)
qed

theorem accounting_exact_witness:
  "\<exists>t u. update_mem_use 0 (usize_as_i32 1000) demo_heap = Some (1192, t) \<and> total_memory_used t = 1240 \<and>
     update_mem_use 0 (- usize_as_i32 1000) t = Some (192, u) \<and> total_memory_used u = 240"
  using accounting_exact [of 1000, OF _ demo_par0] by (auto simp: demo_par_def demo_heap_def)

section \<open>Collection in the middle of a cycle\<close>




text \<open>
  When marking is over - the gray lists of a set of partitions are empty and the tri-color
  invariant holds for them - every node reachable from their roots and locals, along references
  inside and between these partitions, is black, so no sweep frees it.
\<close>

theorem marked_all_black:
  assumes "heap_ok h" "tri_inv S h" "\<And>i. i \<in> S \<Longrightarrow> glist h i = []" "reach_in S h a"
  shows "hcolor h a = Some Black"
  by (rule tri_inv_done [OF assms])

theorem marked_all_black_witness:
  "\<exists>h t. mark_prepare 0 demo_heap = Some h \<and> mark_until_done 0 h = Some t \<and>
     hcolor t 0x100 = Some Black \<and> hcolor t 0x180 = Some Black \<and> hcolor t 0x140 = Some Black"
proof -
  obtain h where h: "mark_prepare 0 demo_heap = Some h" "mark_frame demo_heap h" "heap_inv h" "refs_closed h"
      "tri_inv {0} h" "pmarking h 0" "length (partitions h) = 2" by (rule demo_started)
  have "heap_ok h" "unat (0 :: u16) < length (partitions h)" "start_ok (unat (0 :: u16)) h"
    using h(3,5-7) by (simp_all add: start_ok_def heap_inv_def)
  from mark_until_done_sound [OF this(1) h(4) this(2,3)] obtain t where
    t: "mark_until_done 0 h = Some t" "mark_frame h t" "heap_ok t" "glist t 0 = []" "tri_inv {0} t"
    by (auto simp only: unsigned_0)
  have "reach_in {0} t a" if "a \<in> {0x100, 0x180, 0x140}" for a
    using that unfolding reach_in_mark_frame [OF t(2)] reach_in_mark_frame [OF h(2)] demo_reach .
  then have "hcolor t a = Some Black" if "a \<in> {0x100, 0x180, 0x140}" for a
    using that by (intro marked_all_black [OF t(3,5)]) (simp_all add: t(4))
  with h(1) t(1) show ?thesis by blast
qed

text \<open>
  C8: an increment of marking with a bounded number of steps never faults and is safe to interrupt:
  it changes colours, gray flags and gray lists only, keeps the heap well-formed and the tri-color
  invariant of every set of partitions, never whitens a black node, and reports completion exactly
  when the gray list of the partition is empty.
\<close>

theorem mark_increment:
  assumes ok: "heap_ok h" and p: "get_par h pid = Some p" "marking p" and m: "m \<noteq> 0"
    and cl: "refs_closed h"
  shows "\<exists>d t. mark pid m h = Some (d, t) \<and> mark_frame h t \<and> heap_ok t \<and>
    (d \<longleftrightarrow> glist t (unat pid) = []) \<and>
    (\<forall>a. hcolor h a = Some Black \<longrightarrow> hcolor t a = Some Black) \<and>
    (\<forall>S. tri_inv S h \<longrightarrow> tri_inv S t)"
proof -
  have i: "unat pid < length (partitions h)" using p(1) by (simp add: get_par_Some)
  have "traced_closed (\<lambda>_. True) (unat pid) h" using cl by (auto simp: traced_closed_def refs_closed_def)
  from mark_grays_correct [OF ok i _ this m] mark_marking [OF p m] obtain d t where
    r: "mark pid m h = Some (d, t)" "mark_run (\<lambda>_. True) (unat pid) h t" "d \<longleftrightarrow> glist t (unat pid) = []" by auto
  show ?thesis using r mark_runD(1,2,3,6) [OF r(2)] by blast
qed

theorem mark_increment_witness:
  "\<exists>h d t. mark_prepare 0 demo_heap = Some h \<and> mark 0 1 h = Some (d, t) \<and> heap_ok t \<and> tri_inv {0, 1} t"
proof -
  obtain h where h: "mark_prepare 0 demo_heap = Some h" "heap_inv h" "refs_closed h"
      "tri_inv {0, 1} h" "pmarking h 0" "length (partitions h) = 2" by (rule demo_started)
  have "get_par h 0 = Some (partitions h ! 0)" using h(6) by (simp add: get_par_Some)
  then obtain d t where "mark 0 1 h = Some (d, t)" "heap_ok t" "\<forall>S. tri_inv S h \<longrightarrow> tri_inv S t"
    using mark_increment [of h 0 "partitions h ! 0" 1] h by (auto simp: heap_inv_def)
  with h(1,4) show ?thesis by blast
qed

section \<open>Programs\<close>

text \<open>
  C1: whatever a program does - allocating in arenas and outside, storing references with the
  barriers, opening, clearing and dropping scopes, marking in steps, resetting, sweeping and
  collecting, creating and removing partitions, in any order - as long as it respects the rules of
  \<open>allowed\<close>, every heap it reaches is well-formed, and every node it can reach through roots,
  locals and references is allocated, has a registered type and a payload.
\<close>

theorem program_memory_safe:
  assumes "gc_reachable reg h" "distinct (drop_passes reg)"
  shows "world_ok h \<and>
    (\<forall>a. ref_reach h a \<longrightarrow> (\<exists>g info v. heads h a = Some g \<and> type_info h (dtype g) = Some info \<and> payloads h a = Some v))"
proof -
  note w = reachable_world(1) [OF assms]
  have "\<exists>g info v. heads h a = Some g \<and> type_info h (dtype g) = Some info \<and> payloads h a = Some v"
    if r: "ref_reach h a" for a
  proof -
    obtain g where g: "heads h a = Some g" using ref_reach_live [OF world_okD(5) [OF w] r] by blast
    from heap_ok_live [OF world_okD(2) [OF w] g] g show ?thesis by metis
  qed
  with w show ?thesis by blast
qed

theorem program_memory_safe_witness:
  "\<exists>h a g v. gc_reachable demo_registry h \<and> hroot h a \<and> heads h a = Some g \<and> payloads h a = Some v"
proof -
  obtain h a where h: "gc_reachable demo_registry h" "hroot h a" by (rule demo_program)
  have "distinct (drop_passes demo_registry)" by (simp add: demo_registry_def)
  from program_memory_safe [OF h(1) this] ref_reach.root [OF h(2)] obtain g v where
    "heads h a = Some g" "payloads h a = Some v" by blast
  with h show ?thesis by blast
qed

text \<open>
  C2: no allowed call faults on a heap a program can reach, and it keeps what the program reaches:
  every node reachable through roots, locals and references is still at its address, with its
  type and its partition, after any collection, sweep or other call; only removing a partition
  takes nodes away, and only those of the partition.
\<close>

theorem program_step_safe:
  assumes "gc_reachable reg h" "distinct (drop_passes reg)" "allowed c h"
  shows "\<exists>t. exec c h = Some t \<and> gc_reachable reg t \<and>
    (\<forall>a. ref_reach h a \<longrightarrow> a \<notin> taken c h \<longrightarrow> kind t a = kind h a \<and> kind t a \<noteq> None)"
proof -
  note w = reachable_world(1) [OF assms(1,2)]
  from exec_safe [OF w assms(3)] obtain t where t: "exec c h = Some t"
    "\<forall>a. ref_reach h a \<longrightarrow> a \<notin> taken c h \<longrightarrow> kind t a = kind h a" by (auto simp: safe_step_def)
  have "kind h a \<noteq> None" if "ref_reach h a" for a
    using ref_reach_live [OF world_okD(5) [OF w] that] kind_dom by blast
  with t gc_reachable.step [OF assms(1,3) t(1)] show ?thesis by auto
qed

theorem program_step_safe_witness:
  "\<exists>h a t. gc_reachable demo_registry h \<and> hroot h a \<and> exec (Garbage_Collect 0) h = Some t \<and> kind t a = kind h a"
proof -
  obtain h a where h: "gc_reachable demo_registry h" "hroot h a" by (rule demo_program)
  have d: "distinct (drop_passes demo_registry)" by (simp add: demo_registry_def)
  have al: "allowed (Garbage_Collect 0) h" by simp
  from program_step_safe [OF h(1) d al] obtain t where
    t: "exec (Garbage_Collect 0) h = Some t" "\<forall>a. ref_reach h a \<longrightarrow> a \<notin> taken (Garbage_Collect 0) h \<longrightarrow> kind t a = kind h a"
    by blast
  have "kind t a = kind h a" using t(2) ref_reach.root [OF h(2)] by simp
  with h t(1) show ?thesis by blast
qed

text \<open>
  C12: the counters are exact on every heap a program reaches: \<open>memory_used\<close> of a partition is the
  sum of the block sizes of its nodes, \<open>total_memory_used\<close> the sum over all nodes, after
  whatever sequence of allocations, rejected allocations, sweeps and removals.
\<close>

theorem program_counters_exact:
  assumes "gc_reachable reg h" "distinct (drop_passes reg)"
  shows "(\<forall>i. i < length (partitions h) \<longrightarrow>
      memory_used (partitions h ! i) = sum (node_size h) {a. in_par h i a}) \<and>
    total_memory_used h = sum (node_size h) (dom (heads h))"
  using reachable_accounted [OF assms] by (simp add: accounted_def part_nodes_def)

theorem program_counters_exact_witness:
  "\<exists>h a. gc_reachable demo_registry h \<and> dom (heads h) = {a} \<and> total_memory_used h = 48"
proof -
  obtain a t where t: "gc_reachable demo_registry t" "world_ok t"
    "kind t a = Some (0, 0)" "dom (heads t) = {a}" by (rule demo_plain)
  have d: "distinct (drop_passes demo_registry)" by (simp add: demo_registry_def)
  have "type_info t 0 = Some demo_info"
    unfolding type_info_def reachable_world(2) [OF t(1) d] by (simp add: demo_registry_def vec_get_def)
  with t(3) have "node_size t a = 48" by (auto simp: node_size_def kind_def demo_info_def)
  with program_counters_exact [OF t(1) d] t(1,4) show ?thesis by auto
qed

text \<open>
  C9: incremental marking makes progress: a client that calls \<open>mark\<close> with a budget of \<open>m\<close> steps until
  it reports completion needs no more than \<open>k\<close> calls as soon as \<open>k * m\<close> exceeds the number of
  nodes, and then every node that the roots reach in the partition is black.
\<close>

theorem incremental_marking_ends:
  assumes "gc_reachable reg h" "distinct (drop_passes reg)" "unat pid < length (partitions h)"
    and "m \<noteq> 0" "card (dom (heads h)) < k * unat m"
  shows "\<exists>t. mark_times k pid m h = Some (True, t) \<and> world_ok t \<and> glist t (unat pid) = [] \<and>
    (\<forall>a. reach_in {unat pid} h a \<longrightarrow> hcolor t a = Some Black)"
proof -
  note w = reachable_world(1) [OF assms(1,2)]
  have p: "get_par h pid = Some (partitions h ! unat pid)" using assms(3) by (simp add: get_par_Some)
  from mark_times_finish [OF w p assms(4,5)] obtain t where
    t: "mark_times k pid m h = Some (True, t)" "remarked h t" "pmarking t (unat pid)" "glist t (unat pid) = []" by blast
  have fr: "mark_frame h t" using t(2) by (simp add: remarked_def)
  note wt = remarked_world(1) [OF w t(2)]
  have "unat pid < length (partitions t)" using assms(3) mark_frame_fields(10) [OF fr] by simp
  from all_readyD [OF wt this] t(3) have tri: "tri_inv {unat pid} t" by (simp add: ready_def)
  have "hcolor t a = Some Black" if "reach_in {unat pid} h a" for a
    by (rule tri_inv_done [OF world_okD(2) [OF wt] tri]) (use that t(4) in \<open>simp_all add: reach_in_mark_frame [OF fr]\<close>)
  with t wt show ?thesis by blast
qed

theorem incremental_marking_ends_witness:
  "\<exists>h a t. gc_reachable demo_registry h \<and> hroot h a \<and> mark_times (Suc (card (dom (heads h)))) 0 1 h = Some (True, t) \<and>
     hcolor t a = Some Black"
proof -
  obtain h a where h: "gc_reachable demo_registry h" "hroot h a" "length (partitions h) = 1" "world_ok h"
    by (rule demo_program)
  have d: "distinct (drop_passes demo_registry)" by (simp add: demo_registry_def)
  from ref_reach_live [OF world_okD(5) [OF h(4)] ref_reach.root [OF h(2)]] have a: "a \<in> dom (heads h)" .
  then obtain i where i: "in_par h i a" using dom_in_par by blast
  with in_par_bound [OF world_okD(2) [OF h(4)] i] h(3) have "in_par h 0 a" by simp
  then have r: "reach_in {0} h a" by (intro reach_in.root) (simp_all add: zone_def h(2))
  have "unat (0 :: u16) < length (partitions h)" "(1 :: usize) \<noteq> 0"
    "card (dom (heads h)) < Suc (card (dom (heads h))) * unat (1 :: usize)" using h(3) by simp_all
  from incremental_marking_ends [OF h(1) d this] r h(1,2) show ?thesis by auto
qed

text \<open>
  C3: in an environment whose system allocator returns memory apart from all it has given out and
  not got back, the blocks of any two live nodes are disjoint and none wraps around, wherever they
  were allocated and whatever was freed and reused before; and every call that follows the
  rules returns, with no assumption on the memory it gets from an arena.
\<close>

theorem program_blocks_disjoint:
  assumes "gc_run reg h" "distinct (drop_passes reg)"
  shows "(\<forall>a b. heads h a \<noteq> None \<longrightarrow> heads h b \<noteq> None \<longrightarrow> a \<noteq> b \<longrightarrow> apart (node_block h a) (node_block h b)) \<and>
    (\<forall>a. heads h a \<noteq> None \<longrightarrow> unat a + unat (node_size h a) < 2 ^ 64) \<and>
    (\<forall>c. obeys c h \<longrightarrow> sys_sound c h \<longrightarrow> (\<exists>t. exec c h = Some t \<and> gc_run reg t))"
proof -
  from run_reachable [OF assms] have w: "world_ok h" and b: "blocks_ok h" using reachable_world(1) [OF _ assms(2)] by blast+
  have "\<exists>t. exec c h = Some t \<and> gc_run reg t" if c: "obeys c h" "sys_sound c h" for c
    using exec_safe [OF w obeys_allowed [OF w b c]] gc_run.step [OF assms(1) c] by (auto simp: safe_step_def)
  then show ?thesis using node_blocks_apart [OF b world_okD(1) [OF w]] node_block_bound [OF b world_okD(1) [OF w]] by blast
qed

theorem program_blocks_disjoint_witness:
  "\<exists>h a t. gc_run demo_registry h \<and> dom (heads h) = {a} \<and> unat a + unat (node_size h a) < 2 ^ 64 \<and>
     exec (Garbage_Collect 0) h = Some t \<and> gc_run demo_registry t"
proof -
  obtain a h where h: "gc_run demo_registry h" "dom (heads h) = {a}" by (rule demo_plain_run)
  have d: "distinct (drop_passes demo_registry)" by (simp add: demo_registry_def)
  have "obeys (Garbage_Collect 0) h" "sys_sound (Garbage_Collect 0) h" "heads h a \<noteq> None" using h(2) by auto
  with program_blocks_disjoint [OF h(1) d] h show ?thesis by blast
qed

text \<open>
  C6: garbage does not survive: from any heap a program reaches, also in the middle of a marking
  cycle, two collections of a partition leave exactly those of its nodes that the client can
  reach, and a third one frees nothing.
\<close>

theorem two_collections_suffice:
  assumes "gc_reachable reg h" "distinct (drop_passes reg)" "unat pid < length (partitions h)"
  shows "\<exists>n t m u v. garbage_collect pid h = Some (n, t) \<and> garbage_collect pid t = Some (m, u) \<and>
    garbage_collect pid u = Some (0, v) \<and>
    (\<forall>a. in_par h (unat pid) a \<longrightarrow> (heads u a \<noteq> None \<longleftrightarrow> ref_reach h a))"
  by (rule collect_twice [OF reachable_world(1) [OF assms(1,2)]]) (use assms(3) in \<open>simp add: get_par_Some\<close>)

theorem two_collections_suffice_witness:
  "\<exists>h a n t m u. gc_reachable demo_registry h \<and> heads h a \<noteq> None \<and> garbage_collect 0 h = Some (n, t) \<and>
     garbage_collect 0 t = Some (m, u) \<and> heads u a = None"
proof -
  obtain a h where h: "gc_reachable demo_registry h" "world_ok h"
    "kind h a = Some (0, 0)" "\<not> hroot h a" "dom (heads h) = {a}" by (rule demo_plain)
  have d: "distinct (drop_passes demo_registry)" by (simp add: demo_registry_def)
  have nr: "\<not> ref_reach h b" for b
  proof
    assume "ref_reach h b"
    then show False
    proof induction
      case (root b)
      then have "b \<in> dom (heads h)" by (auto simp: hroot_def)
      with h(4,5) root show ?case by simp
    qed
  qed
  have a: "in_par h 0 a" "heads h a \<noteq> None" using h(3) by (auto simp: in_par_kind kind_def)
  have "unat (0 :: u16) < length (partitions h)"
    using in_par_bound [OF world_okD(2) [OF h(2)] a(1)] by simp
  from two_collections_suffice [OF h(1) d this] nr a h(1) show ?thesis by (fastforce simp only: unsigned_0)
qed

section \<open>Barriers and marking\<close>

text \<open>
  C10: the write barrier runs the mutator once on the payload of its node and stores the result; it
  never faults on a live node, and whatever the mutator does the tri-color invariant of every set of
  partitions that are being marked holds afterwards.
\<close>
theorem write_barrier_tricolor:
  assumes "heap_inv h" "payloads h a = Some v" "a \<in> dom (heads h)"
  shows "\<exists>t. with_write_barrier a f h = Some (fst (f v), t) \<and> payloads t = (payloads h)(a \<mapsto> snd (f v)) \<and>
    heap_inv t \<and> (\<forall>S. (\<forall>i\<in>S. i < length (partitions h) \<and> pmarking h i) \<longrightarrow> tri_inv S h \<longrightarrow> tri_inv S t)"
  using write_barrier_keeps [OF assms, of f] by (auto simp: keeps_def)

theorem write_barrier_tricolor_witness:
  "\<exists>h t. mark_prepare 0 demo_heap = Some h \<and> with_write_barrier 0x100 (\<lambda>v. (length v, [0x1C0])) h = Some (2, t) \<and>
     payloads t 0x100 = Some [0x1C0] \<and> tri_inv {0, 1} t"
proof -
  obtain h where h: "mark_prepare 0 demo_heap = Some h" "mark_frame demo_heap h" "heap_inv h"
      "tri_inv {0, 1} h" "pmarking h 0" "pmarking h 1" "length (partitions h) = 2" by (rule demo_started)
  have v: "payloads h 0x100 = Some [0x180, 0x200]" by (simp add: mark_frame_fields(1) [OF h(2)] demo_at)
  have "0x100 \<in> dom (heads h)" unfolding mark_frame_fields(11) [OF h(2)] by (simp add: domIff demo_at)
  from write_barrier_tricolor [OF h(3) v this, of "\<lambda>v. (length v, [0x1C0])"] obtain t where
    t: "with_write_barrier 0x100 (\<lambda>v. (length v, [0x1C0])) h = Some (2, t)"
      "payloads t = (payloads h)(0x100 \<mapsto> [0x1C0])"
      "\<forall>S. (\<forall>i\<in>S. i < length (partitions h) \<and> pmarking h i) \<longrightarrow> tri_inv S h \<longrightarrow> tri_inv S t" by auto
  have "\<forall>i\<in>{0, 1}. i < length (partitions h) \<and> pmarking h i" using h(5-7) by auto
  with t(3) h(4) have "tri_inv {0, 1} t" by blast
  with h(1) t(1,2) show ?thesis by auto
qed

text \<open>
  C11: \<open>bind\<close> after a store that added at most the reference to the slave restores the tri-color
  invariant of every set of partitions that are being marked, inside a partition and across
  partitions, and faults on no pair of live nodes.
\<close>
theorem bind_tricolor:
  assumes "heap_inv h" "heads h m = Some g" "payloads h m = Some v" "s \<in> dom (heads h)"
    "type_info h (dtype g) = Some info" "set (ti_trace_fn info w) \<subseteq> set (ti_trace_fn info v) \<union> {s}"
  shows "\<exists>t. bind m s (h\<lparr>payloads := (payloads h)(m \<mapsto> w)\<rparr>) = Some t \<and> payloads t = (payloads h)(m \<mapsto> w) \<and>
    heap_inv t \<and> (\<forall>S. (\<forall>i\<in>S. i < length (partitions h) \<and> pmarking h i) \<longrightarrow> tri_inv S h \<longrightarrow> tri_inv S t)"
proof -
  obtain sg where sg: "heads h s = Some sg" using assms(4) by blast
  from bind_store_keeps [OF assms(1,3,2) sg assms(5,6)] obtain t where
    t: "bind m s (h\<lparr>payloads := (payloads h)(m \<mapsto> w)\<rparr>) = Some t" "keeps h t"
      "mark_frame (h\<lparr>payloads := (payloads h)(m \<mapsto> w)\<rparr>) t" by blast
  have "payloads t = (payloads h)(m \<mapsto> w)" using mark_frame_fields(1) [OF t(3)] by simp
  with t(1,2) show ?thesis by (auto simp: keeps_def)
qed

theorem bind_tricolor_witness:
  "\<exists>h t. mark_prepare 0 demo_heap = Some h \<and>
     bind 0x100 0x1C0 (h\<lparr>payloads := (payloads h)(0x100 \<mapsto> [0x180, 0x1C0])\<rparr>) = Some t \<and> tri_inv {0, 1} t"
proof -
  obtain h where h: "mark_prepare 0 demo_heap = Some h" "mark_frame demo_heap h" "heap_inv h"
      "tri_inv {0, 1} h" "pmarking h 0" "pmarking h 1" "length (partitions h) = 2" by (rule demo_started)
  have v: "payloads h 0x100 = Some [0x180, 0x200]" by (simp add: mark_frame_fields(1) [OF h(2)] demo_at)
  obtain g where g: "heads h 0x100 = Some g" "shape g = shape (demo_head 0xFF000020 0 0 (Some 0x140))"
    by (rule mark_frame_head [OF h(2) demo_at(1)])
  have "dtype g = 0" using shape_eqD(1) [OF g(2)] by (simp add: demo_node_view)
  then have ti: "type_info h (dtype g) = Some demo_info" by (simp add: mark_frame_fields(9) [OF h(2)] demo_type)
  have s: "0x1C0 \<in> dom (heads h)" unfolding mark_frame_fields(11) [OF h(2)] by (simp add: domIff demo_at)
  from bind_tricolor [OF h(3) g(1) v s ti, of "[0x180, 0x1C0]"] obtain t where
    t: "bind 0x100 0x1C0 (h\<lparr>payloads := (payloads h)(0x100 \<mapsto> [0x180, 0x1C0])\<rparr>) = Some t"
      "\<forall>S. (\<forall>i\<in>S. i < length (partitions h) \<and> pmarking h i) \<longrightarrow> tri_inv S h \<longrightarrow> tri_inv S t"
    by (auto simp: demo_info_def)
  have "\<forall>i\<in>{0, 1}. i < length (partitions h) \<and> pmarking h i" using h(5-7) by auto
  with t(2) h(4) have "tri_inv {0, 1} t" by blast
  with h(1) t(1) show ?thesis by blast
qed

text \<open>
  C7: marking a partition that is idle runs to its end, whatever the shape of the reference graph,
  cycles included, and then a node of the partition is black if the roots and locals of the
  partition reach it and white otherwise; nothing but colours, flags and gray lists changes.
\<close>
theorem marking_terminates_exact:
  assumes "heap_ok h" "refs_closed h" "get_par h pid = Some p" "\<not> marking p" "gray_list p = []"
  shows "\<exists>t. mark_until_done pid h = Some t \<and> mark_frame h t \<and> heap_ok t \<and> glist t (unat pid) = [] \<and>
    (\<forall>a. in_par h (unat pid) a \<longrightarrow> hcolor t a = Some (if reach_in {unat pid} h a then Black else White))"
  using mark_until_done_exact [OF assms(1,3-5)] assms(2) unfolding refs_closed_def by blast

theorem marking_terminates_exact_witness:
  "\<exists>t. mark_until_done 0 demo_heap = Some t \<and> hcolor t 0x140 = Some Black \<and> hcolor t 0x1C0 = Some White"
proof -
  obtain t where t: "mark_until_done 0 demo_heap = Some t"
    "\<forall>a. in_par demo_heap 0 a \<longrightarrow> hcolor t a = Some (if reach_in {0} demo_heap a then Black else White)"
    using marking_terminates_exact [OF demo_heap_ok demo_closed demo_par0] by (auto simp: demo_par_def)
  then show ?thesis by (simp add: demo_in_par demo_reach)
qed

lemma sweep_order_perm:
  assumes inv: "heap_inv h" and i: "i < length (partitions h)"
  shows "mset (filter P (sweep_order h i)) = mset (filter P (filter (dead h) (par_list h i)))"
proof -
  have ok: "heap_ok h" and po: "passes_ok h" using inv by (simp_all add: heap_inv_def)
  have d: "distinct (par_list h i)" by (rule chain_distinct [OF heap_ok_chain [OF ok i]])
  have "\<exists>q\<in>set (drop_passes (node_dtypes h)). pass_is h q a" if "a \<in> set (par_list h i)" for a
    using dom_in_list [OF ok i that] po by (simp add: passes_ok_def)
  then have "set (sweep_order h i) = set (filter (dead h) (par_list h i))"
    by (auto simp: sweep_order_def set_pass_order)
  moreover have "distinct (sweep_order h i)"
    using d po by (simp add: sweep_order_def passes_ok_def distinct_pass_order)
  moreover have "distinct (filter (dead h) (par_list h i))" using d by simp
  ultimately have "mset (sweep_order h i) = mset (filter (dead h) (par_list h i))"
    using set_eq_iff_mset_eq_distinct by blast
  then show ?thesis by (metis mset_filter)
qed

text \<open>
  C14: the one-phase \<open>sweep\<close>, which unlinks, drops and frees dead nodes while it walks the list, and
  the three-phase sweep of \<open>garbage_collect\<close> (unlink all, drop all payloads, free all) return the same
  byte count and leave the same heap, every field of it: nodes, payloads, lists, gray lists, marking
  flags, counters, weak slots, and the arenas with their free lists, whatever the callback does with
  its own state.  They drop the payloads of the same nodes, each once, but not in the same order:
  \<open>sweep\<close> goes by drop pass, while \<open>sweep_drop_payloads\<close> follows the list and ignores the passes,
  although the destructors all run there and the documentation of \<open>sweep_dispose\<close> promises to respect the
  destruction order.
\<close>
theorem sweep_equals_phases:
  assumes "heap_inv h" "unat pid < length (partitions h)" "pmarking h (unat pid)" "glist h (unat pid) = []"
  shows "\<exists>n c' t u. sweep pid cb c h = Some (n, c', t) \<and> collect_white pid h = Some (n, u) \<and>
    t = u\<lparr>drop_log := drop_log t\<rparr> \<and>
    drop_log t = drop_log h @ filter (needs_drop_fn h) (sweep_order h (unat pid)) \<and>
    drop_log u = drop_log h @ filter (needs_drop_fn h) (filter (dead h) (par_list h (unat pid))) \<and>
    mset (drop_log t) = mset (drop_log u)"
proof -
  let ?i = "unat pid"
  from sweep_correct [OF assms, of cb c] obtain n c' t where t: "sweep pid cb c h = Some (n, c', t)"
    "swept h ?i n t" "swept_rest h ?i n t" "drop_log t = drop_log h @ filter (needs_drop_fn h) (sweep_order h ?i)" by blast
  from collect_white_correct [OF assms] obtain m u where u: "collect_white pid h = Some (m, u)"
    "swept h ?i m u" "swept_rest h ?i m u"
    "drop_log u = drop_log h @ filter (needs_drop_fn h) (filter (dead h) (par_list h ?i))" by blast
  have "m = n" using t(2) u(2) by (simp add: swept_def)
  with swept_unique [OF assms(1) t(2,3)] u(2,3) have "t = u\<lparr>drop_log := drop_log t\<rparr>" by simp
  with t(1,4) u(1,4) \<open>m = n\<close> sweep_order_perm [OF assms(1,2), of "needs_drop_fn h"] show ?thesis
    by (intro exI [of _ n] exI [of _ c'] exI [of _ t] exI [of _ u]) simp
qed

theorem sweep_equals_phases_witness:
  "\<exists>h n c t u. mark_until_done 0 demo_heap = Some h \<and>
     sweep 0 (\<lambda>_ _ k. k + 1) (0 :: nat) h = Some (n, c, t) \<and> collect_white 0 h = Some (n, u) \<and>
     (heads t = heads u \<and> weak_slots t = weak_slots u \<and> partitions t = partitions u) \<and> mset (drop_log t) = mset (drop_log u)"
proof -
  have p: "get_par demo_heap 0 = Some (demo_par (Some 0x100) 192)" "\<not> marking (demo_par (Some 0x100) 192)"
    "gray_list (demo_par (Some 0x100) 192) = []" by (simp_all add: demo_par0 demo_par_def)
  from mark_until_done_exact [OF demo_heap_ok p] demo_closed obtain h where
    h: "mark_until_done 0 demo_heap = Some h" "mark_frame demo_heap h" "heap_ok h" "pmarking h 0" "glist h 0 = []"
    by (auto simp: refs_closed_def)
  have l: "length (partitions h) = 2" using mark_frame_fields(10) [OF h(2)] by (simp add: demo_fields)
  have "heap_inv h" "unat (0 :: u16) < length (partitions h)" "pmarking h (unat (0 :: u16))" "glist h (unat (0 :: u16)) = []"
    using heap_inv_mark_frame [OF demo_inv h(2,3)] h(4,5) l by simp_all
  from sweep_equals_phases [OF this, of "\<lambda>_ _ k. k + 1" "0 :: nat"] obtain n c t u where
    r: "sweep 0 (\<lambda>_ _ k. k + 1) (0 :: nat) h = Some (n, c, t)" "collect_white 0 h = Some (n, u)"
    "t = u\<lparr>drop_log := drop_log t\<rparr>" "mset (drop_log t) = mset (drop_log u)" by blast
  have "heads t = heads u \<and> weak_slots t = weak_slots u \<and> partitions t = partitions u"
    by (subst (1 2 3) r(3)) simp
  with h(1) r(1,2,4) show ?thesis by blast
qed

text \<open>
  C36: \<open>mark_reset\<close> abandons a cycle: the partition is no longer being marked, its gray list is
  empty, all its nodes are white and unlisted, and the heap is as well-formed as before, so a new
  cycle starts from scratch.
\<close>
theorem mark_reset_clean:
  assumes "heap_ok h" "unat pid < length (partitions h)"
  shows "\<exists>t. mark_reset pid h = Some t \<and> mark_frame h t \<and> heap_ok t \<and> ready (unat pid) t \<and>
    \<not> pmarking t (unat pid) \<and> glist t (unat pid) = [] \<and>
    (\<forall>a. hcolor t a = (if in_par h (unat pid) a then Some White else hcolor h a))"
  using mark_reset_correct [OF assms] by (auto simp: reset_to_def ready_def)

theorem mark_reset_clean_witness:
  "\<exists>h t. mark_prepare 0 demo_heap = Some h \<and> mark_reset 0 h = Some t \<and> hcolor t 0x100 = Some White \<and> glist t 0 = []"
proof -
  obtain h where h: "mark_prepare 0 demo_heap = Some h" "mark_frame demo_heap h" "heap_inv h" "length (partitions h) = 2"
    by (rule demo_started)
  have "heap_ok h" "unat (0 :: u16) < length (partitions h)" using h(3,4) by (simp_all add: heap_inv_def)
  from mark_reset_clean [OF this] obtain t where
    "mark_reset 0 h = Some t" "glist t 0 = []" "\<forall>a. hcolor t a = (if in_par h 0 a then Some White else hcolor h a)" by auto
  with h(1) show ?thesis by (simp add: in_par_mark_frame [OF h(2)] demo_in_par)
qed

text \<open>
  C35: \<open>traverse\<close> terminates on every reference graph and whatever visited flags earlier traversals left.
  It sets the flag of exactly the nodes that paths of unvisited nodes lead to from the start, in
  every partition, and calls the callback exactly once on each of these that passes the filter:
  the filter restricts the calls, not the traversal.  From a clean heap these are all nodes
  reachable from the start.  No flag is ever cleared, so the next traversal from the same node
  visits nothing; \<open>traverse_start\<close> has to clear every partition the last one went through.
\<close>
theorem traverse_exact:
  assumes "heap_ok h" "refs_closed h" "node \<in> dom (heads h)"
  shows "\<exists>lg t. traverse node flt log_visit [] h = Some (lg, t) \<and> mark_frame h t \<and> distinct (map fst lg) \<and>
    set (map fst lg) = {a. fresh_reach h node a \<and> passes_filter flt h a} \<and>
    visited t = visited h \<union> {a. fresh_reach h node a} \<and>
    (visited h = {} \<longrightarrow> fresh_reach h node = (edge h)\<^sup>*\<^sup>* node) \<and>
    (\<forall>flt'. traverse node flt' log_visit [] t = Some ([], t))"
proof -
  from traverse_reach [OF assms, of flt] obtain lg t where t: "traverse node flt log_visit [] h = Some (lg, t)"
    "mark_frame h t" "distinct (map fst lg)" "set (map fst lg) = {a. fresh_reach h node a \<and> passes_filter flt h a}"
    "visited t = visited h \<union> {a. fresh_reach h node a}" by blast
  have "node \<in> visited t" using t(5) by (auto intro: fresh_reach.start)
  with t fresh_reach_clean [of h node] show ?thesis
    by (intro exI [of _ lg] exI [of _ t] conjI) (simp_all add: traverse_again)
qed

theorem traverse_exact_witness:
  "\<exists>lg t. traverse 0x180 (Some 0) log_visit [] demo_heap = Some (lg, t) \<and> 0x140 \<in> set (map fst lg) \<and>
     0x200 \<notin> set (map fst lg) \<and> 0x200 \<in> visited t"
proof -
  have nv: "visited demo_heap = {}"
    by (auto simp: visited_def traverse_visited_def demo_head_def head_eval elim!: demo_cases)
  have n: "0x180 \<in> dom (heads demo_heap)" by (simp add: domIff demo_at)
  have e: "edge demo_heap 0x180 0x140" "edge demo_heap 0x140 0x100" "edge demo_heap 0x100 0x200" by (simp_all add: demo_edge)
  have r: "(edge demo_heap)\<^sup>*\<^sup>* 0x180 0x140" using e(1) by (rule r_into_rtranclp)
  moreover have r2: "(edge demo_heap)\<^sup>*\<^sup>* 0x180 0x200" using r e(2,3) by (metis rtranclp.rtrancl_into_rtrancl)
  moreover have "passes_filter (Some 0) demo_heap 0x140" by (simp add: passes_filter_def demo_at demo_node_view)
  moreover have "\<not> passes_filter (Some 0) demo_heap 0x200"
    using demo_in_par [of 0 "0x200"] by (auto simp: passes_filter_def in_par_def)
  ultimately show ?thesis
    using traverse_exact [OF demo_heap_ok demo_closed n, of "Some 0"] nv fresh_reach_clean [OF nv, of "0x180"] by auto
qed

section \<open>Allocation\<close>

text \<open>
  C22: a request that cannot be served is rejected before anything is touched: the heap stays as it
  is, the payload comes back to the caller, and the error says why - an unknown partition first,
  then a layout no allocator can serve, then the memory limit.
\<close>
theorem alloc_rejected_clean:
  assumes "rejects ty pid h"
  shows "\<exists>e. e = (if get_par h pid = None then PartitionNotFound
        else if layout_from_size_align (layout_size_of ty) (layout_align_of ty) = None then AllocationFailed
        else PartitionFull) \<and>
     alloc_raw ty gt pid v sys h = Some (Inl (e, v), h) \<and> alloc_root_raw ty gt pid v sys h = Some (Inl (e, v), h)"
  using assms alloc_errors [of h pid ty gt v sys] unfolding rejects_def by auto

theorem alloc_rejected_clean_witness:
  "alloc_raw demo_type 0 7 [0x100] None demo_heap = Some (Inl (PartitionNotFound, [0x100]), demo_heap)"
proof -
  have n: "get_par demo_heap 7 = None" by (simp add: get_par_def vec_get_def demo_fields)
  then have "rejects demo_type 7 demo_heap" by (simp add: rejects_def)
  from alloc_rejected_clean [OF this, of 0 "[0x100]" None] n show ?thesis by simp
qed

text \<open>
  C21: what \<open>alloc_raw\<close> does when the layout of the type is valid and the system allocator is sound: memory
  it returns is apart from the memory it has given out and not got back.  Nothing is assumed of the
  arena or of the limit.  A request over the memory limit is refused with \<open>PartitionFull\<close> and changes
  nothing; one within it can only fail because the system has no memory; a refused payload comes
  back.  Otherwise the node lies in memory that overlaps no live node, it holds the payload and is in
  the list of its partition, no other node changes, the heap and its arenas are well-formed, and the
  memory in use grows by the size of the node and stays within the limit.
\<close>
theorem alloc_returns_fresh:
  assumes inv: "heap_inv h" "refs_closed h" "blocks_ok h" and p: "get_par h pid = Some par" and ty: "type_known h ty gt"
    and l: "layout_from_size_align (layout_size_of ty) (layout_align_of ty) = Some l" "0 < layout_size_of ty"
    and s: "sys_free h sys (layout_size_of ty)"
  shows "\<exists>r t. alloc_raw ty gt pid v sys h = Some (r, t) \<and>
    (case r of
       Inl (e, w) \<Rightarrow> w = v \<and>
         (if over_limit h (layout_size_of ty) then e = PartitionFull \<and> t = h
          else e = AllocationFailed \<and> sys = None \<and> arena_frame h t)
     | Inr a \<Rightarrow> \<not> over_limit h (layout_size_of ty) \<and> heap_inv t \<and> blocks_ok t \<and> heads h a = None \<and>
         (\<forall>b. heads h b \<noteq> None \<longrightarrow> apart (unat a, unat (layout_size_of ty)) (node_block h b)) \<and>
         a \<in> set (par_list t (unat pid)) \<and> payloads t = (payloads h)(a \<mapsto> v) \<and>
         (\<forall>b. b \<noteq> a \<longrightarrow> heads t b = heads h b) \<and>
         total_memory_used t = total_memory_used h + layout_size_of ty \<and>
         (memory_limit h > 0 \<longrightarrow> total_memory_used t \<le> memory_limit h))"
proof (cases "over_limit h (layout_size_of ty)")
  case True
  with alloc_errors(3) [of h pid ty gt v sys] p l(1) show ?thesis by simp
next
  case False
  have ls: "l_size l = layout_size_of ty" using l(1) by (auto simp: layout_from_size_align_def split: if_splits)
  have lok: "layout_ok l" by (rule layout_from_ok [OF l])
  have fm: "fresh_memory pid l sys h" by (rule blocks_fresh_memory [OF inv(3,1) lok]) (use s l(2) ls in simp_all)
  from alloc_raw_correct [OF inv(1,2) p ty l(1) False fm, of v] obtain r t where
    r: "alloc_raw ty gt pid v sys h = Some (r, t)"
    "case r of
       Inl (e, w) \<Rightarrow> e = AllocationFailed \<and> w = v \<and> sys = None \<and> arena_frame h t
     | Inr a \<Rightarrow> keeps h t \<and> (\<exists>g. node_added h (unat pid) a g v (layout_size_of ty) t \<and> new_node_ok h (unat pid) g \<and>
            \<not> is_root_or_local g \<and> dtype g = gt)" by blast
  show ?thesis
  proof (cases r)
    case (Inl e)
    with r False show ?thesis by (cases e) auto
  next
    case (Inr a)
    with r(2) obtain g where k: "keeps h t" and g: "node_added h (unat pid) a g v (layout_size_of ty) t"
      "new_node_ok h (unat pid) g" "dtype g = gt" by auto
    have it: "heap_inv t" by (rule keeps_inv [OF k])
    have b: "node_born h pid gt a v t" using node_added_born [OF g(1,2)] g(3) by simp
    have i: "unat pid < length (partitions t)" using k p by (simp add: keeps_def get_par_Some)
    have na: "heads h a = None" "heads t = (heads h)(a \<mapsto> g\<lparr>next_ptr := nodes (partitions h ! unat pid)\<rparr>)"
      "payloads t = (payloads h)(a \<mapsto> v)" "node_dtypes t = node_dtypes h"
      "total_memory_used t = total_memory_used h + layout_size_of ty" using g(1) by (simp_all add: node_added_def)
    from ty obtain info where info: "type_info h gt = Some info" "ti_layout_size info = layout_size_of ty"
      "unat (layout_size_of ty) < 2 ^ 31" by (auto simp: type_known_def)
    from alloc_raw_mem [OF r(1) info(3)] Inr l(1) have ad: "mem_added h pid gt sys a l t" by (auto simp: mem_outcome_def)
    have bt: "blocks_ok t"
      by (rule added_blocks [OF inv(3,1) ad na(1) lok _ _ info(1)]) (use l(2) s ls info(2) in simp_all)
    have ti: "type_info t = type_info h" by (simp add: fun_eq_iff type_info_def na(4))
    have sz: "node_size t a = layout_size_of ty" using g(3) info(1,2) by (simp add: node_size_def na(2) ti)
    have "apart (unat a, unat (layout_size_of ty)) (node_block h c)" if c: "heads h c \<noteq> None" for c
    proof -
      have ne: "c \<noteq> a" using c na(1) by auto
      then have "node_size t c = node_size h c" unfolding node_size_def ti by (simp add: na(2))
      then have "node_block t c = node_block h c" by (simp add: node_block_def)
      with node_blocks_apart [OF bt it, of a c] ne c sz show ?thesis by (simp add: node_block_def na(2))
    qed
    moreover have "a \<in> set (par_list t (unat pid))"
      using heap_ok_member_iff [OF _ i] node_born_obs(1) [OF b] it by (simp add: heap_inv_def)
    moreover have "memory_limit h > 0 \<longrightarrow> total_memory_used t \<le> memory_limit h"
      using False na(5) by (auto simp: over_limit_def not_less)
    ultimately show ?thesis using r(1) Inr it bt na False
      by (intro exI [of _ r] exI [of _ t] conjI) simp_all
  qed
qed

lemma demo_alloc:
  "type_known demo_heap demo_type 0" "\<not> over_limit demo_heap (layout_size_of demo_type)"
  "layout_from_size_align (layout_size_of demo_type) (layout_align_of demo_type) = Some \<lparr>l_size = 48, l_align = 8\<rparr>"
  "0 < layout_size_of demo_type"
proof -
  show "type_known demo_heap demo_type 0"
    using demo_type by (simp add: type_known_def demo_type_layout demo_info_def demo_fields demo_registry_def)
  show "\<not> over_limit demo_heap (layout_size_of demo_type)"
    by (simp add: over_limit_def demo_fields demo_type_layout)
qed (simp_all add: demo_type_layout)

lemma demo_owned:
  assumes "owned demo_heap x = Some b"
  shows "\<exists>a\<in>{0x100, 0x140, 0x180, 0x1C0, 0x200}. x = Sys_Node a \<and> b = (unat a, 48)"
proof (cases x)
  case (Sys_Node a)
  with assms have a: "a \<in> {0x100, 0x140, 0x180, 0x1C0, 0x200}" using demo_dom [of a] by (auto split: if_splits)
  with assms Sys_Node demo_sizes [OF a] show ?thesis by (auto split: if_splits)
next
  case (Arena_Of i)
  with assms show ?thesis by (auto simp: demo_fields less_Suc_eq numeral_2_eq_2 split: if_splits)
qed

lemma demo_blocks:
  "blocks_ok demo_heap" "sys_free demo_heap (Some 0x300) (layout_size_of demo_type)"
proof -
  have "sys_apart demo_heap" unfolding sys_apart_def by (auto dest!: demo_owned simp: apart_def)
  moreover have "arenas_ok demo_heap" by (auto simp: arenas_ok_def demo_fields less_Suc_eq)
  ultimately show "blocks_ok demo_heap" by (simp add: blocks_ok_def)
  show "sys_free demo_heap (Some 0x300) (layout_size_of demo_type)"
    by (auto dest!: demo_owned simp: sys_free_def apart_def demo_type_layout)
qed

theorem alloc_returns_fresh_witness:
  "\<exists>a t. alloc_raw demo_type 0 0 [0x100] (Some 0x300) demo_heap = Some (Inr a, t) \<and> total_memory_used t = 288 \<and>
     payloads t a = Some [0x100] \<and> heads t 0x140 = heads demo_heap 0x140"
proof -
  have q: "\<exists>r t. alloc_raw demo_type 0 0 [0x100] (Some 0x300) demo_heap = Some (r, t) \<and>
    (case r of
       Inl (e, w) \<Rightarrow> w = [0x100] \<and>
         (if over_limit demo_heap (layout_size_of demo_type) then e = PartitionFull \<and> t = demo_heap
          else e = AllocationFailed \<and> Some (0x300 :: addr) = None \<and> arena_frame demo_heap t)
     | Inr a \<Rightarrow> \<not> over_limit demo_heap (layout_size_of demo_type) \<and> heap_inv t \<and> blocks_ok t \<and> heads demo_heap a = None \<and>
         (\<forall>b. heads demo_heap b \<noteq> None \<longrightarrow> apart (unat a, unat (layout_size_of demo_type)) (node_block demo_heap b)) \<and>
         a \<in> set (par_list t (unat (0 :: u16))) \<and> payloads t = (payloads demo_heap)(a \<mapsto> [0x100]) \<and>
         (\<forall>b. b \<noteq> a \<longrightarrow> heads t b = heads demo_heap b) \<and>
         total_memory_used t = total_memory_used demo_heap + layout_size_of demo_type \<and>
         (memory_limit demo_heap > 0 \<longrightarrow> total_memory_used t \<le> memory_limit demo_heap))"
    by (rule alloc_returns_fresh [OF demo_inv demo_closed demo_blocks(1) demo_par0 demo_alloc(1,3,4) demo_blocks(2)])
  then obtain r t where r: "alloc_raw demo_type 0 0 [0x100] (Some 0x300) demo_heap = Some (r, t)"
    and c: "case r of
       Inl (e, w) \<Rightarrow> False
     | Inr a \<Rightarrow> heads demo_heap a = None \<and> payloads t = (payloads demo_heap)(a \<mapsto> [0x100]) \<and>
         (\<forall>b. b \<noteq> a \<longrightarrow> heads t b = heads demo_heap b) \<and>
         total_memory_used t = total_memory_used demo_heap + layout_size_of demo_type"
    using demo_alloc(2) by (elim exE conjE, rename_tac r t, case_tac r) auto
  from c obtain a where a: "r = Inr a" by (cases r) auto
  with c have "heads demo_heap a = None" "\<forall>b. b \<noteq> a \<longrightarrow> heads t b = heads demo_heap b" by simp_all
  moreover from this(1) have "a \<noteq> 0x140" using demo_at(2) by auto
  ultimately have "heads t 0x140 = heads demo_heap 0x140" by simp
  with r c a show ?thesis by (simp add: demo_fields demo_type_layout)
qed

section \<open>Scopes\<close>

text \<open>
  C17: a node allocated in a scope survives a collection that starts right away: \<open>alloc_local\<close>
  hands out fresh memory with the payload, the node is local in its scope, and after
  \<open>garbage_collect\<close> of the partition it is still local, with its payload.
\<close>
theorem local_survives:
  assumes w: "world_ok h" and s: "get_scope h sid k = Some s" and m: "may_alloc ty gt (sc_partition_id s) v sys h"
    and nr: "\<not> rejects ty (sc_partition_id s) h" and sys: "sys \<noteq> None"
  shows "\<exists>a t n u. alloc_local ty gt sid k v sys h = Some (Inr a, t) \<and> heads h a = None \<and> hlocal t a \<and>
    garbage_collect (sc_partition_id s) t = Some (n, u) \<and> hlocal u a \<and> payloads u a = Some v"
proof -
  let ?pid = "sc_partition_id s"
  obtain par l where p: "get_par h ?pid = Some par"
    and l: "layout_from_size_align (layout_size_of ty) (layout_align_of ty) = Some l"
    and lim: "\<not> over_limit h (layout_size_of ty)" using nr by (rule not_rejected)
  have ma: "type_known h ty gt" "fresh_memory ?pid l sys h" using m l by (simp_all add: may_alloc_def)
  from alloc_local_correct [OF world_inv [OF w] part_closed_refs [OF world_okD(5) [OF w]] s p ma(1) l lim ma(2), of v]
  obtain r t where r: "alloc_local ty gt sid k v sys h = Some (r, t)"
    "case r of Inl (e, w) \<Rightarrow> e = AllocationFailed \<and> w = v \<and> sys = None \<and> arena_frame h t
     | Inr a \<Rightarrow> keeps h t \<and> scope_ok t \<and> heads h a = None \<and> (\<forall>b. hlocal t b \<longleftrightarrow> b = a \<or> hlocal h b) \<and>
       get_scope t sid k = Some (s\<lparr>sc_cache := Some (cache_list s @ [a])\<rparr>) \<and>
       held t \<subseteq> insert (?pid, a) (held h) \<and> node_born h ?pid gt a v t" by blast
  with sys obtain a where a: "r = Inr a" by (cases r) auto
  with r(2) have k: "keeps h t" and n: "heads h a = None" and la: "hlocal t a" and b: "node_born h ?pid gt a v t" by simp_all
  have "\<exists>s. get_scope h sid k = Some s \<and> may_alloc ty gt (sc_partition_id s) v sys h" using s m by blast
  from alloc_local_op.op_result(1) [OF w this] r(1) have wt: "world_ok t" by simp
  have i: "unat ?pid < length (partitions t)" using p k by (simp add: get_par_Some keeps_def)
  from collect_scopes [OF world_inv [OF wt] part_closed_refs [OF world_okD(5) [OF wt]] i all_readyD [OF wt i]]
  obtain n' u live where g: "garbage_collect ?pid t = Some (n', u)" "hlocal u = hlocal t" "collected t (unat ?pid) live n' u"
    by blast
  have lu: "hlocal u a" using g(2) la by simp
  then have "heads u a \<noteq> None" by (auto simp: hlocal_def)
  then have "payloads u a = payloads t a" using g(3) by (simp add: collected_def)
  then have "payloads u a = Some v" using b by (simp add: node_born_def)
  with r(1) a n la g(1) lu show ?thesis by blast
qed

theorem local_survives_witness:
  "\<exists>a t n u. alloc_local demo_type 0 0 0 [] (Some 0x100) demo_scoped = Some (Inr a, t) \<and>
     garbage_collect 0 t = Some (n, u) \<and> hlocal u a \<and> payloads u a = Some []"
  using local_survives [OF demo_scoped_facts(1,2), of demo_type 0 "[]" "Some 0x100"] demo_scoped_facts(3,5,6) by auto

text \<open>
  C18: \<open>protect_node\<close> protects a node until the current scope ends.  A node that is neither root nor
  local becomes local: it gets the LOCAL flag and a place at the end of the cache of the current
  scope, no other node becomes local and no ROOT flag changes, and the result is true.  For a node
  that is a root or local already nothing changes and the result is false, where the
  documentation of \<open>protect_node\<close> in heap.rs promises true.  Without a current scope nothing changes
  and the result is false.  In the first two cases the node and its payload survive a collection
  that starts right away.
\<close>
theorem protect_survives:
  assumes w: "world_ok h" and st: "get_stack h sid = Some st" "ss_list st = ss @ [s]" and a: "may_hold h s a"
  shows "\<exists>t n u. protect_node sid a h = Some (\<not> hroot h a, t) \<and> hroot t a \<and>
    (if hroot h a then t = h
     else get_scope t sid (length ss) = Some (s\<lparr>sc_cache := Some (cache_list s @ [a])\<rparr>) \<and>
       (\<forall>b. hlocal t b \<longleftrightarrow> b = a \<or> hlocal h b)) \<and>
    (\<forall>b. map_option is_root (heads t b) = map_option is_root (heads h b)) \<and>
    (\<forall>sid' st'. get_stack h sid' = Some st' \<and> ss_list st' = [] \<longrightarrow> protect_node sid' a h = Some (False, h)) \<and>
    garbage_collect (sc_partition_id s) t = Some (n, u) \<and> kind u a = kind h a \<and> payloads u a = payloads h a"
proof -
  obtain g where g: "heads h a = Some g" "sc_partition_id s = partition_id g" "in_par h (unat (sc_partition_id s)) a"
    using a by (rule may_holdD)
  from protect_node_correct [OF world_inv [OF w] st g(1,2)] obtain t where
    t: "protect_node sid a h = Some (\<not> hroot h a, t)" "keeps h t" "stays h t" "\<forall>b. hroot t b \<longleftrightarrow> b = a \<or> hroot h b"
      "if hroot h a then t = h else get_scope t sid (length ss) = Some (s\<lparr>sc_cache := Some (cache_list s @ [a])\<rparr>) \<and>
         (\<forall>b. hlocal t b \<longleftrightarrow> b = a \<or> hlocal h b)" by blast
  have "\<exists>st. get_stack h sid = Some st \<and> (ss_list st \<noteq> [] \<longrightarrow> may_hold h (last (ss_list st)) a)" using st a by simp
  from protect_op.op_result(1) [OF w this] t(1) have wt: "world_ok t" by simp
  have i: "unat (sc_partition_id s) < length (partitions t)"
    using in_par_bound [OF world_okD(2) [OF w] g(3)] t(2) by (simp add: keeps_def)
  from collect_scopes [OF world_inv [OF wt] part_closed_refs [OF world_okD(5) [OF wt]] i all_readyD [OF wt i]]
  obtain n u live where c: "garbage_collect (sc_partition_id s) t = Some (n, u)"
    "collected t (unat (sc_partition_id s)) live n u" by blast
  have "map_option snd (garbage_collect (sc_partition_id s) t) = Some u" using c(1) by simp
  from gc_op.op_result(3) [OF wt _ this] t(4) ref_reach.root [of t a] have ku: "kind u a = kind t a" by simp
  have kt: "kind t a = kind h a" by (rule stays_kind [OF t(3)])
  have "heads u a \<noteq> None" using ku kt g(1) by (auto simp: kind_def)
  then have pu: "payloads u a = payloads h a" using c(2) t(3) by (simp add: collected_def stays_def)
  have ir: "map_option is_root (heads t b) = map_option is_root (heads h b)" for b
  proof (cases "heads h b")
    case None
    then have "heads t b = None" using t(3) by (auto simp: stays_def)
    with None show ?thesis by simp
  next
    case (Some g0)
    from stays_head [OF t(3) this] obtain g1 where "heads t b = Some g1" "is_root g1 = is_root g0" by blast
    with Some show ?thesis by simp
  qed
  have ns: "protect_node sid' a h = Some (False, h)" if "get_stack h sid' = Some st'" "ss_list st' = []" for sid' st'
    using that by (simp add: protect_node_def current_index_def)
  have "hroot t a" using t(4) by blast
  with t(1,5) ir ns c(1) ku kt pu show ?thesis by (intro exI [of _ t] exI [of _ n] exI [of _ u] conjI) (auto split: if_splits)
qed

theorem protect_survives_witness:
  "\<exists>a (h :: addr list gc_heap) t n u. \<not> hroot h a \<and> protect_node 0 a h = Some (True, t) \<and> garbage_collect 0 t = Some (n, u) \<and>
     kind u a = Some (0, 0)"
proof -
  obtain a h where "gc_reachable demo_registry h" and h: "world_ok h"
    "get_stack h 0 = Some \<lparr>ss_list = [demo_scope], ss_partition = Some 0\<rparr>"
    "kind h a = Some (0, 0)" "\<not> hroot h a" by (rule demo_plain)
  have "may_hold h demo_scope a" using h(3) demo_scoped_facts(3) by (simp add: may_hold_def)
  from protect_survives [OF h(1,2) _ this, of "[]"] demo_scoped_facts(3) obtain t n u where
    t: "protect_node 0 a h = Some (\<not> hroot h a, t)" "garbage_collect 0 t = Some (n, u)" "kind u a = kind h a" by auto
  have "protect_node 0 a h = Some (True, t)" "kind u a = Some (0, 0)" using t(1,3) h(3,4) by simp_all
  with h(4) t(2) show ?thesis by blast
qed

lemma distinct_take_out:
  assumes "mset xs \<subseteq># mset zs" "distinct zs" "mset xs = add_mset a (mset ys)"
  shows "set ys = set xs - {a}"
proof -
  obtain ws where "mset zs = mset (xs @ ws)"
    using assms(1) by (metis ex_mset mset_append mset_subset_eq_exists_conv)
  then have "distinct (xs @ ws)" using assms(2) distinct_mset by blast
  moreover have e: "mset xs = mset (a # ys)" using assms(3) by simp
  ultimately have "distinct (a # ys)" using distinct_mset by (metis distinct_append)
  then show ?thesis using mset_eq_setD [OF e] by auto
qed

text \<open>
  C19: a node promoted from a scope to its parent outlives the scope: after \<open>promote_node_to\<close> and
  the drop of the child the node is still local and in the cache of the parent, which is now on
  top, while every other node of the child has lost its protection.
\<close>
theorem promote_outlives:
  assumes w: "world_ok h" and st: "get_stack h sid = Some st" "ss_list st = ss @ [p, c]" and a: "a \<in> set (cache_list c)"
  shows "\<exists>t u p'. promote_node_to sid (length ss + 1) a sid (length ss) h = Some (True, t) \<and>
    scope_drop sid (of_nat (length ss + 1)) t = Some u \<and> scope_ok u \<and>
    get_scope u sid (length ss) = Some p' \<and> a \<in> set (cache_list p') \<and> scope_max_depth sid u = Some (of_nat (length ss + 1)) \<and>
    (\<forall>b. hlocal u b \<longleftrightarrow> hlocal h b \<and> b \<notin> set (cache_list c) - {a})"
proof -
  let ?n = "length ss"
  have gc: "get_scope h sid (?n + 1) = Some c" and gp: "get_scope h sid ?n = Some p"
    using st by (simp_all add: get_scope_def vec_get_def nth_append)
  have ne: "(sid, ?n) \<noteq> (sid, ?n + 1)" by simp
  from promote_correct [OF world_inv [OF w] gc a gp ne] obtain t s' where
    t: "promote_node_to sid (?n + 1) a sid ?n h = Some (True, t)" "keeps h t" "scope_ok t" "hlocal t = hlocal h"
      "get_scope t sid (?n + 1) = Some s'" "mset (cache_list c) = add_mset a (mset (cache_list s'))"
      "get_scope t sid ?n = Some (p\<lparr>sc_cache := Some (cache_list p @ [a])\<rparr>)"
      "\<forall>sid'. map_option (\<lambda>st. (length (ss_list st), ss_partition st)) (get_stack t sid') =
            map_option (\<lambda>st. (length (ss_list st), ss_partition st)) (get_stack h sid')" by blast
  from t(8) [THEN spec, of sid] st obtain st' where s1: "get_stack t sid = Some st'" "length (ss_list st') = ?n + 2" by auto
  then obtain ss' where s2: "ss_list st' = ss' @ [s']" "length ss' = ?n + 1"
    using t(5) by (cases "ss_list st'" rule: rev_cases) (auto simp: get_scope_def vec_get_def nth_append)
  from scope_drop_correct [OF keeps_inv [OF t(2)] t(3) s1(1) s2(1), of "of_nat (?n + 1)"] obtain u where
    u: "scope_drop sid (of_nat (?n + 1)) t = Some u" "scope_ok u" "get_stack u sid = Some (st'\<lparr>ss_list := ss'\<rparr>)"
      "\<forall>b. hlocal u b \<longleftrightarrow> hlocal t b \<and> b \<notin> set (cache_list s')" by blast
  have "distinct (local_nodes h)" using world_okD(3) [OF w] by (simp add: scope_ok_def)
  from distinct_take_out [OF cache_in_locals [OF gc] this t(6)]
  have "set (cache_list s') = set (cache_list c) - {a}" .
  moreover have "get_scope u sid ?n = Some (p\<lparr>sc_cache := Some (cache_list p @ [a])\<rparr>)"
    using t(7) u(3) s1 s2 by (simp add: get_scope_def vec_get_def nth_append)
  moreover have "scope_max_depth sid u = Some (of_nat (?n + 1))" using u(3) s2(2) by (simp add: scope_max_depth_def)
  ultimately show ?thesis using t(1,4) u(1,2,4) by auto
qed

text \<open>
  C20: leaving a scope ends the protection it gave and nothing else.  \<open>new_scope\<close> pushes an empty scope
  of the partition of the stack and changes no node; \<open>with_new_scope\<close> runs the closure on exactly that
  heap and that scope.  When the closure keeps its scope to the end and its body returns or panics
  with the outer stack as it found it, the result of \<open>with_new_scope\<close> is the body's, the stack is
  restored, and a node is local afterwards iff it was local when the body ended and the scope did
  not hold it.
\<close>
theorem with_new_scope_releases:
  assumes inv: "heap_inv h" "scope_ok h" and st: "get_stack h sid = Some st" "ss_partition st = Some p"
    and len: "length (ss_list st) < 2 ^ 32 - 1"
    and f: "\<And>h1 s1. new_scope sid h = Some (of_nat (length (ss_list st)), h1) \<Longrightarrow> heap_inv h1 \<Longrightarrow> scope_ok h1 \<Longrightarrow>
        keeps h h1 \<Longrightarrow> get_stack h1 sid = Some (st\<lparr>ss_list := ss_list st @ [s1]\<rparr>) \<Longrightarrow>
        \<exists>r h2 s2. f (of_nat (length (ss_list st))) h1 = Some (r, h2) \<and> heap_inv h2 \<and> scope_ok h2 \<and>
          get_stack h2 sid = Some (st\<lparr>ss_list := ss_list st @ [s2]\<rparr>)"
  shows "\<exists>h1 s1 r h2 s2 t. new_scope sid h = Some (of_nat (length (ss_list st)), h1) \<and>
    get_stack h1 sid = Some (st\<lparr>ss_list := ss_list st @ [s1]\<rparr>) \<and> sc_cache s1 = None \<and> sc_partition_id s1 = p \<and>
    heads h1 = heads h \<and> f (of_nat (length (ss_list st))) h1 = Some (r, h2) \<and>
    get_stack h2 sid = Some (st\<lparr>ss_list := ss_list st @ [s2]\<rparr>) \<and>
    with_new_scope sid (keeping_scope sid f) h = Some (r, t) \<and> keeps h2 t \<and> scope_ok t \<and>
    get_stack t sid = Some st \<and> (\<forall>b. hlocal t b \<longleftrightarrow> hlocal h2 b \<and> b \<notin> set (cache_list s2))"
  by (rule with_new_scope_correct [OF inv st len]) (rule f)

theorem with_new_scope_releases_witness:
  "\<exists>t. with_new_scope 0 (keeping_scope 0 (\<lambda>_ h. Some (Inr () :: unit + unit, h))) demo_scoped = Some (Inr (), t) \<and>
     get_stack t 0 = Some \<lparr>ss_list = [demo_scope], ss_partition = Some 0\<rparr>"
proof -
  note d = demo_scoped_facts
  have l: "length (ss_list \<lparr>ss_list = [demo_scope], ss_partition = Some (0 :: u16)\<rparr>) < 2 ^ 32 - 1" by simp
  from with_new_scope_releases [OF world_inv [OF d(1)] d(4) _ l, of 0 "\<lambda>_ h. Some (Inr () :: unit + unit, h)"]
  show ?thesis by auto
qed

theorem promote_outlives_witness:
  "\<exists>a (h :: addr list gc_heap) t u. promote_node_to 0 1 a 0 0 h = Some (True, t) \<and> scope_drop 0 1 t = Some u \<and> hlocal u a"
proof -
  obtain a p c and h :: "addr list gc_heap" where h: "world_ok h"
    "get_stack h 0 = Some \<lparr>ss_list = [p, c], ss_partition = Some 0\<rparr>" "a \<in> set (cache_list c)" by (rule demo_nested)
  have "get_scope h 0 1 = Some c" using h(2) by (simp add: get_scope_def vec_get_def)
  then have "hlocal h a" by (rule cache_live(2) [OF world_okD(3) [OF h(1)] _ h(3)])
  with promote_outlives [OF h(1,2) _ h(3), of "[]" p] obtain t u where
    "promote_node_to 0 1 a 0 0 h = Some (True, t)" "scope_drop 0 1 t = Some u" "hlocal u a" by auto
  then show ?thesis by blast
qed

text \<open>
  Acquiring a scope stack for a partition gives an empty stack that no one else uses and leaves
  every other stack alone; releasing it returns it to the pool, and no node changes on the way.
\<close>
theorem acquire_release_roundtrip:
  assumes "heap_inv h" "scope_ok h"
    "length (scope_stacks h) < 2 ^ 16 \<or> (\<exists>st\<in>set (scope_stacks h). ss_partition st = None)"
  shows "\<exists>sid t u. acquire_scope_stack p h = Some (sid, t) \<and>
    (get_stack h sid = None \<or> get_stack h sid = Some \<lparr>ss_list = [], ss_partition = None\<rparr>) \<and>
    get_stack t sid = Some \<lparr>ss_list = [], ss_partition = Some p\<rparr> \<and>
    release_scope_stack sid t = Some u \<and> get_stack u sid = Some \<lparr>ss_list = [], ss_partition = None\<rparr> \<and>
    (\<forall>sid'. sid' \<noteq> sid \<longrightarrow> get_stack t sid' = get_stack h sid' \<and> get_stack u sid' = get_stack h sid') \<and>
    heads u = heads t \<and> stays h t"
proof -
  from acquire_correct [OF assms, of p] obtain sid t where t: "acquire_scope_stack p h = Some (sid, t)" "stays h t"
    "get_stack t sid = Some \<lparr>ss_list = [], ss_partition = Some p\<rparr>"
    "get_stack h sid = None \<or> get_stack h sid = Some \<lparr>ss_list = [], ss_partition = None\<rparr>"
    "\<forall>sid'. sid' \<noteq> sid \<longrightarrow> get_stack t sid' = get_stack h sid'" by blast
  from release_acquired [OF t(3)] obtain u where "release_scope_stack sid t = Some u"
    "get_stack u sid = Some \<lparr>ss_list = [], ss_partition = None\<rparr>"
    "\<forall>sid'. sid' \<noteq> sid \<longrightarrow> get_stack u sid' = get_stack t sid'" "heads u = heads t" by blast
  with t show ?thesis by auto
qed

theorem acquire_release_roundtrip_witness:
  "\<exists>sid t u. acquire_scope_stack 0 demo_scoped = Some (sid, t) \<and> sid \<noteq> 0 \<and> release_scope_stack sid t = Some u \<and>
     get_stack u 0 = get_stack demo_scoped 0"
proof -
  have "length (scope_stacks demo_scoped) < 2 ^ 16" by (simp add: demo_scoped_def)
  with acquire_release_roundtrip [OF world_inv [OF demo_scoped_facts(1)], of 0] obtain sid t u where
    t: "acquire_scope_stack 0 demo_scoped = Some (sid, t)" "release_scope_stack sid t = Some u"
      "get_stack demo_scoped sid = None \<or> get_stack demo_scoped sid = Some \<lparr>ss_list = [], ss_partition = None\<rparr>"
      "\<forall>sid'. sid' \<noteq> sid \<longrightarrow> get_stack t sid' = get_stack demo_scoped sid' \<and> get_stack u sid' = get_stack demo_scoped sid'"
    by blast
  have s: "sid \<noteq> 0" using t(3) demo_scoped_facts(4) by auto
  then have "get_stack u 0 = get_stack demo_scoped 0" using t(4) [THEN spec, of 0] by simp
  with s t(1,2) show ?thesis by blast
qed

section \<open>Teardown\<close>

text \<open>
  C15: \<open>remove_partition\<close> frees exactly the nodes of the partition - the rest of the heap, its
  payloads and partitions are untouched -, calls the \<open>drop_fn\<close> of each that has one once, by drop pass,
  clears the scopes that protected them, returns their total size, takes the memory of the partition off the counter, kills exactly the weak references
  to its nodes, and leaves an empty idle partition behind.
\<close>
theorem remove_partition_exact:
  assumes "heap_inv h" "scope_ok h" "scopes_own h" "unat pid < length (partitions h)"
    "arena_capacity (partitions h ! unat pid) > 0 \<longrightarrow> arena_new (arena_capacity (partitions h ! unat pid)) sys \<noteq> None"
  shows "\<exists>n t. remove_partition pid sys h = Some (n, t) \<and> heap_inv t \<and> scope_ok t \<and> partition_removed h (unat pid) n t"
  using remove_partition_correct [OF assms(1-4)] assms(5) by blast

lemma demo_scopes: "scope_ok demo_heap" "scopes_own demo_heap"
proof -
  have s: "scope_stacks demo_heap = [scope_stack_new None]" by (simp add: demo_heap_def)
  have l: "\<not> hlocal demo_heap a" for a
    by (auto simp: hlocal_def is_local_def demo_head_def head_eval elim!: demo_cases)
  show "scope_ok demo_heap" using l
    by (simp add: scope_ok_def s stack_ok_def scope_stack_new_def local_nodes_def stack_nodes_def)
  have "held demo_heap = {}" by (auto simp: held_def get_scope_def get_stack_def vec_get_def s scope_stack_new_def)
  then show "scopes_own demo_heap" by (simp add: scopes_own_def)
qed

theorem remove_partition_exact_witness:
  "\<exists>t. remove_partition 0 None demo_heap = Some (192, t) \<and> heads t 0x100 = None \<and>
     heads t 0x200 = heads demo_heap 0x200 \<and> total_memory_used t = 48"
proof -
  have i: "unat (0 :: u16) < length (partitions demo_heap)" by (simp add: demo_fields)
  have "\<exists>n t. remove_partition 0 None demo_heap = Some (n, t) \<and> heap_inv t \<and> scope_ok t \<and>
      partition_removed demo_heap (unat (0 :: u16)) n t"
    by (rule remove_partition_exact [OF demo_inv demo_scopes i]) (simp add: demo_fields demo_par_def)
  then obtain n t where t: "remove_partition 0 None demo_heap = Some (n, t)" "partition_removed demo_heap 0 n t" by auto
  have hd: "heads t = heads demo_heap |` {a. \<not> in_par demo_heap 0 a}"
    and n: "n = sum_sizes (node_size demo_heap) (par_list demo_heap 0)"
    and tm: "total_memory_used t = total_memory_used demo_heap - memory_used (partitions demo_heap ! 0)"
    using t(2) unfolding partition_removed_def by blast+
  have "n = 192" by (simp add: n demo_lists demo_sizes)
  moreover have "total_memory_used t = 48" by (simp add: tm demo_fields)
  ultimately show ?thesis using t(1) hd by (auto simp: restrict_map_def demo_in_par)
qed

text \<open>
  C16: dropping the heap frees every node of every partition exactly once, calls the \<open>drop_fn\<close> of every
  node whose type has one exactly once, partition by partition and by drop pass within a
  partition, empties every weak slot so that no weak reference upgrades any more, and takes exactly
  the sizes of the nodes off the counter.  \<open>heap_passes\<close> is the order of the disposal, \<open>drop_log\<close> the
  record of the calls of \<open>drop_fn\<close>.
\<close>
theorem heap_drop_frees_all:
  assumes "heap_inv h" "scope_ok h"
  shows "\<exists>t. heap_drop h = Some t \<and> heads t = Map.empty \<and> payloads t = payloads h |` (- dom (heads h)) \<and>
    (\<forall>w. upgrade w t = None) \<and> (\<forall>k<length (weak_slots t). snd (weak_slots t ! k) = None) \<and>
    set (heap_passes h) = dom (heads h) \<and> distinct (heap_passes h) \<and>
    drop_log t = drop_log h @ filter (needs_drop_fn h) (heap_passes h) \<and>
    total_memory_used t = total_memory_used h - sum_sizes (node_size h) (heap_passes h)"
  using heap_drop_correct [OF assms] by blast

theorem heap_drop_frees_all_witness:
  "\<exists>t. heap_drop demo_heap = Some t \<and> heads t = Map.empty \<and> payloads t 0x100 = None \<and> upgrade 0x105 t = None \<and>
     0x100 \<in> set (drop_log t) \<and> distinct (drop_log t)"
proof -
  obtain t where t: "heap_drop demo_heap = Some t" "heads t = Map.empty"
    "payloads t = payloads demo_heap |` (- dom (heads demo_heap))" "\<forall>w. upgrade w t = None"
    "set (heap_passes demo_heap) = dom (heads demo_heap)" "distinct (heap_passes demo_heap)"
    "drop_log t = drop_log demo_heap @ filter (needs_drop_fn demo_heap) (heap_passes demo_heap)"
    using heap_drop_frees_all [OF demo_inv demo_scopes(1)] by blast
  have "0x100 \<in> dom (heads demo_heap)" by (simp add: domIff demo_at)
  moreover have "needs_drop_fn demo_heap 0x100"
    by (simp add: needs_drop_fn_def demo_at demo_node_view demo_type demo_info_def)
  moreover have "drop_log demo_heap = []" by (simp add: demo_heap_def)
  ultimately show ?thesis using t by (auto simp: restrict_map_def)
qed

section \<open>Limits of the guarantees\<close>

text \<open>
  The demo heap with the reference of the second partition redirected to a node of the first that
  nothing else reaches.
\<close>

definition cross_heap :: "addr list gc_heap" where
  "cross_heap = demo_heap\<lparr>payloads := (payloads demo_heap)(0x200 \<mapsto> [0x1C0])\<rparr>"

lemma cross_heap_facts:
  "heap_inv cross_heap" "heads cross_heap = heads demo_heap" "partitions cross_heap = partitions demo_heap"
  "edge cross_heap a b \<longleftrightarrow> a \<noteq> 0x200 \<and> edge demo_heap a b \<or> a = 0x200 \<and> b = 0x1C0"
proof -
  have sv: "same_view demo_heap cross_heap"
    unfolding cross_heap_def using payload_update_obs(1) [of demo_heap "0x200"] by (simp add: demo_at)
  show hd: "heads cross_heap = heads demo_heap" and "partitions cross_heap = partitions demo_heap"
    by (simp_all add: cross_heap_def)
  show "heap_inv cross_heap"
    by (rule heap_inv_same_view [OF demo_inv sv])
      (use heap_ok_hcolor_dom [OF demo_heap_ok] in \<open>simp add: obs_heads [OF hd]\<close>)
  show "edge cross_heap a b \<longleftrightarrow> a \<noteq> 0x200 \<and> edge demo_heap a b \<or> a = 0x200 \<and> b = 0x1C0"
  proof (cases "a = 0x200")
    case True
    have h: "heads demo_heap 0x200 = Some (demo_head 0xFF000020 1 0 None)"
      by (simp add: demo_heap_def demo_heads_def)
    have "type_info cross_heap = type_info demo_heap" by (simp add: type_info_def cross_heap_def fun_eq_iff)
    with True h demo_type show ?thesis
      by (simp add: edge_def refs_of_def hd demo_node_view) (simp add: cross_heap_def demo_info_def)
  next
    case False
    then show ?thesis using payload_update_obs(3) by (simp add: cross_heap_def)
  qed
qed

text \<open>
  The gray nodes that the marking of one partition leaves in an idle one.  Marking of partition 1 starts
  and puts both in marking mode; partition 0 is collected, its survivors stay black.  Two nodes are
  allocated in it, 0x300 and 0x340; the black node 0x180 of partition 0 gets a reference to 0x340 and
  the root 0x200 of partition 1 one to 0x300, each store inside the write barrier.  Marking of
  partition 1 goes on and puts 0x300 into the gray list of partition 0, then partition 0 is
  collected again.
\<close>

definition pending_run :: "(addr list gc_heap \<times> usize \<times> addr list gc_heap) option" where
  "pending_run =
     do { (_, h1) \<leftarrow> mark 1 0 demo_heap;
          (_, h2) \<leftarrow> garbage_collect 0 h1;
          (_, h3) \<leftarrow> alloc_raw demo_type 0 0 [] (Some 0x300) h2;
          (_, h4) \<leftarrow> alloc_raw demo_type 0 0 [] (Some 0x340) h3;
          (_, h5) \<leftarrow> with_write_barrier 0x180 (\<lambda>v. ((), v @ [0x340])) h4;
          (_, h6) \<leftarrow> with_write_barrier 0x200 (\<lambda>v. ((), v @ [0x300])) h5;
          (_, h7) \<leftarrow> mark 1 64 h6;
          (n, t) \<leftarrow> garbage_collect 0 h7;
          Some (h7, n, t) }"

lemma pending_grays_dangling:
  "map_option (\<lambda>(h, n, t). (map gray_list (partitions h), map (hcolor h) [0x180, 0x340],
       map_option is_root_or_local (heads t 0x100), map (payloads t) [0x100, 0x180], heads t 0x340)) pending_run =
     Some ([[0x300], []], [Some Black, Some White],
       Some True, [Some [0x180, 0x200], Some [0x140, 0x340]], None)"
  by code_simp

text \<open>
  C40: references between partitions are not safe.  The roots of other partitions are not roots of a
  collection: on the well-formed heap \<open>cross_heap\<close>, \<open>garbage_collect\<close> of the first partition frees a node
  that a root of the second partition references, and the reference dangles.  And a gray node that
  another partition's marking has left in an idle partition keeps the next \<open>mark_prepare\<close> from whitening
  the black survivors of the last collection: at the end of \<open>pending_run\<close> the root 0x100 refers to
  0x180 and 0x180 to 0x340, all in the collected partition, and 0x340 has been freed.  Inside the rule
  that references stay in a partition neither can happen.
\<close>
theorem cross_partition_dangling:
  "heap_inv cross_heap \<and> ref_reach cross_heap 0x1C0 \<and>
   (\<exists>n t. garbage_collect 0 cross_heap = Some (n, t) \<and> hroot t 0x200 \<and> payloads t 0x200 = Some [0x1C0] \<and>
      heads t 0x1C0 = None) \<and>
   (\<exists>h n t. pending_run = Some (h, n, t) \<and> hroot t 0x100 \<and> payloads t 0x100 = Some [0x180, 0x200] \<and>
      payloads t 0x180 = Some [0x140, 0x340] \<and> heads t 0x340 = None)"
proof -
  note f = cross_heap_facts
  note ob = obs_heads [OF f(2)]
  have e: "edge cross_heap 0x200 0x1C0" by (simp add: f(4))
  have rr: "ref_reach cross_heap 0x1C0"
    by (rule ref_reach.step [OF ref_reach.root e]) (simp add: ob demo_root)
  have nr: "a \<in> {0x100, 0x180, 0x140}" if "reach_in {0} cross_heap a" for a
    using that
  proof induction
    case (root a)
    then show ?case by (auto simp: ob demo_root zone_def demo_in_par)
  next
    case (step a b)
    then show ?case by (auto simp: f(4) demo_edge zone_def ob demo_in_par)
  qed
  have cl: "b \<in> dom (heads cross_heap)" if "edge cross_heap a b" for a b
    using that demo_closed unfolding f(4) f(2) refs_closed_def by (auto simp: domIff demo_at)
  have p: "get_par cross_heap 0 = Some (demo_par (Some 0x100) 192)" "\<not> marking (demo_par (Some 0x100) 192)"
    "gray_list (demo_par (Some 0x100) 192) = []"
    using demo_par0 by (simp_all add: get_par_def f(3) demo_par_def)
  have "\<exists>n t. garbage_collect 0 cross_heap = Some (n, t) \<and> heap_inv t \<and>
      collected cross_heap (unat (0 :: u16)) (reach_in {unat (0 :: u16)} cross_heap) n t"
    by (rule garbage_collect_correct [OF f(1) p]) (rule cl)
  then obtain n t where t: "garbage_collect 0 cross_heap = Some (n, t)"
    "collected cross_heap 0 (reach_in {0} cross_heap) n t" by auto
  have id: "map_option ident (heads t a) =
      (if in_par cross_heap 0 a \<and> \<not> reach_in {0} cross_heap a then None else map_option ident (heads cross_heap a))" for a
    using t(2) unfolding collected_def by blast
  have "heads t 0x1C0 = None"
  proof -
    have "\<not> reach_in {0} cross_heap 0x1C0" using nr [of "0x1C0"] by auto
    then show ?thesis using id [of "0x1C0"] by (simp add: ob demo_in_par)
  qed
  moreover have i2: "map_option ident (heads t 0x200) = map_option ident (heads demo_heap 0x200)"
    using id [of "0x200"] by (simp add: ob demo_in_par f(2))
  then obtain g where g: "heads t 0x200 = Some g" "ident g = ident (demo_head 0xFF000020 1 0 None)"
    by (auto simp: demo_heap_def demo_heads_def)
  then have "hroot t 0x200" by (auto simp: hroot_def ident_def is_root_or_local_iff demo_head_def head_eval is_root_def)
  moreover have "payloads t 0x200 = Some [0x1C0]"
    using t(2) g(1) by (simp add: collected_def) (simp add: cross_heap_def)
  moreover have "\<exists>h n t. pending_run = Some (h, n, t) \<and> hroot t 0x100 \<and> payloads t 0x100 = Some [0x180, 0x200] \<and>
      payloads t 0x180 = Some [0x140, 0x340] \<and> heads t 0x340 = None"
    using pending_grays_dangling by (cases pending_run) (auto simp: hroot_def)
  ultimately show ?thesis using t(1) f(1) rr by blast
qed

text \<open>
  The limit adjustment of the threshold has a floor of one minimal node: with a limit below it
  the threshold that \<open>set_memory_limit\<close> leaves is larger than the limit, so collection would not
  be suggested before the limit is hit.
\<close>
theorem tiny_limit_threshold:
  "\<exists>t. set_memory_limit 16 ((heap_new reg)\<lparr>gc_threshold := 100\<rparr>) = (16, t) \<and> memory_limit t = 16 \<and> gc_threshold t = 32"
  by (simp add: set_memory_limit_def heap_new_def MIN_GC_THRESHOLD_32)

text \<open>
  Accounting through \<open>i32\<close> deltas breaks above $2^{31}$ bytes: for a node of that size and 16
  bytes the delta is negative, and the counters lose almost $2^{31}$ bytes instead of growing.
\<close>
theorem large_node_accounting:
  "\<exists>m t. update_mem_use 0 (usize_as_i32 0x80000010) demo_heap = Some (m, t) \<and>
     total_memory_used t = total_memory_used demo_heap - 0x7FFFFFF0"
  by (simp add: update_mem_use_def usize_as_i32_def i32_as_usize_def demo_par0 Let_def)

text \<open>
  The arena aligns offsets, not addresses, and takes a free cell whatever its alignment: a block
  of alignment 64 in an arena that starts at a multiple of 16, and a block of alignment 16 from
  the free list, are both misaligned.
\<close>
theorem arena_misaligned:
  "map_option fst (do { ar \<leftarrow> arena_new 256 (Some 0x1010); arena_alloc \<lparr>l_size = 64, l_align = 64\<rparr> ar }) =
     Some (Some 0x1010) \<and> (0x1010 :: usize) mod 64 \<noteq> 0 \<and>
   map_option fst
     (do { ar \<leftarrow> arena_new 64 (Some 0x1000);
           (a, ar) \<leftarrow> arena_alloc \<lparr>l_size = 24, l_align = 8\<rparr> ar;
           (b, ar) \<leftarrow> arena_alloc \<lparr>l_size = 24, l_align = 8\<rparr> ar;
           (c, ar) \<leftarrow> arena_alloc \<lparr>l_size = 16, l_align = 16\<rparr> ar;
           (case collect_hole [] 0x1018 24 ar of (hs, ar) \<Rightarrow>
              arena_alloc \<lparr>l_size = 16, l_align = 16\<rparr> (snd (finish_sweep hs ar))) }) =
     Some (Some 0x1018) \<and> (0x1018 :: usize) mod 16 \<noteq> 0"
  by (simp add: arena_new_def layout_from_size_align_def is_power_of_two_def arena_alloc_def bump_offset_def
      MIN_ALLOC_SIZE_def Let_def collect_hole_def vec_push_def saturating_sub1_def finish_sweep_def
      compact_holes_def link_hole_def write_free_size_def write_free_next_def alloc_from_free_list_def)
    (simp add: free_list_walk.simps read_free_size_def read_free_next_def)

end
